(* ===== verification/Prelude.thy ===== *)
theory Prelude
  imports Main "HOL-Library.Word" "HOL-Library.Sublist" "HOL-Library.Code_Target_Nat"
begin

unbundle bit_operations_syntax

text \<open>
  Shared vocabulary of the development: machine integers at their C width, the combinators
  with which a C function that returns 0 or 1 and updates an object through a pointer is
  written, byte-order conversions with their arithmetic meaning, and the generic facts on
  words and lists that the component theories use.
\<close>

section \<open>Types\<close>

type_synonym byte = "8 word"
type_synonym u16 = "16 word"
type_synonym u32 = "32 word"
type_synonym u64 = "64 word"

text \<open>
  Facts that unfold the combinators below are collected in \<open>op_simps\<close>; facts that turn
  bit operations into arithmetic in \<open>bits_to_arith\<close>.
\<close>

named_theorems op_simps
named_theorems bits_to_arith

section \<open>Fallible operations on a state\<close>

text \<open>
  A C function \<open>int f(S *s, T *out)\<close> that returns 1 with \<open>*out\<close> set, or 0, is a function
  \<open>'s \<Rightarrow> 'a option \<times> 's\<close>. The state after a failure is part of the result, since C does
  not undo what was done before the early return. The value of an out parameter after a
  failure is not modelled (callers may not read it).
\<close>

type_synonym ('s, 'a) op = "'s \<Rightarrow> 'a option \<times> 's"

definition ret :: "'a \<Rightarrow> ('s, 'a) op" where
  "ret a s = (Some a, s)"

definition fail :: "('s, 'a) op" where
  "fail s = (None, s)"

definition guard :: "bool \<Rightarrow> ('s, unit) op" where
  "guard b s = (if b then Some () else None, s)"

text \<open>\<open>andthen m f\<close> is \<open>if (!m(..)) return 0;\<close> followed by \<open>f\<close> on the value of \<open>m\<close>.\<close>

definition andthen :: "('s, 'a) op \<Rightarrow> ('a \<Rightarrow> ('s, 'b) op) \<Rightarrow> ('s, 'b) op" where
  "andthen m f s = (case m s of (None, s') \<Rightarrow> (None, s') | (Some a, s') \<Rightarrow> f a s')"

lemma andthen_None [op_simps]: "m s = (None, s') \<Longrightarrow> andthen m f s = (None, s')"
  by (simp add: andthen_def)

lemma andthen_Some [op_simps]: "m s = (Some a, s') \<Longrightarrow> andthen m f s = f a s'"
  by (simp add: andthen_def)

lemma andthen_Some_iff:
  "andthen m f s = (Some b, s2) \<longleftrightarrow> (\<exists>a s1. m s = (Some a, s1) \<and> f a s1 = (Some b, s2))"
  by (auto simp: andthen_def split: prod.splits option.splits)

lemma andthen_SomeE:
  assumes "andthen m f s = (Some b, s2)"
  obtains a s1 where "m s = (Some a, s1)" and "f a s1 = (Some b, s2)"
  using assms by (auto simp: andthen_def split: prod.splits option.splits)

lemma ret_Some_iff [simp]: "ret a s = (Some b, s') \<longleftrightarrow> b = a \<and> s' = s"
  by (auto simp: ret_def)

lemma fail_Some_iff [simp]: "fail s \<noteq> (Some b, s')"
  by (simp add: fail_def)

lemma guard_Some_iff [simp]: "guard c s = (Some u, s') \<longleftrightarrow> c \<and> s' = s"
  by (auto simp: guard_def)

lemma andthen_assoc: "andthen (andthen m f) g = andthen m (\<lambda>a. andthen (f a) g)"
  by (rule ext) (simp add: andthen_def split: prod.splits option.splits)

lemma andthen_ret: "andthen (ret a) f = f a"
  by (rule ext) (simp add: andthen_def ret_def)

lemmas op_defs = ret_def fail_def guard_def andthen_def

section \<open>Words\<close>

lemma unat_ucast_up [bits_to_arith]:
  fixes w :: "'a::len word"
  assumes "LENGTH('a) \<le> LENGTH('b::len)"
  shows "unat (ucast w :: 'b word) = unat w"
proof -
  have "unat w < 2 ^ LENGTH('a)" by (rule unsigned_less)
  also have "(2::nat) ^ LENGTH('a) \<le> 2 ^ LENGTH('b)" using assms by simp
  finally show ?thesis by (simp add: unsigned_ucast_eq take_bit_nat_eq_self_iff)
qed

lemma unat_ucast_up_byte [simp]:
  "unat (ucast (b :: byte) :: u16) = unat b"
  "unat (ucast (b :: byte) :: u32) = unat b"
  "unat (ucast (b :: byte) :: u64) = unat b"
  "unat (ucast (h :: u16) :: u32) = unat h"
  "unat (ucast (h :: u16) :: u64) = unat h"
  "unat (ucast (w :: u32) :: u64) = unat w"
  by (simp_all add: unat_ucast_up)

lemma unat_ucast_mod [bits_to_arith]:
  "unat (ucast (w :: 'a::len word) :: 'b::len word) = unat w mod 2 ^ LENGTH('b)"
  by (simp add: unsigned_ucast_eq take_bit_eq_mod)

lemma unat_pos_iff: "0 < unat (w :: 'a::len word) \<longleftrightarrow> w \<noteq> 0"
  by (metis gr0I less_irrefl unsigned_0 unsigned_eq_0_iff)

lemma byte_less [simp]: "unat (b :: byte) < 256"
  using unsigned_less [of b] by simp

lemma unat_of_nat_byte [simp]: "unat (word_of_nat n :: byte) = n mod 256"
  by (simp add: unsigned_of_nat take_bit_eq_mod)

lemma byte_of_unat_eq_iff: "b = (word_of_nat n :: byte) \<longleftrightarrow> unat b = n mod 256"
  by (metis unat_of_nat_byte unsigned_word_eqI)

lemma word_of_nat_byte_eq_iff: "(word_of_nat n :: byte) = b \<longleftrightarrow> n mod 256 = unat b"
  by (metis byte_of_unat_eq_iff)

lemma word_eq_iff_unat: "a = b \<longleftrightarrow> unat a = unat (b :: 'a::len word)"
  by (metis unsigned_word_eqI)

text \<open>A statement on all bytes is checked by evaluation.\<close>

lemma byte_forallI:
  assumes "list_all P (map word_of_nat [0..<256])"
  shows "P (b :: byte)"
proof -
  have "unat b \<in> set [0..<256]" by simp
  moreover have "b = word_of_nat (unat b)" by simp
  ultimately have "b \<in> set (map word_of_nat [0..<256])" by (metis image_eqI list.set_map)
  with assms show ?thesis unfolding list_all_iff by blast
qed

lemma xor_word_zero_iff: "a XOR b = 0 \<longleftrightarrow> a = (b :: 'a::len word)"
  by (auto simp: bit_eq_iff bit_xor_iff)

lemma or_word_zero_iff: "a OR b = 0 \<longleftrightarrow> a = 0 \<and> b = (0 :: 'a::len word)"
  by (auto simp: bit_eq_iff bit_or_iff)

text \<open>Shifting left and filling the low bits is multiplication and addition.\<close>

lemma or_push_bit_nat:
  assumes "x < 2 ^ n"
  shows "push_bit n a OR x = a * 2 ^ n + (x :: nat)"
proof -
  have "push_bit n a AND x = 0"
  proof (rule bit_eqI)
    fix k
    show "bit (push_bit n a AND x) k = bit (0 :: nat) k"
    proof (cases "k < n")
      case True
      then show ?thesis by (simp add: bit_and_iff bit_push_bit_iff)
    next
      case False
      then have "x < 2 ^ k" using assms
        by (meson less_le_trans not_le one_le_numeral power_increasing)
      then have "\<not> bit x k" by (simp add: bit_iff_odd)
      then show ?thesis by (simp add: bit_and_iff)
    qed
  qed
  then have "push_bit n a OR x = push_bit n a + x"
    by (simp add: disjunctive_add_eq_or)
  then show ?thesis by (simp add: push_bit_eq_mult)
qed

lemma unat_push_or [bits_to_arith]:
  fixes v x :: "'a::len word"
  assumes "unat v * 2 ^ n + unat x < 2 ^ LENGTH('a)" and "unat x < 2 ^ n"
  shows "unat (push_bit n v OR x) = unat v * 2 ^ n + unat x"
proof -
  have "unat (push_bit n v) = take_bit LENGTH('a) (push_bit n (unat v))"
    by (rule unsigned_push_bit_eq)
  also have "\<dots> = unat v * 2 ^ n"
    using assms(1) by (simp add: take_bit_nat_eq_self_iff push_bit_eq_mult)
  finally have "unat (push_bit n v) = unat v * 2 ^ n" .
  then show ?thesis
    using or_push_bit_nat [OF assms(2), of "unat v"]
    by (simp add: unsigned_or_eq push_bit_eq_mult)
qed

lemma unat_drop_bit [bits_to_arith]:
  "unat (drop_bit n (w :: 'a::len word)) = unat w div 2 ^ n"
  by (simp only: unat_drop_bit_eq) (simp add: drop_bit_eq_div)

lemma drop_bit_eq_0_iff:
  "drop_bit n (w :: 'a::len word) = 0 \<longleftrightarrow> unat w < 2 ^ n"
proof -
  have "drop_bit n w = 0 \<longleftrightarrow> unat w div 2 ^ n = 0"
    by (metis unat_drop_bit unsigned_0 unsigned_eq_0_iff)
  also have "\<dots> \<longleftrightarrow> unat w < 2 ^ n"
    by (simp add: div_eq_0_iff)
  finally show ?thesis .
qed

lemma div_mod_split:
  "x < m \<Longrightarrow> c * m + x = y \<longleftrightarrow> y div m = c \<and> y mod m = (x :: nat)"
  by auto

text \<open>The most significant bit.\<close>

lemma bit_top_iff:
  fixes w :: "'a::len word"
  assumes "LENGTH('a) = Suc n"
  shows "bit w n \<longleftrightarrow> 2 ^ n \<le> unat w"
proof -
  have lt: "unat w < 2 * 2 ^ n" using unsigned_less [of w] assms by simp
  have "bit w n \<longleftrightarrow> bit (unat w) n" using assms by (simp add: bit_unsigned_iff)
  also have "\<dots> \<longleftrightarrow> odd (unat w div 2 ^ n)" by (rule bit_iff_odd)
  also have "\<dots> \<longleftrightarrow> 2 ^ n \<le> unat w"
  proof (cases "2 ^ n \<le> unat w")
    case True
    with lt have "unat w div 2 ^ n = 1" by (simp add: div_nat_eqI)
    with True show ?thesis by simp
  next
    case False
    then have "unat w div 2 ^ n = 0" by simp
    with False show ?thesis by simp
  qed
  finally show ?thesis .
qed

lemma unat_and_mask:
  "unat (w AND mask n :: 'a::len word) = unat w mod 2 ^ n"
proof -
  have "unat (w AND mask n) = unat (take_bit n w)" by (simp add: take_bit_eq_mask)
  also have "\<dots> = take_bit n (unat w)"
    by (rule unsigned_take_bit_eq)
  finally show ?thesis
    by (simp add: take_bit_eq_mod)
qed

text \<open>Two bytes are equal when their eight bits are; \<open>simp\<close> evaluates the bits of numerals.\<close>

lemma byte_bits_eqI:
  assumes "\<And>n. n \<in> {0, 1, 2, 3, 4, 5, 6, 7} \<Longrightarrow> bit a n = bit (b :: byte) n"
  shows "a = b"
proof (rule bit_word_eqI)
  fix n assume "n < LENGTH(8)"
  then have "n \<in> {0, 1, 2, 3, 4, 5, 6, 7}" by (simp add: less_Suc_eq numeral_eq_Suc)
  then show "bit a n = bit b n" by (rule assms)
qed

text \<open>The high bit of a byte and the seven bits below it.\<close>

lemma high_bit_iff_bit: "b AND 0x80 = 0 \<longleftrightarrow> \<not> bit (b :: byte) 7"
proof -
  have "(0x80 :: byte) = push_bit 7 1" by simp
  then show ?thesis by (metis and_exp_eq_0_iff_not_bit push_bit_eq_mult mult_1)
qed

lemma low_bits: "unat (b AND 0x7f :: byte) = unat b mod 128"
  using unat_and_mask [of b 7] by (simp add: mask_eq_exp_minus_1)

lemma high_bit_iff: "b AND 0x80 = 0 \<longleftrightarrow> unat (b :: byte) < 128"
  using bit_top_iff [of 7 b] by (auto simp: high_bit_iff_bit)

lemma no_high_bit: "b AND 0x80 = 0 \<Longrightarrow> b AND 0x7f = (b :: byte)"
  by (rule unsigned_word_eqI [where 'a = nat]) (simp add: low_bits high_bit_iff)

lemma set_high_low_bits: "(b OR 0x80) AND 0x7f = b AND (0x7f :: byte)"
  by (rule byte_bits_eqI) (auto simp: bit_simps)

lemma set_high_high_bit: "(b OR 0x80) AND 0x80 \<noteq> (0 :: byte)"
  by (simp add: high_bit_iff_bit bit_simps)

lemma set_high_cancel: "b AND 0x80 \<noteq> 0 \<Longrightarrow> (b AND 0x7f) OR 0x80 = (b :: byte)"
  by (rule byte_bits_eqI) (auto simp: high_bit_iff_bit bit_simps)

lemma set_high_eq_iff: "b AND 0x80 = 0 \<Longrightarrow> b OR 0x80 = (0x80 :: byte) \<longleftrightarrow> b = 0"
  using set_high_low_bits [of b] no_high_bit [of b] by auto

lemma unat_word_of_nat_32 [simp]: "n < 2 ^ 32 \<Longrightarrow> unat (word_of_nat n :: u32) = n"
  by (simp add: unsigned_of_nat take_bit_nat_eq_self_iff)

lemma unat_word_of_nat_64 [simp]: "n < 2 ^ 64 \<Longrightarrow> unat (word_of_nat n :: u64) = n"
  by (simp add: unsigned_of_nat take_bit_nat_eq_self_iff)

lemma unat_max_64: "unat (- 1 :: u64) = 2 ^ 64 - 1"
  by (simp add: unsigned_minus_1_eq_mask mask_eq_exp_minus_1)

lemma u64_bound: "unat (v :: u64) < 2 ^ 64"
  using unsigned_less [of v] by simp

lemma u32_bound: "unat (v :: u32) < 2 ^ 32"
  using unsigned_less [of v] by simp

lemma low_byte:
  assumes "d < 128"
  shows "unat (word_of_nat d :: byte) = d"
    and "word_of_nat d AND 0x7f = (word_of_nat d :: byte)"
    and "word_of_nat d AND 0x80 = (0 :: byte)"
    and "(word_of_nat d :: byte) = 0 \<longleftrightarrow> d = 0"
proof -
  show d: "unat (word_of_nat d :: byte) = d" using assms by simp
  show "word_of_nat d AND 0x7f = (word_of_nat d :: byte)"
    using assms by (intro unsigned_word_eqI [where 'a = nat]) (simp add: low_bits)
  show "word_of_nat d AND 0x80 = (0 :: byte)"
    by (simp only: high_bit_iff d assms)
  show "(word_of_nat d :: byte) = 0 \<longleftrightarrow> d = 0"
    using assms by (simp add: word_of_nat_byte_eq_iff)
qed

end
