(* ===== verification/Constant_Time.thy ===== *)
theory Constant_Time
  imports Prelude
begin

unbundle bit_operations_syntax

text \<open>
  The branch-free comparison and selection helpers of BoringSSL's \<open>crypto/internal.h\<close>.
  \<open>crypto_word_t\<close> is \<open>uint64_t\<close> on the 64-bit targets of the Pods. \<open>value_barrier_w\<close> is an
  empty assembly statement and the identity. Each helper is proved equal to the comparison
  it stands for, on all inputs: the formulas the source justifies with an SMT script.
\<close>

section \<open>The helpers\<close>

definition constant_time_msb_w :: "u64 \<Rightarrow> u64" where
  "constant_time_msb_w a = 0 - drop_bit 63 a"

definition constant_time_lt_w :: "u64 \<Rightarrow> u64 \<Rightarrow> u64" where
  "constant_time_lt_w a b = constant_time_msb_w (a XOR ((a XOR b) OR ((a - b) XOR a)))"

definition constant_time_lt_8 :: "u64 \<Rightarrow> u64 \<Rightarrow> byte" where
  "constant_time_lt_8 a b = ucast (constant_time_lt_w a b)"

definition constant_time_ge_w :: "u64 \<Rightarrow> u64 \<Rightarrow> u64" where
  "constant_time_ge_w a b = NOT (constant_time_lt_w a b)"

definition constant_time_ge_8 :: "u64 \<Rightarrow> u64 \<Rightarrow> byte" where
  "constant_time_ge_8 a b = ucast (constant_time_ge_w a b)"

definition constant_time_is_zero_w :: "u64 \<Rightarrow> u64" where
  "constant_time_is_zero_w a = constant_time_msb_w (NOT a AND (a - 1))"

definition constant_time_is_zero_8 :: "u64 \<Rightarrow> byte" where
  "constant_time_is_zero_8 a = ucast (constant_time_is_zero_w a)"

definition constant_time_eq_w :: "u64 \<Rightarrow> u64 \<Rightarrow> u64" where
  "constant_time_eq_w a b = constant_time_is_zero_w (a XOR b)"

definition constant_time_eq_8 :: "u64 \<Rightarrow> u64 \<Rightarrow> byte" where
  "constant_time_eq_8 a b = ucast (constant_time_eq_w a b)"

text \<open>An \<open>int\<close> argument is a 32-bit word; the cast to \<open>crypto_word_t\<close> sign-extends it.\<close>

definition constant_time_eq_int :: "u32 \<Rightarrow> u32 \<Rightarrow> u64" where
  "constant_time_eq_int a b = constant_time_eq_w (scast a) (scast b)"

definition constant_time_eq_int_8 :: "u32 \<Rightarrow> u32 \<Rightarrow> byte" where
  "constant_time_eq_int_8 a b = constant_time_eq_8 (scast a) (scast b)"

definition constant_time_select_w :: "u64 \<Rightarrow> u64 \<Rightarrow> u64 \<Rightarrow> u64" where
  "constant_time_select_w msk a b = (msk AND a) OR (NOT msk AND b)"

definition constant_time_select_8 :: "byte \<Rightarrow> byte \<Rightarrow> byte \<Rightarrow> byte" where
  "constant_time_select_8 msk a b =
     ucast (constant_time_select_w (ucast msk) (ucast a) (ucast b))"

definition constant_time_select_int :: "u64 \<Rightarrow> u32 \<Rightarrow> u32 \<Rightarrow> u32" where
  "constant_time_select_int msk a b =
     ucast (constant_time_select_w msk (scast a) (scast b))"

section \<open>Their meaning\<close>

lemma bit_63_iff: "bit a 63 \<longleftrightarrow> 2 ^ 63 \<le> unat (a :: u64)"
  using bit_top_iff [of 63 a] by simp

lemma bit_63_minus_iff:
  assumes "bit a 63 = bit (b :: u64) 63"
  shows "bit (a - b) 63 \<longleftrightarrow> a < b"
proof -
  have "unat a < 2 ^ 64" "unat b < 2 ^ 64"
    using unsigned_less [of a] unsigned_less [of b] by simp_all
  moreover have "unat (a - b) =
      (if unat b \<le> unat a then unat a - unat b else unat a + 2 ^ 64 - unat b)"
    by (simp add: unat_sub_if')
  ultimately show ?thesis
    using assms unfolding bit_63_iff word_less_nat_alt by (auto split: if_splits)
qed

lemma bit_63_less: "bit b 63 \<Longrightarrow> \<not> bit a 63 \<Longrightarrow> a < (b :: u64)"
  unfolding bit_63_iff word_less_nat_alt by simp

lemma constant_time_msb_w_eq: "constant_time_msb_w a = (if bit a 63 then - 1 else 0)"
proof -
  have "drop_bit 63 a = (if bit a 63 then 1 else 0)"
  proof (rule bit_word_eqI)
    fix n assume "n < LENGTH(64)"
    show "bit (drop_bit 63 a) n = bit (if bit a 63 then 1 else 0 :: u64) n"
    proof (cases n)
      case 0
      then show ?thesis by (simp add: bit_drop_bit_eq)
    next
      case (Suc m)
      then have "\<not> bit a (63 + n)" using bit_imp_le_length [of a "63 + n"] by auto
      with Suc show ?thesis by (simp add: bit_drop_bit_eq bit_1_iff)
    qed
  qed
  then show ?thesis by (simp add: constant_time_msb_w_def)
qed

lemma constant_time_lt_w_eq: "constant_time_lt_w a b = (if a < b then - 1 else 0)"
proof -
  have "bit (a XOR ((a XOR b) OR ((a - b) XOR a))) 63 \<longleftrightarrow> a < b"
    using bit_63_minus_iff [of a b] bit_63_less [of a b] bit_63_less [of b a]
    by (cases "bit a 63"; cases "bit b 63") (auto simp: bit_xor_iff bit_or_iff)
  then show ?thesis by (simp add: constant_time_lt_w_def constant_time_msb_w_eq)
qed

lemma constant_time_ge_w_eq: "constant_time_ge_w a b = (if b \<le> a then - 1 else 0)"
  by (auto simp: constant_time_ge_w_def constant_time_lt_w_eq not_le)

lemma constant_time_is_zero_w_eq: "constant_time_is_zero_w a = (if a = 0 then - 1 else 0)"
proof -
  have "bit (NOT a AND (a - 1)) 63 \<longleftrightarrow> a = 0"
  proof (cases "bit a 63")
    case False
    have "bit (a - 1) 63 \<longleftrightarrow> a < 1"
      using False by (intro bit_63_minus_iff) (simp add: bit_63_iff)
    also have "\<dots> \<longleftrightarrow> a = 0" by (simp add: word_less_nat_alt unat_eq_0)
    finally show ?thesis using False by (simp add: bit_and_iff bit_not_iff)
  qed (auto simp: bit_and_iff bit_not_iff)
  then show ?thesis by (simp add: constant_time_is_zero_w_def constant_time_msb_w_eq)
qed

lemma constant_time_eq_w_eq: "constant_time_eq_w a b = (if a = b then - 1 else 0)"
  by (simp add: constant_time_eq_w_def constant_time_is_zero_w_eq xor_word_zero_iff)

lemma ucast_minus_one_byte: "(ucast (- 1 :: u64) :: byte) = - 1"
  by (rule bit_word_eqI) (simp add: bit_simps)

lemma ucast_scast_int: "(ucast (scast (a :: u32) :: u64) :: u32) = a"
  by (rule bit_word_eqI) (auto simp: bit_simps)

lemma constant_time_8_eq:
  "constant_time_lt_8 a b = (if a < b then - 1 else 0)"
  "constant_time_ge_8 a b = (if b \<le> a then - 1 else 0)"
  "constant_time_is_zero_8 a = (if a = 0 then - 1 else 0)"
  "constant_time_eq_8 a b = (if a = b then - 1 else 0)"
  by (simp_all add: constant_time_lt_8_def constant_time_ge_8_def constant_time_is_zero_8_def
      constant_time_eq_8_def constant_time_lt_w_eq constant_time_ge_w_eq
      constant_time_is_zero_w_eq constant_time_eq_w_eq ucast_minus_one_byte)

lemma constant_time_eq_int_eq:
  "constant_time_eq_int a b = (if a = b then - 1 else 0)"
  "constant_time_eq_int_8 a b = (if a = b then - 1 else 0)"
proof -
  have "(scast a :: u64) = scast b \<longleftrightarrow> a = b"
    by (metis ucast_scast_int)
  then show "constant_time_eq_int a b = (if a = b then - 1 else 0)"
    and "constant_time_eq_int_8 a b = (if a = b then - 1 else 0)"
    by (simp_all add: constant_time_eq_int_def constant_time_eq_int_8_def
        constant_time_eq_w_eq constant_time_8_eq)
qed

lemma constant_time_select_w_eq [simp]:
  "constant_time_select_w (- 1) a b = a"
  "constant_time_select_w 0 a b = b"
  by (simp_all add: constant_time_select_w_def)

lemma constant_time_select_8_eq [simp]:
  "constant_time_select_8 (- 1) a b = a"
  "constant_time_select_8 0 a b = b"
proof -
  show "constant_time_select_8 0 a b = b"
    by (simp add: constant_time_select_8_def)
       (rule bit_word_eqI, simp add: bit_simps)
  show "constant_time_select_8 (- 1) a b = a"
    by (simp add: constant_time_select_8_def constant_time_select_w_def)
       (rule bit_word_eqI, auto simp: bit_simps)
qed

lemma constant_time_select_int_eq [simp]:
  "constant_time_select_int (- 1) a b = a"
  "constant_time_select_int 0 a b = b"
  by (simp_all add: constant_time_select_int_def ucast_scast_int)

end
