(* ===== verification/Crypto_Mem.thy ===== *)
theory Crypto_Mem
  imports Prelude
begin

unbundle bit_operations_syntax

text \<open>
  Memory and string helpers of BoringSSL: \<open>crypto/mem.c\<close>, the byte swaps and the \<open>memchr\<close>
  and \<open>memcmp\<close> wrappers of \<open>crypto/internal.h\<close>. A block of memory is the list of its bytes.
  The C library's \<open>malloc\<close> is a parameter: it returns a block with unspecified contents, or
  NULL. \<open>szt\<close> has 64 bits and its wrap-around is written out.
\<close>

section \<open>Allocation\<close>

type_synonym allocator = "nat \<Rightarrow> byte list option"

text \<open>What \<open>malloc\<close> documents: a block it returns has the requested size.\<close>

definition malloc_returns_size :: "allocator \<Rightarrow> bool" where
  "malloc_returns_size malloc \<longleftrightarrow> (\<forall>n m. malloc n = Some m \<longrightarrow> length m = n)"

text \<open>The allocator of the concrete runs below: every request is served with zeros.\<close>

definition zero_malloc :: allocator where
  "zero_malloc n = Some (replicate n 0)"

lemma zero_malloc_returns_size [simp]: "malloc_returns_size zero_malloc"
  by (simp add: malloc_returns_size_def zero_malloc_def)

definition size_add :: "nat \<Rightarrow> nat \<Rightarrow> nat" where
  "size_add a b = (a + b) mod 2 ^ 64"

definition OPENSSL_malloc :: "allocator \<Rightarrow> nat \<Rightarrow> byte list option" where
  "OPENSSL_malloc malloc sz =
     (if size_add sz 8 < sz then None
      else map_option (drop 8) (malloc (size_add sz 8)))"

definition OPENSSL_realloc :: "allocator \<Rightarrow> byte list option \<Rightarrow> nat \<Rightarrow> byte list option" where
  "OPENSSL_realloc malloc orig new_size =
     (case orig of
        None \<Rightarrow> OPENSSL_malloc malloc new_size
      | Some old \<Rightarrow>
          (case OPENSSL_malloc malloc new_size of
             None \<Rightarrow> None
           | Some rt \<Rightarrow>
               let to_copy = (if length old < new_size then length old else new_size)
               in Some (take to_copy old @ drop to_copy rt)))"

definition OPENSSL_memdup :: "allocator \<Rightarrow> byte list \<Rightarrow> byte list option" where
  "OPENSSL_memdup malloc bytes =
     (if length bytes = 0 then None
      else case OPENSSL_malloc malloc (length bytes) of
             None \<Rightarrow> None
           | Some rt \<Rightarrow> Some (bytes @ drop (length bytes) rt))"

section \<open>Comparison and searching\<close>

definition CRYPTO_memcmp :: "byte list \<Rightarrow> byte list \<Rightarrow> nat \<Rightarrow> byte" where
  "CRYPTO_memcmp a b len = fold (\<lambda>i x. x OR (a ! i XOR b ! i)) [0..<len] 0"

text \<open>The sign of the C library's \<open>memcmp\<close>: the first differing bytes, compared unsigned.\<close>

fun OPENSSL_memcmp :: "byte list \<Rightarrow> byte list \<Rightarrow> nat \<Rightarrow> int" where
  "OPENSSL_memcmp (a # as) (b # bs) n =
     (if n = 0 then 0
      else if a < b then -1 else if b < a then 1 else OPENSSL_memcmp as bs (n - 1))"
| "OPENSSL_memcmp _ _ _ = 0"

text \<open>\<open>memchr\<close>: the index of the first \<open>c\<close> among the first \<open>n\<close> bytes.\<close>

fun OPENSSL_memchr :: "byte list \<Rightarrow> byte \<Rightarrow> nat option" where
  "OPENSSL_memchr [] c = None"
| "OPENSSL_memchr (b # bs) c = (if b = c then Some 0 else map_option Suc (OPENSSL_memchr bs c))"

definition OPENSSL_hash32 :: "byte list \<Rightarrow> u32" where
  "OPENSSL_hash32 bytes = fold (\<lambda>b h. (h XOR ucast b) * 16777619) bytes 2166136261"

section \<open>Strings\<close>

text \<open>A C string is the memory that starts at its address; the text ends before the first NUL.\<close>

definition cstr :: "byte list \<Rightarrow> byte list" where
  "cstr s = takeWhile (\<lambda>b. b \<noteq> 0) s"

function OPENSSL_strnlen_loop :: "byte list \<Rightarrow> nat \<Rightarrow> nat \<Rightarrow> nat" where
  "OPENSSL_strnlen_loop s len i =
     (if i < len then (if s ! i = 0 then i else OPENSSL_strnlen_loop s len (Suc i)) else len)"
  by pat_completeness auto
termination by (relation "measure (\<lambda>(s, len, i). len - i)") auto

declare OPENSSL_strnlen_loop.simps [simp del]

definition OPENSSL_strnlen :: "byte list \<Rightarrow> nat \<Rightarrow> nat" where
  "OPENSSL_strnlen s len = OPENSSL_strnlen_loop s len 0"

definition OPENSSL_strndup :: "allocator \<Rightarrow> byte list \<Rightarrow> nat \<Rightarrow> byte list option" where
  "OPENSSL_strndup malloc str size0 =
     (let sz = OPENSSL_strnlen str size0; alloc_size = size_add sz 1 in
      if alloc_size < sz then None
      else case OPENSSL_malloc malloc alloc_size of
             None \<Rightarrow> None
           | Some rt \<Rightarrow> Some ((take sz str @ drop sz rt)[sz := 0]))"

text \<open>
  \<open>strlcpy\<close> returns the destination block after the call and the length of the source; the
  end of the list counts as the source's terminator.
\<close>

fun OPENSSL_strlcpy_loop :: "byte list \<Rightarrow> byte list \<Rightarrow> nat \<Rightarrow> nat \<Rightarrow> byte list \<times> nat" where
  "OPENSSL_strlcpy_loop dst [] dst_size l =
     (if dst_size \<noteq> 0 then 0 # tl dst else dst, l)"
| "OPENSSL_strlcpy_loop dst (s # src) dst_size l =
     (if dst_size > 1 \<and> s \<noteq> 0
      then (case OPENSSL_strlcpy_loop (tl dst) src (dst_size - 1) (Suc l) of
              (d, r) \<Rightarrow> (s # d, r))
      else (if dst_size \<noteq> 0 then 0 # tl dst else dst, l + length (cstr (s # src))))"

definition OPENSSL_strlcpy :: "byte list \<Rightarrow> byte list \<Rightarrow> nat \<Rightarrow> byte list \<times> nat" where
  "OPENSSL_strlcpy dst src dst_size = OPENSSL_strlcpy_loop dst src dst_size 0"

fun OPENSSL_strlcat_loop :: "byte list \<Rightarrow> byte list \<Rightarrow> nat \<Rightarrow> nat \<Rightarrow> byte list \<times> nat" where
  "OPENSSL_strlcat_loop (d # dst) src dst_size l =
     (if dst_size > 0 \<and> d \<noteq> 0
      then (case OPENSSL_strlcat_loop dst src (dst_size - 1) (Suc l) of (dst', r) \<Rightarrow> (d # dst', r))
      else (case OPENSSL_strlcpy (d # dst) src dst_size of (dst', r) \<Rightarrow> (dst', l + r)))"
| "OPENSSL_strlcat_loop [] src dst_size l =
     (case OPENSSL_strlcpy [] src dst_size of (dst', r) \<Rightarrow> (dst', l + r))"

definition OPENSSL_strlcat :: "byte list \<Rightarrow> byte list \<Rightarrow> nat \<Rightarrow> byte list \<times> nat" where
  "OPENSSL_strlcat dst src dst_size = OPENSSL_strlcat_loop dst src dst_size 0"

text \<open>\<open>int\<close> arguments of \<open>tolower\<close> are mathematical integers: no branch overflows.\<close>

definition OPENSSL_tolower :: "int \<Rightarrow> int" where
  "OPENSSL_tolower c = (if 65 \<le> c \<and> c \<le> 90 then c + (97 - 65) else c)"

text \<open>
  The comparisons read \<open>char\<close>, which is signed here, until a difference or a NUL; a read past
  the end of either block is \<open>None\<close>.
\<close>

fun OPENSSL_strcasecmp :: "byte list \<Rightarrow> byte list \<Rightarrow> int option" where
  "OPENSSL_strcasecmp (a # as) (b # bs) =
     (let aa = OPENSSL_tolower (sint a); bb = OPENSSL_tolower (sint b) in
      if aa < bb then Some (- 1) else if bb < aa then Some 1
      else if aa = 0 then Some 0 else OPENSSL_strcasecmp as bs)"
| "OPENSSL_strcasecmp _ _ = None"

fun OPENSSL_strncasecmp :: "byte list \<Rightarrow> byte list \<Rightarrow> nat \<Rightarrow> int option" where
  "OPENSSL_strncasecmp (a # as) (b # bs) n =
     (if n = 0 then Some 0
      else
        let aa = OPENSSL_tolower (sint a); bb = OPENSSL_tolower (sint b) in
        if aa < bb then Some (- 1) else if bb < aa then Some 1
        else if aa = 0 then Some 0 else OPENSSL_strncasecmp as bs (n - 1))"
| "OPENSSL_strncasecmp _ _ n = (if n = 0 then Some 0 else None)"

section \<open>Byte swaps\<close>

definition CRYPTO_bswap2 :: "u16 \<Rightarrow> u16" where
  "CRYPTO_bswap2 x = drop_bit 8 x OR push_bit 8 x"

definition CRYPTO_bswap4 :: "u32 \<Rightarrow> u32" where
  "CRYPTO_bswap4 x0 =
     (let x = drop_bit 16 x0 OR push_bit 16 x0
      in drop_bit 8 (x AND 0xff00ff00) OR push_bit 8 (x AND 0x00ff00ff))"

definition CRYPTO_bswap8 :: "u64 \<Rightarrow> u64" where
  "CRYPTO_bswap8 x =
     ucast (CRYPTO_bswap4 (ucast (drop_bit 32 x)))
     OR push_bit 32 (ucast (CRYPTO_bswap4 (ucast x)))"

section \<open>Facts\<close>

lemma size_add_lt: "size_add a b < 2 ^ 64"
  by (simp add: size_add_def)

lemma size_add_eq: "a + b < 2 ^ 64 \<Longrightarrow> size_add a b = a + b"
  by (simp add: size_add_def)

text \<open>The overflow test \<open>a + b < a\<close> of the code.\<close>

lemma size_add_less_iff:
  assumes "a < 2 ^ 64" "b < 2 ^ 64"
  shows "size_add a b < a \<longleftrightarrow> 2 ^ 64 \<le> a + b"
proof (cases "a + b < 2 ^ 64")
  case True
  then show ?thesis by (simp add: size_add_def)
next
  case False
  then have "size_add a b = a + b - 2 ^ 64"
    using assms by (simp add: size_add_def le_mod_geq)
  with False assms show ?thesis by linarith
qed

lemma OPENSSL_malloc_length:
  assumes "malloc_returns_size malloc" "OPENSSL_malloc malloc n = Some m" "n < 2 ^ 64"
  shows "length m = n"
proof -
  from assms(2) obtain m' where m': "malloc (size_add n 8) = Some m'" "m = drop 8 m'"
    and "\<not> size_add n 8 < n"
    by (auto simp: OPENSSL_malloc_def split: if_splits)
  then have "size_add n 8 = n + 8"
    using assms(3) size_add_less_iff [of n 8] by (simp add: size_add_eq)
  with m' assms(1) show ?thesis by (auto simp: malloc_returns_size_def)
qed

lemma CRYPTO_memcmp_fold:
  "fold (\<lambda>i x. x OR (a ! i XOR b ! i)) is x = 0 \<longleftrightarrow> x = 0 \<and> (\<forall>i \<in> set is. a ! i = (b ! i :: byte))"
  by (induction "is" arbitrary: x) (auto simp: or_word_zero_iff xor_word_zero_iff)

lemma CRYPTO_memcmp_0_iff:
  assumes "len \<le> length a" "len \<le> length b"
  shows "CRYPTO_memcmp a b len = 0 \<longleftrightarrow> take len a = take len b"
proof -
  have "take len a = take len b \<longleftrightarrow> (\<forall>i < len. a ! i = b ! i)"
    using assms by (auto simp: list_eq_iff_nth_eq)
  then show ?thesis by (auto simp: CRYPTO_memcmp_def CRYPTO_memcmp_fold)
qed

lemma OPENSSL_memcmp_refl_iff:
  "length a = n \<Longrightarrow> length b = n \<Longrightarrow> OPENSSL_memcmp a b n = 0 \<longleftrightarrow> a = b"
  by (induction a b n rule: OPENSSL_memcmp.induct) (auto simp: not_less)

lemma OPENSSL_memchr_None_iff: "OPENSSL_memchr bs c = None \<longleftrightarrow> c \<notin> set bs"
  by (induction bs) auto

lemma OPENSSL_memchr_SomeD:
  "OPENSSL_memchr bs c = Some i \<Longrightarrow> i < length bs \<and> bs ! i = c \<and> c \<notin> set (take i bs)"
  by (induction bs arbitrary: i) (auto split: if_splits)

lemma cstr_simps [simp]: "cstr [] = []" "cstr (b # s) = (if b = 0 then [] else b # cstr s)"
  by (simp_all add: cstr_def)

lemma strlcpy_loop_eq:
  "0 < n \<Longrightarrow> n \<le> length dst \<Longrightarrow> OPENSSL_strlcpy_loop dst src n l =
     (let t = take (n - 1) (cstr src) in (t @ 0 # drop (Suc (length t)) dst, l + length (cstr src)))"
proof (induction dst src n l rule: OPENSSL_strlcpy_loop.induct)
  case (1 dst n l)
  then show ?case by (simp add: drop_Suc)
next
  case (2 dst s src n l)
  show ?case
  proof (cases "n > 1 \<and> s \<noteq> 0")
    case True
    define t where "t = take (n - 1 - 1) (cstr src)"
    have "take (n - 1) (cstr (s # src)) = s # t"
      using True by (cases "n - 1") (simp_all add: t_def)
    moreover have "OPENSSL_strlcpy_loop (tl dst) src (n - 1) (Suc l) =
        (t @ 0 # drop (Suc (length t)) (tl dst), Suc l + length (cstr src))"
      using 2(1) [OF True] 2(2,3) True by (simp add: Let_def t_def)
    ultimately show ?thesis using True by (simp add: drop_Suc)
  next
    case False
    then have t: "take (n - 1) (cstr (s # src)) = []" using 2(2) by auto
    have "n \<noteq> 0" using 2(2) by simp
    then have "OPENSSL_strlcpy_loop dst (s # src) n l = (0 # tl dst, l + length (cstr (s # src)))"
      unfolding OPENSSL_strlcpy_loop.simps if_not_P [OF False] by (simp del: cstr_simps)
    then show ?thesis unfolding Let_def t by (simp add: drop_Suc)
  qed
qed

lemma CRYPTO_bswap2_involution: "CRYPTO_bswap2 (CRYPTO_bswap2 x) = x"
proof (rule bit_word_eqI)
  fix n assume n: "n < LENGTH(16)"
  show "bit (CRYPTO_bswap2 (CRYPTO_bswap2 x)) n = bit x n"
    by (cases "n < 8") (use n in \<open>auto simp: CRYPTO_bswap2_def bit_simps\<close>)
qed

section \<open>Properties\<close>

text \<open>\<open>OPENSSL_strlcpy\<close> with a size of at least one leaves in the
  destination the longest prefix of the source string that fits, NUL-terminated, changes
  nothing after the terminator, and returns the length of the whole source.\<close>

theorem OPENSSL_strlcpy_correct:
  assumes "0 < n" "n \<le> length dst" "OPENSSL_strlcpy dst src n = (d, r)"
  shows "r = length (cstr src) \<and> cstr d = take (n - 1) (cstr src) \<and> length d = length dst \<and>
    drop n d = drop n dst"
proof -
  define t where "t = take (n - 1) (cstr src)"
  have d: "d = t @ 0 # drop (Suc (length t)) dst" and r: "r = length (cstr src)"
    using assms(3) strlcpy_loop_eq [OF assms(1,2), of src 0] unfolding OPENSSL_strlcpy_def Let_def t_def
    by (metis prod.inject add_0)+
  have tn: "Suc (length t) \<le> n" using assms(1) by (simp add: t_def)
  have "b \<noteq> 0" if "b \<in> set t" for b
    using that by (auto simp: t_def cstr_def dest!: in_set_takeD set_takeWhileD)
  then have "cstr d = t" unfolding d cstr_def by (subst takeWhile_append2) auto
  moreover have "drop n d = drop n dst"
    using tn unfolding d by (simp add: drop_Cons')
  moreover have "length d = length dst" using tn assms(2) unfolding d by simp
  ultimately show ?thesis using r by (simp add: t_def)
qed

lemma OPENSSL_strlcpy_correct_witness:
  "OPENSSL_strlcpy [9, 9, 9, 9] [1, 2, 3, 0] 3 = ([1, 2, 0, 9], 3) \<and> cstr [1, 2, 0, 9] = [1, 2 :: byte]"
proof -
  have run: "OPENSSL_strlcpy [9, 9, 9, 9] [1, 2, 3, 0] 3 = ([1, 2, 0, 9], 3)"
    by (simp add: OPENSSL_strlcpy_def)
  from OPENSSL_strlcpy_correct [OF _ _ run] run show ?thesis by simp
qed

text \<open>the constant-time comparison is 0 exactly on equal buffers.\<close>

theorem CRYPTO_memcmp_correct:
  assumes "len \<le> length a" "len \<le> length b"
  shows "CRYPTO_memcmp a b len = 0 \<longleftrightarrow> take len a = take len b"
  using assms by (rule CRYPTO_memcmp_0_iff)

lemma CRYPTO_memcmp_correct_witness: "CRYPTO_memcmp [1, 2, 3] [1, 2, 4] 3 \<noteq> 0"
  using CRYPTO_memcmp_correct [of 3 "[1, 2, 3]" "[1, 2, 4]"] by simp

end
