(* ===== verification/DER.thy ===== *)
theory DER
  imports Prelude
begin

unbundle bit_operations_syntax

text \<open>
  The encodings that the byte-string reader and writer agree on, as functions on numbers and
  byte lists: big-endian bytes, base-128 digits, ITU-T X.690 identifiers, lengths and
  elements. These are the abstract specification; nothing here is a definition of the code.
\<close>

section \<open>Big-endian numbers\<close>

definition be_nat :: "byte list \<Rightarrow> nat" where
  "be_nat bytes = fold (\<lambda>b r. r * 256 + unat b) bytes 0"

fun be_bytes :: "nat \<Rightarrow> byte list" where
  "be_bytes n = (if n = 0 then [] else be_bytes (n div 256) @ [word_of_nat n])"

declare be_bytes.simps [simp del]

lemma be_nat_Nil [simp]: "be_nat [] = 0"
  by (simp add: be_nat_def)

lemma be_nat_snoc [simp]: "be_nat (bs @ [b]) = be_nat bs * 256 + unat b"
  by (simp add: be_nat_def)

lemma be_nat_single [simp]: "be_nat [b] = unat b"
  by (simp add: be_nat_def)

lemma be_nat_less: "be_nat bs < 256 ^ length bs"
proof (induction bs rule: rev_induct)
  case (snoc b bs)
  have "be_nat bs * 256 + unat b < (be_nat bs + 1) * 256" by simp
  also have "\<dots> \<le> 256 ^ length bs * 256"
    using snoc by (intro mult_le_mono1) simp
  finally show ?case by (simp add: mult.commute)
qed simp

lemma be_bytes_0 [simp]: "be_bytes 0 = []"
  by (simp add: be_bytes.simps)

lemma be_nat_be_bytes [simp]: "be_nat (be_bytes n) = n"
proof (induction n rule: be_bytes.induct)
  case (1 n)
  then show ?case by (cases "n = 0") (simp_all add: be_bytes.simps [of n])
qed

lemma be_bytes_eq_Nil_iff [simp]: "be_bytes n = [] \<longleftrightarrow> n = 0"
  by (simp add: be_bytes.simps [of n])

lemma be_bytes_hd: "n \<noteq> 0 \<Longrightarrow> hd (be_bytes n) \<noteq> 0"
proof (induction n rule: be_bytes.induct)
  case (1 n)
  show ?case
  proof (cases "n div 256 = 0")
    case True
    then have "n < 256" by (simp add: div_eq_0_iff)
    with 1 True show ?thesis
      by (simp add: be_bytes.simps [of n] word_of_nat_byte_eq_iff)
  next
    case False
    with 1 show ?thesis by (simp add: be_bytes.simps [of n])
  qed
qed

lemma be_bytes_unique: "bs = [] \<or> hd bs \<noteq> 0 \<Longrightarrow> be_bytes (be_nat bs) = bs"
proof (induction bs rule: rev_induct)
  case (snoc b bs)
  have last_byte: "word_of_nat (be_nat bs * 256 + unat b) = b"
    unfolding word_of_nat_byte_eq_iff by simp
  show ?case
  proof (cases bs)
    case Nil
    with snoc.prems have "b \<noteq> 0" by simp
    then have "unat b \<noteq> 0" by (simp add: unsigned_eq_0_iff)
    with Nil show ?thesis
      by (simp add: be_bytes.simps [of "unat b"])
  next
    case (Cons c cs)
    with snoc have IH: "be_bytes (be_nat bs) = bs" by simp
    then have "be_nat bs \<noteq> 0" using Cons by (metis be_bytes_0 list.distinct(1))
    with IH last_byte show ?thesis
      by (simp add: be_bytes.simps [of "be_nat bs * 256 + unat b"])
  qed
qed simp

lemma length_be_bytes_le_iff: "length (be_bytes n) \<le> k \<longleftrightarrow> n < 256 ^ k"
proof
  assume le: "length (be_bytes n) \<le> k"
  have "n < 256 ^ length (be_bytes n)" using be_nat_less [of "be_bytes n"] by simp
  also have "\<dots> \<le> 256 ^ k" using le by (intro power_increasing) simp_all
  finally show "n < 256 ^ k" .
next
  show "n < 256 ^ k \<Longrightarrow> length (be_bytes n) \<le> k"
  proof (induction k arbitrary: n)
    case (Suc k)
    then have "n div 256 < 256 ^ k" by (simp add: less_mult_imp_div_less mult.commute)
    with Suc.IH [of "n div 256"] show ?case by (simp add: be_bytes.simps [of n])
  qed simp
qed

section \<open>Base-128 numbers\<close>

text \<open>All digits but the last have the high bit set; the first digit is not zero.\<close>

fun base128 :: "nat \<Rightarrow> byte list" where
  "base128 n =
     (if n < 128 then [word_of_nat n]
      else map (\<lambda>b. b OR 0x80) (base128 (n div 128)) @ [word_of_nat (n mod 128)])"

declare base128.simps [simp del]

text \<open>The digits of \<open>n\<close> when more follow.\<close>

definition base128_more :: "nat \<Rightarrow> byte list" where
  "base128_more n = map (\<lambda>b. b OR 0x80) (base128 n)"

lemma base128_small: "n < 128 \<Longrightarrow> base128 n = [word_of_nat n]"
  by (simp add: base128.simps [of n])

lemma base128_step: "0 < n \<Longrightarrow> d < 128 \<Longrightarrow> base128 (n * 128 + d) = base128_more n @ [word_of_nat d]"
  by (simp add: base128.simps [of "n * 128 + d"] base128_more_def)

lemma base128_more_step:
  assumes "0 < n" "d < 128"
  shows "base128_more (n * 128 + d) = base128_more n @ [word_of_nat d OR 0x80]"
  using base128_step [OF assms] by (simp add: base128_more_def)

lemma base128_not_Nil [simp]: "base128 n \<noteq> []"
  by (simp add: base128.simps [of n])

section \<open>Identifiers, lengths, elements\<close>

text \<open>
  A tag is a 32-bit value: the top three bits are the class and the constructed bit, the low
  29 bits are the number.
\<close>

definition der_tag :: "u32 \<Rightarrow> byte list" where
  "der_tag tag =
     (let c = unat tag div 2 ^ 29; n = unat tag mod 2 ^ 29 in
      if n < 31 then [word_of_nat (32 * c + n)]
      else word_of_nat (32 * c + 31) # base128 n)"

definition der_len :: "nat \<Rightarrow> byte list" where
  "der_len n =
     (if n < 128 then [word_of_nat n]
      else word_of_nat (128 + length (be_bytes n)) # be_bytes n)"

definition der :: "u32 \<Rightarrow> byte list \<Rightarrow> byte list" where
  "der tag body = der_tag tag @ der_len (length body) @ body"

end
