(* ===== verification/CBS.thy ===== *)
theory CBS
  imports Crypto_Mem DER
begin

unbundle bit_operations_syntax

text \<open>
  The byte-string reader of BoringSSL, \<open>crypto/bytestring/cbs.c\<close>. A \<open>CBS\<close> is a pointer and
  a length; the model is the window of bytes it denotes, so that taking from the front is
  dropping from the list. A reader \<open>int f(CBS *cbs, T *out)\<close> is an operation on that list:
  its result is \<open>None\<close> where the C function returns 0, and the list after it is the object
  after the call, also when the call failed.
\<close>

type_synonym cbs = "byte list"

section \<open>Basic readers\<close>

definition CBS_init :: "byte list \<Rightarrow> nat \<Rightarrow> cbs" where
  "CBS_init bytes len = take len bytes"

definition cbs_get :: "nat \<Rightarrow> (cbs, byte list) op" where
  "cbs_get n cbs = (if length cbs < n then (None, cbs) else (Some (take n cbs), drop n cbs))"

definition CBS_skip :: "nat \<Rightarrow> (cbs, unit) op" where
  "CBS_skip len = andthen (cbs_get len) (\<lambda>_. ret ())"

definition CBS_data :: "cbs \<Rightarrow> byte list" where
  "CBS_data cbs = cbs"

definition CBS_len :: "cbs \<Rightarrow> nat" where
  "CBS_len cbs = length cbs"

text \<open>The results of \<open>CBS_stow\<close>: the return value, \<open>*out_ptr\<close> and \<open>*out_len\<close>.\<close>

definition CBS_stow :: "allocator \<Rightarrow> cbs \<Rightarrow> bool \<times> byte list option \<times> nat" where
  "CBS_stow malloc cbs =
     (if CBS_len cbs = 0 then (True, None, 0)
      else case OPENSSL_memdup malloc cbs of
             None \<Rightarrow> (False, None, 0)
           | Some p \<Rightarrow> (True, Some p, CBS_len cbs))"

definition CBS_strdup :: "allocator \<Rightarrow> cbs \<Rightarrow> byte list option" where
  "CBS_strdup malloc cbs = OPENSSL_strndup malloc cbs (CBS_len cbs)"

definition CBS_contains_zero_byte :: "cbs \<Rightarrow> bool" where
  "CBS_contains_zero_byte cbs = (OPENSSL_memchr cbs 0 \<noteq> None)"

definition CBS_mem_equal :: "cbs \<Rightarrow> byte list \<Rightarrow> nat \<Rightarrow> bool" where
  "CBS_mem_equal cbs bytes len =
     (if len \<noteq> CBS_len cbs then False else CRYPTO_memcmp cbs bytes len = 0)"

text \<open>The accumulation \<open>result <<= 8; result |= data[i]\<close>.\<close>

definition be_word :: "byte list \<Rightarrow> u64" where
  "be_word bytes = fold (\<lambda>b result. push_bit 8 result OR ucast b) bytes 0"

definition cbs_get_u :: "nat \<Rightarrow> (cbs, u64) op" where
  "cbs_get_u len = andthen (cbs_get len) (\<lambda>bytes. ret (be_word bytes))"

definition CBS_get_u8 :: "(cbs, byte) op" where
  "CBS_get_u8 = andthen (cbs_get 1) (\<lambda>v. ret (v ! 0))"

definition CBS_get_u16 :: "(cbs, u16) op" where
  "CBS_get_u16 = andthen (cbs_get_u 2) (\<lambda>v. ret (ucast v))"

definition CBS_get_u16le :: "(cbs, u16) op" where
  "CBS_get_u16le = andthen CBS_get_u16 (\<lambda>v. ret (CRYPTO_bswap2 v))"

definition CBS_get_u24 :: "(cbs, u32) op" where
  "CBS_get_u24 = andthen (cbs_get_u 3) (\<lambda>v. ret (ucast v))"

definition CBS_get_u32 :: "(cbs, u32) op" where
  "CBS_get_u32 = andthen (cbs_get_u 4) (\<lambda>v. ret (ucast v))"

definition CBS_get_u32le :: "(cbs, u32) op" where
  "CBS_get_u32le = andthen CBS_get_u32 (\<lambda>v. ret (CRYPTO_bswap4 v))"

definition CBS_get_u64 :: "(cbs, u64) op" where
  "CBS_get_u64 = cbs_get_u 8"

definition CBS_get_u64le :: "(cbs, u64) op" where
  "CBS_get_u64le = andthen (cbs_get_u 8) (\<lambda>v. ret (CRYPTO_bswap8 v))"

definition CBS_get_last_u8 :: "(cbs, byte) op" where
  "CBS_get_last_u8 cbs =
     (if length cbs = 0 then (None, cbs)
      else (Some (cbs ! (length cbs - 1)), take (length cbs - 1) cbs))"

definition CBS_get_bytes :: "nat \<Rightarrow> (cbs, cbs) op" where
  "CBS_get_bytes len = andthen (cbs_get len) (\<lambda>v. ret (CBS_init v len))"

definition CBS_copy_bytes :: "nat \<Rightarrow> (cbs, byte list) op" where
  "CBS_copy_bytes len = andthen (cbs_get len) (\<lambda>v. ret v)"

definition cbs_get_length_prefixed :: "nat \<Rightarrow> (cbs, cbs) op" where
  "cbs_get_length_prefixed len_len =
     andthen (cbs_get_u len_len) (\<lambda>len. CBS_get_bytes (unat len))"

definition CBS_get_u8_length_prefixed :: "(cbs, cbs) op" where
  "CBS_get_u8_length_prefixed = cbs_get_length_prefixed 1"

definition CBS_get_u16_length_prefixed :: "(cbs, cbs) op" where
  "CBS_get_u16_length_prefixed = cbs_get_length_prefixed 2"

definition CBS_get_u24_length_prefixed :: "(cbs, cbs) op" where
  "CBS_get_u24_length_prefixed = cbs_get_length_prefixed 3"

definition CBS_get_until_first :: "byte \<Rightarrow> (cbs, cbs) op" where
  "CBS_get_until_first c cbs =
     (case OPENSSL_memchr (CBS_data cbs) c of
        None \<Rightarrow> (None, cbs)
      | Some split \<Rightarrow> CBS_get_bytes split cbs)"

section \<open>ASN.1 tags and lengths\<close>

text \<open>The tag constants of \<open>include/openssl/bytestring.h\<close>; \<open>unsigned\<close> has 32 bits.\<close>

definition CBS_ASN1_TAG_SHIFT :: nat where "CBS_ASN1_TAG_SHIFT = 24"
definition CBS_ASN1_CONSTRUCTED :: u32 where
  "CBS_ASN1_CONSTRUCTED = push_bit CBS_ASN1_TAG_SHIFT 0x20"
definition CBS_ASN1_TAG_NUMBER_MASK :: u32 where
  "CBS_ASN1_TAG_NUMBER_MASK = push_bit (5 + CBS_ASN1_TAG_SHIFT) 1 - 1"
definition CBS_ASN1_BOOLEAN :: u32 where "CBS_ASN1_BOOLEAN = 0x1"
definition CBS_ASN1_INTEGER :: u32 where "CBS_ASN1_INTEGER = 0x2"
definition CBS_ASN1_OCTETSTRING :: u32 where "CBS_ASN1_OCTETSTRING = 0x4"

fun parse_base128_integer_loop :: "u64 \<Rightarrow> (cbs, u64) op" where
  "parse_base128_integer_loop v [] = (None, [])"
| "parse_base128_integer_loop v (b # cbs) =
     (if drop_bit (64 - 7) v \<noteq> 0 then (None, cbs)
      else if v = 0 \<and> b = 0x80 then (None, cbs)
      else let v' = push_bit 7 v OR ucast (b AND 0x7f) in
        if b AND 0x80 \<noteq> 0 then parse_base128_integer_loop v' cbs else (Some v', cbs))"

definition parse_base128_integer :: "(cbs, u64) op" where
  "parse_base128_integer = parse_base128_integer_loop 0"

definition parse_asn1_tag :: "(cbs, u32) op" where
  "parse_asn1_tag = andthen CBS_get_u8 (\<lambda>tag_byte.
     let tag = push_bit CBS_ASN1_TAG_SHIFT (ucast tag_byte AND 0xe0);
         tag_number = ucast (tag_byte AND 0x1f) in
     if tag_number = 0x1f then
       andthen parse_base128_integer (\<lambda>v.
         if v > ucast CBS_ASN1_TAG_NUMBER_MASK \<or> v < 0x1f then fail
         else ret (tag OR ucast v))
     else ret (tag OR tag_number))"

text \<open>
  \<open>cbs_get_any_asn1_element\<close> works on a copy \<open>header\<close> of the object, which therefore only
  changes in the final \<open>CBS_get_bytes\<close>. Its outputs are the element, its tag, the length of
  its header and \<open>*out_ber_found\<close>. \<open>asn1_length\<close> is the part that computes the total length
  and the header length from the copy: its third output is \<open>True\<close> for the indefinite form.
\<close>

definition asn1_length :: "bool \<Rightarrow> u32 \<Rightarrow> nat \<Rightarrow> (cbs, u64 \<times> nat \<times> bool) op" where
  "asn1_length ber_ok tag header_len0 = andthen CBS_get_u8 (\<lambda>length_byte.
     let header_len = header_len0 + 1 in
     if length_byte AND 0x80 = 0 then
       ret (ucast length_byte + word_of_nat header_len, header_len, False)
     else
       let num_bytes = unat (length_byte AND 0x7f) in
       if ber_ok \<and> tag AND CBS_ASN1_CONSTRUCTED \<noteq> 0 \<and> num_bytes = 0 then
         ret (word_of_nat header_len, header_len, True)
       else if num_bytes = 0 \<or> num_bytes > 4 then fail
       else andthen (cbs_get_u num_bytes) (\<lambda>len64.
         if \<not> ber_ok \<and> (len64 < 128 \<or> drop_bit ((num_bytes - 1) * 8) len64 = 0) then fail
         else
           let len = len64 + word_of_nat header_len + word_of_nat num_bytes in
           if len < len64 then fail
           else ret (len, header_len + num_bytes,
                     len64 < 128 \<or> drop_bit ((num_bytes - 1) * 8) len64 = 0)))"

definition cbs_get_any_asn1_element :: "bool \<Rightarrow> (cbs, cbs \<times> u32 \<times> nat \<times> bool) op" where
  "cbs_get_any_asn1_element ber_ok cbs =
     (case parse_asn1_tag cbs of
        (None, _) \<Rightarrow> (None, cbs)
      | (Some tag, header) \<Rightarrow>
          (case asn1_length ber_ok tag (CBS_len cbs - CBS_len header) header of
             (None, _) \<Rightarrow> (None, cbs)
           | (Some (len, header_len, ber_found), _) \<Rightarrow>
               andthen (CBS_get_bytes (unat len))
                 (\<lambda>out. ret (out, tag, header_len, ber_found)) cbs))"

definition CBS_get_any_asn1_element :: "(cbs, cbs \<times> u32 \<times> nat) op" where
  "CBS_get_any_asn1_element =
     andthen (cbs_get_any_asn1_element False)
       (\<lambda>(out, tag, header_len, _). ret (out, tag, header_len))"

definition CBS_get_any_ber_asn1_element :: "(cbs, cbs \<times> u32 \<times> nat \<times> bool) op" where
  "CBS_get_any_ber_asn1_element = cbs_get_any_asn1_element True"

text \<open>The readers below apply further readers to the local \<open>out\<close>, not to \<open>cbs\<close>.\<close>

definition CBS_get_any_asn1 :: "(cbs, cbs \<times> u32) op" where
  "CBS_get_any_asn1 = andthen CBS_get_any_asn1_element (\<lambda>(out, tag, header_len).
     case CBS_skip header_len out of
       (None, _) \<Rightarrow> fail
     | (Some _, contents) \<Rightarrow> ret (contents, tag))"

definition cbs_get_asn1 :: "u32 \<Rightarrow> bool \<Rightarrow> (cbs, cbs) op" where
  "cbs_get_asn1 tag_value skip_header =
     andthen CBS_get_any_asn1_element (\<lambda>(out, tag, header_len).
       if tag \<noteq> tag_value then fail
       else if skip_header then
         (case CBS_skip header_len out of
            (None, _) \<Rightarrow> fail
          | (Some _, contents) \<Rightarrow> ret contents)
       else ret out)"

definition CBS_get_asn1 :: "u32 \<Rightarrow> (cbs, cbs) op" where
  "CBS_get_asn1 tag_value = cbs_get_asn1 tag_value True"

definition CBS_get_asn1_element :: "u32 \<Rightarrow> (cbs, cbs) op" where
  "CBS_get_asn1_element tag_value = cbs_get_asn1 tag_value False"

definition CBS_peek_asn1_tag :: "cbs \<Rightarrow> u32 \<Rightarrow> bool" where
  "CBS_peek_asn1_tag cbs tag_value =
     (if CBS_len cbs < 1 then False else fst (parse_asn1_tag cbs) = Some tag_value)"

section \<open>ASN.1 values\<close>

definition CBS_is_valid_asn1_integer :: "cbs \<Rightarrow> bool" where
  "CBS_is_valid_asn1_integer cbs =
     (case CBS_get_u8 cbs of
        (None, _) \<Rightarrow> False
      | (Some first_byte, copy) \<Rightarrow>
          (case CBS_get_u8 copy of
             (None, _) \<Rightarrow> True
           | (Some second_byte, _) \<Rightarrow>
               \<not> (first_byte = 0x00 \<and> second_byte AND 0x80 = 0 \<or>
                  first_byte = 0xff \<and> second_byte AND 0x80 \<noteq> 0)))"

text \<open>The value \<open>CBS_is_valid_asn1_integer\<close> stores in \<open>*out_is_negative\<close>.\<close>

definition asn1_integer_is_negative :: "cbs \<Rightarrow> bool" where
  "asn1_integer_is_negative cbs =
     (case CBS_get_u8 cbs of
        (None, _) \<Rightarrow> False
      | (Some first_byte, _) \<Rightarrow> first_byte AND 0x80 \<noteq> 0)"

definition CBS_is_unsigned_asn1_integer :: "cbs \<Rightarrow> bool" where
  "CBS_is_unsigned_asn1_integer cbs =
     (CBS_is_valid_asn1_integer cbs \<and> \<not> asn1_integer_is_negative cbs)"

fun asn1_uint64_loop :: "u64 \<Rightarrow> byte list \<Rightarrow> u64 option" where
  "asn1_uint64_loop out [] = Some out"
| "asn1_uint64_loop out (b # bytes) =
     (if drop_bit 56 out \<noteq> 0 then None
      else asn1_uint64_loop (push_bit 8 out OR ucast b) bytes)"

definition CBS_get_asn1_uint64 :: "(cbs, u64) op" where
  "CBS_get_asn1_uint64 = andthen (CBS_get_asn1 CBS_ASN1_INTEGER) (\<lambda>bytes.
     if \<not> CBS_is_unsigned_asn1_integer bytes then fail
     else case asn1_uint64_loop 0 bytes of None \<Rightarrow> fail | Some out \<Rightarrow> ret out)"

text \<open>
  The union of \<open>int64_t\<close> and its bytes, least significant first: the bytes are the sign
  extension, overwritten with the contents in reverse. The result is the two's complement
  word.
\<close>

definition le_word :: "byte list \<Rightarrow> u64" where
  "le_word bytes = foldr (\<lambda>b r. push_bit 8 r OR ucast b) bytes 0"

definition CBS_get_asn1_int64 :: "(cbs, u64) op" where
  "CBS_get_asn1_int64 = andthen (CBS_get_asn1 CBS_ASN1_INTEGER) (\<lambda>bytes.
     if \<not> CBS_is_valid_asn1_integer bytes then fail
     else if CBS_len bytes > 8 then fail
     else let u = replicate 8 (if asn1_integer_is_negative bytes then 0xff else 0)
          in ret (le_word (fold (\<lambda>i u. u[i := bytes ! (CBS_len bytes - i - 1)])
                             [0..<CBS_len bytes] u)))"

definition CBS_get_asn1_bool :: "(cbs, bool) op" where
  "CBS_get_asn1_bool = andthen (CBS_get_asn1 CBS_ASN1_BOOLEAN) (\<lambda>bytes.
     if CBS_len bytes \<noteq> 1 then fail
     else let value = bytes ! 0 in
       if value \<noteq> 0 \<and> value \<noteq> 0xff then fail else ret (value \<noteq> 0))"

text \<open>An absent optional element leaves \<open>*out\<close> alone and \<open>cbs\<close> in place.\<close>

definition CBS_get_optional_asn1 :: "u32 \<Rightarrow> (cbs, cbs option) op" where
  "CBS_get_optional_asn1 tag cbs =
     (if CBS_peek_asn1_tag cbs tag
      then andthen (CBS_get_asn1 tag) (\<lambda>out. ret (Some out)) cbs
      else ret None cbs)"

definition CBS_get_optional_asn1_octet_string :: "u32 \<Rightarrow> (cbs, cbs \<times> bool) op" where
  "CBS_get_optional_asn1_octet_string tag =
     andthen (CBS_get_optional_asn1 tag) (\<lambda>child.
       case child of
         None \<Rightarrow> ret (CBS_init [] 0, False)
       | Some child \<Rightarrow>
           (case CBS_get_asn1 CBS_ASN1_OCTETSTRING child of
              (None, _) \<Rightarrow> fail
            | (Some out, child) \<Rightarrow> if CBS_len child \<noteq> 0 then fail else ret (out, True)))"

definition CBS_get_optional_asn1_uint64 :: "u32 \<Rightarrow> u64 \<Rightarrow> (cbs, u64) op" where
  "CBS_get_optional_asn1_uint64 tag default_value =
     andthen (CBS_get_optional_asn1 tag) (\<lambda>child.
       case child of
         None \<Rightarrow> ret default_value
       | Some child \<Rightarrow>
           (case CBS_get_asn1_uint64 child of
              (None, _) \<Rightarrow> fail
            | (Some out, child) \<Rightarrow> if CBS_len child \<noteq> 0 then fail else ret out))"

definition CBS_get_optional_asn1_bool :: "u32 \<Rightarrow> int \<Rightarrow> (cbs, int) op" where
  "CBS_get_optional_asn1_bool tag default_value =
     andthen (CBS_get_optional_asn1 tag) (\<lambda>child.
       case child of
         None \<Rightarrow> ret default_value
       | Some child \<Rightarrow>
           (case CBS_get_asn1 CBS_ASN1_BOOLEAN child of
              (None, _) \<Rightarrow> fail
            | (Some child2, child) \<Rightarrow>
                if CBS_len child2 \<noteq> 1 \<or> CBS_len child \<noteq> 0 then fail
                else let boolean = CBS_data child2 ! 0 in
                  if boolean = 0 then ret 0
                  else if boolean = 0xff then ret 1
                  else fail))"

definition CBS_is_valid_asn1_bitstring :: "cbs \<Rightarrow> bool" where
  "CBS_is_valid_asn1_bitstring cbs =
     (case CBS_get_u8 cbs of
        (None, _) \<Rightarrow> False
      | (Some num_unused_bits, rest) \<Rightarrow>
          if num_unused_bits > 7 then False
          else if num_unused_bits = 0 then True
          else (case CBS_get_last_u8 rest of
                  (None, _) \<Rightarrow> False
                | (Some last_byte, _) \<Rightarrow> last_byte AND (push_bit (unat num_unused_bits) 1 - 1) = 0))"

definition CBS_asn1_bitstring_has_bit :: "cbs \<Rightarrow> u32 \<Rightarrow> bool" where
  "CBS_asn1_bitstring_has_bit cbs b =
     (if \<not> CBS_is_valid_asn1_bitstring cbs then False
      else
        let byte_num = drop_bit 3 b + 1; bit_num = 7 - (b AND 7) in
        unat byte_num < CBS_len cbs \<and>
        CBS_data cbs ! unat byte_num AND push_bit (unat bit_num) 1 \<noteq> 0)"

section \<open>What every reader promises\<close>

text \<open>
  A reader hands back a suffix of its input, and a successful read depends only on the bytes
  it consumed. These two laws are all that callers need to compose readers.
\<close>

locale reader =
  fixes p :: "(byte list, 'a) op"
  assumes rest_suffix: "suffix (snd (p s)) s"
    and locality: "p (u @ s) = (Some v, s) \<Longrightarrow> p (u @ t) = (Some v, t)"
begin

lemma consumes: "p s = (Some v, s') \<Longrightarrow> \<exists>u. s = u @ s' \<and> p u = (Some v, [])"
  using rest_suffix [of s] locality [of _ s' v "[]"] by (auto simp: suffix_def)

lemma append: "p s = (Some v, s') \<Longrightarrow> p (s @ t) = (Some v, s' @ t)"
  using rest_suffix [of s] locality [of _ s' v "s' @ t"] by (auto simp: suffix_def)

lemma prefix_free: "p u = (Some v, []) \<Longrightarrow> p (u @ t) = (Some v, t)"
  using locality [of u "[]" v t] by simp

lemma length_le: "length (snd (p s)) \<le> length s"
  using rest_suffix by (rule suffix_length_le)

end

lemma reader_ret: "reader (ret a)"
  by unfold_locales (auto simp: ret_def)

lemma reader_fail: "reader fail"
  by unfold_locales (auto simp: fail_def)

lemma reader_if: "reader p \<Longrightarrow> reader q \<Longrightarrow> reader (if b then p else q)"
  by simp

lemma reader_cbs_get: "reader (cbs_get n)"
proof unfold_locales
  show "suffix (snd (cbs_get n s)) s" for s
    by (simp add: cbs_get_def suffix_drop)
  show "cbs_get n (u @ s) = (Some v, s) \<Longrightarrow> cbs_get n (u @ t) = (Some v, t)" for u s t v
  proof -
    assume "cbs_get n (u @ s) = (Some v, s)"
    then have d: "drop n (u @ s) = s" and v: "v = take n (u @ s)" and "n \<le> length (u @ s)"
      by (auto simp: cbs_get_def split: if_splits)
    then have "length (u @ s) - n = length s" by (metis length_drop)
    with \<open>n \<le> length (u @ s)\<close> have "n = length u" by simp
    with v show ?thesis by (simp add: cbs_get_def)
  qed
qed

lemma reader_andthen:
  assumes p: "reader p" and q: "\<And>a. reader (q a)"
  shows "reader (andthen p q)"
proof unfold_locales
  show "suffix (snd (andthen p q s)) s" for s
    using reader.rest_suffix [OF p, of s] reader.rest_suffix [OF q]
    by (auto simp: andthen_def split: prod.splits option.splits)
       (metis snd_conv suffix_order.trans)
  show "andthen p q (u @ s) = (Some v, s) \<Longrightarrow> andthen p q (u @ t) = (Some v, t)" for u s t v
  proof (elim andthen_SomeE)
    fix a s1
    assume ps: "p (u @ s) = (Some a, s1)" and qs: "q a s1 = (Some v, s)"
    from reader.rest_suffix [OF q, of a s1] qs have "suffix s s1" by simp
    then obtain u2 where s1: "s1 = u2 @ s" by (auto simp: suffix_def)
    from reader.rest_suffix [OF p, of "u @ s"] ps have "suffix (u2 @ s) (u @ s)"
      by (simp add: s1)
    then obtain u1 where u: "u = u1 @ u2" by (auto simp: suffix_def)
    from ps have "p (u1 @ u2 @ t) = (Some a, u2 @ t)"
      using reader.locality [OF p, of u1 "u2 @ s" a "u2 @ t"] by (simp add: u s1)
    moreover from qs have "q a (u2 @ t) = (Some v, t)"
      using reader.locality [OF q, of a u2 s v t] by (simp add: s1)
    ultimately show ?thesis by (simp add: u andthen_Some)
  qed
qed

lemmas reader_intros =
  reader_ret reader_fail reader_if reader_cbs_get reader_andthen

interpretation skip: reader "CBS_skip n"
  unfolding CBS_skip_def by (intro reader_intros)

interpretation get_u: reader "cbs_get_u n"
  unfolding cbs_get_u_def by (intro reader_intros)

interpretation get_u8: reader CBS_get_u8
  unfolding CBS_get_u8_def by (intro reader_intros)

interpretation get_bytes: reader "CBS_get_bytes n"
  unfolding CBS_get_bytes_def by (intro reader_intros)

interpretation get_length_prefixed: reader "cbs_get_length_prefixed n"
  unfolding cbs_get_length_prefixed_def
  by (intro reader_intros get_u.reader_axioms get_bytes.reader_axioms)

section \<open>Fixed-width numbers\<close>

lemma cbs_get_Some_iff:
  "cbs_get n s = (Some v, rest) \<longleftrightarrow> length v = n \<and> s = v @ rest"
  by (auto simp: cbs_get_def not_less split: if_splits) 

lemma CBS_get_bytes_Some_iff:
  "CBS_get_bytes n s = (Some v, rest) \<longleftrightarrow> length v = n \<and> s = v @ rest"
  by (auto simp: CBS_get_bytes_def CBS_init_def cbs_get_Some_iff andthen_Some elim!: andthen_SomeE)

lemma CBS_get_u8_Nil [simp]: "CBS_get_u8 [] = (None, [])"
  by (simp add: CBS_get_u8_def andthen_def cbs_get_def)

lemma CBS_get_u8_Cons [simp]: "CBS_get_u8 (b # s) = (Some b, s)"
  by (simp add: CBS_get_u8_def andthen_def cbs_get_def ret_def)

lemma CBS_get_u8_Some_iff: "CBS_get_u8 s = (Some b, rest) \<longleftrightarrow> s = b # rest"
  by (cases s) auto

lemma be_word_snoc: "be_word (bs @ [b]) = push_bit 8 (be_word bs) OR ucast b"
  by (simp add: be_word_def)

lemma unat_be_word: "length bs \<le> 8 \<Longrightarrow> unat (be_word bs) = be_nat bs"
proof (induction bs rule: rev_induct)
  case Nil
  show ?case by (simp add: be_word_def)
next
  case (snoc b bs)
  have "be_nat (bs @ [b]) < 256 ^ length (bs @ [b])" by (rule be_nat_less)
  also have "\<dots> \<le> 256 ^ 8" using snoc.prems by (intro power_increasing) simp_all
  finally have "be_nat bs * 256 + unat b < 2 ^ 64" by simp
  with snoc show ?case
    by (simp add: be_word_snoc unat_push_or)
qed

lemma cbs_get_u_Some_iff:
  "cbs_get_u n s = (Some v, rest) \<longleftrightarrow> (\<exists>bs. length bs = n \<and> s = bs @ rest \<and> v = be_word bs)"
  by (auto simp: cbs_get_u_def cbs_get_Some_iff andthen_Some elim!: andthen_SomeE)

section \<open>Base-128 integers\<close>

lemma unat_base128_acc:
  assumes "unat v < 2 ^ 57"
  shows "unat (push_bit 7 v OR ucast (b AND 0x7f :: byte) :: u64) = unat v * 128 + unat (b AND 0x7f)"
proof -
  have "unat v * 128 + unat b mod 128 < 2 ^ 64"
    using assms by simp
  then show ?thesis
    using unat_push_or [of v 7 "ucast (b AND 0x7f)"] by (simp add: low_bits)
qed

lemma base128_acc_word_of_nat:
  assumes "m < 2 ^ 57" "d < 128"
  shows "push_bit 7 (word_of_nat m :: u64) OR ucast (word_of_nat d AND 0x7f :: byte)
    = word_of_nat (m * 128 + d)"
proof (rule unsigned_word_eqI [where 'a = nat])
  have "m * 128 + d < 2 ^ 64" "m < 2 ^ 64" using assms by simp_all
  then show "unat (push_bit 7 (word_of_nat m :: u64) OR ucast (word_of_nat d AND 0x7f :: byte))
      = unat (word_of_nat (m * 128 + d) :: u64)"
    using assms
    by (subst unat_base128_acc) (simp_all only: unat_word_of_nat_64 low_byte)
qed

lemma parse_base128_loop_more:
  assumes "0 < n" "n < 2 ^ 64"
  shows "parse_base128_integer_loop 0 (base128_more n @ t) = parse_base128_integer_loop (word_of_nat n) t"
  using assms
proof (induction n arbitrary: t rule: base128.induct)
  case (1 n)
  show ?case
  proof (cases "n < 128")
    case True
    with base128_acc_word_of_nat [of 0 n] 1 show ?thesis
      by (simp add: base128_more_def base128_small set_high_low_bits set_high_high_bit
          set_high_eq_iff low_byte)
  next
    case False
    define m d where "m = n div 128" and "d = n mod 128"
    have n: "n = m * 128 + d" and "d < 128" and "0 < m"
      using False by (simp_all add: m_def d_def div_greater_zero_iff)
    have m: "m < 2 ^ 57" using \<open>n < 2 ^ 64\<close> by (simp add: n)
    then have um: "unat (word_of_nat m :: u64) = m" by simp
    then have "(word_of_nat m :: u64) \<noteq> 0" using \<open>0 < m\<close> by (metis less_irrefl unsigned_0)
    with um m have ok: "drop_bit 57 (word_of_nat m :: u64) = 0" "(word_of_nat m :: u64) \<noteq> 0"
      by (simp_all add: drop_bit_eq_0_iff)
    have IH: "parse_base128_integer_loop 0 (base128_more m @ t') =
        parse_base128_integer_loop (word_of_nat m) t'" for t'
      using 1 False \<open>0 < m\<close> m by (simp add: m_def)
    have "parse_base128_integer_loop 0 (base128_more n @ t) =
        parse_base128_integer_loop (word_of_nat m) ((word_of_nat d OR 0x80) # t)"
      using IH [of "(word_of_nat d OR 0x80) # t"]
      by (simp add: n base128_more_step \<open>0 < m\<close> \<open>d < 128\<close>)
    also have "\<dots> = parse_base128_integer_loop (word_of_nat n) t"
      using base128_acc_word_of_nat [OF m \<open>d < 128\<close>] ok
      by (simp add: set_high_low_bits set_high_high_bit n del: of_nat_add of_nat_mult)
    finally show ?thesis .
  qed
qed

lemma parse_base128_encode:
  assumes "n < 2 ^ 64"
  shows "parse_base128_integer (base128 n @ t) = (Some (word_of_nat n), t)"
proof (cases "n < 128")
  case True
  then have "(word_of_nat n :: byte) \<noteq> 0x80" by (simp add: word_of_nat_byte_eq_iff)
  with True base128_acc_word_of_nat [of 0 n] show ?thesis
    by (simp add: parse_base128_integer_def base128_small low_byte)
next
  case False
  define m d where "m = n div 128" and "d = n mod 128"
  have n: "n = m * 128 + d" and "d < 128" and "0 < m"
    using False by (simp_all add: m_def d_def div_greater_zero_iff)
  have m: "m < 2 ^ 57" "m < 2 ^ 64" using assms by (simp_all add: n)
  have um: "unat (word_of_nat m :: u64) = m" using m by simp
  then have "(word_of_nat m :: u64) \<noteq> 0" using \<open>0 < m\<close> by (metis less_irrefl unsigned_0)
  with um m show ?thesis
    using base128_acc_word_of_nat [OF m(1) \<open>d < 128\<close>]
    by (simp add: n parse_base128_integer_def base128_step \<open>0 < m\<close> \<open>d < 128\<close>
        parse_base128_loop_more drop_bit_eq_0_iff low_byte del: of_nat_add of_nat_mult)
qed

lemma parse_base128_loop_decode:
  assumes "parse_base128_integer_loop v s = (Some r, rest)" "v \<noteq> 0"
  shows "\<exists>u. s = u @ rest \<and> base128_more (unat v) @ u = base128 (unat r)"
  using assms
proof (induction v s rule: parse_base128_integer_loop.induct)
  case (2 v b cbs)
  define v' where "v' = push_bit 7 v OR (ucast (b AND 0x7f) :: u64)"
  have v: "unat v < 2 ^ 57" "0 < unat v"
    using 2 by (auto simp: drop_bit_eq_0_iff unat_pos_iff split: if_splits)
  have v': "unat v' = unat v * 128 + unat (b AND 0x7f)"
    unfolding v'_def by (rule unat_base128_acc [OF v(1)])
  have lt: "unat (b AND 0x7f) < 128" by (simp add: low_bits)
  have "v' \<noteq> 0" using v v' by (metis add_is_0 less_numeral_extra(3) mult_is_0 unsigned_0 zero_neq_numeral)
  show ?case
  proof (cases "b AND 0x80 = 0")
    case True
    then have b: "b AND 0x7f = b"
      by (intro unsigned_word_eqI [where 'a = nat]) (simp add: low_bits high_bit_iff)
    from 2 True v have "r = v'" "cbs = rest"
      by (auto simp: drop_bit_eq_0_iff v'_def Let_def split: if_splits)
    with v v' lt b show ?thesis by (simp add: base128_step)
  next
    case False
    with 2 v \<open>v' \<noteq> 0\<close> obtain u where "cbs = u @ rest" "base128_more (unat v') @ u = base128 (unat r)"
      by (auto simp: drop_bit_eq_0_iff v'_def Let_def split: if_splits)
    with v v' lt False show ?thesis
      by (auto simp: base128_more_step set_high_cancel)
  qed
qed simp

lemma parse_base128_integer_Some_iff:
  "parse_base128_integer s = (Some r, rest) \<longleftrightarrow> s = base128 (unat r) @ rest"
proof
  assume "s = base128 (unat r) @ rest"
  then show "parse_base128_integer s = (Some r, rest)"
    using parse_base128_encode [of "unat r" rest] unsigned_less [of r] by simp
next
  assume parse: "parse_base128_integer s = (Some r, rest)"
  then obtain b cbs where s: "s = b # cbs" and "b \<noteq> 0x80"
    by (cases s) (auto simp: parse_base128_integer_def split: if_splits)
  define v' where "v' = (ucast (b AND 0x7f) :: u64)"
  have v': "unat v' = unat (b AND 0x7f)" by (simp add: v'_def)
  show "s = base128 (unat r) @ rest"
  proof (cases "b AND 0x80 = 0")
    case True
    then have "b AND 0x7f = b"
      by (intro unsigned_word_eqI [where 'a = nat]) (simp add: low_bits high_bit_iff)
    with parse True v' s show ?thesis
      by (auto simp: parse_base128_integer_def Let_def base128_small high_bit_iff split: if_splits)
  next
    case False
    then have "b AND 0x7f \<noteq> 0" using \<open>b \<noteq> 0x80\<close> set_high_cancel [of b] by auto
    then have "v' \<noteq> 0" using v' by (metis unsigned_0 unsigned_eq_0_iff)
    moreover from parse s False have "parse_base128_integer_loop v' cbs = (Some r, rest)"
      by (auto simp: parse_base128_integer_def Let_def v'_def split: if_splits)
    ultimately obtain u where "cbs = u @ rest" "base128_more (unat v') @ u = base128 (unat r)"
      using parse_base128_loop_decode by blast
    moreover have "unat (b AND 0x7f) < 128" by (simp add: low_bits)
    then have "base128_more (unat v') = [b]"
      using False by (simp add: v' base128_more_def base128_small set_high_cancel)
    ultimately show ?thesis by (simp add: s)
  qed
qed

section \<open>Identifiers\<close>

lemma tag_shift: "push_bit 24 (ucast b AND 0xe0 :: u32) = push_bit 29 (ucast (drop_bit 5 (b :: byte)))"
proof -
  have "b AND 0xe0 = push_bit 5 (drop_bit 5 b)"
    by (rule byte_bits_eqI) (auto simp: bit_simps)
  then have "ucast (b AND 0xe0) = (ucast (push_bit 5 (drop_bit 5 b)) :: u32)" by simp
  moreover have "ucast (b AND 0xe0) = (ucast b AND 0xe0 :: u32)"
    by (simp add: unsigned_and_eq)
  moreover have "ucast (push_bit 5 (drop_bit 5 b)) = (push_bit 5 (ucast (drop_bit 5 b)) :: u32)"
    by (rule bit_word_eqI) (auto simp: bit_simps dest: bit_imp_le_length)
  ultimately have "(ucast b AND 0xe0 :: u32) = push_bit 5 (ucast (drop_bit 5 b))" by simp
  then show ?thesis by (simp only: push_bit_push_bit) simp
qed

lemma unat_and_31: "unat (b AND 0x1f :: byte) = unat b mod 32"
  using unat_and_mask [of b 5] by (simp add: mask_eq_exp_minus_1)

definition tag_bits :: "byte \<Rightarrow> u32" where
  "tag_bits b = push_bit 24 (ucast b AND 0xe0)"

lemma tag_eq_iff:
  assumes "unat n < 2 ^ 29"
  shows "tag_bits b OR n = tag \<longleftrightarrow>
    unat tag div 2 ^ 29 = unat b div 32 \<and> unat tag mod 2 ^ 29 = unat n"
proof -
  have "unat b div 32 < 8" by (simp add: less_mult_imp_div_less)
  then have "unat (tag_bits b OR n) = unat b div 32 * 2 ^ 29 + unat n"
    using assms unat_push_or [of "ucast (drop_bit 5 b) :: u32" 29 n]
    unfolding tag_bits_def tag_shift by (simp add: unat_drop_bit)
  then have "tag_bits b OR n = tag \<longleftrightarrow> unat b div 32 * 2 ^ 29 + unat n = unat tag"
    by (metis unsigned_word_eqI)
  then show ?thesis using assms by (simp add: div_mod_split)
qed

lemma der_tag_first:
  "b = (word_of_nat (32 * (unat (tag :: u32) div 2 ^ 29) + k) :: byte) \<longleftrightarrow>
     unat tag div 2 ^ 29 = unat b div 32 \<and> k = unat b mod 32" if "k < 32"
proof -
  have "unat tag < 2 ^ 32" using unsigned_less [of tag] by simp
  then have "unat tag div 2 ^ 29 < 8" by (simp add: less_mult_imp_div_less)
  then have "32 * (unat tag div 2 ^ 29) + k < 256" using that by simp
  then have "b = word_of_nat (32 * (unat tag div 2 ^ 29) + k) \<longleftrightarrow>
      unat tag div 2 ^ 29 * 32 + k = unat b"
    unfolding byte_of_unat_eq_iff by (auto simp: mult.commute)
  then show ?thesis using that by (auto simp: div_mod_split)
qed

lemma der_tag_Cons_iff:
  "b # t = der_tag tag @ rest \<longleftrightarrow>
     unat tag div 2 ^ 29 = unat b div 32 \<and>
     (if unat tag mod 2 ^ 29 < 31 then unat tag mod 2 ^ 29 = unat b mod 32 \<and> t = rest
      else unat b mod 32 = 31 \<and> t = base128 (unat tag mod 2 ^ 29) @ rest)"
proof (cases "unat tag mod 2 ^ 29 < 31")
  case True
  then have "b # t = der_tag tag @ rest \<longleftrightarrow>
      b = word_of_nat (32 * (unat tag div 2 ^ 29) + unat tag mod 2 ^ 29) \<and> t = rest"
    by (simp add: der_tag_def Let_def del: of_nat_add of_nat_mult)
  then show ?thesis
    using True der_tag_first [of "unat tag mod 2 ^ 29" b tag] by auto
next
  case False
  then have "b # t = der_tag tag @ rest \<longleftrightarrow>
      b = word_of_nat (32 * (unat tag div 2 ^ 29) + 31) \<and> t = base128 (unat tag mod 2 ^ 29) @ rest"
    by (simp add: der_tag_def Let_def del: of_nat_add of_nat_mult)
  then show ?thesis
    using False der_tag_first [of 31 b tag] by auto
qed

lemma parse_asn1_tag_low:
  assumes "unat b mod 32 \<noteq> 31"
  shows "parse_asn1_tag (b # t) = (Some (tag_bits b OR ucast (b AND 0x1f)), t)"
proof -
  have "unat (ucast (b AND 0x1f) :: u32) \<noteq> unat (0x1f :: u32)"
    using assms by (simp only: unat_ucast_up_byte unat_and_31) simp
  then have "(ucast (b AND 0x1f) :: u32) \<noteq> 0x1f" by metis
  then show ?thesis
    unfolding parse_asn1_tag_def CBS_ASN1_TAG_SHIFT_def Let_def tag_bits_def [symmetric]
    by (simp add: andthen_Some ret_def)
qed

lemma parse_asn1_tag_high:
  assumes "unat b mod 32 = 31"
  shows "parse_asn1_tag (b # t) = andthen parse_base128_integer
    (\<lambda>v. if 2 ^ 29 \<le> unat v \<or> unat v < 31 then fail else ret (tag_bits b OR ucast v)) t"
proof -
  have "unat (ucast (b AND 0x1f) :: u32) = unat (0x1f :: u32)"
    using assms by (simp only: unat_ucast_up_byte unat_and_31) simp
  then have num: "(ucast (b AND 0x1f) :: u32) = 0x1f" by (rule unsigned_word_eqI)
  have "ucast CBS_ASN1_TAG_NUMBER_MASK = (2 ^ 29 - 1 :: u64)"
    by (simp add: CBS_ASN1_TAG_NUMBER_MASK_def CBS_ASN1_TAG_SHIFT_def)
  then have "(v > ucast CBS_ASN1_TAG_NUMBER_MASK \<or> v < 0x1f) \<longleftrightarrow>
      (2 ^ 29 \<le> unat v \<or> unat v < 31)" for v :: u64
    by (auto simp: word_less_nat_alt)
  with num show ?thesis
    unfolding parse_asn1_tag_def CBS_ASN1_TAG_SHIFT_def Let_def tag_bits_def [symmetric]
    by (simp add: andthen_Some)
qed

lemma parse_asn1_tag_Cons:
  "parse_asn1_tag (b # t) = (Some tag, rest) \<longleftrightarrow> b # t = der_tag tag @ rest"
proof (cases "unat b mod 32 = 31")
  case False
  then have "unat b mod 32 < 31" using mod_less_divisor [of 32 "unat b"] by linarith
  moreover have "unat (ucast (b AND 0x1f) :: u32) = unat b mod 32"
    by (simp only: unat_ucast_up_byte unat_and_31)
  ultimately show ?thesis
    using False tag_eq_iff [of "ucast (b AND 0x1f)" b tag]
    unfolding der_tag_Cons_iff parse_asn1_tag_low [OF False] by auto
next
  case True
  have "unat (ucast v :: u32) = unat v" if "unat v < 2 ^ 29" for v :: u64
    using that by (simp add: unat_ucast_mod)
  then have tag: "tag = tag_bits b OR ucast v \<longleftrightarrow>
      unat tag div 2 ^ 29 = unat b div 32 \<and> unat tag mod 2 ^ 29 = unat v"
    if "unat v < 2 ^ 29" for v :: u64
    using that tag_eq_iff [of "ucast v" b tag] by (metis (no_types))
  have "parse_asn1_tag (b # t) = (Some tag, rest) \<longleftrightarrow>
      (\<exists>v :: u64. t = base128 (unat v) @ rest \<and> unat v < 2 ^ 29 \<and> 31 \<le> unat v \<and>
         tag = tag_bits b OR ucast v)"
    unfolding parse_asn1_tag_high [OF True] andthen_Some_iff parse_base128_integer_Some_iff
    by (auto simp: not_less not_le split: if_splits)
  also have "\<dots> \<longleftrightarrow> (\<exists>v :: u64. t = base128 (unat v) @ rest \<and> unat v < 2 ^ 29 \<and> 31 \<le> unat v \<and>
      unat tag div 2 ^ 29 = unat b div 32 \<and> unat tag mod 2 ^ 29 = unat v)"
    using tag by blast
  also have "\<dots> \<longleftrightarrow> t = base128 (unat tag mod 2 ^ 29) @ rest \<and> 31 \<le> unat tag mod 2 ^ 29 \<and>
      unat tag div 2 ^ 29 = unat b div 32"
  proof
    assume "t = base128 (unat tag mod 2 ^ 29) @ rest \<and> 31 \<le> unat tag mod 2 ^ 29 \<and>
      unat tag div 2 ^ 29 = unat b div 32"
    moreover have "unat tag mod 2 ^ 29 < 2 ^ 29" by simp
    then have "unat (word_of_nat (unat tag mod 2 ^ 29) :: u64) = unat tag mod 2 ^ 29"
      by (intro unat_word_of_nat_64) simp
    ultimately show "\<exists>v :: u64. t = base128 (unat v) @ rest \<and> unat v < 2 ^ 29 \<and> 31 \<le> unat v \<and>
        unat tag div 2 ^ 29 = unat b div 32 \<and> unat tag mod 2 ^ 29 = unat v"
      by (intro exI [of _ "word_of_nat (unat tag mod 2 ^ 29)"]) simp
  qed auto
  finally show ?thesis
    unfolding der_tag_Cons_iff using True by auto
qed

lemma parse_asn1_tag_Some_iff:
  "parse_asn1_tag s = (Some tag, rest) \<longleftrightarrow> s = der_tag tag @ rest"
proof (cases s)
  case Nil
  then show ?thesis by (auto simp: parse_asn1_tag_def andthen_def der_tag_def Let_def)
next
  case (Cons b t)
  then show ?thesis by (simp add: parse_asn1_tag_Cons)
qed

section \<open>Lengths\<close>

lemma be_nat_Cons: "be_nat (b # t) = unat b * 256 ^ length t + be_nat t"
proof (induction t rule: rev_induct)
  case (snoc c t)
  have "be_nat (b # t @ [c]) = be_nat (b # t) * 256 + unat c"
    using be_nat_snoc [of "b # t" c] by simp
  with snoc show ?case by (simp add: algebra_simps)
qed simp

lemma be_nat_Cons_less_iff: "be_nat (b # t) < 256 ^ length t \<longleftrightarrow> b = 0"
proof (cases "b = 0")
  case True
  then show ?thesis using be_nat_less [of t] by (simp add: be_nat_Cons)
next
  case False
  then have "1 \<le> unat b" by (simp add: Suc_le_eq unat_pos_iff)
  then have "1 * 256 ^ length t \<le> unat b * 256 ^ length t" by (rule mult_le_mono1)
  with False show ?thesis by (simp add: be_nat_Cons not_less trans_le_add1)
qed

lemma drop_top_byte:
  assumes "length bs \<le> 8" "bs \<noteq> []"
  shows "drop_bit ((length bs - 1) * 8) (be_word bs) = 0 \<longleftrightarrow> hd bs = 0"
proof -
  obtain b t where bs: "bs = b # t" using assms(2) by (cases bs) auto
  have "(2::nat) ^ (length t * 8) = 256 ^ length t"
    using power_mult [of "2::nat" 8 "length t"] by (simp add: mult.commute [of 8])
  then show ?thesis
    using assms unfolding drop_bit_eq_0_iff
    by (simp add: unat_be_word bs be_nat_Cons_less_iff)
qed

lemma be_bytes_not_minimal:
  assumes "be_nat bs = n" "bs \<noteq> []"
  shows "be_bytes n = bs \<longleftrightarrow> hd bs \<noteq> 0"
  using assms be_bytes_unique [of bs] be_bytes_hd [of n] be_bytes_0 by (metis be_bytes_eq_Nil_iff)

text \<open>
  In DER mode the length parser accepts exactly the canonical length octets, for contents of
  up to 4 GiB.
\<close>

lemma asn1_length_short:
  "length_byte AND 0x80 = 0 \<Longrightarrow> asn1_length ber_ok tag h (length_byte # s) =
     (Some (ucast length_byte + word_of_nat (h + 1), h + 1, False), s)"
  by (simp add: asn1_length_def andthen_Some Let_def ret_def)

lemma asn1_length_long:
  assumes "length_byte AND 0x80 \<noteq> 0" and num: "num = unat (length_byte AND 0x7f)"
  shows "asn1_length False tag h (length_byte # s) =
    (if num = 0 \<or> 4 < num then (None, s)
     else andthen (cbs_get_u num) (\<lambda>len64.
         if len64 < 128 \<or> drop_bit ((num - 1) * 8) len64 = 0 then fail
         else
           let len = len64 + word_of_nat (h + 1) + word_of_nat num in
           if len < len64 then fail else ret (len, h + 1 + num, False)) s)"
  using assms
  by (auto simp: asn1_length_def andthen_def fail_def Let_def
      split: prod.splits option.splits)

lemma length_der_len: "n < 2 ^ 32 \<Longrightarrow> 1 \<le> length (der_len n) \<and> length (der_len n) \<le> 5"
  using length_be_bytes_le_iff [of n 4] by (auto simp: der_len_def)

lemma unat_add_64:
  "unat a + unat b < 2 ^ 64 \<Longrightarrow> unat (a + b :: u64) = unat a + unat b"
  by (simp add: unat_word_ariths)

lemma der_len_Cons_short:
  assumes "unat lb < 128" "n < 2 ^ 32"
  shows "lb # t = der_len n @ rest \<longleftrightarrow> n = unat lb \<and> t = rest"
proof (cases "n < 128")
  case True
  then show ?thesis by (auto simp: der_len_def byte_of_unat_eq_iff)
next
  case False
  have "length (be_bytes n) \<le> 4" using assms(2) length_be_bytes_le_iff [of n 4] by simp
  with False assms show ?thesis by (auto simp: der_len_def byte_of_unat_eq_iff simp del: of_nat_add)
qed

lemma der_len_Cons_long:
  assumes "128 \<le> unat lb" "n < 2 ^ 32"
  shows "lb # t = der_len n @ rest \<longleftrightarrow>
    128 \<le> n \<and> unat lb = 128 + length (be_bytes n) \<and> t = be_bytes n @ rest"
proof -
  have "length (be_bytes n) \<le> 4" using assms(2) length_be_bytes_le_iff [of n 4] by simp
  with assms show ?thesis by (auto simp: der_len_def byte_of_unat_eq_iff simp del: of_nat_add)
qed

lemma asn1_length_der_short:
  assumes "unat lb < 128" "h < 2 ^ 32"
  shows "asn1_length False tag h (lb # t) = (Some (len, hl, bf), rest) \<longleftrightarrow>
    (\<exists>n. n < 2 ^ 32 \<and> lb # t = der_len n @ rest \<and> hl = h + length (der_len n) \<and>
       unat len = n + hl \<and> \<not> bf)"
proof -
  have "unat (ucast lb + word_of_nat (h + 1) :: u64) = unat lb + (h + 1)"
    using assms by (subst unat_add_64) (simp_all del: of_nat_add of_nat_Suc add: unat_word_of_nat_64)
  then have "len = ucast lb + word_of_nat (h + 1) \<longleftrightarrow> unat len = unat lb + (h + 1)"
    unfolding word_eq_iff_unat [of len] by simp
  then have "asn1_length False tag h (lb # t) = (Some (len, hl, bf), rest) \<longleftrightarrow>
      unat len = unat lb + (h + 1) \<and> hl = h + 1 \<and> \<not> bf \<and> t = rest"
    using assms by (auto simp: asn1_length_short high_bit_iff simp del: of_nat_add of_nat_Suc)
  also have "\<dots> \<longleftrightarrow> (\<exists>n. n < 2 ^ 32 \<and> lb # t = der_len n @ rest \<and> hl = h + length (der_len n) \<and>
       unat len = n + hl \<and> \<not> bf)"
  proof -
    have "length (der_len (unat lb)) = 1" using assms by (simp add: der_len_def)
    moreover have "unat lb < 2 ^ 32" using assms by simp
    ultimately show ?thesis
      by (auto simp: der_len_Cons_short [OF assms(1)] simp del: append_Cons cong: conj_cong)
  qed
  finally show ?thesis .
qed

lemma asn1_length_der_long:
  assumes lb: "128 \<le> unat lb" and h: "h < 2 ^ 32"
  shows "asn1_length False tag h (lb # t) = (Some (len, hl, bf), rest) \<longleftrightarrow>
    (\<exists>n. n < 2 ^ 32 \<and> lb # t = der_len n @ rest \<and> hl = h + length (der_len n) \<and>
       unat len = n + hl \<and> \<not> bf)"
proof -
  define num where "num = unat lb - 128"
  have num: "unat (lb AND 0x7f) = num" "unat lb = 128 + num"
  proof -
    have "unat lb - 128 < 128" using byte_less [of lb] by linarith
    moreover have "unat lb mod 128 = (unat lb - 128) mod 128" using lb by (rule le_mod_geq)
    ultimately show "unat (lb AND 0x7f) = num" by (simp add: low_bits num_def)
    show "unat lb = 128 + num" using lb by (simp add: num_def)
  qed
  have hi: "lb AND 0x80 \<noteq> 0" using lb by (simp add: high_bit_iff)
  have body: "(\<lambda>len64. if len64 < 128 \<or> drop_bit ((num - 1) * 8) len64 = 0 then fail
         else
           let len = len64 + word_of_nat (h + 1) + word_of_nat num in
           if len < len64 then fail else ret (len, h + 1 + num, False)) (be_word bs) s1
        = (Some (len, hl, bf), rest) \<longleftrightarrow>
      128 \<le> be_nat bs \<and> hd bs \<noteq> 0 \<and> hl = h + 1 + num \<and> unat len = be_nat bs + hl \<and> \<not> bf \<and> s1 = rest"
    if bs: "length bs = num" "num \<noteq> 0" "num \<le> 4" for bs s1
  proof -
    have v: "unat (be_word bs) = be_nat bs" using bs by (simp add: unat_be_word)
    have "be_nat bs < 256 ^ 4"
      using bs be_nat_less [of bs] length_be_bytes_le_iff
      by (meson le_less_trans less_le_trans not_le one_less_numeral_iff power_increasing semiring_norm(76) numeral_le_iff one_le_numeral)
    then have "unat (be_word bs + word_of_nat (h + 1) + word_of_nat num :: u64) = be_nat bs + (h + 1) + num"
      using h bs by (subst unat_add_64, subst unat_add_64)
         (simp_all del: of_nat_add of_nat_Suc add: v, subst unat_add_64, simp_all del: of_nat_add of_nat_Suc add: v)
    then have "len = be_word bs + word_of_nat (h + 1) + word_of_nat num \<longleftrightarrow>
        unat len = be_nat bs + (h + 1) + num"
      and "\<not> be_word bs + word_of_nat (h + 1) + word_of_nat num < be_word bs"
      unfolding word_eq_iff_unat [of len] word_less_nat_alt using v by simp_all
    moreover have "drop_bit ((num - 1) * 8) (be_word bs) = 0 \<longleftrightarrow> hd bs = 0"
      using drop_top_byte [of bs] bs by auto
    ultimately show ?thesis
      using v unfolding Let_def word_less_nat_alt [of _ 128]
      by (auto simp: not_less simp del: of_nat_add of_nat_Suc)
  qed
  show ?thesis
  proof
    assume "asn1_length False tag h (lb # t) = (Some (len, hl, bf), rest)"
    then have "num \<noteq> 0" "num \<le> 4" and "andthen (cbs_get_u num) (\<lambda>len64.
         if len64 < 128 \<or> drop_bit ((num - 1) * 8) len64 = 0 then fail
         else
           let len = len64 + word_of_nat (h + 1) + word_of_nat num in
           if len < len64 then fail else ret (len, h + 1 + num, False)) t = (Some (len, hl, bf), rest)"
      using asn1_length_long [OF hi num(1) [symmetric], of tag h t] by (auto split: if_splits)
    then obtain bs where bs: "length bs = num" and t: "t = bs @ rest"
      and res: "128 \<le> be_nat bs" "hd bs \<noteq> 0" "hl = h + 1 + num" "unat len = be_nat bs + hl" "\<not> bf"
      unfolding andthen_Some_iff cbs_get_u_Some_iff using body by blast
    have "be_bytes (be_nat bs) = bs" using res by (simp add: be_bytes_unique)
    moreover have "be_nat bs < 2 ^ 32"
      using length_be_bytes_le_iff [of "be_nat bs" 4] calculation bs \<open>num \<le> 4\<close> by simp
    ultimately show "\<exists>n. n < 2 ^ 32 \<and> lb # t = der_len n @ rest \<and> hl = h + length (der_len n) \<and>
       unat len = n + hl \<and> \<not> bf"
      using res bs num t lb der_len_Cons_long [of lb "be_nat bs" t rest]
      by (intro exI [of _ "be_nat bs"]) (simp add: der_len_def)
  next
    assume "\<exists>n. n < 2 ^ 32 \<and> lb # t = der_len n @ rest \<and> hl = h + length (der_len n) \<and>
       unat len = n + hl \<and> \<not> bf"
    then obtain n where n: "n < 2 ^ 32" "lb # t = der_len n @ rest" "hl = h + length (der_len n)"
      "unat len = n + hl" "\<not> bf" by blast
    then have "128 \<le> n" and num_eq: "num = length (be_bytes n)" and t: "t = be_bytes n @ rest"
      using der_len_Cons_long [OF lb, of n t rest] num by auto
    then have "num \<noteq> 0" "num \<le> 4" "hd (be_bytes n) \<noteq> 0"
      using n(1) length_be_bytes_le_iff [of n 4] be_bytes_hd [of n] by auto
    moreover have "hl = h + 1 + num"
      using n \<open>128 \<le> n\<close> num_eq by (simp add: der_len_def)
    moreover have "cbs_get_u num t = (Some (be_word (be_bytes n)), rest)"
      using t num_eq by (auto simp: cbs_get_u_Some_iff)
    ultimately show "asn1_length False tag h (lb # t) = (Some (len, hl, bf), rest)"
      using asn1_length_long [OF hi num(1) [symmetric], of tag h t]
        body [of "be_bytes n" rest] num_eq n \<open>128 \<le> n\<close>
      by (simp only: andthen_Some not_less if_False be_nat_be_bytes simp_thms) (simp add: not_less)
  qed
qed

lemma asn1_length_der_iff:
  assumes "h < 2 ^ 32"
  shows "asn1_length False tag h s = (Some (len, hl, bf), rest) \<longleftrightarrow>
    (\<exists>n. n < 2 ^ 32 \<and> s = der_len n @ rest \<and> hl = h + length (der_len n) \<and>
       unat len = n + hl \<and> \<not> bf)"
proof (cases s)
  case Nil
  then show ?thesis by (auto simp: asn1_length_def andthen_def der_len_def)
next
  case (Cons lb t)
  then show ?thesis
    using asn1_length_der_short [OF _ assms] asn1_length_der_long [OF _ assms]
    by (cases "unat lb < 128") (simp_all only: not_less)
qed

section \<open>Elements\<close>

lemma length_base128: "n < 128 ^ Suc k \<Longrightarrow> length (base128 n) \<le> Suc k"
proof (induction k arbitrary: n)
  case 0
  then show ?case by (simp add: base128_small)
next
  case (Suc k)
  then have "n div 128 < 128 ^ Suc k" by (simp add: less_mult_imp_div_less mult.commute)
  with Suc.IH [of "n div 128"] show ?case by (simp add: base128.simps [of n])
qed

lemma length_der_tag: "length (der_tag tag) \<le> 6"
proof -
  have "unat tag mod 2 ^ 29 < 2 ^ 29" by simp
  then have "length (base128 (unat tag mod 2 ^ 29)) \<le> 5"
    using length_base128 [of "unat tag mod 2 ^ 29" 4] by simp
  then show ?thesis by (simp add: der_tag_def Let_def)
qed

lemma get_any_asn1_element_der_iff:
  "cbs_get_any_asn1_element False s = (Some (out, tag, hl, bf), rest) \<longleftrightarrow>
    (\<exists>body. out = der tag body \<and> s = out @ rest \<and> length body < 2 ^ 32 \<and>
       hl = length (der_tag tag) + length (der_len (length body)) \<and> \<not> bf)"
proof
  assume "cbs_get_any_asn1_element False s = (Some (out, tag, hl, bf), rest)"
  then obtain header len r where tag: "parse_asn1_tag s = (Some tag, header)"
    and len: "asn1_length False tag (length s - length header) header = (Some (len, hl, bf), r)"
    and bytes: "CBS_get_bytes (unat len) s = (Some out, rest)"
    by (auto simp: cbs_get_any_asn1_element_def andthen_Some_iff CBS_len_def
        split: prod.splits option.splits)
  have s: "s = der_tag tag @ header" using tag by (simp add: parse_asn1_tag_Some_iff)
  then have "length s - length header = length (der_tag tag)" by simp
  with len obtain n where n: "n < 2 ^ 32" "header = der_len n @ r"
    "hl = length (der_tag tag) + length (der_len n)" "unat len = n + hl" "\<not> bf"
    using length_der_tag [of tag] by (auto simp: asn1_length_der_iff)
  have out: "length out = n + hl" "s = out @ rest"
    using bytes n by (auto simp: CBS_get_bytes_Some_iff)
  define body where "body = drop hl out"
  have "take hl (out @ rest) = take hl (der_tag tag @ der_len n @ r)"
    using out(2) s n(2) by (simp only: append_assoc)
  moreover have "take hl (out @ rest) = take hl out" using out(1) by simp
  moreover have "take hl (der_tag tag @ der_len n @ r) = der_tag tag @ der_len n"
    using n(3) by simp
  ultimately have "take hl out = der_tag tag @ der_len n" by (simp only:)
  then have "out = (der_tag tag @ der_len n) @ body"
    using append_take_drop_id [of hl out] unfolding body_def by (simp only:)
  moreover have "length body = n" using out by (simp add: body_def)
  ultimately show "\<exists>body. out = der tag body \<and> s = out @ rest \<and> length body < 2 ^ 32 \<and>
       hl = length (der_tag tag) + length (der_len (length body)) \<and> \<not> bf"
    using n out by (intro exI [of _ body]) (simp add: der_def)
next
  assume "\<exists>body. out = der tag body \<and> s = out @ rest \<and> length body < 2 ^ 32 \<and>
       hl = length (der_tag tag) + length (der_len (length body)) \<and> \<not> bf"
  then obtain body where out: "out = der tag body" "s = out @ rest" and n: "length body < 2 ^ 32"
    and hl: "hl = length (der_tag tag) + length (der_len (length body))" "\<not> bf" by blast
  define header len where "header = der_len (length body) @ body @ rest"
    and "len = (word_of_nat (length body + hl) :: u64)"
  have s: "s = der_tag tag @ header" using out by (simp add: der_def header_def)
  have hl_le: "hl \<le> 11" using hl length_der_tag [of tag] length_der_len [OF n] by simp
  then have len: "unat len = length body + hl" using n by (simp add: len_def del: of_nat_add)
  have "asn1_length False tag (length (der_tag tag)) header = (Some (len, hl, bf), body @ rest)"
    using n hl len length_der_tag [of tag] by (subst asn1_length_der_iff) (auto simp: header_def)
  moreover have "CBS_get_bytes (unat len) s = (Some out, rest)"
    using out hl len by (simp add: CBS_get_bytes_Some_iff der_def)
  moreover have "parse_asn1_tag s = (Some tag, header)"
    using s by (simp add: parse_asn1_tag_Some_iff)
  ultimately show "cbs_get_any_asn1_element False s = (Some (out, tag, hl, bf), rest)"
    using hl by (simp add: cbs_get_any_asn1_element_def CBS_len_def s andthen_Some)
qed

lemma CBS_get_any_asn1_element_Some_iff:
  "CBS_get_any_asn1_element s = (Some (out, tag, hl), rest) \<longleftrightarrow>
    (\<exists>body. out = der tag body \<and> s = out @ rest \<and> length body < 2 ^ 32 \<and>
       hl = length (der_tag tag) + length (der_len (length body)))"
  by (auto simp: CBS_get_any_asn1_element_def andthen_Some_iff get_any_asn1_element_der_iff)

lemma CBS_skip_header:
  "hl = length (der_tag tag) + length (der_len (length body)) \<Longrightarrow>
    CBS_skip hl (der tag body) = (Some (), body)"
  by (simp add: CBS_skip_def andthen_def cbs_get_def der_def ret_def)

lemma CBS_get_any_asn1_Some_iff:
  "CBS_get_any_asn1 s = (Some (contents, tag), rest) \<longleftrightarrow>
    s = der tag contents @ rest \<and> length contents < 2 ^ 32"
proof
  assume "CBS_get_any_asn1 s = (Some (contents, tag), rest)"
  then show "s = der tag contents @ rest \<and> length contents < 2 ^ 32"
    by (auto simp: CBS_get_any_asn1_def andthen_Some_iff CBS_get_any_asn1_element_Some_iff
        CBS_skip_header)
next
  assume "s = der tag contents @ rest \<and> length contents < 2 ^ 32"
  then have "CBS_get_any_asn1_element s = (Some (der tag contents, tag,
      length (der_tag tag) + length (der_len (length contents))), rest)"
    by (auto simp: CBS_get_any_asn1_element_Some_iff)
  then show "CBS_get_any_asn1 s = (Some (contents, tag), rest)"
    by (simp add: CBS_get_any_asn1_def andthen_Some CBS_skip_header)
qed

lemma cbs_get_asn1_der:
  assumes "length body < 2 ^ 32"
  shows "cbs_get_asn1 tag skip_header (der tag' body @ rest) =
    (if tag' \<noteq> tag then (None, rest)
     else (Some (if skip_header then body else der tag body), rest))"
proof -
  have "CBS_get_any_asn1_element (der tag' body @ rest) = (Some (der tag' body, tag',
      length (der_tag tag') + length (der_len (length body))), rest)"
    using assms by (auto simp: CBS_get_any_asn1_element_Some_iff)
  then show ?thesis
    by (simp add: cbs_get_asn1_def andthen_Some CBS_skip_header fail_def ret_def)
qed

lemma CBS_get_asn1_Some_iff:
  "CBS_get_asn1 tag s = (Some contents, rest) \<longleftrightarrow>
    s = der tag contents @ rest \<and> length contents < 2 ^ 32"
proof
  assume l: "CBS_get_asn1 tag s = (Some contents, rest)"
  then obtain out tag' hl r where "CBS_get_any_asn1_element s = (Some (out, tag', hl), r)"
    by (auto simp: CBS_get_asn1_def cbs_get_asn1_def andthen_Some_iff)
  then obtain body where "s = der tag' body @ r" "length body < 2 ^ 32"
    by (auto simp: CBS_get_any_asn1_element_Some_iff)
  with l show "s = der tag contents @ rest \<and> length contents < 2 ^ 32"
    by (auto simp: CBS_get_asn1_def cbs_get_asn1_der split: if_splits)
qed (simp add: CBS_get_asn1_def cbs_get_asn1_der)

text \<open>A failed parse of an element leaves the object where it was.\<close>

lemma get_any_asn1_element_None:
  "cbs_get_any_asn1_element ber_ok s = (None, s') \<Longrightarrow> s' = s"
  by (auto simp: cbs_get_any_asn1_element_def andthen_def CBS_get_bytes_def cbs_get_def ret_def
      split: prod.splits option.splits if_splits)

lemma CBS_get_any_asn1_element_None:
  "CBS_get_any_asn1_element s = (None, s') \<Longrightarrow> s' = s"
  by (auto simp: CBS_get_any_asn1_element_def andthen_def ret_def
      dest: get_any_asn1_element_None split: prod.splits option.splits)

interpretation any_asn1_element: reader CBS_get_any_asn1_element
proof unfold_locales
  show "suffix (snd (CBS_get_any_asn1_element s)) s" for s
  proof (cases "CBS_get_any_asn1_element s")
    case (Pair r s')
    show ?thesis
    proof (cases r)
      case None
      with Pair show ?thesis using CBS_get_any_asn1_element_None by auto
    next
      case (Some v)
      with Pair have "\<exists>u. s = u @ s'"
        by (cases v) (auto simp: CBS_get_any_asn1_element_Some_iff)
      with Pair show ?thesis by (auto simp: suffix_def)
    qed
  qed
  show "CBS_get_any_asn1_element (u @ s) = (Some v, s) \<Longrightarrow>
      CBS_get_any_asn1_element (u @ t) = (Some v, t)" for u s v t
    by (cases v) (auto simp: CBS_get_any_asn1_element_Some_iff)
qed

interpretation get_asn1: reader "CBS_get_asn1 tag"
  unfolding CBS_get_asn1_def cbs_get_asn1_def
  by (intro reader_andthen any_asn1_element.reader_axioms)
     (auto intro!: reader_intros split: prod.splits option.splits)

lemma base128_loop_suffix: "suffix (snd (parse_base128_integer_loop v s)) s"
  by (induction v s rule: parse_base128_integer_loop.induct)
     (auto simp: Let_def intro: suffix_ConsI)

interpretation parse_base128: reader parse_base128_integer
proof unfold_locales
  show "suffix (snd (parse_base128_integer s)) s" for s
    unfolding parse_base128_integer_def by (rule base128_loop_suffix)
  show "parse_base128_integer (u @ s) = (Some v, s) \<Longrightarrow> parse_base128_integer (u @ t) = (Some v, t)"
    for u s v t
    by (simp add: parse_base128_integer_Some_iff)
qed

interpretation parse_tag: reader parse_asn1_tag
  unfolding parse_asn1_tag_def Let_def
  by (intro reader_intros get_u8.reader_axioms parse_base128.reader_axioms)

section \<open>Integers in two's complement\<close>

text \<open>
  The number that the contents octets of an INTEGER stand for, and what it means that there
  is no shorter encoding of it.
\<close>

definition be_int :: "byte list \<Rightarrow> int" where
  "be_int c = int (be_nat c) - (if c \<noteq> [] \<and> 128 \<le> unat (hd c) then 256 ^ length c else 0)"

definition minimal_int :: "byte list \<Rightarrow> bool" where
  "minimal_int c \<longleftrightarrow> c \<noteq> [] \<and> (\<forall>c'. c' \<noteq> [] \<and> be_int c' = be_int c \<longrightarrow> length c \<le> length c')"

lemma be_int_Cons:
  "be_int (b # t) = (if 128 \<le> unat b then int (unat b) - 256 else int (unat b)) * 256 ^ length t
     + int (be_nat t)"
  by (simp add: be_int_def be_nat_Cons algebra_simps)

lemma be_nat_bounds: "0 \<le> int (be_nat t)" "int (be_nat t) < 256 ^ length t"
proof -
  have "int (be_nat t) < int (256 ^ length t)" using be_nat_less [of t] by (simp only: of_nat_less_iff)
  then show "int (be_nat t) < 256 ^ length t" by simp
qed simp

lemma be_int_range:
  assumes "c \<noteq> []"
  shows "- (128 * 256 ^ (length c - 1)) \<le> be_int c \<and> be_int c < 128 * 256 ^ (length c - 1)"
proof -
  obtain b t where c: "c = b # t" using assms by (cases c) auto
  define P :: int where "P = 256 ^ length t"
  define h where "h = (if 128 \<le> unat b then int (unat b) - 256 else int (unat b))"
  have P: "0 \<le> int (be_nat t)" "int (be_nat t) < P" using be_nat_bounds by (simp_all add: P_def)
  have h: "- 128 \<le> h" "h \<le> 127" using byte_less [of b] by (simp_all add: h_def del: of_nat_unat byte_less)
  have "- 128 * P \<le> h * P" "h * P \<le> 127 * P"
    using h P by (simp_all only: mult_right_mono)
  moreover have "be_int c = h * P + int (be_nat t)" "256 ^ (length c - 1) = P"
    by (simp_all add: c be_int_Cons h_def P_def)
  ultimately show ?thesis using P by (simp only:) linarith
qed

lemma be_int_drop_sign:
  assumes "b = 0 \<and> unat b2 < 128 \<or> b = 0xff \<and> 128 \<le> unat b2"
  shows "be_int (b # b2 # t) = be_int (b2 # t)"
proof -
  have "unat (0xff :: byte) = 255" by simp
  then show ?thesis
    using assms by (auto simp: be_int_Cons be_nat_Cons algebra_simps simp del: of_nat_unat)
qed

lemma be_int_sign_needed:
  assumes "\<not> (b = 0 \<and> unat b2 < 128 \<or> b = 0xff \<and> 128 \<le> unat b2)"
  shows "be_int (b # b2 # t) < - (128 * 256 ^ length t) \<or> 128 * 256 ^ length t \<le> be_int (b # b2 # t)"
proof -
  define P :: int where "P = 256 ^ length t"
  define h where "h = (if 128 \<le> unat b then int (unat b) - 256 else int (unat b))"
  define w where "w = 256 * h + int (unat b2)"
  have P: "0 \<le> int (be_nat t)" "int (be_nat t) < P" using be_nat_bounds by (simp_all add: P_def)
  have eq: "be_int (b # b2 # t) = w * P + int (be_nat t)"
    by (simp add: be_int_Cons be_nat_Cons h_def [symmetric] P_def [symmetric] w_def algebra_simps)
  have unat_255: "unat (0xff :: byte) = 255" by simp
  have h0: "h = 0 \<longleftrightarrow> b = 0" and h1: "h = - 1 \<longleftrightarrow> b = 0xff"
    using byte_less [of b] unat_255 by (auto simp: h_def word_eq_iff_unat simp del: of_nat_unat byte_less)
  have "w < - 128 \<or> 128 \<le> w"
    using assms h0 h1 byte_less [of b2] by (auto simp: w_def simp del: of_nat_unat byte_less)
  then show ?thesis
  proof
    assume "w < - 128"
    then have "w * P \<le> - 129 * P" using P by (intro mult_right_mono) simp_all
    with P eq show ?thesis unfolding P_def [symmetric] by linarith
  next
    assume "128 \<le> w"
    then have "128 * P \<le> w * P" using P by (intro mult_right_mono) simp_all
    with P eq show ?thesis unfolding P_def [symmetric] by linarith
  qed
qed

lemma CBS_is_valid_asn1_integer_Cons2:
  "CBS_is_valid_asn1_integer (b # b2 # t) \<longleftrightarrow>
     \<not> (b = 0 \<and> unat b2 < 128 \<or> b = 0xff \<and> 128 \<le> unat b2)"
  by (auto simp: CBS_is_valid_asn1_integer_def high_bit_iff not_less)

lemma valid_asn1_integer_iff_minimal: "CBS_is_valid_asn1_integer c \<longleftrightarrow> minimal_int c"
proof (cases c rule: list.exhaust [case_names Nil Cons])
  case Nil
  then show ?thesis by (simp add: CBS_is_valid_asn1_integer_def minimal_int_def)
next
  case (Cons b c1)
  show ?thesis
  proof (cases c1)
    case Nil
    with Cons show ?thesis
      by (auto simp: CBS_is_valid_asn1_integer_def minimal_int_def Suc_le_eq)
  next
    case c1: (Cons b2 t)
    show ?thesis
    proof
      assume "CBS_is_valid_asn1_integer c"
      then have out: "be_int c < - (128 * 256 ^ length t) \<or> 128 * 256 ^ length t \<le> be_int c"
        using be_int_sign_needed [of b b2 t] by (simp add: Cons c1 CBS_is_valid_asn1_integer_Cons2)
      have "length c \<le> length c'" if c': "c' \<noteq> []" "be_int c' = be_int c" for c'
      proof (rule ccontr)
        assume "\<not> length c \<le> length c'"
        then have "length c' - 1 \<le> length t" using Cons c1 by simp
        then have "(256 :: int) ^ (length c' - 1) \<le> 256 ^ length t" by (intro power_increasing) simp_all
        with be_int_range [OF c'(1)] out c'(2) show False by linarith
      qed
      with Cons show "minimal_int c" by (simp add: minimal_int_def)
    next
      assume m: "minimal_int c"
      show "CBS_is_valid_asn1_integer c"
      proof (rule ccontr)
        assume "\<not> CBS_is_valid_asn1_integer c"
        then have "be_int (b2 # t) = be_int c"
          using be_int_drop_sign [of b b2 t] by (simp add: Cons c1 CBS_is_valid_asn1_integer_Cons2)
        with m have "length c \<le> length (b2 # t)" unfolding minimal_int_def by blast
        then show False by (simp add: Cons c1)
      qed
    qed
  qed
qed

lemma is_negative_iff: "asn1_integer_is_negative c \<longleftrightarrow> c \<noteq> [] \<and> 128 \<le> unat (hd c)"
  by (cases c) (auto simp: asn1_integer_is_negative_def high_bit_iff)

lemma be_int_negative: "be_int c < 0 \<longleftrightarrow> asn1_integer_is_negative c"
proof (cases c)
  case Nil
  then show ?thesis by (simp add: be_int_def asn1_integer_is_negative_def)
next
  case (Cons b t)
  have "int (be_nat c) < 256 ^ length c" using be_nat_bounds by blast
  then show ?thesis using Cons be_nat_bounds(1) [of c] by (auto simp: is_negative_iff be_int_def)
qed

lemma minimal_int_bound:
  assumes "minimal_int c" "- (128 * 256 ^ k) \<le> be_int c" "be_int c < 128 * 256 ^ k"
  shows "length c \<le> Suc k"
proof (rule ccontr)
  assume "\<not> length c \<le> Suc k"
  then obtain b b2 t where c: "c = b # b2 # t" and t: "k \<le> length t"
    by (cases c rule: remdups_adj.cases) auto
  have "CBS_is_valid_asn1_integer c" using assms by (simp add: valid_asn1_integer_iff_minimal)
  then have "be_int c < - (128 * 256 ^ length t) \<or> 128 * 256 ^ length t \<le> be_int c"
    using be_int_sign_needed [of b b2 t] by (simp add: c CBS_is_valid_asn1_integer_Cons2)
  moreover have "(256 :: int) ^ k \<le> 256 ^ length t" using t by (intro power_increasing) simp_all
  ultimately show False using assms by linarith
qed

lemma minimal_int_unique:
  assumes "minimal_int c" "minimal_int c'" "be_int c = be_int c'"
  shows "c = c'"
proof -
  have ne: "c \<noteq> []" "c' \<noteq> []" and len: "length c = length c'"
    using assms unfolding minimal_int_def by (auto intro: antisym)
  have sign: "128 \<le> unat (hd c) \<longleftrightarrow> 128 \<le> unat (hd c')"
    using be_int_negative [of c] be_int_negative [of c'] assms(3) ne by (simp add: is_negative_iff)
  then have "be_nat c = be_nat c'" using assms(3) ne len by (simp add: be_int_def split: if_splits)
  with len show ?thesis
  proof (induction c c' rule: rev_induct2)
    case (4 x xs y ys)
    then have "be_nat xs * 256 + unat x = be_nat ys * 256 + unat y" by simp
    then have "(be_nat xs * 256 + unat x) div 256 = (be_nat ys * 256 + unat y) div 256"
      "(be_nat xs * 256 + unat x) mod 256 = (be_nat ys * 256 + unat y) mod 256" by simp_all
    then have "be_nat xs = be_nat ys" "unat x = unat y" by simp_all
    with 4 show ?case by (simp add: word_eq_iff_unat)
  qed simp_all
qed

section \<open>INTEGER readers\<close>

lemma asn1_uint64_loop_Some_iff:
  "asn1_uint64_loop out bytes = Some v \<longleftrightarrow>
     unat out * 256 ^ length bytes + be_nat bytes = unat v"
proof (induction out bytes rule: asn1_uint64_loop.induct)
  case (2 out b bytes)
  show ?case
  proof (cases "unat out < 2 ^ 56")
    case True
    then have "unat (push_bit 8 out OR ucast b) = unat out * 256 + unat b"
      using byte_less [of b] by (subst unat_push_or) (simp_all del: byte_less)
    with 2 True show ?thesis by (simp add: drop_bit_eq_0_iff be_nat_Cons algebra_simps)
  next
    case False
    have "(1::nat) \<le> 256 ^ length bytes" by simp
    then have "2 ^ 56 * 256 * 1 \<le> unat out * 256 * 256 ^ length bytes"
      using False by (intro mult_le_mono) simp_all
    then have "2 ^ 64 \<le> unat out * 256 ^ length (b # bytes)" by (simp add: mult.assoc)
    moreover have "unat v < 2 ^ 64" using unsigned_less [of v] by simp
    ultimately show ?thesis using False by (simp add: drop_bit_eq_0_iff)
  qed
qed (auto simp: word_eq_iff_unat)

lemma CBS_get_asn1_uint64_Some_iff:
  "CBS_get_asn1_uint64 s = (Some v, rest) \<longleftrightarrow>
     (\<exists>c. s = der CBS_ASN1_INTEGER c @ rest \<and> length c < 2 ^ 32 \<and> minimal_int c \<and>
        be_int c = int (unat v))"
proof -
  have "be_int c = int (unat v) \<longleftrightarrow> \<not> asn1_integer_is_negative c \<and> be_nat c = unat v" for c
  proof (cases "asn1_integer_is_negative c")
    case True
    then have "be_int c < 0" by (simp add: be_int_negative)
    moreover have "0 \<le> int (unat v)" by (rule of_nat_0_le_iff)
    ultimately have "be_int c \<noteq> int (unat v)" by linarith
    with True show ?thesis by simp
  next
    case False
    then show ?thesis by (auto simp: be_int_def is_negative_iff simp del: of_nat_unat)
  qed
  note pos = this
  have body: "(if \<not> CBS_is_unsigned_asn1_integer c then fail
     else case asn1_uint64_loop 0 c of None \<Rightarrow> fail | Some out \<Rightarrow> ret out) r = (Some v, rest) \<longleftrightarrow>
      minimal_int c \<and> be_int c = int (unat v) \<and> r = rest" for c r
  proof -
    have "asn1_uint64_loop 0 c = Some v \<longleftrightarrow> be_nat c = unat v"
      by (simp add: asn1_uint64_loop_Some_iff)
    moreover have "CBS_is_unsigned_asn1_integer c \<longleftrightarrow> minimal_int c \<and> \<not> asn1_integer_is_negative c"
      by (simp add: CBS_is_unsigned_asn1_integer_def valid_asn1_integer_iff_minimal)
    ultimately show ?thesis
      unfolding pos by (cases "asn1_uint64_loop 0 c") auto
  qed
  show ?thesis
    unfolding CBS_get_asn1_uint64_def andthen_Some_iff CBS_get_asn1_Some_iff body by blast
qed

lemma fold_list_update:
  "n \<le> length u \<Longrightarrow> fold (\<lambda>i u. u[i := f i]) [0..<n] u = map f [0..<n] @ drop n u"
  by (induction n) (auto simp: list_update_append Cons_nth_drop_Suc [symmetric])

lemma int64_bytes:
  assumes "length bytes \<le> 8"
  shows "fold (\<lambda>i u. u[i := bytes ! (CBS_len bytes - i - 1)]) [0..<CBS_len bytes] (replicate 8 e)
    = rev (replicate (8 - length bytes) e @ bytes)"
proof -
  have "map (\<lambda>i. bytes ! (length bytes - i - 1)) [0..<length bytes] = rev bytes"
    by (rule nth_equalityI) (simp_all add: rev_nth)
  then show ?thesis using assms by (subst fold_list_update) (simp_all add: CBS_len_def)
qed

lemma le_word_rev: "le_word (rev bytes) = be_word bytes"
  by (simp add: le_word_def be_word_def foldr_conv_fold)

lemma be_int_sign_extend:
  "bytes \<noteq> [] \<Longrightarrow> e = (if asn1_integer_is_negative bytes then 0xff else 0) \<Longrightarrow>
     be_int (replicate k e @ bytes) = be_int bytes"
proof (induction k)
  case (Suc k)
  obtain b2 t where bt: "replicate k e @ bytes = b2 # t" using Suc.prems by (cases k; cases bytes) auto
  then have "unat b2 < 128 \<longleftrightarrow> \<not> asn1_integer_is_negative bytes"
    using Suc.prems by (cases k; cases bytes) (auto simp: is_negative_iff)
  with Suc bt show ?case
    using be_int_drop_sign [of e b2 t] by (auto simp: not_less)
qed simp

lemma sint_u64: "sint (v :: u64) = (if 2 ^ 63 \<le> unat v then int (unat v) - 2 ^ 64 else int (unat v))"
proof -
  have "sint v = signed_take_bit 63 (uint v)" by (simp add: sint_uint)
  also have "\<dots> = uint v - (if bit (uint v) 63 then 2 ^ 64 else 0)"
    using uint_bounded [of v]
    by (simp add: signed_take_bit_eq_take_bit_minus take_bit_int_eq_self)
  also have "bit (uint v) 63 \<longleftrightarrow> 2 ^ 63 \<le> unat v"
    using bit_top_iff [of 63 v] by (simp add: bit_uint_iff)
  finally show ?thesis by (simp add: uint_nat del: of_nat_unat)
qed

lemma sint_be_word:
  assumes "length bytes = 8"
  shows "sint (be_word bytes) = be_int bytes"
proof -
  have v: "unat (be_word bytes) = be_nat bytes" using assms by (simp add: unat_be_word)
  obtain b t where bt: "bytes = b # t" "length t = 7" using assms by (cases bytes) auto
  have t: "be_nat t < 256 ^ 7" using be_nat_less [of t] bt by simp
  have sign: "128 \<le> unat b \<longleftrightarrow> 2 ^ 63 \<le> be_nat bytes"
    using t by (auto simp: bt be_nat_Cons)
  have "sint (be_word bytes) = (if 2 ^ 63 \<le> unat (be_word bytes) then int (unat (be_word bytes)) - 2 ^ 64
      else int (unat (be_word bytes)))"
    using bit_top_iff [of 63 "be_word bytes"]
    using sint_u64 by blast
  with sign bt v show ?thesis by (simp add: be_int_def)
qed

lemma CBS_get_asn1_int64_Some_iff:
  "CBS_get_asn1_int64 s = (Some v, rest) \<longleftrightarrow>
     (\<exists>c. s = der CBS_ASN1_INTEGER c @ rest \<and> length c < 2 ^ 32 \<and> minimal_int c \<and>
        be_int c = sint v)"
proof -
  have val: "le_word (fold (\<lambda>i u. u[i := c ! (CBS_len c - i - 1)]) [0..<CBS_len c]
        (replicate 8 (if asn1_integer_is_negative c then 0xff else 0))) = v \<longleftrightarrow> be_int c = sint v"
    if "length c \<le> 8" "c \<noteq> []" for c
    unfolding int64_bytes [OF that(1)] le_word_rev
    using sint_be_word [of "replicate (8 - length c) (if asn1_integer_is_negative c then 0xff else 0) @ c"]
      be_int_sign_extend [OF that(2) refl, of "8 - length c"] that
    by (auto simp: signed_word_eqI)
  have short: "length c \<le> 8" if "minimal_int c" "be_int c = sint v" for c
    using minimal_int_bound [of c 7] that sint_range_size [of v] by (simp add: word_size)
  have ne: "c \<noteq> []" if "minimal_int c" for c using that by (simp add: minimal_int_def)
  have body: "(if \<not> CBS_is_valid_asn1_integer c then fail
     else if CBS_len c > 8 then fail
     else let u = replicate 8 (if asn1_integer_is_negative c then 0xff else 0)
          in ret (le_word (fold (\<lambda>i u. u[i := c ! (CBS_len c - i - 1)])
                             [0..<CBS_len c] u))) r = (Some v, rest) \<longleftrightarrow>
      minimal_int c \<and> be_int c = sint v \<and> r = rest" for c r
  proof (cases "CBS_is_valid_asn1_integer c \<and> length c \<le> 8")
    case True
    then have m: "minimal_int c" by (simp add: valid_asn1_integer_iff_minimal)
    show ?thesis
      using val [OF _ ne [OF m]] True m unfolding Let_def ret_Some_iff if_P by (auto simp: CBS_len_def)
  next
    case False
    then show ?thesis using short by (auto simp: valid_asn1_integer_iff_minimal CBS_len_def)
  qed
  show ?thesis
    unfolding CBS_get_asn1_int64_def andthen_Some_iff CBS_get_asn1_Some_iff body by blast
qed

section \<open>Properties\<close>

text \<open>C3 (CBS_get_any_asn1_correct): the DER reader accepts exactly the canonical DER elements: it
  returns contents and tag, and leaves \<open>rest\<close>, if and only if the input is the X.690 encoding
  of that tag (low or high form, minimal), the minimal length octets of the contents, and the
  contents, followed by \<open>rest\<close>. Contents of 4 GiB or more are refused.\<close>

theorem CBS_get_any_asn1_correct:
  "CBS_get_any_asn1 s = (Some (contents, tag), rest) \<longleftrightarrow>
     s = der tag contents @ rest \<and> length contents < 2 ^ 32"
  by (rule CBS_get_any_asn1_Some_iff)

text \<open>\<open>CBS_get_asn1_int64\<close> returns \<open>v\<close> exactly on an INTEGER whose
  contents are the shortest two's complement encoding of the signed value of \<open>v\<close>; no shorter,
  longer, or out-of-range encoding is accepted.\<close>

theorem CBS_get_asn1_int64_correct:
  "CBS_get_asn1_int64 s = (Some v, rest) \<longleftrightarrow>
     (\<exists>c. s = der CBS_ASN1_INTEGER c @ rest \<and> length c < 2 ^ 32 \<and> minimal_int c \<and>
        be_int c = sint v)"
  by (rule CBS_get_asn1_int64_Some_iff)

text \<open>\<open>CBS_get_asn1_uint64\<close> returns \<open>v\<close> exactly on an INTEGER whose
  contents are the shortest two's complement encoding of the unsigned value of \<open>v\<close>.\<close>

theorem CBS_get_asn1_uint64_correct:
  "CBS_get_asn1_uint64 s = (Some v, rest) \<longleftrightarrow>
     (\<exists>c. s = der CBS_ASN1_INTEGER c @ rest \<and> length c < 2 ^ 32 \<and> minimal_int c \<and>
        be_int c = int (unat v))"
  by (rule CBS_get_asn1_uint64_Some_iff)

text \<open>C13 (CBS_is_valid_asn1_integer_minimal): the test on the first nine bits is minimality: contents
  pass \<open>CBS_is_valid_asn1_integer\<close> if and only if they are not empty and no shorter byte string
  stands for the same integer in two's complement.\<close>

theorem CBS_is_valid_asn1_integer_minimal:
  "CBS_is_valid_asn1_integer c \<longleftrightarrow> minimal_int c"
  by (rule valid_asn1_integer_iff_minimal)

text \<open>an element with another tag makes \<open>CBS_get_asn1\<close> fail, but it is
  consumed all the same; an input that is no element fails and is left in place.\<close>

theorem CBS_get_asn1_mismatch:
  assumes "CBS_get_asn1 tag s = (None, s')"
  shows "(\<exists>tag' body. tag' \<noteq> tag \<and> s = der tag' body @ s') \<or>
    s' = s \<and> (\<forall>tag' body rest. length body < 2 ^ 32 \<longrightarrow> s \<noteq> der tag' body @ rest)"
proof (cases "\<exists>tag' body rest. length body < 2 ^ 32 \<and> s = der tag' body @ rest")
  case True
  then obtain tag' body rest where s: "s = der tag' body @ rest" "length body < 2 ^ 32" by blast
  with assms show ?thesis
    by (auto simp: CBS_get_asn1_def cbs_get_asn1_der split: if_splits)
next
  case False
  then have "CBS_get_any_asn1_element s \<noteq> (Some (out, tag', hl), rest)" for out tag' hl rest
    unfolding CBS_get_any_asn1_element_Some_iff by blast
  then have "fst (CBS_get_any_asn1_element s) = None"
    by (cases "CBS_get_any_asn1_element s"; cases "fst (CBS_get_any_asn1_element s)") auto
  then have e: "CBS_get_any_asn1_element s = (None, snd (CBS_get_any_asn1_element s))"
    by (metis prod.collapse)
  then have "CBS_get_asn1 tag s = (None, snd (CBS_get_any_asn1_element s))"
    by (simp add: CBS_get_asn1_def cbs_get_asn1_def andthen_None)
  with assms CBS_get_any_asn1_element_None [OF e] False show ?thesis by auto
qed

lemma CBS_get_asn1_mismatch_witness:
  "\<exists>tag' body. tag' \<noteq> (2 :: u32) \<and> [0x04, 0x01, 0xaa, 0x05] = der tag' body @ [0x05]"
proof -
  have "CBS_get_asn1 2 [0x04, 0x01, 0xaa, 0x05] = (None, [0x05])" by code_simp
  from CBS_get_asn1_mismatch [OF this] show ?thesis by auto
qed

end
