(* ===== verification/CBB.thy ===== *)
theory CBB
  imports CBS "HOL-Library.List_Lexorder" "HOL-Library.Multiset"
begin

unbundle bit_operations_syntax

text \<open>
  The byte-string builder of BoringSSL, \<open>crypto/bytestring/cbb.c\<close>. A \<open>CBB\<close> and the children
  whose length prefix is pending form a chain that writes to one \<open>cbb_buffer_st\<close>: the model
  of the chain is the record \<open>CBB\<close>, the object at depth \<open>d\<close> of the chain (0 is the top-level
  object, \<open>Suc d\<close> the child of \<open>d\<close>) is named by its depth. Flushing or discarding at depth \<open>d\<close>
  cuts the chain there: objects that are deeper than the chain have \<open>base == NULL\<close> and every
  operation on them fails. \<open>size_t\<close> wraps at 64 bits and the wrap-around is written out; a
  NULL buffer of capacity 0 is the empty list.
\<close>

section \<open>The buffer\<close>

record cbb_buffer =
  buf :: "byte list"
  len :: nat
  cap :: nat
  can_resize :: bool
  error :: bool

record pending =
  offset :: nat
  pending_len_len :: nat
  pending_is_asn1 :: bool

record CBB =
  base :: "cbb_buffer option"
  child :: "pending list"

definition CBB_zero :: CBB where
  "CBB_zero = \<lparr>base = None, child = []\<rparr>"

text \<open>The first argument says whether the block for \<open>struct cbb_buffer_st\<close> was obtained.\<close>

definition cbb_init :: "bool \<Rightarrow> byte list \<Rightarrow> nat \<Rightarrow> (CBB, unit) op" where
  "cbb_init got_base b c cbb =
     (if \<not> got_base then (None, cbb)
      else (Some (), cbb\<lparr>base := Some \<lparr>buf = b, len = 0, cap = c, can_resize = True,
                                     error = False\<rparr>\<rparr>))"

text \<open>\<open>sizeof(struct cbb_buffer_st)\<close> on a 64-bit target.\<close>

definition sizeof_cbb_buffer :: nat where
  "sizeof_cbb_buffer = 32"

definition CBB_init :: "allocator \<Rightarrow> nat \<Rightarrow> unit option \<times> CBB" where
  "CBB_init malloc initial_capacity =
     (let b = OPENSSL_malloc malloc initial_capacity in
      if initial_capacity > 0 \<and> b = None then (None, CBB_zero)
      else cbb_init (OPENSSL_malloc malloc sizeof_cbb_buffer \<noteq> None)
             (case b of None \<Rightarrow> [] | Some b \<Rightarrow> b) initial_capacity CBB_zero)"

definition CBB_init_fixed :: "allocator \<Rightarrow> byte list \<Rightarrow> nat \<Rightarrow> unit option \<times> CBB" where
  "CBB_init_fixed malloc b n =
     andthen (cbb_init (OPENSSL_malloc malloc sizeof_cbb_buffer \<noteq> None) b n)
       (\<lambda>_ cbb. (Some (), cbb\<lparr>base := map_option (\<lambda>b. b\<lparr>can_resize := False\<rparr>) (base cbb)\<rparr>))
       CBB_zero"

definition CBB_cleanup :: "CBB \<Rightarrow> CBB" where
  "CBB_cleanup cbb = cbb\<lparr>base := None\<rparr>"

definition buffer_error :: "(cbb_buffer, 'a) op" where
  "buffer_error b = (None, b\<lparr>error := True\<rparr>)"

text \<open>The value of \<open>cbb_buffer_reserve\<close> and \<open>cbb_buffer_add\<close> is the index that \<open>*out\<close> points at.\<close>

definition cbb_buffer_reserve :: "allocator \<Rightarrow> nat \<Rightarrow> (cbb_buffer, nat) op" where
  "cbb_buffer_reserve malloc n b =
     (let newlen = size_add (len b) n in
      if newlen < len b then buffer_error b
      else if newlen > cap b then
        let newcap = cap b * 2 mod 2 ^ 64 in
        if \<not> can_resize b then buffer_error b
        else
          let newcap = (if newcap < cap b \<or> newcap < newlen then newlen else newcap) in
          case OPENSSL_realloc malloc (Some (buf b)) newcap of
            None \<Rightarrow> buffer_error b
          | Some newbuf \<Rightarrow> (Some (len b), b\<lparr>buf := newbuf, cap := newcap\<rparr>)
      else (Some (len b), b))"

definition cbb_buffer_add :: "allocator \<Rightarrow> nat \<Rightarrow> (cbb_buffer, nat) op" where
  "cbb_buffer_add malloc n = andthen (cbb_buffer_reserve malloc n)
     (\<lambda>out b. (Some out, b\<lparr>len := len b + n\<rparr>))"

text \<open>The loop \<open>for (i = n - 1; i < n; i--) { buf[at + i] = v; v >>= 8; }\<close>.\<close>

fun store_be :: "byte list \<Rightarrow> nat \<Rightarrow> nat \<Rightarrow> u64 \<Rightarrow> byte list \<times> u64" where
  "store_be bs at 0 v = (bs, v)"
| "store_be bs at (Suc i) v = store_be (bs[at + i := ucast v]) at i (drop_bit 8 v)"

definition cbb_buffer_add_u :: "allocator \<Rightarrow> u64 \<Rightarrow> nat \<Rightarrow> (cbb_buffer, unit) op" where
  "cbb_buffer_add_u malloc v len_len =
     (if len_len = 0 then ret ()
      else andthen (cbb_buffer_add malloc len_len) (\<lambda>at b.
        case store_be (buf b) at len_len v of
          (bs, v') \<Rightarrow>
            let b = b\<lparr>buf := bs\<rparr> in
            if v' \<noteq> 0 then buffer_error b else (Some (), b)))"

section \<open>Flushing\<close>

definition memmove :: "byte list \<Rightarrow> nat \<Rightarrow> nat \<Rightarrow> nat \<Rightarrow> byte list" where
  "memmove bs dst src n = take dst bs @ take n (drop src bs) @ drop (dst + n) bs"

definition memcpy :: "byte list \<Rightarrow> nat \<Rightarrow> byte list \<Rightarrow> byte list" where
  "memcpy bs dst data = take dst bs @ data @ drop (dst + length data) bs"

text \<open>The number of length octets and the initial one for contents of \<open>n\<close> bytes.\<close>

definition asn1_len_len :: "nat \<Rightarrow> nat \<times> byte \<times> nat" where
  "asn1_len_len n =
     (if n > 0xffffff then (5, 0x80 OR 4, n)
      else if n > 0xffff then (4, 0x80 OR 3, n)
      else if n > 0xff then (3, 0x80 OR 2, n)
      else if n > 0x7f then (2, 0x80 OR 1, n)
      else (1, word_of_nat n, 0))"

text \<open>Making room for the length octets that did not fit the one reserved byte.\<close>

definition widen :: "allocator \<Rightarrow> nat \<Rightarrow> nat \<Rightarrow> nat \<Rightarrow> (cbb_buffer, unit) op" where
  "widen malloc child_start len_len n =
     (if len_len \<noteq> 1 then
        let extra_bytes = len_len - 1 in
        andthen (cbb_buffer_add malloc extra_bytes)
          (\<lambda>_ b. (Some (), b\<lparr>buf := memmove (buf b) (child_start + extra_bytes) child_start n\<rparr>))
      else ret ())"

text \<open>
  The part of \<open>CBB_flush\<close> after the child has been flushed: it writes the child's length
  prefix. A failure here is a \<open>goto err\<close>.
\<close>

definition flush_prefix :: "allocator \<Rightarrow> pending \<Rightarrow> (cbb_buffer, unit) op" where
  "flush_prefix malloc p b =
     (let child_start = size_add (offset p) (pending_len_len p) in
      if child_start < offset p \<or> len b < child_start then (None, b)
      else
        let n = len b - child_start in
        if pending_is_asn1 p then
          if n > 0xfffffffe then (None, b)
          else case asn1_len_len n of (len_len, initial_length_byte, n') \<Rightarrow>
            andthen (widen malloc child_start len_len n) (\<lambda>_ b.
              let bs = (buf b)[offset p := initial_length_byte] in
              case store_be bs (offset p + 1) (len_len - 1) (word_of_nat n') of
                (bs, v) \<Rightarrow> (if v \<noteq> 0 then None else Some (), b\<lparr>buf := bs\<rparr>)) b
        else
          case store_be (buf b) (offset p) (pending_len_len p) (word_of_nat n) of
            (bs, v) \<Rightarrow> (if v \<noteq> 0 then None else Some (), b\<lparr>buf := bs\<rparr>))"

text \<open>The base of the object at depth \<open>d\<close>: NULL when the object was flushed or discarded.\<close>

definition base_of :: "nat \<Rightarrow> CBB \<Rightarrow> cbb_buffer option" where
  "base_of d cbb = (if d \<le> length (child cbb) then base cbb else None)"

function CBB_flush :: "allocator \<Rightarrow> nat \<Rightarrow> (CBB, unit) op" where
  "CBB_flush malloc d cbb =
     (case base_of d cbb of
        None \<Rightarrow> (None, cbb)
      | Some b \<Rightarrow>
          if error b then (None, cbb)
          else if length (child cbb) \<le> d then (Some (), cbb)
          else if pending_len_len (child cbb ! d) = 0 then (Some (), cbb)
          else
            (case CBB_flush malloc (Suc d) cbb of
              (None, cbb1) \<Rightarrow>
                (None, cbb1\<lparr>base := map_option (\<lambda>b. b\<lparr>error := True\<rparr>) (base cbb1)\<rparr>)
            | (Some _, cbb1) \<Rightarrow>
                (case base cbb1 of
                   None \<Rightarrow> (None, cbb1)
                 | Some b1 \<Rightarrow>
                     (case flush_prefix malloc (child cbb ! d) b1 of
                        (None, b2) \<Rightarrow> (None, cbb1\<lparr>base := Some (b2\<lparr>error := True\<rparr>)\<rparr>)
                      | (Some _, b2) \<Rightarrow>
                          (Some (), cbb1\<lparr>base := Some b2, child := take d (child cbb1)\<rparr>)))))"
  by pat_completeness auto
termination by (relation "measure (\<lambda>(malloc, d, cbb). length (child cbb) - d)") auto

declare CBB_flush.simps [simp del]

text \<open>An operation on \<open>cbb->base\<close>.\<close>

definition on_base :: "(cbb_buffer, 'a) op \<Rightarrow> (CBB, 'a) op" where
  "on_base f cbb =
     (case base cbb of
        None \<Rightarrow> (None, cbb)
      | Some b \<Rightarrow> (case f b of (r, b') \<Rightarrow> (r, cbb\<lparr>base := Some b'\<rparr>)))"

definition CBB_finish :: "allocator \<Rightarrow> nat \<Rightarrow> bool \<Rightarrow> (CBB, byte list \<times> nat) op" where
  "CBB_finish malloc d want_out =
     (if d \<noteq> 0 then fail
      else andthen (CBB_flush malloc d) (\<lambda>_ cbb.
        case base cbb of
          None \<Rightarrow> (None, cbb)
        | Some b \<Rightarrow>
            if can_resize b \<and> \<not> want_out then (None, cbb)
            else (Some (buf b, len b), CBB_cleanup cbb)))"

text \<open>The object's own place in the buffer: the top-level object starts at 0.\<close>

definition own_start :: "nat \<Rightarrow> CBB \<Rightarrow> nat" where
  "own_start d cbb =
     (case d of 0 \<Rightarrow> 0
      | Suc e \<Rightarrow> offset (child cbb ! e) + pending_len_len (child cbb ! e))"

definition CBB_data :: "nat \<Rightarrow> CBB \<Rightarrow> byte list" where
  "CBB_data d cbb = (case base cbb of None \<Rightarrow> [] | Some b \<Rightarrow> drop (own_start d cbb) (buf b))"

definition CBB_len :: "nat \<Rightarrow> CBB \<Rightarrow> nat" where
  "CBB_len d cbb = (case base cbb of None \<Rightarrow> 0 | Some b \<Rightarrow> len b - own_start d cbb)"

section \<open>Adding\<close>

definition open_child :: "nat \<Rightarrow> nat \<Rightarrow> nat \<Rightarrow> bool \<Rightarrow> (CBB, unit) op" where
  "open_child d off len_len is_asn1 cbb =
     (Some (), cbb\<lparr>child := take d (child cbb) @
        [\<lparr>offset = off, pending_len_len = len_len, pending_is_asn1 = is_asn1\<rparr>]\<rparr>)"

definition cbb_add_length_prefixed :: "allocator \<Rightarrow> nat \<Rightarrow> nat \<Rightarrow> (CBB, unit) op" where
  "cbb_add_length_prefixed malloc d len_len =
     andthen (CBB_flush malloc d) (\<lambda>_.
     andthen (on_base (andthen (cbb_buffer_add malloc len_len) (\<lambda>off b.
       (Some off, b\<lparr>buf := memcpy (buf b) off (replicate len_len 0)\<rparr>)))) (\<lambda>off.
     open_child d off len_len False))"

definition CBB_add_u8_length_prefixed :: "allocator \<Rightarrow> nat \<Rightarrow> (CBB, unit) op" where
  "CBB_add_u8_length_prefixed malloc d = cbb_add_length_prefixed malloc d 1"

definition CBB_add_u16_length_prefixed :: "allocator \<Rightarrow> nat \<Rightarrow> (CBB, unit) op" where
  "CBB_add_u16_length_prefixed malloc d = cbb_add_length_prefixed malloc d 2"

definition CBB_add_u24_length_prefixed :: "allocator \<Rightarrow> nat \<Rightarrow> (CBB, unit) op" where
  "CBB_add_u24_length_prefixed malloc d = cbb_add_length_prefixed malloc d 3"

definition cbb_add_u :: "allocator \<Rightarrow> nat \<Rightarrow> u64 \<Rightarrow> nat \<Rightarrow> (CBB, unit) op" where
  "cbb_add_u malloc d v len_len =
     andthen (CBB_flush malloc d) (\<lambda>_. on_base (cbb_buffer_add_u malloc v len_len))"

definition CBB_add_u8 :: "allocator \<Rightarrow> nat \<Rightarrow> byte \<Rightarrow> (CBB, unit) op" where
  "CBB_add_u8 malloc d value = cbb_add_u malloc d (ucast value) 1"

definition CBB_add_u16 :: "allocator \<Rightarrow> nat \<Rightarrow> u16 \<Rightarrow> (CBB, unit) op" where
  "CBB_add_u16 malloc d value = cbb_add_u malloc d (ucast value) 2"

definition CBB_add_u16le :: "allocator \<Rightarrow> nat \<Rightarrow> u16 \<Rightarrow> (CBB, unit) op" where
  "CBB_add_u16le malloc d value = CBB_add_u16 malloc d (CRYPTO_bswap2 value)"

definition CBB_add_u24 :: "allocator \<Rightarrow> nat \<Rightarrow> u32 \<Rightarrow> (CBB, unit) op" where
  "CBB_add_u24 malloc d value = cbb_add_u malloc d (ucast value) 3"

definition CBB_add_u32 :: "allocator \<Rightarrow> nat \<Rightarrow> u32 \<Rightarrow> (CBB, unit) op" where
  "CBB_add_u32 malloc d value = cbb_add_u malloc d (ucast value) 4"

definition CBB_add_u32le :: "allocator \<Rightarrow> nat \<Rightarrow> u32 \<Rightarrow> (CBB, unit) op" where
  "CBB_add_u32le malloc d value = CBB_add_u32 malloc d (CRYPTO_bswap4 value)"

definition CBB_add_u64 :: "allocator \<Rightarrow> nat \<Rightarrow> u64 \<Rightarrow> (CBB, unit) op" where
  "CBB_add_u64 malloc d value = cbb_add_u malloc d value 8"

definition CBB_add_u64le :: "allocator \<Rightarrow> nat \<Rightarrow> u64 \<Rightarrow> (CBB, unit) op" where
  "CBB_add_u64le malloc d value = CBB_add_u64 malloc d (CRYPTO_bswap8 value)"

definition CBB_add_bytes :: "allocator \<Rightarrow> nat \<Rightarrow> byte list \<Rightarrow> (CBB, unit) op" where
  "CBB_add_bytes malloc d data =
     andthen (CBB_flush malloc d) (\<lambda>_.
     on_base (andthen (cbb_buffer_add malloc (length data)) (\<lambda>dest b.
       (Some (), b\<lparr>buf := memcpy (buf b) dest data\<rparr>))))"

definition CBB_add_space :: "allocator \<Rightarrow> nat \<Rightarrow> nat \<Rightarrow> (CBB, nat) op" where
  "CBB_add_space malloc d n =
     andthen (CBB_flush malloc d) (\<lambda>_. on_base (cbb_buffer_add malloc n))"

definition CBB_add_zeros :: "allocator \<Rightarrow> nat \<Rightarrow> nat \<Rightarrow> (CBB, unit) op" where
  "CBB_add_zeros malloc d n =
     andthen (CBB_add_space malloc d n) (\<lambda>out.
     on_base (\<lambda>b. (Some (), b\<lparr>buf := memcpy (buf b) out (replicate n 0)\<rparr>)))"

definition CBB_reserve :: "allocator \<Rightarrow> nat \<Rightarrow> nat \<Rightarrow> (CBB, nat) op" where
  "CBB_reserve malloc d n =
     andthen (CBB_flush malloc d) (\<lambda>_. on_base (cbb_buffer_reserve malloc n))"

definition CBB_did_write :: "nat \<Rightarrow> nat \<Rightarrow> (CBB, unit) op" where
  "CBB_did_write d n cbb = on_base (\<lambda>b.
     let newlen = size_add (len b) n in
     if d < length (child cbb) \<or> newlen < len b \<or> newlen > cap b then (None, b)
     else (Some (), b\<lparr>len := newlen\<rparr>)) cbb"

definition CBB_discard_child :: "nat \<Rightarrow> CBB \<Rightarrow> CBB" where
  "CBB_discard_child d cbb =
     (if length (child cbb) \<le> d then cbb
      else cbb\<lparr>base := map_option (\<lambda>b. b\<lparr>len := offset (child cbb ! d)\<rparr>) (base cbb),
               child := take d (child cbb)\<rparr>)"

function base128_len_len :: "u64 \<Rightarrow> nat \<Rightarrow> nat" where
  "base128_len_len copy n = (if copy > 0 then base128_len_len (drop_bit 7 copy) (Suc n) else n)"
  by pat_completeness auto
termination
  by (relation "measure (\<lambda>(copy, n). unat copy)")
     (auto simp: unat_drop_bit word_gt_0 unat_pos_iff intro!: div_less_dividend)

declare base128_len_len.simps [simp del]

fun add_base128_loop :: "allocator \<Rightarrow> nat \<Rightarrow> u64 \<Rightarrow> nat \<Rightarrow> (CBB, unit) op" where
  "add_base128_loop malloc d v 0 = ret ()"
| "add_base128_loop malloc d v (Suc i) =
     (let b = ucast (drop_bit (7 * i) v) AND 0x7f;
          b = (if i \<noteq> 0 then b OR 0x80 else b) in
      andthen (CBB_add_u8 malloc d b) (\<lambda>_. add_base128_loop malloc d v i))"

definition add_base128_integer :: "allocator \<Rightarrow> nat \<Rightarrow> u64 \<Rightarrow> (CBB, unit) op" where
  "add_base128_integer malloc d v =
     (let len_len = base128_len_len v 0;
          len_len = (if len_len = 0 then 1 else len_len) in
      add_base128_loop malloc d v len_len)"

definition CBB_add_asn1 :: "allocator \<Rightarrow> nat \<Rightarrow> u32 \<Rightarrow> (CBB, unit) op" where
  "CBB_add_asn1 malloc d tag =
     andthen (CBB_flush malloc d) (\<lambda>_.
     let tag_bits = ucast (drop_bit CBS_ASN1_TAG_SHIFT tag) AND (0xe0 :: byte);
         tag_number = tag AND CBS_ASN1_TAG_NUMBER_MASK in
     andthen
       (if tag_number \<ge> 0x1f then
          andthen (CBB_add_u8 malloc d (tag_bits OR 0x1f))
            (\<lambda>_. add_base128_integer malloc d (ucast tag_number))
        else CBB_add_u8 malloc d (tag_bits OR ucast tag_number)) (\<lambda>_.
     andthen (on_base (\<lambda>b. (Some (len b), b))) (\<lambda>off.
     andthen (CBB_add_u8 malloc d 0) (\<lambda>_.
     open_child d off 1 True))))"

section \<open>ASN.1 values\<close>

text \<open>The loop over the eight bytes, most significant first; its value is \<open>started\<close>.\<close>

fun asn1_uint64_bytes :: "allocator \<Rightarrow> nat \<Rightarrow> u64 \<Rightarrow> nat list \<Rightarrow> bool \<Rightarrow> (CBB, bool) op" where
  "asn1_uint64_bytes malloc d v [] started = ret started"
| "asn1_uint64_bytes malloc d v (i # is) started =
     (let b = (ucast (drop_bit (8 * (7 - i)) v AND 0xff) :: byte) in
      if \<not> started then
        if b = 0 then asn1_uint64_bytes malloc d v is False
        else
          andthen (if b AND 0x80 \<noteq> 0 then CBB_add_u8 malloc d 0 else ret ()) (\<lambda>_.
          andthen (CBB_add_u8 malloc d b) (\<lambda>_.
          asn1_uint64_bytes malloc d v is True))
      else
        andthen (CBB_add_u8 malloc d b) (\<lambda>_. asn1_uint64_bytes malloc d v is True))"

definition CBB_add_asn1_uint64 :: "allocator \<Rightarrow> nat \<Rightarrow> u64 \<Rightarrow> (CBB, unit) op" where
  "CBB_add_asn1_uint64 malloc d value =
     andthen (CBB_add_asn1 malloc d CBS_ASN1_INTEGER) (\<lambda>_.
     andthen (asn1_uint64_bytes malloc (Suc d) value [0..<8] False) (\<lambda>started.
     andthen (if \<not> started then CBB_add_u8 malloc (Suc d) 0 else ret ()) (\<lambda>_.
     CBB_flush malloc d)))"

text \<open>Byte \<open>k\<close> of the \<open>int64_t\<close> in the union, on the little-endian targets.\<close>

definition union_byte :: "u64 \<Rightarrow> nat \<Rightarrow> byte" where
  "union_byte value k = ucast (drop_bit (8 * k) value)"

fun int64_start :: "u64 \<Rightarrow> nat \<Rightarrow> nat" where
  "int64_start value 0 = 0"
| "int64_start value (Suc k) =
     (if union_byte value (Suc k) = 0xff \<and> union_byte value k AND 0x80 \<noteq> 0
      then int64_start value k else Suc k)"

fun add_union_bytes :: "allocator \<Rightarrow> nat \<Rightarrow> u64 \<Rightarrow> nat \<Rightarrow> (CBB, unit) op" where
  "add_union_bytes malloc d value 0 = ret ()"
| "add_union_bytes malloc d value (Suc i) =
     andthen (CBB_add_u8 malloc d (union_byte value i))
       (\<lambda>_. add_union_bytes malloc d value i)"

definition CBB_add_asn1_int64 :: "allocator \<Rightarrow> nat \<Rightarrow> u64 \<Rightarrow> (CBB, unit) op" where
  "CBB_add_asn1_int64 malloc d value =
     (if 0 \<le> sint value then CBB_add_asn1_uint64 malloc d value
      else
        andthen (CBB_add_asn1 malloc d CBS_ASN1_INTEGER) (\<lambda>_.
        andthen (add_union_bytes malloc (Suc d) value (Suc (int64_start value 7))) (\<lambda>_.
        CBB_flush malloc d)))"

definition CBB_add_asn1_octet_string :: "allocator \<Rightarrow> nat \<Rightarrow> byte list \<Rightarrow> (CBB, unit) op" where
  "CBB_add_asn1_octet_string malloc d data =
     andthen (CBB_add_asn1 malloc d CBS_ASN1_OCTETSTRING) (\<lambda>_.
     andthen (CBB_add_bytes malloc (Suc d) data) (\<lambda>_.
     CBB_flush malloc d))"

definition CBB_add_asn1_bool :: "allocator \<Rightarrow> nat \<Rightarrow> int \<Rightarrow> (CBB, unit) op" where
  "CBB_add_asn1_bool malloc d value =
     andthen (CBB_add_asn1 malloc d CBS_ASN1_BOOLEAN) (\<lambda>_.
     andthen (CBB_add_u8 malloc (Suc d) (if value \<noteq> 0 then 0xff else 0)) (\<lambda>_.
     CBB_flush malloc d))"

section \<open>Object identifiers from text\<close>

text \<open>\<open>UINT64_MAX - (u - '0')\<close> is computed in \<open>uint64_t\<close>: the digit is at most 9 there.\<close>

fun parse_dotted_decimal_loop :: "u64 \<Rightarrow> bool \<Rightarrow> (cbs, u64) op" where
  "parse_dotted_decimal_loop out seen_digit [] = (if seen_digit then Some out else None, [])"
| "parse_dotted_decimal_loop out seen_digit (u # cbs) =
     (if u = 0x2e \<and> CBS_len cbs > 0 then (if seen_digit then Some out else None, cbs)
      else if u < 0x30 \<or> u > 0x39 \<or> (seen_digit \<and> out = 0) \<or> out > (- 1) div 10 \<or>
              out * 10 > - 1 - ucast (u - 0x30) then (None, cbs)
      else parse_dotted_decimal_loop (out * 10 + ucast (u - 0x30)) True cbs)"

definition parse_dotted_decimal :: "(cbs, u64) op" where
  "parse_dotted_decimal = parse_dotted_decimal_loop 0 False"

lemma parse_dotted_decimal_loop_length:
  "length (snd (parse_dotted_decimal_loop v seen s)) \<le> length s"
  by (induction v seen s rule: parse_dotted_decimal_loop.induct) (auto simp: Let_def)

lemma parse_dotted_decimal_less:
  assumes "s \<noteq> []" "parse_dotted_decimal s = (r, s')"
  shows "length s' < length s"
proof -
  obtain u cbs where s: "s = u # cbs" using assms(1) by (cases s) auto
  have "length s' \<le> length cbs"
    using assms(2) parse_dotted_decimal_loop_length [of "0 * 10 + ucast (u - 0x30)" True cbs]
    by (auto simp: parse_dotted_decimal_def s split: if_splits)
  then show ?thesis by (simp add: s)
qed

function oid_components :: "allocator \<Rightarrow> nat \<Rightarrow> cbs \<Rightarrow> (CBB, unit) op" where
  "oid_components malloc d cbs =
     (if cbs = [] then ret ()
      else case parse_dotted_decimal cbs of
             (None, _) \<Rightarrow> fail
           | (Some a, cbs') \<Rightarrow>
               andthen (add_base128_integer malloc d a) (\<lambda>_. oid_components malloc d cbs'))"
  by pat_completeness auto
termination
  by (relation "measure (\<lambda>(malloc, d, cbs). length cbs)") (auto dest: parse_dotted_decimal_less [OF _ sym])

declare oid_components.simps [simp del]

definition CBB_add_asn1_oid_from_text ::
    "allocator \<Rightarrow> nat \<Rightarrow> byte list \<Rightarrow> nat \<Rightarrow> (CBB, unit) op" where
  "CBB_add_asn1_oid_from_text malloc d txt n =
     andthen (CBB_flush malloc d) (\<lambda>_.
     case parse_dotted_decimal (CBS_init txt n) of
       (None, _) \<Rightarrow> fail
     | (Some a, cbs) \<Rightarrow>
         (case parse_dotted_decimal cbs of
            (None, _) \<Rightarrow> fail
          | (Some b, cbs) \<Rightarrow>
              if a > 2 \<or> (a < 2 \<and> b > 39) \<or> b > - 1 - 80 then fail
              else andthen (add_base128_integer malloc d (40 * a + b))
                     (\<lambda>_. oid_components malloc d cbs)))"

section \<open>SET OF\<close>

definition compare_set_of_element :: "cbs \<Rightarrow> cbs \<Rightarrow> int" where
  "compare_set_of_element a b =
     (let a_len = CBS_len a; b_len = CBS_len b;
          min_len = (if a_len < b_len then a_len else b_len);
          r = OPENSSL_memcmp (CBS_data a) (CBS_data b) min_len in
      if r \<noteq> 0 then r
      else if a_len = b_len then 0
      else if a_len < b_len then - 1 else 1)"

text \<open>The library's \<open>qsort\<close>, as insertion sort: the order it produces is unique up to equals.\<close>

fun insert_by :: "('a \<Rightarrow> 'a \<Rightarrow> int) \<Rightarrow> 'a \<Rightarrow> 'a list \<Rightarrow> 'a list" where
  "insert_by cmp x [] = [x]"
| "insert_by cmp x (y # ys) = (if cmp x y \<le> 0 then x # y # ys else y # insert_by cmp x ys)"

definition qsort :: "('a \<Rightarrow> 'a \<Rightarrow> int) \<Rightarrow> 'a list \<Rightarrow> 'a list" where
  "qsort cmp xs = foldr (insert_by cmp) xs []"

text \<open>The elements of the contents, in order; \<open>None\<close> when one of them does not parse.\<close>

lemma element_shorter:
  assumes "CBS_get_any_asn1_element cbs = (Some (e, tag, hl), rest)"
  shows "length rest < length cbs"
  using assms by (auto simp: CBS_get_any_asn1_element_Some_iff der_def der_tag_def Let_def)

function set_of_children :: "cbs \<Rightarrow> cbs list option" where
  "set_of_children cbs =
     (if CBS_len cbs = 0 then Some []
      else case CBS_get_any_asn1_element cbs of
             (None, _) \<Rightarrow> None
           | (Some (e, _, _), rest) \<Rightarrow> map_option ((#) e) (set_of_children rest))"
  by pat_completeness auto
termination by (relation "measure length") (auto dest: element_shorter [OF sym])

declare set_of_children.simps [simp del]

fun add_all_bytes :: "allocator \<Rightarrow> nat \<Rightarrow> byte list list \<Rightarrow> (CBB, unit) op" where
  "add_all_bytes malloc d [] = ret ()"
| "add_all_bytes malloc d (e # es) =
     andthen (CBB_add_bytes malloc d e) (\<lambda>_. add_all_bytes malloc d es)"

text \<open>\<open>sizeof(CBS)\<close> is 16.\<close>

definition CBB_flush_asn1_set_of :: "allocator \<Rightarrow> nat \<Rightarrow> (CBB, unit) op" where
  "CBB_flush_asn1_set_of malloc d =
     andthen (CBB_flush malloc d) (\<lambda>_ cbb.
     let contents = take (CBB_len d cbb) (CBB_data d cbb) in
     case set_of_children contents of
       None \<Rightarrow> (None, cbb)
     | Some children \<Rightarrow>
         let num_children = length children in
         if num_children < 2 then (Some (), cbb)
         else if num_children > (2 ^ 64 - 1) div 16 then (None, cbb)
         else if OPENSSL_memdup malloc contents = None \<or>
                 OPENSSL_malloc malloc (num_children * 16) = None then (None, cbb)
         else
           let children = qsort compare_set_of_element children;
               cbb = cbb\<lparr>base := map_option (\<lambda>b. b\<lparr>len := own_start d cbb\<rparr>) (base cbb)\<rparr>
           in add_all_bytes malloc d children cbb)"

section \<open>Fixed-width numbers in the buffer\<close>

fun be_fixed :: "nat \<Rightarrow> nat \<Rightarrow> byte list" where
  "be_fixed 0 n = []"
| "be_fixed (Suc k) n = be_fixed k (n div 256) @ [word_of_nat n]"

lemma length_be_fixed [simp]: "length (be_fixed k n) = k"
  by (induction k arbitrary: n) auto

lemma be_nat_be_fixed: "be_nat (be_fixed k n) = n mod 256 ^ k"
proof (induction k arbitrary: n)
  case (Suc k)
  have "n mod 256 ^ Suc k = 256 * (n div 256 mod 256 ^ k) + n mod 256"
    by (simp add: mod_mult2_eq)
  with Suc show ?case by simp
qed simp

lemma be_fixed_eq_be_bytes:
  "256 ^ k \<le> n \<Longrightarrow> n < 256 ^ Suc k \<Longrightarrow> be_fixed (Suc k) n = be_bytes n"
proof (induction k arbitrary: n)
  case 0
  then show ?case by (simp add: be_bytes.simps [of n])
next
  case (Suc k)
  have "256 ^ k \<le> n div 256" using div_le_mono [OF Suc.prems(1), of 256] by simp
  moreover have "n div 256 < 256 ^ Suc k"
    using Suc.prems(2) by (simp add: less_mult_imp_div_less mult.commute)
  ultimately have "be_fixed (Suc k) (n div 256) = be_bytes (n div 256)" by (rule Suc.IH)
  moreover have "n \<noteq> 0" using Suc.prems(1) by (metis not_le zero_less_numeral zero_less_power)
  ultimately show ?case by (simp add: be_bytes.simps [of n])
qed

lemma store_be_eq:
  "at + n \<le> length bs \<Longrightarrow> store_be bs at n v = (bs', v') \<Longrightarrow>
     bs' = take at bs @ be_fixed n (unat v) @ drop (at + n) bs \<and> unat v' = unat v div 256 ^ n"
proof (induction bs at n v rule: store_be.induct)
  case (2 bs at i v)
  have at: "at + i < length bs" using 2 by simp
  define w :: byte where "w = ucast v"
  have w: "w = word_of_nat (unat v)" by (simp add: w_def)
  have d: "drop (at + i) (bs[at + i := w]) = w # drop (at + Suc i) bs"
    using at Cons_nth_drop_Suc [of "at + i" "bs[at + i := w]"] by simp
  have "store_be (bs[at + i := w]) at i (drop_bit 8 v) = (bs', v')"
    using 2 by (simp add: w_def)
  then have "bs' = take at (bs[at + i := w]) @ be_fixed i (unat v div 256) @ drop (at + i) (bs[at + i := w])"
    "unat v' = unat v div 256 div 256 ^ i"
    using 2(1) at by (simp_all add: w_def unat_drop_bit)
  then show ?case unfolding d by (simp add: w div_mult2_eq)
qed simp

section \<open>Well-formed buffers\<close>

definition buffer_ok :: "cbb_buffer \<Rightarrow> bool" where
  "buffer_ok b \<longleftrightarrow> length (buf b) = cap b \<and> len b \<le> cap b \<and> cap b < 2 ^ 64"

definition written :: "cbb_buffer \<Rightarrow> byte list" where
  "written b = take (len b) (buf b)"

lemma length_written: "buffer_ok b \<Longrightarrow> length (written b) = len b"
  by (simp add: buffer_ok_def written_def)

lemma realloc_prefix:
  assumes "malloc_returns_size malloc" "OPENSSL_realloc malloc (Some old) n = Some new" "length old \<le> n"
    "n < 2 ^ 64"
  shows "length new = n" "take (length old) new = old"
proof -
  obtain m where m: "OPENSSL_malloc malloc n = Some m" and new: "new = old @ drop (length old) m"
    using assms(2,3) by (auto simp: OPENSSL_realloc_def Let_def split: option.splits if_splits)
  have "length m = n" using OPENSSL_malloc_length [OF assms(1) m assms(4)] .
  then show "length new = n" "take (length old) new = old" using new assms(3) by simp_all
qed

lemma reserve_ok:
  assumes "malloc_returns_size malloc" "buffer_ok b" "cbb_buffer_reserve malloc n b = (r, b')"
    "n < 2 ^ 64"
  shows "buffer_ok b'" "len b' = len b" "written b' = written b"
    "r = Some at \<Longrightarrow> at = len b \<and> len b + n \<le> cap b' \<and> error b' = error b"
    "r = None \<Longrightarrow> error b'"
proof -
  define newlen where "newlen = size_add (len b) n"
  define newcap where "newcap = (let c = cap b * 2 mod 2 ^ 64 in if c < cap b \<or> c < newlen then newlen else c)"
  have newcap: "newlen \<le> newcap" "newcap < 2 ^ 64"
    by (auto simp: newcap_def Let_def newlen_def size_add_def)
  have b: "length (buf b) = cap b" "len b \<le> cap b" "cap b < 2 ^ 64"
    using assms(2) by (simp_all add: buffer_ok_def)
  have new: "length m = newcap" "take (len b) m = take (len b) (buf b)"
    if "OPENSSL_realloc malloc (Some (buf b)) newcap = Some m" "cap b < newlen" for m
  proof -
    have le: "length (buf b) \<le> newcap" using b that newcap by simp
    show "length m = newcap" using realloc_prefix(1) [OF assms(1) that(1) le newcap(2)] .
    have "take (length (buf b)) m = buf b" using realloc_prefix(2) [OF assms(1) that(1) le newcap(2)] .
    then have "take (len b) (take (cap b) m) = take (len b) (buf b)" using b by simp
    then show "take (len b) m = take (len b) (buf b)" using b by (simp add: min_absorb1)
  qed
  have add: "newlen = len b + n" if "\<not> newlen < len b"
    using that b size_add_less_iff [of "len b" n] assms(4) by (simp add: newlen_def size_add_eq)
  have res: "(r, b') = (if newlen < len b then buffer_error b
      else if newlen > cap b then
        if \<not> can_resize b then buffer_error b
        else case OPENSSL_realloc malloc (Some (buf b)) newcap of
            None \<Rightarrow> buffer_error b
          | Some newbuf \<Rightarrow> (Some (len b), b\<lparr>buf := newbuf, cap := newcap\<rparr>)
      else (Some (len b), b))"
    using assms(3) unfolding cbb_buffer_reserve_def Let_def newlen_def newcap_def by simp
  consider (err) "r = None" "b' = b\<lparr>error := True\<rparr>"
    | (grow) m where "\<not> newlen < len b" "newlen > cap b" "r = Some (len b)"
        "OPENSSL_realloc malloc (Some (buf b)) newcap = Some m" "b' = b\<lparr>buf := m, cap := newcap\<rparr>"
    | (fits) "\<not> newlen < len b" "newlen \<le> cap b" "r = Some (len b)" "b' = b"
    using res unfolding buffer_error_def by (auto simp: not_less split: if_splits option.splits)
  then show "buffer_ok b'" "len b' = len b" "written b' = written b"
    "r = Some at \<Longrightarrow> at = len b \<and> len b + n \<le> cap b' \<and> error b' = error b"
    "r = None \<Longrightarrow> error b'"
    by (cases; use new add newcap b in \<open>force simp: buffer_ok_def written_def\<close>)+
qed

lemma buffer_add_ok:
  assumes "malloc_returns_size malloc" "buffer_ok b" "cbb_buffer_add malloc n b = (r, b')"
    "n < 2 ^ 64"
  shows "buffer_ok b'"
    "r = Some at \<Longrightarrow> at = len b \<and> len b' = len b + n \<and> error b' = error b \<and>
       take (len b) (buf b') = written b"
    "r = None \<Longrightarrow> error b' \<and> len b' = len b \<and> written b' = written b"
proof -
  obtain r0 b0 where r0: "cbb_buffer_reserve malloc n b = (r0, b0)" by fastforce
  note res = reserve_ok [OF assms(1,2) r0 assms(4)]
  show "buffer_ok b'"
    "r = Some at \<Longrightarrow> at = len b \<and> len b' = len b + n \<and> error b' = error b \<and>
       take (len b) (buf b') = written b"
    "r = None \<Longrightarrow> error b' \<and> len b' = len b \<and> written b' = written b"
    using assms(3) r0 res
    by (auto simp: cbb_buffer_add_def andthen_def buffer_ok_def written_def split: option.splits)
qed

lemma buffer_add_u_ok:
  assumes "malloc_returns_size malloc" "buffer_ok b" "cbb_buffer_add_u malloc v n b = (r, b')"
    "0 < n" "n < 2 ^ 64"
  shows "buffer_ok b' \<and> len b \<le> len b' \<and> take (len b) (buf b') = written b \<and>
    (case r of None \<Rightarrow> error b'
     | Some _ \<Rightarrow> unat v < 256 ^ n \<and> written b' = written b @ be_fixed n (unat v) \<and> error b' = error b)"
proof (cases "cbb_buffer_add malloc n b")
  case (Pair r0 b0)
  note res = buffer_add_ok [OF assms(1,2) Pair assms(5)]
  show ?thesis
  proof (cases r0)
    case None
    with res(1,3) Pair assms(3,4) show ?thesis
      by (auto simp: cbb_buffer_add_u_def andthen_def buffer_ok_def written_def)
  next
    case (Some at)
    with res(2) have b0: "at = len b" "len b0 = len b + n" "error b0 = error b"
      "take (len b) (buf b0) = written b" by simp_all
    obtain bs v' where st: "store_be (buf b0) (len b) n v = (bs, v')" by fastforce
    have bs: "bs = written b @ be_fixed n (unat v) @ drop (len b + n) (buf b0)"
      and v': "unat v' = unat v div 256 ^ n"
      using store_be_eq [OF _ st] res(1) b0 by (simp_all add: buffer_ok_def)
    have "length (written b) = len b" by (rule length_written [OF assms(2)])
    then have wr: "take (len b + n) bs = written b @ be_fixed n (unat v)" "take (len b) bs = written b"
      and lbs: "length bs = length (buf b0)"
      using bs res(1) b0 by (simp_all add: buffer_ok_def)
    have "v' = 0 \<longleftrightarrow> unat v' = 0" by (simp add: unsigned_eq_0_iff)
    then have v0: "v' = 0 \<longleftrightarrow> unat v < 256 ^ n" by (simp add: v' div_eq_0_iff)
    have "cbb_buffer_add_u malloc v n b =
        (if v' \<noteq> 0 then buffer_error (b0\<lparr>buf := bs\<rparr>) else (Some (), b0\<lparr>buf := bs\<rparr>))"
      using Pair Some st assms(4) b0(1) by (simp add: cbb_buffer_add_u_def andthen_def)
    then show ?thesis
      using assms(3) v0 wr lbs b0 res(1)
      by (auto simp: buffer_error_def buffer_ok_def written_def split: if_splits)
  qed
qed

section \<open>Closing a pending prefix\<close>

text \<open>
  What flushing is meant to do to the written bytes: the prefix of each pending child, the
  innermost first, becomes the length of what follows it.
\<close>

definition length_prefix :: "pending \<Rightarrow> nat \<Rightarrow> byte list" where
  "length_prefix p n = (if pending_is_asn1 p then der_len n else be_fixed (pending_len_len p) n)"

definition close :: "pending \<Rightarrow> byte list \<Rightarrow> byte list" where
  "close p out =
     (let body = drop (offset p + pending_len_len p) out in
      take (offset p) out @ length_prefix p (length body) @ body)"

definition closed :: "pending list \<Rightarrow> byte list \<Rightarrow> byte list" where
  "closed ps out = foldr close ps out"

text \<open>The lengths that fit the prefix.\<close>

definition fits :: "pending \<Rightarrow> nat \<Rightarrow> bool" where
  "fits p n \<longleftrightarrow> (if pending_is_asn1 p then n < 2 ^ 32 - 1 else n < 256 ^ pending_len_len p)"

text \<open>
  The length of what follows the prefix of \<open>p\<close>, once the children inside are closed, fits that
  prefix, for each of the pending children.
\<close>

fun lengths_fit :: "pending list \<Rightarrow> byte list \<Rightarrow> bool" where
  "lengths_fit [] out = True"
| "lengths_fit (p # ps) out =
     (lengths_fit ps out \<and> fits p (length (closed ps out) - (offset p + pending_len_len p)))"

lemma closed_simps [simp]: "closed [] out = out" "closed (p # ps) out = close p (closed ps out)"
  "closed (ps @ qs) out = closed ps (closed qs out)"
  by (simp_all add: closed_def)

definition pending_ok :: "pending \<Rightarrow> bool" where
  "pending_ok p \<longleftrightarrow> 0 < pending_len_len p \<and> pending_len_len p \<le> 3 \<and>
     (pending_is_asn1 p \<longrightarrow> pending_len_len p = 1)"

fun chain_ok :: "nat \<Rightarrow> pending list \<Rightarrow> nat \<Rightarrow> bool" where
  "chain_ok lo [] n = (lo \<le> n)"
| "chain_ok lo (p # ps) n =
     (lo \<le> offset p \<and> pending_ok p \<and> chain_ok (offset p + pending_len_len p) ps n)"

lemma chain_ok_le: "chain_ok lo ps n \<Longrightarrow> lo \<le> n"
  by (induction lo ps n rule: chain_ok.induct) auto

lemma chain_ok_mono: "chain_ok lo ps n \<Longrightarrow> n \<le> m \<Longrightarrow> chain_ok lo ps m"
  by (induction lo ps n rule: chain_ok.induct) auto

lemma chain_ok_lower: "chain_ok lo ps n \<Longrightarrow> lo' \<le> lo \<Longrightarrow> chain_ok lo' ps n"
  by (cases ps) auto

lemma chain_ok_append:
  "chain_ok lo (ps @ qs) n \<longleftrightarrow> (\<exists>m. chain_ok lo ps m \<and> chain_ok m qs n)"
proof (induction lo ps n rule: chain_ok.induct)
  case (1 lo n)
  then show ?case by (auto intro: chain_ok_lower)
qed auto

lemma chain_ok_take: "chain_ok lo ps n \<Longrightarrow> chain_ok lo (take d ps) n"
proof -
  assume "chain_ok lo ps n"
  then obtain m where "chain_ok lo (take d ps) m" "chain_ok m (drop d ps) n"
    using chain_ok_append [of lo "take d ps" "drop d ps" n] by auto
  then show ?thesis using chain_ok_le chain_ok_mono by blast
qed

lemma chain_ok_nth:
  assumes "chain_ok lo ps n" "d < length ps"
  shows "pending_ok (ps ! d)" "chain_ok lo (take d ps) (offset (ps ! d))"
    "offset (ps ! d) + pending_len_len (ps ! d) \<le> n"
proof -
  have "chain_ok lo (take d ps @ ps ! d # drop (Suc d) ps) n"
    using assms id_take_nth_drop [OF assms(2)] by simp
  then obtain m where m: "chain_ok lo (take d ps) m" "m \<le> offset (ps ! d)" "pending_ok (ps ! d)"
    "chain_ok (offset (ps ! d) + pending_len_len (ps ! d)) (drop (Suc d) ps) n"
    unfolding chain_ok_append by auto
  then show "pending_ok (ps ! d)" "chain_ok lo (take d ps) (offset (ps ! d))"
    "offset (ps ! d) + pending_len_len (ps ! d) \<le> n"
    using chain_ok_mono chain_ok_le by blast+
qed

definition cbb_ok :: "CBB \<Rightarrow> bool" where
  "cbb_ok cbb \<longleftrightarrow>
     (case base cbb of
        None \<Rightarrow> True
      | Some b \<Rightarrow> buffer_ok b \<and> chain_ok 0 (child cbb) (len b))"

section \<open>Writing the length prefix\<close>

lemma be_bytes_eq_be_fixed:
  "0 < k \<Longrightarrow> 256 ^ (k - 1) \<le> n \<Longrightarrow> n < 256 ^ k \<Longrightarrow> be_bytes n = be_fixed k n"
  using be_fixed_eq_be_bytes [of "k - 1" n] by simp

lemma asn1_len_len_eq:
  assumes "n < 2 ^ 32" "asn1_len_len n = (ll, ib, n')"
  shows "ib # be_fixed (ll - 1) n' = der_len n" "1 \<le> ll" "ll \<le> 5" "n' < 256 ^ (ll - 1)" "n' \<le> n"
proof -
  consider "n < 128" | "128 \<le> n \<and> n < 256" | "256 ^ 1 \<le> n \<and> n < 256 ^ 2"
    | "256 ^ 2 \<le> n \<and> n < 256 ^ 3" | "256 ^ 3 \<le> n \<and> n < 256 ^ 4"
    using assms(1) by (simp add: not_less) linarith
  then have "ib # be_fixed (ll - 1) n' = der_len n \<and> 1 \<le> ll \<and> ll \<le> 5 \<and> n' < 256 ^ (ll - 1) \<and> n' \<le> n"
  proof cases
    case 1
    then show ?thesis using assms(2) by (simp add: asn1_len_len_def der_len_def)
  next
    case 2
    then have "be_bytes n = be_fixed 1 n" using be_bytes_eq_be_fixed [of 1 n] by simp
    with 2 show ?thesis using assms(2) by (auto simp: asn1_len_len_def der_len_def)
  next
    case 3
    then have "be_bytes n = be_fixed 2 n" using be_bytes_eq_be_fixed [of 2 n] by simp
    with 3 show ?thesis using assms(2) by (auto simp: asn1_len_len_def der_len_def)
  next
    case 4
    then have "be_bytes n = be_fixed 3 n" using be_bytes_eq_be_fixed [of 3 n] by simp
    with 4 show ?thesis using assms(2) by (auto simp: asn1_len_len_def der_len_def)
  next
    case 5
    then have "be_bytes n = be_fixed 4 n" using be_bytes_eq_be_fixed [of 4 n] by simp
    with 5 show ?thesis using assms(2) by (auto simp: asn1_len_len_def der_len_def)
  qed
  then show "ib # be_fixed (ll - 1) n' = der_len n" "1 \<le> ll" "ll \<le> 5" "n' < 256 ^ (ll - 1)" "n' \<le> n"
    by simp_all
qed

lemma store_be_fits:
  assumes "at + n \<le> length bs" "v < 2 ^ 64"
  shows "\<exists>v'. store_be bs at n (word_of_nat v) = (take at bs @ be_fixed n v @ drop (at + n) bs, v') \<and>
    (v' = 0 \<longleftrightarrow> v < 256 ^ n)"
proof (cases "store_be bs at n (word_of_nat v)")
  case (Pair bs' v')
  have v: "unat (word_of_nat v :: u64) = v" using assms(2) by simp
  have "v' = 0 \<longleftrightarrow> unat v' = 0" by (simp add: unsigned_eq_0_iff)
  with store_be_eq [OF assms(1) Pair] Pair v show ?thesis by (simp add: div_eq_0_iff)
qed

lemma length_memmove:
  "dst + n \<le> length bs \<Longrightarrow> src + n \<le> length bs \<Longrightarrow> length (memmove bs dst src n) = length bs"
  by (simp add: memmove_def min_absorb2)

lemma memmove_same: "cs + n \<le> length bs \<Longrightarrow> memmove bs cs cs n = bs"
  by (simp add: memmove_def)
     (metis append_assoc append_take_drop_id drop_drop add.commute)

lemma prefix_bytes:
  assumes "o1 + 1 + e + n \<le> length bs" "v < 2 ^ 64" "v < 256 ^ e"
  shows "\<exists>bs'. store_be ((memmove bs (o1 + 1 + e) (o1 + 1) n)[o1 := ib]) (o1 + 1) e (word_of_nat v) = (bs', 0) \<and>
    length bs' = length bs \<and>
    take (o1 + 1 + e + n) bs' = take o1 bs @ (ib # be_fixed e v) @ take n (drop (o1 + 1) bs)"
proof -
  define m where "m = memmove bs (o1 + 1 + e) (o1 + 1) n"
  have lm: "length m = length bs" using assms by (simp add: m_def memmove_def)
  have tm: "take o1 m = take o1 bs"
    using assms by (simp add: m_def memmove_def min_def)
  have dm: "drop (o1 + 1 + e) m = take n (drop (o1 + 1) bs) @ drop (o1 + 1 + e + n) bs"
    using assms by (simp add: m_def memmove_def)
  have t1: "take (o1 + 1) (m[o1 := ib]) = take o1 bs @ [ib]"
    using assms lm tm by (simp add: take_Suc_conv_app_nth)
  have d1: "drop (o1 + 1 + e) (m[o1 := ib]) = drop (o1 + 1 + e) m" by simp
  obtain v' where st: "store_be (m[o1 := ib]) (o1 + 1) e (word_of_nat v) =
      (take (o1 + 1) (m[o1 := ib]) @ be_fixed e v @ drop (o1 + 1 + e) (m[o1 := ib]), v')" and "v' = 0"
    using store_be_fits [of "o1 + 1" e "m[o1 := ib]" v] assms lm by auto
  define tl0 where "tl0 = take n (drop (o1 + 1) bs)"
  have ltl: "length tl0 = n" and lo: "length (take o1 bs) = o1" using assms by (simp_all add: tl0_def)
  have st': "store_be (m[o1 := ib]) (o1 + 1) e (word_of_nat v) =
      (take o1 bs @ [ib] @ be_fixed e v @ tl0 @ drop (o1 + 1 + e + n) bs, 0)"
    using st \<open>v' = 0\<close> unfolding t1 d1 dm tl0_def by simp
  show ?thesis
    unfolding m_def [symmetric] st' tl0_def [symmetric] using assms ltl lo by simp
qed

lemma close_length_prefix:
  assumes "buffer_ok b" "offset p + pending_len_len p \<le> len b"
  shows "close p (written b) = take (offset p) (buf b) @ length_prefix p (len b - (offset p + pending_len_len p))
     @ take (len b - (offset p + pending_len_len p)) (drop (offset p + pending_len_len p) (buf b))"
proof -
  define k where "k = offset p + pending_len_len p"
  have "length (drop k (written b)) = len b - k" using length_written [OF assms(1)] by simp
  moreover have "drop k (written b) = take (len b - k) (drop k (buf b))"
    by (simp add: written_def drop_take)
  moreover have "take (offset p) (written b) = take (offset p) (buf b)"
    using assms(2) by (simp add: written_def min_absorb1)
  ultimately show ?thesis by (simp only: close_def Let_def k_def)
qed

lemma widen_ok:
  assumes "malloc_returns_size malloc" "buffer_ok b" "at + 1 + n = len b" "1 \<le> ll" "ll \<le> 5"
    "widen malloc (at + 1) ll n b = (r, b')"
  shows "buffer_ok b'" "len b \<le> len b'"
    "r \<noteq> None \<Longrightarrow> error b' = error b \<and> len b' = len b + (ll - 1) \<and>
      (\<exists>bs. buf b' = memmove bs (at + 1 + (ll - 1)) (at + 1) n \<and> length bs = cap b' \<and>
         take (len b) bs = written b)"
proof -
  have b: "length (buf b) = cap b" "len b \<le> cap b" using assms(2) by (simp_all add: buffer_ok_def)
  have "buffer_ok b' \<and> len b \<le> len b' \<and> (r \<noteq> None \<longrightarrow> error b' = error b \<and> len b' = len b + (ll - 1) \<and>
      (\<exists>bs. buf b' = memmove bs (at + 1 + (ll - 1)) (at + 1) n \<and> length bs = cap b' \<and>
         take (len b) bs = written b))"
  proof (cases "ll = 1")
    case True
    then have "r = Some ()" "b' = b" using assms(6) by (simp_all add: widen_def ret_def)
    moreover have "memmove (buf b) (at + 1) (at + 1) n = buf b"
      using assms(3) b by (intro memmove_same) simp
    ultimately show ?thesis
      using True assms(2) b by (auto simp: written_def intro!: exI [of _ "buf b"])
  next
    case False
    define e where "e = ll - 1"
    obtain r1 b1 where add: "cbb_buffer_add malloc e b = (r1, b1)" by fastforce
    have "e < 2 ^ 64" using assms(5) by (simp add: e_def)
    note res = buffer_add_ok [OF assms(1,2) add this]
    have "(r, b') = (case r1 of None \<Rightarrow> (None, b1) | Some _ \<Rightarrow>
        (Some (), b1\<lparr>buf := memmove (buf b1) (at + 1 + e) (at + 1) n\<rparr>))"
      using assms(6) False add by (simp add: widen_def andthen_def e_def Let_def split: option.splits)
    moreover have "length (memmove (buf b1) (at + 1 + e) (at + 1) n) = cap b1"
      if "r1 = Some i" for i
      using res(1) res(2) [OF that] assms(3) by (subst length_memmove) (simp_all add: buffer_ok_def)
    ultimately show ?thesis
      unfolding e_def [symmetric] using res by (auto simp: buffer_ok_def split: option.splits)
  qed
  then show "buffer_ok b'" "len b \<le> len b'"
    "r \<noteq> None \<Longrightarrow> error b' = error b \<and> len b' = len b + (ll - 1) \<and>
      (\<exists>bs. buf b' = memmove bs (at + 1 + (ll - 1)) (at + 1) n \<and> length bs = cap b' \<and>
         take (len b) bs = written b)"
    by simp_all
qed

lemma widened_close:
  assumes "take (offset p + 1 + n) bs = written b" "buffer_ok b" "pending_is_asn1 p"
    "pending_len_len p = 1" "len b = offset p + 1 + n"
  shows "take (offset p) bs @ der_len n @ take n (drop (offset p + 1) bs) = close p (written b)"
proof -
  have "offset p + 1 + n \<le> length bs"
    using length_written [OF assms(2)] assms(1,5) by (metis length_take min.cobounded1)
  then have "take (offset p) bs = take (offset p) (written b)"
    "take n (drop (offset p + 1) bs) = drop (offset p + 1) (written b)" "length (written b) = offset p + 1 + n"
    unfolding assms(1) [symmetric] by (simp_all add: min_absorb1 drop_take min_absorb2)
  then show ?thesis using assms(3,4) by (simp add: close_def Let_def length_prefix_def)
qed

lemma flush_prefix_asn1:
  assumes m: "malloc_returns_size malloc" and ok: "buffer_ok b"
    and p: "pending_is_asn1 p" "pending_len_len p = 1" and n: "offset p + 1 + n = len b"
    and res: "flush_prefix malloc p b = (r, b')"
  shows "buffer_ok b' \<and> len b \<le> len b' \<and>
    (r \<noteq> None \<longrightarrow> written b' = close p (written b) \<and> error b' = error b \<and> n < 2 ^ 32 - 1)"
proof -
  obtain ll ib n' where a: "asn1_len_len n = (ll, ib, n')" by (metis prod_cases3)
  have "size_add (offset p) 1 = offset p + 1" "len b - (offset p + 1) = n" "\<not> len b < offset p + 1"
    using n ok by (simp_all add: buffer_ok_def size_add_eq)
  then have fp: "flush_prefix malloc p b = (if n > 0xfffffffe then (None, b)
     else andthen (widen malloc (offset p + 1) ll n) (\<lambda>_ b.
            let bs = (buf b)[offset p := ib] in
            case store_be bs (offset p + 1) (ll - 1) (word_of_nat n') of
              (bs, v) \<Rightarrow> (if v \<noteq> 0 then None else Some (), b\<lparr>buf := bs\<rparr>)) b)"
    using p(1) unfolding flush_prefix_def p(2) by (simp add: Let_def a)
  show ?thesis
  proof (cases "n > 0xfffffffe")
    case True
    with fp ok res show ?thesis by simp
  next
    case small: False
    then have n32: "n < 2 ^ 32" by simp
    note ll = asn1_len_len_eq [OF n32 a]
    obtain r0 b0 where w: "widen malloc (offset p + 1) ll n b = (r0, b0)" by fastforce
    note w0 = widen_ok [OF m ok n ll(2,3) w]
    show ?thesis
    proof (cases r0)
      case None
      with fp small w w0 res show ?thesis by (simp add: andthen_def)
    next
      case (Some u)
      with w0 obtain bs where bs: "buf b0 = memmove bs (offset p + 1 + (ll - 1)) (offset p + 1) n"
        "length bs = cap b0" "take (len b) bs = written b"
        and b0: "len b0 = len b + (ll - 1)" "error b0 = error b" by auto
      have l0: "offset p + 1 + (ll - 1) + n = len b0" using n b0 by simp
      have lb: "offset p + 1 + (ll - 1) + n \<le> length bs"
        using l0 bs(2) w0(1) by (simp add: buffer_ok_def)
      have "n' < 2 ^ 64" using ll(5) n32 by simp
      from prefix_bytes [OF lb this ll(4), of ib] obtain bs' where bs':
        "store_be ((buf b0)[offset p := ib]) (offset p + 1) (ll - 1) (word_of_nat n') = (bs', 0)"
        "length bs' = length bs"
        "take (len b0) bs' = take (offset p) bs @ der_len n @ take n (drop (offset p + 1) bs)"
        unfolding bs(1) l0 ll(1) by blast
      have "take (len b0) bs' = close p (written b)"
        unfolding bs'(3) using bs(3) n by (intro widened_close [OF _ ok p]) simp_all
      moreover have "r = Some ()" "b' = b0\<lparr>buf := bs'\<rparr>"
        using res fp small w Some bs'(1) by (simp_all add: andthen_def Let_def)
      ultimately show ?thesis
        using b0 bs bs' small w0(1) by (simp add: buffer_ok_def written_def)
    qed
  qed
qed

lemma flush_prefix_ok:
  assumes m: "malloc_returns_size malloc" and ok: "buffer_ok b" and p: "pending_ok p"
    and le: "offset p + pending_len_len p \<le> len b"
    and res: "flush_prefix malloc p b = (r, b')"
  shows "buffer_ok b' \<and> len b \<le> len b' \<and>
    (r \<noteq> None \<longrightarrow> written b' = close p (written b) \<and> error b' = error b \<and>
       fits p (len b - (offset p + pending_len_len p)))"
proof (cases "pending_is_asn1 p")
  case True
  then have "pending_len_len p = 1" using p by (simp add: pending_ok_def)
  with True le flush_prefix_asn1 [OF m ok True this _ res, of "len b - (offset p + 1)"] show ?thesis
    by (simp add: fits_def)
next
  case False
  define n where "n = len b - (offset p + pending_len_len p)"
  have b: "length (buf b) = cap b" "len b \<le> cap b" "cap b < 2 ^ 64"
    using ok by (simp_all add: buffer_ok_def)
  have cs: "size_add (offset p) (pending_len_len p) = offset p + pending_len_len p"
    using b le by (simp add: size_add_eq)
  have n: "n < 2 ^ 64" "offset p + pending_len_len p + n = len b" using b le by (simp_all add: n_def)
  obtain v' where st: "store_be (buf b) (offset p) (pending_len_len p) (word_of_nat n) =
      (take (offset p) (buf b) @ be_fixed (pending_len_len p) n @
        drop (offset p + pending_len_len p) (buf b), v')" and v': "v' = 0 \<longleftrightarrow> n < 256 ^ pending_len_len p"
    using store_be_fits [of "offset p" "pending_len_len p" "buf b" n] b n le by auto
  have "flush_prefix malloc p b = (if v' \<noteq> 0 then None else Some (), b\<lparr>buf :=
      take (offset p) (buf b) @ be_fixed (pending_len_len p) n @
        drop (offset p + pending_len_len p) (buf b)\<rparr>)"
    using False le by (simp add: flush_prefix_def Let_def cs n_def [symmetric] st)
  then show ?thesis
    using le res b n v' False p unfolding close_length_prefix [OF ok le, folded n_def]
    by (auto simp: buffer_ok_def written_def length_prefix_def fits_def n_def [symmetric] min_def
        pending_ok_def split: if_splits)
qed

section \<open>Flushing\<close>

definition contents :: "CBB \<Rightarrow> byte list" where
  "contents cbb = (case base cbb of None \<Rightarrow> [] | Some b \<Rightarrow> written b)"

definition live :: "CBB \<Rightarrow> bool" where
  "live cbb \<longleftrightarrow> (case base cbb of None \<Rightarrow> False | Some b \<Rightarrow> \<not> error b)"

text \<open>The bytes as they are once everything below depth \<open>d\<close> has been flushed.\<close>

definition view :: "nat \<Rightarrow> CBB \<Rightarrow> byte list" where
  "view d cbb = closed (drop d (child cbb)) (contents cbb)"

lemma cbb_ok_base_error: "cbb_ok cbb \<Longrightarrow>
    cbb_ok (cbb\<lparr>base := map_option (\<lambda>b. b\<lparr>error := True\<rparr>) (base cbb)\<rparr>)"
  by (cases "base cbb") (simp_all add: cbb_ok_def buffer_ok_def)

lemma CBB_flush_dead: "base_of d cbb = None \<Longrightarrow> CBB_flush malloc d cbb = (None, cbb)"
  by (simp add: CBB_flush.simps [of malloc d])

lemma CBB_flush_error:
  "base_of d cbb = Some b \<Longrightarrow> error b \<Longrightarrow> CBB_flush malloc d cbb = (None, cbb)"
  by (simp add: CBB_flush.simps [of malloc d])

lemma CBB_flush_leaf:
  "base_of d cbb = Some b \<Longrightarrow> \<not> error b \<Longrightarrow> length (child cbb) \<le> d \<Longrightarrow>
     CBB_flush malloc d cbb = (Some (), cbb)"
  by (simp add: CBB_flush.simps [of malloc d])

lemma CBB_flush_ok:
  assumes "malloc_returns_size malloc" "cbb_ok cbb" "CBB_flush malloc d cbb = (r, cbb')"
  shows "cbb_ok cbb' \<and> (r = None \<longrightarrow> d \<le> length (child cbb) \<longrightarrow> \<not> live cbb') \<and>
     (r \<noteq> None \<longrightarrow> d \<le> length (child cbb) \<and> live cbb' \<and>
     child cbb' = take d (child cbb) \<and> contents cbb' = view d cbb \<and>
     lengths_fit (drop d (child cbb)) (contents cbb))"
  using assms
proof (induction malloc d cbb arbitrary: r cbb' rule: CBB_flush.induct)
  case (1 malloc' d cbb)
  show ?case
  proof (cases "base_of d cbb")
    case None
    with 1 CBB_flush_dead [OF None] show ?thesis by (auto simp: base_of_def live_def split: if_splits)
  next
    case (Some b)
    then have b: "base cbb = Some b" and d: "d \<le> length (child cbb)"
      by (auto simp: base_of_def split: if_splits)
    show ?thesis
    proof (cases "error b \<or> length (child cbb) \<le> d")
      case True
      then consider "error b" | "\<not> error b" "length (child cbb) = d" using d by auto
      then show ?thesis
      proof cases
        case 1
        then show ?thesis using "1.prems" CBB_flush_error [OF Some 1] b by (simp add: live_def)
      next
        case 2
        then have "CBB_flush malloc' d cbb = (Some (), cbb)" using CBB_flush_leaf [OF Some] by simp
        with 2 b "1.prems" show ?thesis by (auto simp: view_def live_def contents_def)
      qed
    next
      case False
      define p where "p = child cbb ! d"
      have chain: "chain_ok 0 (child cbb) (len b)"
        using 1 b by (simp add: cbb_ok_def)
      then have pok: "pending_ok p" and lo: "chain_ok 0 (take d (child cbb)) (offset p)"
        using chain_ok_nth [of 0 "child cbb" "len b" d] False by (simp_all add: p_def)
      then have nz: "pending_len_len p \<noteq> 0" by (simp add: pending_ok_def)
      obtain r1 cbb1 where rec: "CBB_flush malloc' (Suc d) cbb = (r1, cbb1)" by fastforce
      have IH: "cbb_ok cbb1 \<and> (r1 \<noteq> None \<longrightarrow> Suc d \<le> length (child cbb) \<and> live cbb1 \<and>
          child cbb1 = take (Suc d) (child cbb) \<and> contents cbb1 = view (Suc d) cbb \<and>
          lengths_fit (drop (Suc d) (child cbb)) (contents cbb))"
        using "1.IH" [OF Some _ _ _ "1.prems"(1,2) rec] False nz by (simp add: p_def)
      have split: "drop d (child cbb) = p # drop (Suc d) (child cbb)"
        using False by (simp add: p_def Cons_nth_drop_Suc)
      show ?thesis
      proof (cases r1)
        case None
        with 1 Some b False nz rec IH show ?thesis
          using cbb_ok_base_error [of cbb1]
          by (auto simp: CBB_flush.simps [of malloc' d] p_def live_def split: option.splits)
      next
        case (Some u)
        with IH obtain b1 where b1: "base cbb1 = Some b1" by (auto simp: live_def split: option.splits)
        have c1: "child cbb1 = take (Suc d) (child cbb)" and ct: "written b1 = view (Suc d) cbb"
          and b1ok: "buffer_ok b1" and chain1: "chain_ok 0 (child cbb1) (len b1)" and nerr: "\<not> error b1"
          using IH Some b1 by (auto simp: contents_def cbb_ok_def live_def)
        have "child cbb1 ! d = p" "d < length (child cbb1)" using c1 False by (simp_all add: p_def)
        then have le: "offset p + pending_len_len p \<le> len b1" using chain_ok_nth(3) [OF chain1] by metis
        obtain r2 b2 where fp: "flush_prefix malloc' p b1 = (r2, b2)" by fastforce
        have fp_ok: "buffer_ok b2 \<and> len b1 \<le> len b2 \<and>
          (r2 \<noteq> None \<longrightarrow> written b2 = close p (written b1) \<and> error b2 = error b1 \<and>
             fits p (len b1 - (offset p + pending_len_len p)))"
          using flush_prefix_ok [OF _ b1ok pok le fp] "1.prems"(1) by simp
        have n1: "len b1 = length (closed (drop (Suc d) (child cbb)) (contents cbb))"
          using ct length_written [OF b1ok] by (simp add: view_def)
        have "chain_ok 0 (child cbb1) (len b2)" "chain_ok 0 (take d (child cbb)) (len b2)"
          using chain1 lo le fp_ok chain_ok_mono by (auto elim!: chain_ok_mono)
        moreover have "CBB_flush malloc' d cbb = (case r2 of
            None \<Rightarrow> (None, cbb1\<lparr>base := Some (b2\<lparr>error := True\<rparr>)\<rparr>)
          | Some _ \<Rightarrow> (Some (), cbb1\<lparr>base := Some b2, child := take d (child cbb1)\<rparr>))"
          using \<open>base_of d cbb = Some b\<close> False nz rec Some b1 fp
          by (simp add: CBB_flush.simps [of malloc' d] p_def split: option.splits)
        ultimately show ?thesis
          using "1.prems"(3) fp_ok c1 d ct nerr split IH Some n1
          by (auto simp: cbb_ok_def buffer_ok_def live_def contents_def view_def min_def
              split: option.splits)
      qed
    qed
  qed
qed

section \<open>What every writer promises\<close>

text \<open>
  An operation at depth \<open>d\<close> that succeeds appends its bytes to the object at depth \<open>d\<close> (seen as
  flushed) and leaves the objects above it alone; one that fails leaves the whole builder in the
  error state, where no operation succeeds any more. In either case the buffer stays well-formed.
\<close>

locale appender =
  fixes malloc :: allocator and d :: nat and f :: "(CBB, 'a) op" and v :: 'a and bytes :: "byte list"
  assumes keeps: "malloc_returns_size malloc \<Longrightarrow> cbb_ok cbb \<Longrightarrow> d \<le> length (child cbb) \<Longrightarrow>
      cbb_ok (snd (f cbb))"
    and fails: "malloc_returns_size malloc \<Longrightarrow> cbb_ok cbb \<Longrightarrow> d \<le> length (child cbb) \<Longrightarrow>
      f cbb = (None, cbb') \<Longrightarrow> \<not> live cbb'"
    and appends: "malloc_returns_size malloc \<Longrightarrow> cbb_ok cbb \<Longrightarrow> d \<le> length (child cbb) \<Longrightarrow>
      f cbb = (Some u, cbb') \<Longrightarrow>
      u = v \<and> d \<le> length (child cbb') \<and> length (child cbb') \<le> length (child cbb) \<and>
      take d (child cbb') = take d (child cbb) \<and> view d cbb' = view d cbb @ bytes"
begin

lemma appends_ok:
  "malloc_returns_size malloc \<Longrightarrow> cbb_ok cbb \<Longrightarrow> d \<le> length (child cbb) \<Longrightarrow>
     f cbb = (Some u, cbb') \<Longrightarrow> cbb_ok cbb'"
  using keeps [of cbb] by simp

text \<open>Finishing after the operation hands out what was there and the bytes.\<close>

lemma finished:
  assumes "d = 0" "malloc_returns_size malloc" "cbb_ok cbb"
    and "andthen f (\<lambda>_. CBB_finish malloc 0 w) cbb = (Some (out, n), cbb')"
  shows "take n out = view 0 cbb @ bytes \<and> base cbb' = None"
proof -
  obtain u c1 where f: "f cbb = (Some u, c1)" and fin: "CBB_finish malloc 0 w c1 = (Some (out, n), cbb')"
    using assms(4) by (rule andthen_SomeE)
  have c1: "cbb_ok c1" "view 0 c1 = view 0 cbb @ bytes"
    using appends_ok [OF assms(2,3) _ f] appends [OF assms(2,3) _ f] assms(1) by simp_all
  obtain u2 c2 where fl: "CBB_flush malloc 0 c1 = (Some u2, c2)"
    and rest: "(case base c2 of None \<Rightarrow> (None, c2) | Some b \<Rightarrow>
       if can_resize b \<and> \<not> w then (None, c2) else (Some (buf b, len b), CBB_cleanup c2)) = (Some (out, n), cbb')"
    using fin by (auto simp: CBB_finish_def elim: andthen_SomeE)
  have "contents c2 = view 0 cbb @ bytes"
    using CBB_flush_ok [OF assms(2) c1(1) fl] c1(2) by simp
  with rest show ?thesis
    by (auto simp: contents_def written_def CBB_cleanup_def split: option.splits if_splits)
qed

end

lemma appender_ret: "appender malloc d (ret v) v []"
  by unfold_locales (simp_all add: ret_def)

lemma appender_andthen:
  assumes f: "appender malloc d f v bytes" and g: "appender malloc d (g v) w cs"
  shows "appender malloc d (andthen f g) w (bytes @ cs)"
proof unfold_locales
  fix cbb :: CBB
  assume h: "malloc_returns_size malloc" "cbb_ok cbb" "d \<le> length (child cbb)"
  note f1 = appender.appends [OF f h] appender.keeps [OF f h]
  show "cbb_ok (snd (andthen f g cbb))"
  proof (cases "f cbb")
    case (Pair r c1)
    show ?thesis
    proof (cases r)
      case None
      with Pair f1 show ?thesis by (simp add: andthen_def)
    next
      case (Some u)
      with Pair f1(1) [of u c1] f1(2) have "u = v" "d \<le> length (child c1)" "cbb_ok c1" by auto
      with Pair Some appender.keeps [OF g h(1)] show ?thesis by (simp add: andthen_def)
    qed
  qed
  show "\<not> live cbb'" if "andthen f g cbb = (None, cbb')" for cbb'
  proof (cases "f cbb")
    case (Pair r c1)
    show ?thesis
    proof (cases r)
      case None
      with Pair that appender.fails [OF f h] show ?thesis by (simp add: andthen_def)
    next
      case (Some u)
      with Pair f1(1) [of u c1] f1(2) have "u = v" "d \<le> length (child c1)" "cbb_ok c1" by auto
      with Pair Some that appender.fails [OF g h(1)] show ?thesis by (simp add: andthen_def)
    qed
  qed
  fix u c2
  assume "andthen f g cbb = (Some u, c2)"
  then obtain x c1 where x: "f cbb = (Some x, c1)" and gc: "g x c1 = (Some u, c2)" by (rule andthen_SomeE)
  with f1(1) [of x c1] f1(2) have c1: "x = v" "d \<le> length (child c1)" "length (child c1) \<le> length (child cbb)"
    "take d (child c1) = take d (child cbb)" "view d c1 = view d cbb @ bytes" "cbb_ok c1" by auto
  from appender.appends [OF g h(1) c1(6,2)] gc c1
  show "u = w \<and> d \<le> length (child c2) \<and> length (child c2) \<le> length (child cbb) \<and> take d (child c2) = take d (child cbb) \<and>
      view d c2 = view d cbb @ bytes @ cs" by auto
qed

lemma view_leaf: "length (child cbb) \<le> d \<Longrightarrow> view d cbb = contents cbb"
  by (simp add: view_def)

lemma appender_flush: "appender malloc d (CBB_flush malloc d) () []"
proof unfold_locales
  fix cbb :: CBB
  assume h: "malloc_returns_size malloc" "cbb_ok cbb" "d \<le> length (child cbb)"
  show "cbb_ok (snd (CBB_flush malloc d cbb))"
    using CBB_flush_ok [OF h(1,2)] by (cases "CBB_flush malloc d cbb") simp
  show "CBB_flush malloc d cbb = (None, cbb') \<Longrightarrow> \<not> live cbb'" for cbb'
    using CBB_flush_ok [OF h(1,2), of d None cbb'] h(3) by simp
  show "CBB_flush malloc d cbb = (Some u, cbb') \<Longrightarrow> u = () \<and> d \<le> length (child cbb') \<and>
      length (child cbb') \<le> length (child cbb) \<and>
      take d (child cbb') = take d (child cbb) \<and> view d cbb' = view d cbb @ []" for u cbb'
    using CBB_flush_ok [OF h(1,2), of d "Some u" cbb'] h(3) by (simp add: view_leaf)
qed

text \<open>Operations on the buffer, after the flush that every writer starts with.\<close>

lemma appender_on_base:
  assumes "\<And>b r b'. malloc_returns_size malloc \<Longrightarrow> buffer_ok b \<Longrightarrow> f b = (r, b') \<Longrightarrow>
      buffer_ok b' \<and> len b \<le> len b' \<and> (r = None \<longrightarrow> error b') \<and>
      (r \<noteq> None \<longrightarrow> r = Some v \<and> written b' = written b @ bytes)"
  shows "appender malloc d (andthen (CBB_flush malloc d) (\<lambda>_. on_base f)) v bytes"
proof -
  have step: "cbb_ok c2 \<and> (r = None \<longrightarrow> \<not> live c2) \<and> (r \<noteq> None \<longrightarrow> r = Some v \<and> child c2 = child c1 \<and> contents c2 = contents c1 @ bytes)"
    if "malloc_returns_size malloc" "cbb_ok c1" "on_base f c1 = (r, c2)" for c1 c2 r
  proof (cases "base c1")
    case None
    with that show ?thesis by (simp add: on_base_def live_def)
  next
    case (Some b)
    with that assms [of b] show ?thesis
      by (cases "f b") (auto simp: on_base_def cbb_ok_def contents_def live_def elim: chain_ok_mono)
  qed
  show ?thesis
  proof unfold_locales
    fix cbb :: CBB
    assume h: "malloc_returns_size malloc" "cbb_ok cbb" "d \<le> length (child cbb)"
    obtain r1 c1 where fl: "CBB_flush malloc d cbb = (r1, c1)" by fastforce
    note c1 = CBB_flush_ok [OF h(1,2) fl]
    obtain r2 c2 where ob: "on_base f c1 = (r2, c2)" by fastforce
    note c2 = step [OF h(1) _ ob]
    show "cbb_ok (snd (andthen (CBB_flush malloc d) (\<lambda>_. on_base f) cbb))"
      using fl ob c1 c2 by (cases r1) (auto simp: andthen_def)
    show "andthen (CBB_flush malloc d) (\<lambda>_. on_base f) cbb = (None, cbb') \<Longrightarrow> \<not> live cbb'" for cbb'
      using fl ob c1 c2 h(3) by (cases r1) (auto simp: andthen_def)
    show "andthen (CBB_flush malloc d) (\<lambda>_. on_base f) cbb = (Some u, cbb') \<Longrightarrow> u = v \<and>
       d \<le> length (child cbb') \<and> length (child cbb') \<le> length (child cbb) \<and>
       take d (child cbb') = take d (child cbb) \<and> view d cbb' = view d cbb @ bytes" for u cbb'
      using fl ob c1 c2 h(3) by (cases r1) (auto simp: andthen_def view_leaf)
  qed
qed

section \<open>The writers append what they should\<close>

lemma appender_add_u:
  assumes "0 < n" "n < 2 ^ 64"
  shows "appender malloc d (cbb_add_u malloc d v n) () (be_fixed n (unat v))"
  unfolding cbb_add_u_def
proof (rule appender_on_base)
  show "buffer_ok b' \<and> len b \<le> len b' \<and> (r = None \<longrightarrow> error b') \<and>
      (r \<noteq> None \<longrightarrow> r = Some () \<and> written b' = written b @ be_fixed n (unat v))"
    if "malloc_returns_size malloc" "buffer_ok b" "cbb_buffer_add_u malloc v n b = (r, b')" for b r b'
    using buffer_add_u_ok [OF that assms] by (auto split: option.splits)
qed

interpretation add_u8: appender malloc d "CBB_add_u8 malloc d b" "()" "[b]"
  using appender_add_u [of 1 malloc d "ucast b"] by (simp add: CBB_add_u8_def)

interpretation add_u16: appender malloc d "CBB_add_u16 malloc d w" "()" "be_fixed 2 (unat w)"
  using appender_add_u [of 2 malloc d "ucast w"] by (simp add: CBB_add_u16_def)

interpretation add_u24: appender malloc d "CBB_add_u24 malloc d w" "()" "be_fixed 3 (unat w)"
  using appender_add_u [of 3 malloc d "ucast w"] by (simp add: CBB_add_u24_def)

interpretation add_u32: appender malloc d "CBB_add_u32 malloc d w" "()" "be_fixed 4 (unat w)"
  using appender_add_u [of 4 malloc d "ucast w"] by (simp add: CBB_add_u32_def)

interpretation add_u64: appender malloc d "CBB_add_u64 malloc d w" "()" "be_fixed 8 (unat w)"
  using appender_add_u [of 8 malloc d w] by (simp add: CBB_add_u64_def)

lemma appender_add_bytes:
  assumes "length data < 2 ^ 64"
  shows "appender malloc d (CBB_add_bytes malloc d data) () data"
  unfolding CBB_add_bytes_def
proof (rule appender_on_base)
  fix b r b'
  assume h: "malloc_returns_size malloc" "buffer_ok b"
    "andthen (cbb_buffer_add malloc (length data)) (\<lambda>dest b. (Some (), b\<lparr>buf := memcpy (buf b) dest data\<rparr>)) b = (r, b')"
  obtain r0 b0 where add: "cbb_buffer_add malloc (length data) b = (r0, b0)" by fastforce
  note b0 = buffer_add_ok [OF h(1,2) add assms]
  show "buffer_ok b' \<and> len b \<le> len b' \<and> (r = None \<longrightarrow> error b') \<and>
      (r \<noteq> None \<longrightarrow> r = Some () \<and> written b' = written b @ data)"
    using h(3) add b0 length_written [OF h(2)]
    by (cases r0) (auto simp: andthen_def buffer_ok_def written_def memcpy_def)
qed

section \<open>Base-128 integers\<close>

fun base128_digits :: "nat \<Rightarrow> nat \<Rightarrow> byte list" where
  "base128_digits 0 n = []"
| "base128_digits (Suc i) n =
     (if i \<noteq> 0 then word_of_nat (n div 128 ^ i mod 128) OR 0x80 else word_of_nat (n mod 128))
       # base128_digits i n"

lemma base128_digits_snoc:
  "base128_digits (Suc i) n = map (\<lambda>b. b OR 0x80) (base128_digits i (n div 128)) @ [word_of_nat (n mod 128)]"
proof (induction i)
  case (Suc i)
  have "n div 128 ^ Suc i = n div 128 div 128 ^ i" by (simp add: div_mult2_eq)
  moreover have "x OR 0x80 OR 0x80 = x OR (0x80 :: byte)" for x by (simp add: or.assoc)
  ultimately show ?case
    by (subst base128_digits.simps(2), subst Suc) auto
qed simp

lemma base128_digits_eq: "base128_digits (length (base128 n)) n = base128 n"
proof (induction n rule: base128.induct)
  case (1 n)
  show ?case
  proof (cases "n < 128")
    case True
    then show ?thesis by (simp add: base128_small)
  next
    case False
    then have b: "base128 n = map (\<lambda>b. b OR 0x80) (base128 (n div 128)) @ [word_of_nat (n mod 128)]"
      by (subst base128.simps) (simp only: if_False)
    then have "length (base128 n) = Suc (length (base128 (n div 128)))" by simp
    then show ?thesis using 1 [OF False] by (simp only: base128_digits_snoc b)
  qed
qed

lemma base128_len_len_eq:
  "base128_len_len v k = k + (if v = 0 then 0 else length (base128 (unat v)))"
proof (induction v k rule: base128_len_len.induct)
  case (1 copy n)
  show ?case
  proof (cases "copy = 0")
    case True
    then show ?thesis by (simp add: base128_len_len.simps [of 0 n])
  next
    case False
    have "drop_bit 7 copy = 0 \<longleftrightarrow> unat copy < 128" by (simp add: drop_bit_eq_0_iff)
    moreover have "length (base128 m) = Suc (if m < 128 then 0 else length (base128 (m div 128)))" for m
      by (simp add: base128.simps [of m])
    ultimately show ?thesis
      using 1 False by (simp add: base128_len_len.simps [of copy n] word_gt_0 unat_drop_bit)
  qed
qed

lemma base128_byte:
  "ucast (drop_bit k v) AND (0x7f :: byte) = word_of_nat (unat (v :: u64) div 2 ^ k mod 128)"
proof (rule unsigned_word_eqI [where 'a = nat])
  show "unat (ucast (drop_bit k v) AND (0x7f :: byte)) = unat (word_of_nat (unat v div 2 ^ k mod 128) :: byte)"
    unfolding low_bits by (simp add: unat_ucast_mod unat_drop_bit mod_mod_cancel)
qed

lemma appender_base128_loop:
  "appender malloc d (add_base128_loop malloc d v k) () (base128_digits k (unat v))"
proof (induction k)
  case 0
  show ?case by (simp add: appender_ret)
next
  case (Suc i)
  have "(2::nat) ^ (7 * i) = 128 ^ i" by (simp add: power_mult)
  then have "ucast (drop_bit (7 * i) v) AND (0x7f :: byte) = word_of_nat (unat v div 128 ^ i mod 128)"
    by (simp add: base128_byte)
  then show ?case
    using appender_andthen [OF add_u8.appender_axioms Suc]
    by (cases "i = 0") (simp_all add: Let_def)
qed

interpretation add_base128: appender malloc d "add_base128_integer malloc d v" "()" "base128 (unat v)"
proof -
  have "(if base128_len_len v 0 = 0 then 1 else base128_len_len v 0) = length (base128 (unat v))"
    by (simp add: base128_len_len_eq base128_small)
  then show "appender malloc d (add_base128_integer malloc d v) () (base128 (unat v))"
    using appender_base128_loop [of malloc d v "length (base128 (unat v))"]
    by (simp add: add_base128_integer_def Let_def base128_digits_eq)
qed

section \<open>Opening a child\<close>

text \<open>
  An operation that opens a child at depth \<open>d\<close> writes a header and reserves the space of the
  length prefix at the end of the buffer.
\<close>

locale opener =
  fixes malloc :: allocator and d :: nat and f :: "(CBB, unit) op" and header :: "byte list"
    and k :: nat and is_asn1 :: bool
  assumes kind: "0 < k" "k \<le> 3" "is_asn1 \<Longrightarrow> k = 1"
    and keeps: "malloc_returns_size malloc \<Longrightarrow> cbb_ok cbb \<Longrightarrow> d \<le> length (child cbb) \<Longrightarrow>
      cbb_ok (snd (f cbb))"
    and fails: "malloc_returns_size malloc \<Longrightarrow> cbb_ok cbb \<Longrightarrow> d \<le> length (child cbb) \<Longrightarrow>
      f cbb = (None, cbb') \<Longrightarrow> \<not> live cbb'"
    and opens: "malloc_returns_size malloc \<Longrightarrow> cbb_ok cbb \<Longrightarrow> d \<le> length (child cbb) \<Longrightarrow>
      f cbb = (Some u, cbb') \<Longrightarrow>
      child cbb' = take d (child cbb) @
        [\<lparr>offset = length (view d cbb @ header), pending_len_len = k, pending_is_asn1 = is_asn1\<rparr>] \<and>
      contents cbb' = view d cbb @ header @ replicate k 0"
begin

definition prefixed :: "byte list \<Rightarrow> byte list" where
  "prefixed body = header @ (if is_asn1 then der_len (length body) else be_fixed k (length body)) @ body"

text \<open>Filling the child and flushing its parent appends the prefixed contents.\<close>

lemma appender_around:
  assumes g: "appender malloc (Suc d) g v body"
  shows "appender malloc d (andthen f (\<lambda>_. andthen g (\<lambda>_. CBB_flush malloc d))) () (prefixed body)"
proof unfold_locales
  fix cbb :: CBB
  assume h: "malloc_returns_size malloc" "cbb_ok cbb" "d \<le> length (child cbb)"
  obtain r1 c1 where f1: "f cbb = (r1, c1)" by fastforce
  then have ok1: "cbb_ok c1" using keeps [OF h] by simp
  obtain r2 c2 where g1: "g c1 = (r2, c2)" by fastforce
  obtain r3 c3 where fl: "CBB_flush malloc d c2 = (r3, c3)" by fastforce
  have ok2: "cbb_ok c2" if "r1 = Some u" for u
    using f1 opens [OF h, of u c1] h(3) that appender.keeps [OF g h(1) ok1] g1 by simp
  note c3 = CBB_flush_ok [OF h(1) ok2 fl]
  show "cbb_ok (snd (andthen f (\<lambda>_. andthen g (\<lambda>_. CBB_flush malloc d)) cbb))"
    using f1 g1 fl ok1 ok2 c3 by (auto simp: andthen_def split: option.splits)
  have "Suc d \<le> length (child c1)" if "r1 = Some u" for u
    using f1 opens [OF h, of u c1] h(3) that by simp
  moreover have "d \<le> length (child c2)" if "r1 = Some u" "r2 = Some w" for u w
    using appender.appends [OF g h(1) ok1] calculation [OF that(1)] g1 that(2) by force
  ultimately show "\<not> live cbb'"
    if "andthen f (\<lambda>_. andthen g (\<lambda>_. CBB_flush malloc d)) cbb = (None, cbb')" for cbb'
    using that f1 g1 fl fails [OF h] appender.fails [OF g h(1) ok1] c3
    by (auto simp: andthen_def split: option.splits)
  fix u cbb'
  assume "andthen f (\<lambda>_. andthen g (\<lambda>_. CBB_flush malloc d)) cbb = (Some u, cbb')"
  then have r: "r1 = Some ()" "r2 \<noteq> None" "r3 = Some u" "cbb' = c3"
    using f1 g1 fl by (auto simp: andthen_def split: option.splits)
  then obtain u2 where r2: "r2 = Some u2" by auto
  define p where "p = \<lparr>offset = length (view d cbb @ header), pending_len_len = k, pending_is_asn1 = is_asn1\<rparr>"
  have c1: "child c1 = take d (child cbb) @ [p]" "contents c1 = view d cbb @ header @ replicate k 0"
    using opens [OF h, of "()" c1] f1 r by (simp_all add: p_def)
  then have d1: "Suc d \<le> length (child c1)" using h(3) by simp
  have c2: "length (child c2) = Suc d" "take (Suc d) (child c2) = take d (child cbb) @ [p]"
    "view (Suc d) c2 = view (Suc d) c1 @ body"
    using appender.appends [OF g h(1) ok1 d1] g1 r2 c1(1) h(3) by auto
  then have child2: "child c2 = take d (child cbb) @ [p]" by simp
  then have "view d c2 = close p (view (Suc d) c2)" using h(3) by (simp add: view_def)
  also have "view (Suc d) c2 = view d cbb @ header @ replicate k 0 @ body"
    using c2(3) c1 h(3) by (simp add: view_leaf)
  also have "close p \<dots> = view d cbb @ prefixed body"
    by (simp add: close_def p_def prefixed_def length_prefix_def)
  finally show "u = () \<and> d \<le> length (child cbb') \<and> length (child cbb') \<le> length (child cbb) \<and>
      take d (child cbb') = take d (child cbb) \<and> view d cbb' = view d cbb @ prefixed body"
    using c3 r child2 h(3) by (simp add: view_leaf)
qed

end

section \<open>The operations that open a child\<close>

lemma opener_intro:
  assumes kind: "0 < k" "k \<le> 3" "a \<Longrightarrow> k = 1"
    and X: "appender malloc d X x header"
    and R: "\<And>c r c'. malloc_returns_size malloc \<Longrightarrow> cbb_ok c \<Longrightarrow> length (child c) = d \<Longrightarrow> R c = (r, c') \<Longrightarrow>
      cbb_ok c' \<and> (r = None \<longrightarrow> \<not> live c') \<and>
      (r \<noteq> None \<longrightarrow> base c \<noteq> None \<and> r = Some (length (contents c)) \<and> child c' = child c \<and>
        contents c' = contents c @ replicate k 0)"
  shows "opener malloc d (andthen (CBB_flush malloc d) (\<lambda>_. andthen X (\<lambda>_. andthen R (\<lambda>off.
      open_child d off k a)))) header k a" (is "opener malloc d ?f header k a")
proof unfold_locales
  show "0 < k" "k \<le> 3" "a \<Longrightarrow> k = 1" by (fact kind)+
  fix cbb :: CBB
  assume h: "malloc_returns_size malloc" "cbb_ok cbb" "d \<le> length (child cbb)"
  obtain r0 c0 where fl: "CBB_flush malloc d cbb = (r0, c0)" by fastforce
  note c0 = CBB_flush_ok [OF h(1,2) fl]
  obtain r1 c1 where Xc: "X c0 = (r1, c1)" by fastforce
  obtain r2 c2 where Rc: "R c1 = (r2, c2)" by fastforce
  have c1: "cbb_ok c1 \<and> (r1 = None \<longrightarrow> \<not> live c1) \<and> (r1 \<noteq> None \<longrightarrow> child c1 = take d (child cbb) \<and> contents c1 = view d cbb @ header)"
    if "r0 \<noteq> None"
  proof -
    have d0: "d \<le> length (child c0)" and ok0: "cbb_ok c0" and len0: "length (child c0) = d"
      using c0 that h(3) by simp_all
    have "cbb_ok c1" "r1 = None \<Longrightarrow> \<not> live c1"
      using appender.keeps [OF X h(1) ok0 d0] appender.fails [OF X h(1) ok0 d0] Xc by simp_all
    moreover have "child c1 = take d (child cbb) \<and> contents c1 = view d cbb @ header" if "r1 = Some u" for u
    proof -
      have "d \<le> length (child c1)" "length (child c1) \<le> length (child c0)"
        "take d (child c1) = take d (child c0)" "view d c1 = view d c0 @ header"
        using appender.appends [OF X h(1) ok0 d0, of u c1] Xc that by auto
      then show ?thesis using c0 \<open>r0 \<noteq> None\<close> len0 by (simp add: view_leaf)
    qed
    ultimately show ?thesis by auto
  qed
  have c2: "cbb_ok c2 \<and> (r2 = None \<longrightarrow> \<not> live c2) \<and> (r2 \<noteq> None \<longrightarrow> base c1 \<noteq> None \<and> r2 = Some (length (view d cbb @ header)) \<and>
      child c2 = take d (child cbb) \<and> contents c2 = view d cbb @ header @ replicate k 0)"
    if "r0 \<noteq> None" "r1 \<noteq> None"
    using R [OF h(1) _ _ Rc] c1 that h(3) by simp
  have opened: "cbb_ok (snd (open_child d off k a c2))" if r: "r0 \<noteq> None" "r1 \<noteq> None" "r2 = Some off" for off
  proof (cases "base c2")
    case None
    then show ?thesis by (simp add: open_child_def cbb_ok_def)
  next
    case (Some b)
    have b: "buffer_ok b" "off = length (view d cbb @ header)"
      "written b = view d cbb @ header @ replicate k 0" "child c2 = take d (child cbb)"
      using c2 [OF r(1,2)] r(3) Some by (auto simp: cbb_ok_def contents_def)
    obtain b1 where b1: "base c1 = Some b1" using c2 [OF r(1,2)] r(3) by auto
    have "buffer_ok b1" "chain_ok 0 (take d (child cbb)) (len b1)" "written b1 = view d cbb @ header"
      using c1 [OF r(1)] r(2) b1 by (auto simp: cbb_ok_def contents_def)
    then have "chain_ok 0 (take d (child cbb)) off" using length_written [of b1] b(2) by simp
    moreover have "len b = off + k" using length_written [OF b(1)] b by simp
    moreover have "pending_ok \<lparr>offset = off, pending_len_len = k, pending_is_asn1 = a\<rparr>"
      using kind by (auto simp: pending_ok_def)
    ultimately show ?thesis
      using Some b(1,4) by (auto simp: open_child_def cbb_ok_def chain_ok_append)
  qed
  show "cbb_ok (snd (?f cbb))"
    using fl Xc Rc c0 c1 c2 opened by (auto simp: andthen_def split: option.splits)
  show "?f cbb = (None, cbb') \<Longrightarrow> \<not> live cbb'" for cbb'
    using fl Xc Rc c0 c1 c2 h(3) by (auto simp: andthen_def open_child_def split: option.splits)
  fix u cbb'
  assume "?f cbb = (Some u, cbb')"
  then have "r0 \<noteq> None" "r1 \<noteq> None"
    and "\<exists>off. r2 = Some off \<and> (Some (), cbb') = open_child d off k a c2"
    using fl Xc Rc by (auto simp: andthen_def split: option.splits)
  then show "child cbb' = take d (child cbb) @
        [\<lparr>offset = length (view d cbb @ header), pending_len_len = k, pending_is_asn1 = a\<rparr>] \<and>
      contents cbb' = view d cbb @ header @ replicate k 0"
    using c2 by (auto simp: open_child_def contents_def)
qed

text \<open>Reserving one or more zero bytes at the end.\<close>

lemma reserve_zeros:
  assumes "malloc_returns_size malloc" "cbb_ok c" "k < 2 ^ 64"
    and "on_base (andthen (cbb_buffer_add malloc k) (\<lambda>off b.
       (Some off, b\<lparr>buf := memcpy (buf b) off (replicate k 0)\<rparr>))) c = (r, c')"
  shows "cbb_ok c' \<and> (r = None \<longrightarrow> \<not> live c') \<and> (r \<noteq> None \<longrightarrow> base c \<noteq> None \<and> r = Some (length (contents c)) \<and> child c' = child c \<and>
        contents c' = contents c @ replicate k 0)"
proof (cases "base c")
  case None
  with assms show ?thesis by (simp add: on_base_def live_def)
next
  case (Some b)
  then have b: "buffer_ok b" "chain_ok 0 (child c) (len b)" using assms(2) by (simp_all add: cbb_ok_def)
  obtain r0 b0 where add: "cbb_buffer_add malloc k b = (r0, b0)" by fastforce
  note b0 = buffer_add_ok [OF assms(1) b(1) add assms(3)]
  have "(r, c') = (case r0 of None \<Rightarrow> (None, c\<lparr>base := Some b0\<rparr>)
     | Some off \<Rightarrow> (Some off, c\<lparr>base := Some (b0\<lparr>buf := memcpy (buf b0) off (replicate k 0)\<rparr>)\<rparr>))"
    using assms(4) Some add by (auto simp: on_base_def andthen_def split: option.splits)
  then show ?thesis
    using Some b b0 length_written [OF b(1)] chain_ok_mono [OF b(2)]
    by (cases r0) (auto simp: cbb_ok_def contents_def written_def buffer_ok_def memcpy_def live_def)
qed

lemma opener_length_prefixed:
  assumes "0 < k" "k \<le> 3"
  shows "opener malloc d (cbb_add_length_prefixed malloc d k) [] k False"
proof -
  have "opener malloc d (andthen (CBB_flush malloc d) (\<lambda>_. andthen (ret ()) (\<lambda>_.
      andthen (on_base (andthen (cbb_buffer_add malloc k) (\<lambda>off b.
       (Some off, b\<lparr>buf := memcpy (buf b) off (replicate k 0)\<rparr>)))) (\<lambda>off.
      open_child d off k False)))) [] k False"
    using assms by (intro opener_intro reserve_zeros) (auto intro: appender_ret)
  then show ?thesis by (simp add: cbb_add_length_prefixed_def andthen_ret)
qed

interpretation add_u8_prefixed: opener malloc d "CBB_add_u8_length_prefixed malloc d" "[]" 1 False
  unfolding CBB_add_u8_length_prefixed_def by (rule opener_length_prefixed) simp_all

interpretation add_u16_prefixed: opener malloc d "CBB_add_u16_length_prefixed malloc d" "[]" 2 False
  unfolding CBB_add_u16_length_prefixed_def by (rule opener_length_prefixed) simp_all

interpretation add_u24_prefixed: opener malloc d "CBB_add_u24_length_prefixed malloc d" "[]" 3 False
  unfolding CBB_add_u24_length_prefixed_def by (rule opener_length_prefixed) simp_all

lemma tag_first_byte:
  assumes "unat n < 32"
  shows "(ucast (drop_bit 24 tag) AND 0xe0) OR n = (word_of_nat (32 * (unat (tag :: u32) div 2 ^ 29) + unat n) :: byte)"
proof -
  define x :: byte where "x = ucast (drop_bit 24 tag)"
  have "unat tag < 2 ^ 32" using unsigned_less [of tag] by simp
  then have ux: "unat x = unat tag div 2 ^ 24" "unat tag div 2 ^ 29 < 8"
    by (simp_all add: x_def unat_ucast_mod unat_drop_bit less_mult_imp_div_less)
  have "unat tag div 2 ^ 24 div 32 = unat tag div 2 ^ 29" by (simp add: div_mult2_eq [symmetric])
  then have d: "unat (drop_bit 5 x) = unat tag div 2 ^ 29" using ux by (simp add: unat_drop_bit)
  have "x AND 0xe0 = push_bit 5 (drop_bit 5 x)"
    by (rule byte_bits_eqI) (auto simp: bit_simps)
  then have "unat (x AND 0xe0 OR n) = unat tag div 2 ^ 29 * 2 ^ 5 + unat n"
    using unat_push_or [of "drop_bit 5 x" 5 n] assms ux d by simp
  then show ?thesis
    unfolding x_def [symmetric] byte_of_unat_eq_iff using ux assms by simp
qed

definition tag_writer :: "allocator \<Rightarrow> nat \<Rightarrow> u32 \<Rightarrow> (CBB, unit) op" where
  "tag_writer malloc d tag =
     (let tag_bits = ucast (drop_bit CBS_ASN1_TAG_SHIFT tag) AND (0xe0 :: byte);
          tag_number = tag AND CBS_ASN1_TAG_NUMBER_MASK in
      if tag_number \<ge> 0x1f then
          andthen (CBB_add_u8 malloc d (tag_bits OR 0x1f))
            (\<lambda>_. add_base128_integer malloc d (ucast tag_number))
      else CBB_add_u8 malloc d (tag_bits OR ucast tag_number))"

lemma appender_tag: "appender malloc d (tag_writer malloc d tag) () (der_tag tag)"
proof -
  define n where "n = tag AND CBS_ASN1_TAG_NUMBER_MASK"
  have m: "CBS_ASN1_TAG_NUMBER_MASK = mask 29"
    by (simp add: CBS_ASN1_TAG_NUMBER_MASK_def CBS_ASN1_TAG_SHIFT_def mask_eq_exp_minus_1)
  have n: "unat n = unat tag mod 2 ^ 29" unfolding n_def m by (rule unat_and_mask)
  have ge: "n \<ge> 0x1f \<longleftrightarrow> 31 \<le> unat n" by (simp add: word_le_nat_alt)
  show ?thesis
  proof (cases "unat n < 31")
    case True
    then have "unat (ucast n :: byte) = unat n" by (simp add: unat_ucast_mod)
    then have "der_tag tag = [ucast (drop_bit 24 tag) AND 0xe0 OR ucast n]"
      using True tag_first_byte [of "ucast n" tag] n
      by (simp add: der_tag_def Let_def del: of_nat_add of_nat_mult)
    then show ?thesis
      using True add_u8.appender_axioms [of malloc d]
      by (simp add: tag_writer_def Let_def n_def [symmetric] ge CBS_ASN1_TAG_SHIFT_def)
  next
    case False
    then have "der_tag tag = [ucast (drop_bit 24 tag) AND 0xe0 OR 0x1f] @ base128 (unat (ucast n :: u64))"
      using tag_first_byte [of "0x1f" tag] n
      by (simp add: der_tag_def Let_def del: of_nat_add of_nat_mult)
    then show ?thesis
      using False appender_andthen [OF add_u8.appender_axioms
          add_base128.appender_axioms [of malloc d "ucast n"], of "ucast (drop_bit 24 tag) AND 0xe0 OR 0x1f"]
      by (simp add: tag_writer_def Let_def n_def [symmetric] ge CBS_ASN1_TAG_SHIFT_def)
  qed
qed

interpretation add_asn1: opener malloc d "CBB_add_asn1 malloc d tag" "der_tag tag" 1 True
proof -
  have "opener malloc d (andthen (CBB_flush malloc d) (\<lambda>_. andthen (tag_writer malloc d tag) (\<lambda>_.
      andthen (andthen (on_base (\<lambda>b. (Some (len b), b))) (\<lambda>off. andthen (CBB_add_u8 malloc d 0) (\<lambda>_. ret off)))
       (\<lambda>off. open_child d off 1 True)))) (der_tag tag) 1 True"
  proof (intro opener_intro)
    fix c r c'
    assume h: "malloc_returns_size malloc" "cbb_ok c" "length (child c) = d"
      "andthen (on_base (\<lambda>b. (Some (len b), b))) (\<lambda>off. andthen (CBB_add_u8 malloc d 0) (\<lambda>_. ret off)) c = (r, c')"
    obtain r0 c0 where add: "CBB_add_u8 malloc d 0 c = (r0, c0)" by fastforce
    show "cbb_ok c' \<and> (r = None \<longrightarrow> \<not> live c') \<and> (r \<noteq> None \<longrightarrow> base c \<noteq> None \<and> r = Some (length (contents c)) \<and>
        child c' = child c \<and> contents c' = contents c @ replicate 1 0)"
    proof (cases "base c")
      case None
      with h show ?thesis by (auto simp: andthen_def on_base_def live_def)
    next
      case (Some b)
      then have "len b = length (contents c)"
        using h(2) length_written [of b] by (simp add: cbb_ok_def contents_def)
      then have "on_base (\<lambda>b. (Some (len b), b)) c = (Some (length (contents c)), c)"
        using Some by (cases c) (simp add: on_base_def)
      then have "(r, c') = (map_option (\<lambda>_. length (contents c)) r0, c0)"
        using h(4) add by (auto simp: andthen_def ret_def split: option.splits)
      moreover have "cbb_ok c0" "r0 = None \<Longrightarrow> \<not> live c0"
        using add_u8.keeps [OF h(1,2), of d 0] add_u8.fails [OF h(1,2), of d 0] h(3) add by simp_all
      moreover have "child c0 = child c \<and> contents c0 = contents c @ [0]" if "r0 = Some u" for u
      proof -
        have "d \<le> length (child c)" "CBB_add_u8 malloc d 0 c = (Some u, c0)" using h(3) add that by simp_all
        note app = add_u8.appends [OF h(1,2) this]
        have "length (child c0) = d" using app h(3) by linarith
        with app h(3) show ?thesis by (simp add: view_leaf)
      qed
      ultimately show ?thesis using Some by (cases r0) auto
    qed
  qed (simp_all add: appender_tag)
  then show "opener malloc d (CBB_add_asn1 malloc d tag) (der_tag tag) 1 True"
    by (simp add: CBB_add_asn1_def tag_writer_def andthen_assoc andthen_ret Let_def)
qed

lemma add_asn1_prefixed: "add_asn1.prefixed tag body = der tag body"
  by (simp only: add_asn1.prefixed_def der_def if_True)

text \<open>A tag, the contents, and the flush that writes the length: one DER element.\<close>

lemmas appender_element = add_asn1.appender_around [unfolded add_asn1_prefixed]

section \<open>INTEGER writers\<close>

text \<open>The contents octets of a non-negative number: no leading zeros but the one for the sign.\<close>

fun uint_strip :: "byte list \<Rightarrow> byte list" where
  "uint_strip [] = []"
| "uint_strip (b # bs) =
     (if b = 0 then uint_strip bs else if b AND 0x80 \<noteq> 0 then 0 # b # bs else b # bs)"

definition uint_contents :: "byte list \<Rightarrow> byte list" where
  "uint_contents bs = (if uint_strip bs = [] then [0] else uint_strip bs)"

lemma be_int_zero_pad: "unat b < 128 \<Longrightarrow> be_int (b # bs) = int (be_nat (b # bs))"
  by (simp add: be_int_def)

lemma uint_strip_eq:
  "be_int (uint_strip bs) = int (be_nat bs) \<and>
     (uint_strip bs \<noteq> [] \<longrightarrow> CBS_is_valid_asn1_integer (uint_strip bs))"
proof (induction bs)
  case Nil
  show ?case by (simp add: be_int_def)
next
  case (Cons b bs)
  show ?case
  proof (cases "b = 0 \<or> b AND 0x80 \<noteq> 0")
    case True
    with Cons show ?thesis
      by (auto simp: be_nat_Cons be_int_zero_pad CBS_is_valid_asn1_integer_Cons2 high_bit_iff)
  next
    case False
    then have b: "unat b < 128" "b \<noteq> 0" by (simp_all add: high_bit_iff)
    then have "b \<noteq> 0xff" by auto
    with b False show ?thesis
      by (cases bs)
         (auto simp: be_int_zero_pad CBS_is_valid_asn1_integer_Cons2 CBS_is_valid_asn1_integer_def)
  qed
qed

lemma uint_contents_eq:
  "minimal_int (uint_contents bs)" "be_int (uint_contents bs) = int (be_nat bs)"
  using uint_strip_eq [of bs]
  by (auto simp: uint_contents_def valid_asn1_integer_iff_minimal [symmetric]
      CBS_is_valid_asn1_integer_def be_int_def)

lemma be_fixed_map: "be_fixed k n = map (\<lambda>i. word_of_nat (n div 256 ^ (k - Suc i))) [0..<k]"
proof (induction k arbitrary: n)
  case (Suc k)
  have "n div 256 div 256 ^ (k - Suc i) = n div 256 ^ (Suc k - Suc i)" if "i < k" for i
    using that by (simp add: div_mult2_eq [symmetric] power_Suc [symmetric] Suc_diff_Suc del: power_Suc)
  then show ?case by (simp add: Suc)
qed simp

text \<open>The bytes that are still to come, as the loop sees them.\<close>

abbreviation value_byte :: "u64 \<Rightarrow> nat \<Rightarrow> byte" where
  "value_byte v i \<equiv> ucast (drop_bit (8 * (7 - i)) v AND 0xff)"

lemma value_byte_eq: "value_byte v i = word_of_nat (unat v div 256 ^ (7 - i))"
proof -
  have "(ucast (w AND 0xff) :: byte) = ucast w" for w :: u64
    by (rule byte_bits_eqI) (auto simp: bit_simps)
  then have "unat (value_byte v i) = unat v div 2 ^ (8 * (7 - i)) mod 256"
    by (simp add: unat_ucast_mod unat_drop_bit)
  also have "(2::nat) ^ (8 * (7 - i)) = 256 ^ (7 - i)" by (simp add: power_mult)
  finally show ?thesis by (simp add: byte_of_unat_eq_iff)
qed

lemma appender_uint64_started:
  "appender malloc d (asn1_uint64_bytes malloc d v is True) True (map (value_byte v) is)"
proof (induction "is")
  case Nil
  show ?case by (simp add: appender_ret)
next
  case (Cons i "is")
  from appender_andthen [OF add_u8.appender_axioms this, of "value_byte v i"]
  show ?case by (simp add: Let_def)
qed

lemma appender_uint64_bytes:
  "appender malloc d (asn1_uint64_bytes malloc d v is False) (uint_strip (map (value_byte v) is) \<noteq> [])
     (uint_strip (map (value_byte v) is))"
proof (induction "is")
  case Nil
  show ?case by (simp add: appender_ret)
next
  case (Cons i "is")
  note tail = appender_andthen [OF add_u8.appender_axioms [of malloc d "value_byte v i"]
    appender_uint64_started [of malloc d v "is"]]
  show ?case
  proof (cases "value_byte v i = 0")
    case True
    with Cons show ?thesis by (simp add: Let_def)
  next
    case nz: False
    show ?thesis
    proof (cases "value_byte v i AND 0x80 = 0")
      case True
      with nz tail show ?thesis by (simp add: Let_def andthen_ret)
    next
      case False
      with nz appender_andthen [OF add_u8.appender_axioms tail, of 0] show ?thesis by (simp add: Let_def)
    qed
  qed
qed

lemma appender_asn1_uint64:
  "appender malloc d (CBB_add_asn1_uint64 malloc d v) () (der CBS_ASN1_INTEGER (uint_contents (be_fixed 8 (unat v))))"
proof -
  have "map (value_byte v) [0..<8] = be_fixed 8 (unat v)"
    unfolding be_fixed_map value_byte_eq by simp
  then have loop: "appender malloc (Suc d) (asn1_uint64_bytes malloc (Suc d) v [0..<8] False)
      (uint_strip (be_fixed 8 (unat v)) \<noteq> []) (uint_strip (be_fixed 8 (unat v)))"
    using appender_uint64_bytes [of malloc "Suc d" v "[0..<8]"] by simp
  have "appender malloc (Suc d) (if \<not> started then CBB_add_u8 malloc (Suc d) 0 else ret ()) ()
      (if started then [] else [0])" for started
    using add_u8.appender_axioms [of malloc "Suc d" 0] appender_ret [of malloc "Suc d" "()"]
    by (cases started) simp_all
  note both = appender_andthen [where g = "\<lambda>started. if \<not> started then CBB_add_u8 malloc (Suc d) 0 else ret ()",
      OF loop this]
  have "uint_contents bs = uint_strip bs @ (if uint_strip bs \<noteq> [] then [] else [0])" for bs
    by (simp add: uint_contents_def)
  then show ?thesis
    using appender_element [OF both]
    by (simp add: CBB_add_asn1_uint64_def andthen_assoc)
qed

text \<open>Negative numbers: the bytes of the union from the first one that is needed.\<close>

definition union_bytes :: "u64 \<Rightarrow> nat \<Rightarrow> byte list" where
  "union_bytes v k = rev (map (union_byte v) [0..<k])"

lemma union_bytes_Suc: "union_bytes v (Suc k) = union_byte v k # union_bytes v k"
  by (simp add: union_bytes_def)

lemma appender_union_bytes: "appender malloc d (add_union_bytes malloc d v k) () (union_bytes v k)"
proof (induction k)
  case 0
  show ?case by (simp add: appender_ret union_bytes_def)
next
  case (Suc k)
  from appender_andthen [OF add_u8.appender_axioms this, of "union_byte v k"]
  show ?case by (simp add: union_bytes_Suc)
qed

lemma union_bytes_8: "union_bytes v 8 = be_fixed 8 (unat v)"
proof -
  have "union_byte v k = word_of_nat (unat v div 256 ^ k)" for k
  proof -
    have "(2::nat) ^ (8 * k) = 256 ^ k" by (simp add: power_mult)
    then show ?thesis by (simp add: union_byte_def byte_of_unat_eq_iff unat_ucast_mod unat_drop_bit)
  qed
  moreover have "rev (map f [0..<8]) = map (\<lambda>i. f (8 - Suc i)) [0..<8]" for f :: "nat \<Rightarrow> byte"
    by (rule nth_equalityI) (simp_all add: rev_nth)
  ultimately show ?thesis by (simp add: union_bytes_def be_fixed_map)
qed

lemma u64_less: "unat (v :: u64) < 2 ^ 64"
  using unsigned_less [of v, where 'a = nat] by simp

lemma be_nat_be_fixed_64: "be_nat (be_fixed 8 (unat (v :: u64))) = unat v"
  using u64_less [of v] by (simp add: be_nat_be_fixed)

lemma be_int_be_fixed_8: "be_int (be_fixed 8 (unat (v :: u64))) = sint v"
proof -
  have "be_nat (be_fixed 8 (unat v)) = unat v" by (rule be_nat_be_fixed_64)
  then have "be_word (be_fixed 8 (unat v)) = v" by (simp add: word_eq_iff_unat unat_be_word)
  then show ?thesis using sint_be_word [of "be_fixed 8 (unat v)"] by simp
qed

lemma int64_start_drops: "be_int (union_bytes v (Suc (int64_start v k))) = be_int (union_bytes v (Suc k))"
proof (induction v k rule: int64_start.induct)
  case (2 v k)
  then show ?case
    by (auto simp: union_bytes_Suc be_int_drop_sign high_bit_iff not_less)
qed simp

lemma int64_start_minimal:
  "be_int (union_bytes v (Suc k)) < 0 \<Longrightarrow> CBS_is_valid_asn1_integer (union_bytes v (Suc (int64_start v k)))"
proof (induction v k rule: int64_start.induct)
  case (1 v)
  then show ?case by (simp add: union_bytes_def CBS_is_valid_asn1_integer_def)
next
  case (2 v k)
  show ?case
  proof (cases "union_byte v (Suc k) = 0xff \<and> union_byte v k AND 0x80 \<noteq> 0")
    case True
    then have "be_int (union_bytes v (Suc (Suc k))) = be_int (union_bytes v (Suc k))"
      by (auto simp: union_bytes_Suc be_int_drop_sign high_bit_iff not_less)
    with 2 True show ?thesis by simp
  next
    case False
    moreover have "128 \<le> unat (union_byte v (Suc k))"
      using 2(2) unfolding be_int_negative is_negative_iff by (simp add: union_bytes_Suc)
    then have "union_byte v (Suc k) \<noteq> 0" by auto
    ultimately show ?thesis
      by (auto simp: union_bytes_Suc CBS_is_valid_asn1_integer_Cons2 high_bit_iff not_less)
  qed
qed

lemma appender_asn1_int64:
  "\<exists>c. minimal_int c \<and> be_int c = sint v \<and>
     appender malloc d (CBB_add_asn1_int64 malloc d v) () (der CBS_ASN1_INTEGER c)"
proof (cases "0 \<le> sint v")
  case True
  have "sint v = int (unat v)" using True u64_less [of v]
    by (auto simp: sint_u64 simp del: of_nat_unat split: if_splits)
  moreover have "be_nat (be_fixed 8 (unat v)) = unat v" by (rule be_nat_be_fixed_64)
  ultimately show ?thesis
    using appender_asn1_uint64 [of malloc d v] uint_contents_eq [of "be_fixed 8 (unat v)"] True
    by (auto simp: CBB_add_asn1_int64_def)
next
  case False
  define c where "c = union_bytes v (Suc (int64_start v 7))"
  have "be_int (union_bytes v (Suc 7)) = sint v" using be_int_be_fixed_8 union_bytes_8 by simp
  then have "be_int c = sint v" "minimal_int c"
    using int64_start_drops [of v 7] int64_start_minimal [of v 7] False
    by (simp_all add: c_def valid_asn1_integer_iff_minimal)
  moreover have "appender malloc d (CBB_add_asn1_int64 malloc d v) () (der CBS_ASN1_INTEGER c)"
    using False appender_element [OF appender_union_bytes]
    by (simp add: CBB_add_asn1_int64_def c_def del: add_union_bytes.simps)
  ultimately show ?thesis by blast
qed

interpretation add_asn1_bool: appender malloc d "CBB_add_asn1_bool malloc d b" "()"
    "der CBS_ASN1_BOOLEAN [if b \<noteq> 0 then 0xff else 0]"
  unfolding CBB_add_asn1_bool_def by (rule appender_element [OF add_u8.appender_axioms])

lemma appender_octet_string:
  "length data < 2 ^ 64 \<Longrightarrow>
     appender malloc d (CBB_add_asn1_octet_string malloc d data) () (der CBS_ASN1_OCTETSTRING data)"
  unfolding CBB_add_asn1_octet_string_def by (rule appender_element [OF appender_add_bytes])

section \<open>SET OF\<close>

lemma compare_set_of_element_Cons:
  "compare_set_of_element (x # xs) (y # ys) =
     (if x < y then - 1 else if y < x then 1 else compare_set_of_element xs ys)"
  by (simp add: compare_set_of_element_def CBS_len_def CBS_data_def Let_def)

lemma compare_set_of_element_le_iff: "compare_set_of_element a b \<le> 0 \<longleftrightarrow> a \<le> b"
proof (induction a arbitrary: b)
  case Nil
  show ?case by (cases b) (simp_all add: compare_set_of_element_def CBS_len_def CBS_data_def)
next
  case (Cons x xs)
  show ?case
  proof (cases b)
    case Nil
    then show ?thesis by (simp add: compare_set_of_element_def CBS_len_def CBS_data_def)
  next
    case (Cons y ys)
    then show ?thesis using Cons.IH [of ys] by (auto simp: compare_set_of_element_Cons)
  qed
qed

lemma insert_by_compare: "insert_by compare_set_of_element x ys = insort x ys"
  by (induction ys) (simp_all add: compare_set_of_element_le_iff)

lemma qsort_compare: "qsort compare_set_of_element xs = sort xs"
proof -
  have "insert_by compare_set_of_element = insort" by (intro ext insert_by_compare)
  then show ?thesis by (simp add: qsort_def sort_key_def)
qed

text \<open>Parsing the contents finds the elements they are made of.\<close>

lemma set_of_children_Some:
  "set_of_children s = Some es \<Longrightarrow>
     s = concat es \<and> (\<forall>e \<in> set es. \<exists>tag body. e = der tag body \<and> length body < 2 ^ 32)"
proof (induction s arbitrary: es rule: set_of_children.induct)
  case (1 s)
  show ?case
  proof (cases "CBS_len s = 0")
    case True
    with 1(2) show ?thesis by (simp add: set_of_children.simps [of s] CBS_len_def)
  next
    case False
    with 1(2) obtain e tag hl rest es' where e: "CBS_get_any_asn1_element s = (Some (e, tag, hl), rest)"
      and es': "set_of_children rest = Some es'" "es = e # es'"
      by (auto simp: set_of_children.simps [of s] split: prod.splits option.splits)
    from 1(1) [OF False e [symmetric] refl refl refl es'(1)] e es' show ?thesis
      by (auto simp: CBS_get_any_asn1_element_Some_iff)
  qed
qed

lemma appender_all_bytes:
  "\<forall>e \<in> set es. length e < 2 ^ 64 \<Longrightarrow> appender malloc d (add_all_bytes malloc d es) () (concat es)"
proof (induction es)
  case Nil
  show ?case by (simp add: appender_ret)
next
  case (Cons e es)
  then show ?case using appender_andthen [OF appender_add_bytes, of e malloc d "\<lambda>_. add_all_bytes malloc d es"] by simp
qed

lemma chain_ok_last: "chain_ok lo (ps @ [p]) n \<Longrightarrow> chain_ok lo (ps @ [p]) (offset p + pending_len_len p)"
  by (auto simp: chain_ok_append)

lemma own_start_ok:
  assumes "chain_ok 0 (child cbb) n" "length (child cbb) = d"
  shows "chain_ok 0 (child cbb) (own_start d cbb)" "own_start d cbb \<le> n"
proof -
  have "chain_ok 0 (child cbb) (own_start d cbb) \<and> own_start d cbb \<le> n"
  proof (cases d)
    case 0
    with assms show ?thesis by (simp add: own_start_def)
  next
    case (Suc e)
    then obtain ps p where c: "child cbb = ps @ [p]" "length ps = e"
      using assms(2) by (metis append_butlast_last_id length_append_singleton list.size(3) nat.distinct(1) nat.inject)
    then have "own_start d cbb = offset p + pending_len_len p" using Suc by (auto simp: own_start_def nth_append)
    moreover have "offset p + pending_len_len p \<le> n"
      using chain_ok_nth(3) [OF assms(1), of e] c by (auto simp: nth_append)
    ultimately show ?thesis using chain_ok_last assms(1) c by metis
  qed
  then show "chain_ok 0 (child cbb) (own_start d cbb)" "own_start d cbb \<le> n" by simp_all
qed

lemma sort_short: "length es < 2 \<Longrightarrow> sort es = (es :: byte list list)"
  by (cases es rule: remdups_adj.cases) simp_all

lemma flush_asn1_set_of_ok:
  assumes m: "malloc_returns_size malloc" and ok: "cbb_ok cbb" and d: "d \<le> length (child cbb)"
    and run: "CBB_flush_asn1_set_of malloc d cbb = (Some u, cbb')"
  shows "\<exists>es. view d cbb = take (own_start d cbb) (view d cbb) @ concat es \<and>
    (\<forall>e \<in> set es. \<exists>tag body. e = der tag body) \<and>
    cbb_ok cbb' \<and> contents cbb' = take (own_start d cbb) (view d cbb) @ concat (sort es)"
proof -
  obtain u1 c1 where fl: "CBB_flush malloc d cbb = (Some u1, c1)"
    using run by (auto simp: CBB_flush_asn1_set_of_def elim: andthen_SomeE)
  note c1 = CBB_flush_ok [OF m ok fl]
  obtain b where b: "base c1 = Some b" using c1 by (auto simp: live_def split: option.splits)
  have len1: "length (child c1) = d" and bok: "buffer_ok b" "chain_ok 0 (child c1) (len b)"
    and wr: "written b = view d cbb" using c1 d b by (auto simp: cbb_ok_def contents_def)
  define s where "s = own_start d cbb"
  have s1: "own_start d c1 = s" using c1 d by (cases d) (simp_all add: own_start_def s_def)
  have sle: "chain_ok 0 (child c1) s" "s \<le> len b" using own_start_ok [OF bok(2) len1] by (simp_all add: s1)
  have cont: "take (CBB_len d c1) (CBB_data d c1) = drop s (view d cbb)"
    using bok(1) b by (simp add: CBB_len_def CBB_data_def s1 wr [symmetric] written_def drop_take)
  obtain es where es: "set_of_children (drop s (view d cbb)) = Some es"
    using run fl by (auto simp: CBB_flush_asn1_set_of_def andthen_def cont Let_def split: option.splits)
  note parts = set_of_children_Some [OF es]
  have view: "view d cbb = take s (view d cbb) @ concat es" using parts by (metis append_take_drop_id)
  have "cbb_ok cbb' \<and> contents cbb' = take s (view d cbb) @ concat (sort es)"
  proof (cases "length es < 2")
    case True
    then have "cbb' = c1" using run fl es by (simp add: CBB_flush_asn1_set_of_def andthen_def cont Let_def)
    with c1 view sort_short [OF True] show ?thesis by simp
  next
    case False
    define c2 where "c2 = c1\<lparr>base := map_option (\<lambda>b. b\<lparr>len := s\<rparr>) (base c1)\<rparr>"
    have add: "add_all_bytes malloc d (sort es) c2 = (Some u, cbb')"
      using run fl es False
      by (auto simp: CBB_flush_asn1_set_of_def andthen_def cont Let_def qsort_compare s1 c2_def split: if_splits)
    have c2: "cbb_ok c2" "contents c2 = take s (view d cbb)" "length (child c2) = d"
      using bok sle b len1 by (simp_all add: c2_def cbb_ok_def contents_def buffer_ok_def wr [symmetric] written_def min_def)
    have "length e < 2 ^ 64" if "e \<in> set es" for e
    proof -
      have "length e \<le> length (concat es)" using that by (induction es) auto
      also have "\<dots> \<le> length (view d cbb)" by (subst view) simp
      also have "\<dots> < 2 ^ 64" using length_written [OF bok(1)] wr bok(1) by (simp add: buffer_ok_def)
      finally show ?thesis .
    qed
    then have "appender malloc d (add_all_bytes malloc d (sort es)) () (concat (sort es))"
      by (intro appender_all_bytes) simp
    note app = appender.appends [OF this m c2(1) _ add] appender.appends_ok [OF this m c2(1) _ add]
    have "length (child cbb') = d" using app(1) c2(3) by linarith
    with app c2 show ?thesis by (simp add: view_leaf)
  qed
  with view parts show ?thesis unfolding s_def by blast
qed

section \<open>When adding succeeds\<close>

text \<open>An allocator that serves every request.\<close>

definition never_fails :: "allocator \<Rightarrow> bool" where
  "never_fails malloc \<longleftrightarrow> (\<forall>n. malloc n \<noteq> None)"

lemma never_fails_realloc:
  assumes "never_fails malloc" "n < 2 ^ 64 - 8"
  shows "OPENSSL_realloc malloc (Some old) n \<noteq> None"
proof -
  have "\<not> size_add n 8 < n" using assms(2) size_add_less_iff [of n 8] by simp
  then have "OPENSSL_malloc malloc n \<noteq> None"
    using assms(1) by (simp add: OPENSSL_malloc_def never_fails_def)
  then show ?thesis by (auto simp: OPENSSL_realloc_def)
qed

lemma buffer_add_succeeds_iff:
  assumes "never_fails malloc" "buffer_ok b" "len b < 2 ^ 62" "n < 2 ^ 61"
  shows "fst (cbb_buffer_add malloc n b) \<noteq> None \<longleftrightarrow> can_resize b \<or> len b + n \<le> cap b"
proof -
  have nl: "size_add (len b) n = len b + n" using assms by (simp add: size_add_eq)
  define newcap where "newcap = (if cap b * 2 mod 2 ^ 64 < cap b \<or> cap b * 2 mod 2 ^ 64 < len b + n
      then len b + n else cap b * 2 mod 2 ^ 64)"
  have "newcap < 2 ^ 64 - 8" if "cap b < len b + n"
  proof -
    have "cap b * 2 < 2 ^ 64 - 8" using that assms by simp
    then show ?thesis using assms by (simp add: newcap_def)
  qed
  then have "OPENSSL_realloc malloc (Some (buf b)) newcap \<noteq> None" if "cap b < len b + n"
    using never_fails_realloc [OF assms(1)] that by blast
  moreover have "cbb_buffer_reserve malloc n b = (if cap b < len b + n then
        if \<not> can_resize b then buffer_error b
        else case OPENSSL_realloc malloc (Some (buf b)) newcap of
            None \<Rightarrow> buffer_error b
          | Some newbuf \<Rightarrow> (Some (len b), b\<lparr>buf := newbuf, cap := newcap\<rparr>)
      else (Some (len b), b))"
    unfolding cbb_buffer_reserve_def Let_def nl newcap_def by simp
  ultimately show ?thesis
    by (cases "cap b < len b + n")
       (auto simp: cbb_buffer_add_def andthen_def buffer_error_def not_less split: option.splits)
qed

lemma CBB_add_bytes_succeeds_iff:
  assumes "never_fails malloc" "cbb_ok cbb" "length (child cbb) = d" "base cbb = Some b" "\<not> error b"
    and "length data < 2 ^ 61" "len b < 2 ^ 62"
  shows "fst (CBB_add_bytes malloc d data cbb) \<noteq> None \<longleftrightarrow> can_resize b \<or> len b + length data \<le> cap b"
proof -
  have "CBB_flush malloc d cbb = (Some (), cbb)"
    using assms by (intro CBB_flush_leaf [of d cbb b]) (simp_all add: base_of_def)
  moreover have "buffer_ok b" using assms by (simp add: cbb_ok_def)
  ultimately show ?thesis
    using buffer_add_succeeds_iff [of malloc b "length data"] assms
    by (cases "cbb_buffer_add malloc (length data) b")
       (auto simp: CBB_add_bytes_def andthen_def on_base_def split: option.splits)
qed

text \<open>A fresh builder is well-formed and empty.\<close>

lemma CBB_init_ok:
  assumes "malloc_returns_size malloc" "n < 2 ^ 64" "CBB_init malloc n = (Some u, cbb)"
  shows "cbb_ok cbb" "view 0 cbb = []" "child cbb = []" "live cbb"
proof -
  define b where "b = (case OPENSSL_malloc malloc n of None \<Rightarrow> [] | Some b \<Rightarrow> b)"
  have cbb: "cbb = \<lparr>base = Some \<lparr>buf = b, len = 0, cap = n, can_resize = True, error = False\<rparr>, child = []\<rparr>"
    and "n > 0 \<longrightarrow> OPENSSL_malloc malloc n \<noteq> None"
    using assms(3) by (auto simp: CBB_init_def cbb_init_def CBB_zero_def b_def Let_def split: if_splits option.splits)
  then have "length b = n"
    using OPENSSL_malloc_length [OF assms(1) _ assms(2)] by (cases "OPENSSL_malloc malloc n") (auto simp: b_def)
  then show "cbb_ok cbb" "view 0 cbb = []" "child cbb = []" "live cbb"
    using assms(2) by (simp_all add: cbb cbb_ok_def buffer_ok_def view_def contents_def written_def live_def)
qed

section \<open>A failed addition is final\<close>

text \<open>
  The calls that add to a builder or open a child of it, each with its arguments, and what
  making such a call returns: whether it succeeds, and the builder. The lengths are of type
  \<open>size_t\<close>. Not among them are \<open>CBB_add_asn1_oid_from_text\<close> and \<open>CBB_flush_asn1_set_of\<close>, which can
  fail without setting the error, and \<open>CBB_did_write\<close>, which does not look at it.
\<close>

datatype addition =
    Add_u8 byte | Add_u16 u16 | Add_u16le u16 | Add_u24 u32 | Add_u32 u32 | Add_u32le u32
  | Add_u64 u64 | Add_u64le u64 | Add_bytes "byte list" | Add_space nat | Add_zeros nat
  | Reserve nat | Open_u8 | Open_u16 | Open_u24 | Open_asn1 u32 | Add_asn1_uint64 u64
  | Add_asn1_int64 u64 | Add_asn1_octet_string "byte list" | Add_asn1_bool int

fun size_arg :: "addition \<Rightarrow> nat" where
  "size_arg (Add_bytes data) = length data"
| "size_arg (Add_asn1_octet_string data) = length data"
| "size_arg (Add_space n) = n"
| "size_arg (Add_zeros n) = n"
| "size_arg (Reserve n) = n"
| "size_arg _ = 0"

definition outcome :: "(CBB, 'a) op \<Rightarrow> CBB \<Rightarrow> bool \<times> CBB" where
  "outcome f cbb = (case f cbb of (r, cbb') \<Rightarrow> (r \<noteq> None, cbb'))"

fun make_addition :: "allocator \<Rightarrow> nat \<Rightarrow> addition \<Rightarrow> CBB \<Rightarrow> bool \<times> CBB" where
  "make_addition malloc d (Add_u8 v) = outcome (CBB_add_u8 malloc d v)"
| "make_addition malloc d (Add_u16 v) = outcome (CBB_add_u16 malloc d v)"
| "make_addition malloc d (Add_u16le v) = outcome (CBB_add_u16le malloc d v)"
| "make_addition malloc d (Add_u24 v) = outcome (CBB_add_u24 malloc d v)"
| "make_addition malloc d (Add_u32 v) = outcome (CBB_add_u32 malloc d v)"
| "make_addition malloc d (Add_u32le v) = outcome (CBB_add_u32le malloc d v)"
| "make_addition malloc d (Add_u64 v) = outcome (CBB_add_u64 malloc d v)"
| "make_addition malloc d (Add_u64le v) = outcome (CBB_add_u64le malloc d v)"
| "make_addition malloc d (Add_bytes data) = outcome (CBB_add_bytes malloc d data)"
| "make_addition malloc d (Add_space n) = outcome (CBB_add_space malloc d n)"
| "make_addition malloc d (Add_zeros n) = outcome (CBB_add_zeros malloc d n)"
| "make_addition malloc d (Reserve n) = outcome (CBB_reserve malloc d n)"
| "make_addition malloc d Open_u8 = outcome (CBB_add_u8_length_prefixed malloc d)"
| "make_addition malloc d Open_u16 = outcome (CBB_add_u16_length_prefixed malloc d)"
| "make_addition malloc d Open_u24 = outcome (CBB_add_u24_length_prefixed malloc d)"
| "make_addition malloc d (Open_asn1 tag) = outcome (CBB_add_asn1 malloc d tag)"
| "make_addition malloc d (Add_asn1_uint64 v) = outcome (CBB_add_asn1_uint64 malloc d v)"
| "make_addition malloc d (Add_asn1_int64 v) = outcome (CBB_add_asn1_int64 malloc d v)"
| "make_addition malloc d (Add_asn1_octet_string data) = outcome (CBB_add_asn1_octet_string malloc d data)"
| "make_addition malloc d (Add_asn1_bool v) = outcome (CBB_add_asn1_bool malloc d v)"

lemma outcome_fails: "outcome f cbb = (False, cbb') \<longleftrightarrow> f cbb = (None, cbb')"
  by (auto simp: outcome_def split: prod.splits)

text \<open>The flush and the buffer operation that the calls without a fixed content are made of.\<close>

lemma on_base_fails:
  assumes h: "malloc_returns_size malloc" "cbb_ok cbb" "d \<le> length (child cbb)"
    and f: "\<And>b b'. buffer_ok b \<Longrightarrow> f b = (None, b') \<Longrightarrow> error b'"
    and r: "andthen (CBB_flush malloc d) (\<lambda>_. on_base f) cbb = (None, cbb')"
  shows "\<not> live cbb'"
proof -
  obtain r0 c0 where fl: "CBB_flush malloc d cbb = (r0, c0)" by fastforce
  note c0 = CBB_flush_ok [OF h(1,2) fl]
  show ?thesis
  proof (cases r0)
    case None
    with r fl c0 h(3) show ?thesis by (simp add: andthen_def)
  next
    case (Some u)
    with c0 obtain b where b: "base c0 = Some b" "buffer_ok b"
      by (auto simp: live_def cbb_ok_def split: option.splits)
    obtain r1 b1 where fb: "f b = (r1, b1)" by fastforce
    have "r1 = None" "cbb' = c0\<lparr>base := Some b1\<rparr>"
      using r fl Some b(1) fb by (simp_all add: andthen_def on_base_def)
    then show ?thesis using f [OF b(2)] fb by (simp add: live_def)
  qed
qed

lemma add_space_fails:
  assumes "malloc_returns_size malloc" "cbb_ok cbb" "d \<le> length (child cbb)" "n < 2 ^ 64"
    and "CBB_add_space malloc d n cbb = (None, cbb')"
  shows "\<not> live cbb'"
  by (rule on_base_fails [OF assms(1-3) _ assms(5) [unfolded CBB_add_space_def]])
     (use buffer_add_ok(3) [OF assms(1) _ _ assms(4)] in blast)

lemma reserve_fails:
  assumes "malloc_returns_size malloc" "cbb_ok cbb" "d \<le> length (child cbb)" "n < 2 ^ 64"
    and "CBB_reserve malloc d n cbb = (None, cbb')"
  shows "\<not> live cbb'"
  by (rule on_base_fails [OF assms(1-3) _ assms(5) [unfolded CBB_reserve_def]])
     (use reserve_ok(5) [OF assms(1) _ _ assms(4)] in blast)

lemma add_zeros_fails:
  assumes "malloc_returns_size malloc" "cbb_ok cbb" "d \<le> length (child cbb)" "n < 2 ^ 64"
    and "CBB_add_zeros malloc d n cbb = (None, cbb')"
  shows "\<not> live cbb'"
proof (cases "CBB_add_space malloc d n cbb")
  case (Pair r c)
  show ?thesis
  proof (cases r)
    case None
    with Pair assms(5) show ?thesis
      using add_space_fails [OF assms(1-4)] by (simp add: CBB_add_zeros_def andthen_def)
  next
    case (Some at)
    with Pair assms(5) show ?thesis
      by (auto simp: CBB_add_zeros_def andthen_def on_base_def live_def split: option.splits)
  qed
qed

lemmas appender_fails = appender.fails [OF add_u8.appender_axioms] appender.fails [OF add_u16.appender_axioms]
  appender.fails [OF add_u24.appender_axioms] appender.fails [OF add_u32.appender_axioms]
  appender.fails [OF add_u64.appender_axioms] appender.fails [OF add_asn1_bool.appender_axioms]
  appender.fails [OF appender_asn1_uint64]

lemma asn1_int64_fails:
  assumes "malloc_returns_size malloc" "cbb_ok cbb" "d \<le> length (child cbb)"
    and "CBB_add_asn1_int64 malloc d v cbb = (None, cbb')"
  shows "\<not> live cbb'"
proof -
  obtain c where "appender malloc d (CBB_add_asn1_int64 malloc d v) () (der CBS_ASN1_INTEGER c)"
    using appender_asn1_int64 by blast
  from appender.fails [OF this assms] show ?thesis .
qed

lemma failed_addition_dead:
  assumes "malloc_returns_size malloc" "cbb_ok cbb" "d \<le> length (child cbb)" "size_arg a < 2 ^ 64"
    and "make_addition malloc d a cbb = (False, cbb')"
  shows "\<not> live cbb'"
  using assms(4,5)
  by (cases a)
     (auto simp: outcome_fails CBB_add_u16le_def CBB_add_u32le_def CBB_add_u64le_def
       dest: appender_fails [OF assms(1-3)] asn1_int64_fails [OF assms(1-3)]
         add_space_fails [OF assms(1-3), simplified] add_zeros_fails [OF assms(1-3), simplified]
         reserve_fails [OF assms(1-3), simplified]
         opener.fails [OF add_u8_prefixed.opener_axioms assms(1-3)]
         opener.fails [OF add_u16_prefixed.opener_axioms assms(1-3)]
         opener.fails [OF add_u24_prefixed.opener_axioms assms(1-3)]
         opener.fails [OF add_asn1.opener_axioms assms(1-3)]
         appender.fails [OF appender_add_bytes [simplified] assms(1-3)]
         appender.fails [OF appender_octet_string [simplified] assms(1-3)])

text \<open>On a builder in the error state the flush that every call starts with fails.\<close>

lemma dead_flush: "\<not> live cbb \<Longrightarrow> CBB_flush malloc d cbb = (None, cbb)"
  using CBB_flush_dead [of d cbb malloc] CBB_flush_error [of d cbb _ malloc]
  by (cases "base_of d cbb") (auto simp: live_def base_of_def split: if_splits)

lemma dead_andthen: "\<not> live cbb \<Longrightarrow> andthen (CBB_flush malloc d) f cbb = (None, cbb)"
  by (simp add: andthen_None dead_flush)

lemmas flush_first = cbb_add_u_def CBB_add_u8_def CBB_add_u16_def CBB_add_u16le_def CBB_add_u24_def
  CBB_add_u32_def CBB_add_u32le_def CBB_add_u64_def CBB_add_u64le_def CBB_add_bytes_def
  CBB_add_space_def CBB_add_zeros_def CBB_reserve_def cbb_add_length_prefixed_def
  CBB_add_u8_length_prefixed_def CBB_add_u16_length_prefixed_def CBB_add_u24_length_prefixed_def
  CBB_add_asn1_def CBB_add_asn1_uint64_def CBB_add_asn1_int64_def CBB_add_asn1_octet_string_def
  CBB_add_asn1_bool_def CBB_add_asn1_oid_from_text_def CBB_flush_asn1_set_of_def CBB_finish_def

lemma dead_addition: "\<not> live cbb \<Longrightarrow> make_addition malloc d a cbb = (False, cbb)"
  by (cases a) (simp_all add: outcome_fails flush_first andthen_assoc dead_andthen)

lemma dead_calls:
  assumes "\<not> live cbb"
  shows "CBB_add_asn1_oid_from_text malloc d s n cbb = (None, cbb)"
    "CBB_flush_asn1_set_of malloc d cbb = (None, cbb)" "CBB_finish malloc 0 w cbb = (None, cbb)"
  by (simp_all add: flush_first dead_andthen [OF assms])

section \<open>Properties\<close>

text \<open>C4 (CBB_flush_correct): \<open>CBB_flush\<close> at depth \<open>d\<close> keeps the buffer well-formed. When it
  succeeds it cuts the chain at \<open>d\<close>, it has turned the prefix of every pending child, innermost
  first, into the length of what was written after it, and each of these lengths is one that
  its prefix can hold: below \<open>2 ^ 32 - 1\<close> for an ASN.1 element, below \<open>256 ^ k\<close> for a prefix of \<open>k\<close>
  bytes. So a child that outgrew its prefix is never flushed with a shortened length: the call
  fails, and a call that fails leaves the builder in its error state.\<close>

theorem CBB_flush_correct:
  assumes "malloc_returns_size malloc" "cbb_ok cbb" "CBB_flush malloc d cbb = (r, cbb')"
  shows "cbb_ok cbb' \<and>
    (r \<noteq> None \<longrightarrow> child cbb' = take d (child cbb) \<and> live cbb' \<and>
       contents cbb' = foldr close (drop d (child cbb)) (contents cbb) \<and>
       lengths_fit (drop d (child cbb)) (contents cbb)) \<and>
    (r = None \<longrightarrow> d \<le> length (child cbb) \<longrightarrow> \<not> live cbb')"
  using CBB_flush_ok [OF assms] by (simp add: view_def closed_def)

definition flush_example :: CBB where
  "flush_example = \<lparr>base = Some \<lparr>buf = [0x30, 0, 0x04, 0, 7, 8, 0, 0], len = 6, cap = 8,
       can_resize = True, error = False\<rparr>,
     child = [\<lparr>offset = 1, pending_len_len = 1, pending_is_asn1 = True\<rparr>,
              \<lparr>offset = 3, pending_len_len = 1, pending_is_asn1 = True\<rparr>]\<rparr>"

text \<open>A child with a prefix of one byte and 300 bytes of contents.\<close>

definition flush_overflow_example :: CBB where
  "flush_overflow_example = \<lparr>base = Some \<lparr>buf = replicate 301 0, len = 301, cap = 301,
       can_resize = True, error = False\<rparr>,
     child = [\<lparr>offset = 0, pending_len_len = 1, pending_is_asn1 = False\<rparr>]\<rparr>"

lemma CBB_flush_correct_witness:
  "contents (snd (CBB_flush zero_malloc 0 flush_example)) = [0x30, 0x04, 0x04, 0x02, 7, 8] \<and>
   fst (CBB_flush zero_malloc 0 flush_overflow_example) = None"
proof -
  have "fst (CBB_flush zero_malloc 0 flush_example) = Some ()" by code_simp
  then have run: "CBB_flush zero_malloc 0 flush_example = (Some (), snd (CBB_flush zero_malloc 0 flush_example))"
    by (metis prod.collapse)
  have ok: "cbb_ok flush_example" by code_simp
  have "foldr close (drop 0 (child flush_example)) (contents flush_example) = [0x30, 0x04, 0x04, 0x02, 7, 8]"
    by code_simp
  with CBB_flush_correct [OF zero_malloc_returns_size ok run]
  have fit: "contents (snd (CBB_flush zero_malloc 0 flush_example)) = [0x30, 0x04, 0x04, 0x02, 7, 8]" by simp
  have ok: "cbb_ok flush_overflow_example"
    by (simp add: flush_overflow_example_def cbb_ok_def buffer_ok_def pending_ok_def)
  have "\<not> lengths_fit (drop 0 (child flush_overflow_example)) (contents flush_overflow_example)"
    by (simp add: flush_overflow_example_def contents_def written_def fits_def)
  with CBB_flush_correct [OF zero_malloc_returns_size ok prod.collapse [symmetric], of 0]
  have "fst (CBB_flush zero_malloc 0 flush_overflow_example) = None" by blast
  with fit show ?thesis by (rule conjI)
qed

text \<open>C10 (CBB_int64_roundtrip): what \<open>CBB_add_asn1_int64\<close> builds in a fresh builder,
  \<open>CBS_get_asn1_int64\<close> reads back, whatever follows it, for every 64-bit value.\<close>

theorem CBB_int64_roundtrip:
  assumes "malloc_returns_size malloc" "k < 2 ^ 64" "CBB_init malloc k = (Some (), cbb)"
    and "andthen (CBB_add_asn1_int64 malloc 0 v) (\<lambda>_. CBB_finish malloc 0 True) cbb = (Some (out, n), cbb')"
  shows "CBS_get_asn1_int64 (take n out @ rest) = (Some v, rest)"
proof -
  obtain c where c: "minimal_int c" "be_int c = sint v"
    and app: "appender malloc 0 (CBB_add_asn1_int64 malloc 0 v) () (der CBS_ASN1_INTEGER c)"
    using appender_asn1_int64 by blast
  note init = CBB_init_ok [OF assms(1-3)]
  have "take n out = der CBS_ASN1_INTEGER c"
    using appender.finished [OF app refl assms(1) init(1) assms(4)] init(2) by simp
  moreover have "length c \<le> 8"
    using minimal_int_bound [of c 7] c sint_range_size [of v] by (simp add: word_size)
  ultimately show ?thesis using c by (auto simp: CBS_get_asn1_int64_Some_iff)
qed

definition int64_build :: "allocator \<Rightarrow> u64 \<Rightarrow> (byte list \<times> nat) option \<times> CBB" where
  "int64_build malloc v =
     andthen (CBB_add_asn1_int64 malloc 0 v) (\<lambda>_. CBB_finish malloc 0 True) (snd (CBB_init malloc 4))"

lemma CBB_int64_roundtrip_witness:
  "CBS_get_asn1_int64 [0x02, 0x02, 0xff, 0x7f, 0x05] = (Some (- 129), [0x05])"
proof -
  have init: "CBB_init zero_malloc 4 = (Some (), snd (CBB_init zero_malloc 4))" by code_simp
  have "fst (int64_build zero_malloc (- 129)) = Some ([0x02, 0x02, 0xff, 0x7f], 4)" by code_simp
  then have "int64_build zero_malloc (- 129) =
      (Some ([0x02, 0x02, 0xff, 0x7f], 4), snd (int64_build zero_malloc (- 129)))"
    by (metis prod.collapse)
  from CBB_int64_roundtrip [OF zero_malloc_returns_size _ init this [unfolded int64_build_def], of "[0x05]"]
  show ?thesis by simp
qed

text \<open>C5 (CBB_element_roundtrip): an element built by opening a child with any tag, adding bytes to the
  child and flushing the parent is appended to the parent, and it is an element that
  \<open>CBS_get_asn1\<close> reads back as those bytes.\<close>

theorem CBB_element_roundtrip:
  assumes "malloc_returns_size malloc" "cbb_ok cbb" "d \<le> length (child cbb)" "length data < 2 ^ 32"
    and "andthen (CBB_add_asn1 malloc d tag) (\<lambda>_. andthen (CBB_add_bytes malloc (Suc d) data)
           (\<lambda>_. CBB_flush malloc d)) cbb = (Some u, cbb')"
  shows "\<exists>elem. view d cbb' = view d cbb @ elem \<and> CBS_get_asn1 tag (elem @ rest) = (Some data, rest)"
proof -
  have "appender malloc (Suc d) (CBB_add_bytes malloc (Suc d) data) () data"
    using assms(4) by (intro appender_add_bytes) simp
  note app = appender_element [OF this]
  note appended = appender.appends [OF app assms(1-3,5)]
  with appended assms(4) show ?thesis by (auto simp: CBS_get_asn1_Some_iff)
qed

definition element_example :: "unit option \<times> CBB" where
  "element_example = andthen (CBB_add_asn1 zero_malloc 0 0x30000005)
     (\<lambda>_. andthen (CBB_add_bytes zero_malloc (Suc 0) [7, 8]) (\<lambda>_. CBB_flush zero_malloc 0))
     (snd (CBB_init zero_malloc 4))"

lemma CBB_element_roundtrip_witness:
  "\<exists>elem. view 0 (snd element_example) = view 0 (snd (CBB_init zero_malloc 4)) @ elem \<and>
     CBS_get_asn1 0x30000005 (elem @ [9]) = (Some [7, 8], [9])"
proof -
  have "fst element_example = Some ()" by code_simp
  then have run: "element_example = (Some (), snd element_example)" by (metis prod.collapse)
  have "CBB_init zero_malloc 4 = (Some (), snd (CBB_init zero_malloc 4))" by code_simp
  from CBB_init_ok(1) [OF zero_malloc_returns_size _ this]
  have ok: "cbb_ok (snd (CBB_init zero_malloc 4))" by simp
  have "length [7, 8 :: byte] < 2 ^ 32" by simp
  from CBB_element_roundtrip [OF zero_malloc_returns_size ok _ this run [unfolded element_example_def], of "[9]"]
  show ?thesis by (simp add: element_example_def)
qed

text \<open>C14 (CBB_failure_is_final): let one of the calls of \<open>addition\<close> (adding an integer of any width,
  bytes, space or zeros, reserving, opening a child of any kind, adding an ASN.1 INTEGER, OCTET
  STRING or BOOLEAN) fail on a well-formed builder, at any depth of the chain. Then every later
  call of that kind, at any depth, fails and changes nothing, and so do \<open>CBB_flush\<close>,
  \<open>CBB_add_asn1_oid_from_text\<close>, \<open>CBB_flush_asn1_set_of\<close> and \<open>CBB_finish\<close>, which hands out no
  bytes. Not among the calls that may fail first are \<open>CBB_add_asn1_oid_from_text\<close> and
  \<open>CBB_flush_asn1_set_of\<close>, which return 0 for a bad text or bad contents without setting the
  error, and not among the later calls is \<open>CBB_did_write\<close>, which does not look at it.\<close>

theorem CBB_failure_is_final:
  assumes "malloc_returns_size malloc" "cbb_ok cbb" "d \<le> length (child cbb)" "size_arg a < 2 ^ 64"
    and "make_addition malloc d a cbb = (False, cbb')"
  shows "make_addition malloc e a' cbb' = (False, cbb') \<and> CBB_flush malloc e cbb' = (None, cbb') \<and>
    CBB_add_asn1_oid_from_text malloc e s n cbb' = (None, cbb') \<and>
    CBB_flush_asn1_set_of malloc e cbb' = (None, cbb') \<and> CBB_finish malloc 0 w cbb' = (None, cbb')"
  using failed_addition_dead [OF assms] by (simp add: dead_addition dead_flush dead_calls)

definition full_example :: CBB where
  "full_example = snd (CBB_init_fixed zero_malloc [0, 0, 0] 3)"

lemma CBB_failure_is_final_witness:
  "CBB_finish zero_malloc 0 True (snd (make_addition zero_malloc 0 (Add_asn1_int64 300) full_example))
     = (None, snd (make_addition zero_malloc 0 (Add_asn1_int64 300) full_example))"
proof -
  have "fst (make_addition zero_malloc 0 (Add_asn1_int64 300) full_example) = False" by code_simp
  then have run: "make_addition zero_malloc 0 (Add_asn1_int64 300) full_example =
      (False, snd (make_addition zero_malloc 0 (Add_asn1_int64 300) full_example))" by (metis prod.collapse)
  have ok: "cbb_ok full_example" by code_simp
  from CBB_failure_is_final [OF zero_malloc_returns_size ok _ _ run] show ?thesis by simp
qed

text \<open>C15 (CBB_set_of_sorted): \<open>CBB_flush_asn1_set_of\<close>, when it succeeds, leaves in place of the elements of
  the object the same elements in ascending order of their DER encodings.\<close>

theorem CBB_set_of_sorted:
  assumes "malloc_returns_size malloc" "cbb_ok cbb" "d \<le> length (child cbb)"
    and "CBB_flush_asn1_set_of malloc d cbb = (Some u, cbb')"
  shows "\<exists>es es'. view d cbb = take (own_start d cbb) (view d cbb) @ concat es \<and>
    (\<forall>e \<in> set es. \<exists>tag body. e = der tag body) \<and> mset es' = mset es \<and> sorted es' \<and>
    cbb_ok cbb' \<and> contents cbb' = take (own_start d cbb) (view d cbb) @ concat es'"
proof -
  obtain es where "view d cbb = take (own_start d cbb) (view d cbb) @ concat es"
    "\<forall>e \<in> set es. \<exists>tag body. e = der tag body" "cbb_ok cbb'"
    "contents cbb' = take (own_start d cbb) (view d cbb) @ concat (sort es)"
    using flush_asn1_set_of_ok [OF assms] by blast
  then show ?thesis by (intro exI [of _ es] exI [of _ "sort es"]) (simp add: sorted_sort)
qed

definition set_example :: CBB where
  "set_example = \<lparr>base = Some \<lparr>buf = [0x02, 1, 9, 0x02, 1, 3], len = 6, cap = 6, can_resize = True,
     error = False\<rparr>, child = []\<rparr>"

lemma CBB_set_of_sorted_witness:
  "\<exists>es es'. view 0 set_example = take (own_start 0 set_example) (view 0 set_example) @ concat es \<and>
    (\<forall>e \<in> set es. \<exists>tag body. e = der tag body) \<and> mset es' = mset es \<and> sorted es' \<and>
    cbb_ok (snd (CBB_flush_asn1_set_of zero_malloc 0 set_example)) \<and>
    contents (snd (CBB_flush_asn1_set_of zero_malloc 0 set_example)) =
      take (own_start 0 set_example) (view 0 set_example) @ concat es'"
proof -
  have "fst (CBB_flush_asn1_set_of zero_malloc 0 set_example) = Some ()" by code_simp
  then have run: "CBB_flush_asn1_set_of zero_malloc 0 set_example =
      (Some (), snd (CBB_flush_asn1_set_of zero_malloc 0 set_example))" by (metis prod.collapse)
  have ok: "cbb_ok set_example" by code_simp
  from CBB_set_of_sorted [OF zero_malloc_returns_size ok _ run] show ?thesis by simp
qed

text \<open>C16 (CBB_add_bytes_succeeds): with an allocator that does not fail and sizes below \<open>2 ^ 61\<close>, adding
  bytes to a builder without pending children fails exactly when the buffer is fixed and too
  small.\<close>

theorem CBB_add_bytes_succeeds:
  assumes "never_fails malloc" "cbb_ok cbb" "length (child cbb) = d" "base cbb = Some b" "\<not> error b"
    and "length data < 2 ^ 61" "len b < 2 ^ 62"
  shows "fst (CBB_add_bytes malloc d data cbb) = Some () \<longleftrightarrow> can_resize b \<or> len b + length data \<le> cap b"
  using CBB_add_bytes_succeeds_iff [OF assms] by (cases "fst (CBB_add_bytes malloc d data cbb)") auto

lemma CBB_add_bytes_succeeds_witness:
  "fst (CBB_add_bytes zero_malloc 0 [1, 2, 3] set_example) = Some ()"
proof -
  have "never_fails zero_malloc" by (simp add: never_fails_def zero_malloc_def)
  moreover have "cbb_ok set_example" by code_simp
  ultimately show ?thesis
    using CBB_add_bytes_succeeds [of zero_malloc set_example 0 _ "[1, 2, 3]"]
    by (simp add: set_example_def)
qed

end
