(* ===== verification/OID.thy ===== *)
theory OID
  imports CBB
begin

unbundle bit_operations_syntax

text \<open>
  Object identifiers between their DER contents and dotted decimal text: \<open>add_decimal\<close> and
  \<open>CBS_asn1_oid_to_text\<close> of \<open>crypto/bytestring/cbs.c\<close>, and the correctness of
  \<open>CBB_add_asn1_oid_from_text\<close> and \<open>parse_dotted_decimal\<close> of \<open>crypto/bytestring/cbb.c\<close>. Text
  is a list of ASCII bytes.
\<close>

section \<open>From DER to text\<close>

text \<open>The digits that \<open>BIO_snprintf\<close> prints for \<open>PRIu64\<close>.\<close>

fun decimal :: "nat \<Rightarrow> byte list" where
  "decimal n =
     (if n < 10 then [word_of_nat (48 + n)] else decimal (n div 10) @ [word_of_nat (48 + n mod 10)])"

declare decimal.simps [simp del]

definition add_decimal :: "allocator \<Rightarrow> nat \<Rightarrow> u64 \<Rightarrow> (CBB, unit) op" where
  "add_decimal malloc d v = CBB_add_bytes malloc d (decimal (unat v))"

lemma parse_base128_shorter:
  assumes "parse_base128_integer s = (Some v, rest)"
  shows "length rest < length s"
  using assms by (simp add: parse_base128_integer_Some_iff)

function oid_text_rest :: "allocator \<Rightarrow> cbs \<Rightarrow> (CBB, unit) op" where
  "oid_text_rest malloc copy =
     (if CBS_len copy = 0 then ret ()
      else case parse_base128_integer copy of
             (None, _) \<Rightarrow> fail
           | (Some v, copy') \<Rightarrow>
               andthen (CBB_add_u8 malloc 0 0x2e) (\<lambda>_.
               andthen (add_decimal malloc 0 v) (\<lambda>_.
               oid_text_rest malloc copy')))"
  by pat_completeness auto
termination
  by (relation "measure (\<lambda>(malloc, copy). length copy)") (auto dest: parse_base128_shorter [OF sym])

declare oid_text_rest.simps [simp del]

definition oid_text_first :: "allocator \<Rightarrow> u64 \<Rightarrow> (CBB, unit) op" where
  "oid_text_first malloc v =
     (if v \<ge> 80 then
        andthen (CBB_add_bytes malloc 0 [0x32, 0x2e]) (\<lambda>_. add_decimal malloc 0 (v - 80))
      else
        andthen (add_decimal malloc 0 (v div 40)) (\<lambda>_.
        andthen (CBB_add_u8 malloc 0 0x2e) (\<lambda>_.
        add_decimal malloc 0 (v mod 40))))"

definition CBS_asn1_oid_to_text :: "allocator \<Rightarrow> cbs \<Rightarrow> byte list option" where
  "CBS_asn1_oid_to_text malloc cbs =
     (case CBB_init malloc 32 of
        (None, _) \<Rightarrow> None
      | (Some _, cbb) \<Rightarrow>
          (case parse_base128_integer cbs of
             (None, _) \<Rightarrow> None
           | (Some v, copy) \<Rightarrow>
               map_option fst (fst (
                 andthen (oid_text_first malloc v) (\<lambda>_.
                 andthen (oid_text_rest malloc copy) (\<lambda>_.
                 andthen (CBB_add_u8 malloc 0 0) (\<lambda>_.
                 CBB_finish malloc 0 True))) cbb))))"

section \<open>The two notations\<close>

fun oid_text :: "nat list \<Rightarrow> byte list" where
  "oid_text [] = []"
| "oid_text [a] = decimal a"
| "oid_text (a # as) = decimal a @ 0x2e # oid_text as"

fun oid_der :: "nat list \<Rightarrow> byte list" where
  "oid_der (a # b # cs) = base128 (40 * a + b) @ concat (map base128 cs)"
| "oid_der _ = []"

text \<open>The identifiers that both directions accept.\<close>

fun valid_oid :: "nat list \<Rightarrow> bool" where
  "valid_oid (a # b # cs) \<longleftrightarrow>
     a \<le> 2 \<and> (a < 2 \<longrightarrow> b < 40) \<and> b < 2 ^ 64 - 80 \<and> (\<forall>c \<in> set cs. c < 2 ^ 64)"
| "valid_oid _ \<longleftrightarrow> False"

section \<open>Decimal components\<close>

lemma decimal_small: "n < 10 \<Longrightarrow> decimal n = [word_of_nat (48 + n)]"
  by (simp add: decimal.simps [of n])

lemma decimal_step: "0 < n \<Longrightarrow> d < 10 \<Longrightarrow> decimal (n * 10 + d) = decimal n @ [word_of_nat (48 + d)]"
  by (simp add: decimal.simps [of "n * 10 + d"])

lemma decimal_digit: "b \<in> set (decimal n) \<Longrightarrow> 48 \<le> unat b \<and> unat b \<le> 57"
proof (induction n rule: decimal.induct)
  case (1 n)
  have "unat (word_of_nat (48 + k) :: byte) = 48 + k" if "k < 10" for k
    using that by (simp del: of_nat_add)
  with 1 show ?case
    by (cases "n < 10") (auto simp: decimal.simps [of n] simp del: of_nat_add)
qed

lemma decimal_not_Nil [simp]: "decimal n \<noteq> []"
  by (simp add: decimal.simps [of n])

lemma digit_step:
  assumes "48 \<le> unat u" "unat u \<le> 57" "seen \<Longrightarrow> out \<noteq> 0"
  shows "parse_dotted_decimal_loop out seen (u # cbs) =
    (if unat out * 10 + (unat u - 48) < 2 ^ 64
     then parse_dotted_decimal_loop (word_of_nat (unat out * 10 + (unat u - 48))) True cbs else (None, cbs))"
proof -
  define dg :: u64 where "dg = ucast (u - 0x30)"
  have "unat (u - 0x30) = unat u - 48"
    using assms(1) by (simp add: unat_sub word_le_nat_alt)
  then have dg: "unat dg = unat u - 48" "unat dg < 10" using assms(2) by (simp_all add: dg_def)
  have u: "u \<noteq> 0x2e" "\<not> u < 0x30" "\<not> u > 0x39" using assms by (auto simp: word_less_nat_alt)
  have q: "unat ((- 1 :: u64) div 10) = (2 ^ 64 - 1) div 10" by (simp add: unat_div_distrib)
  have m: "unat (- 1 - dg) = 2 ^ 64 - 1 - unat dg"
    using dg by (subst unat_sub) (simp_all add: word_le_nat_alt unat_max_64)
  show ?thesis
  proof (cases "out > (- 1) div 10")
    case True
    then have "\<not> unat out * 10 + (unat u - 48) < 2 ^ 64" using q by (simp add: word_less_nat_alt)
    with True u show ?thesis by (simp add: Let_def)
  next
    case False
    then have o10: "unat (out * 10) = unat out * 10"
      using q by (simp add: word_less_nat_alt unat_word_ariths)
    then have gt: "out * 10 > - 1 - dg \<longleftrightarrow> \<not> unat out * 10 + (unat u - 48) < 2 ^ 64"
      using m dg by (auto simp: word_less_nat_alt)
    have "out * 10 + dg = word_of_nat (unat (out * 10) + unat dg)" by simp
    then have acc: "out * 10 + dg = word_of_nat (unat out * 10 + (unat u - 48))" unfolding o10 dg(1) .
    have "\<not> (seen \<and> out = 0)" using assms(3) by blast
    then have "\<not> (u < 0x30 \<or> u > 0x39 \<or> seen \<and> out = 0 \<or> out > (- 1) div 10)"
      using False u by blast
    then show ?thesis
      using u(1) gt acc
      unfolding parse_dotted_decimal_loop.simps dg_def [symmetric] by auto
  qed
qed

lemma parse_decimal_prefix:
  assumes "n < 2 ^ 64"
  shows "parse_dotted_decimal_loop 0 False (decimal n @ t) =
    parse_dotted_decimal_loop (word_of_nat n) True t"
  using assms
proof (induction n arbitrary: t rule: decimal.induct)
  case (1 n)
  have dg: "48 \<le> unat (word_of_nat (48 + k) :: byte)" "unat (word_of_nat (48 + k) :: byte) \<le> 57"
    "unat (word_of_nat (48 + k) :: byte) - 48 = k" if "k < 10" for k
    using that by (simp_all del: of_nat_add)
  show ?case
  proof (cases "n < 10")
    case True
    with dg [OF True] digit_step [of "word_of_nat (48 + n)" False 0 t] show ?thesis
      by (simp add: decimal_small del: of_nat_add)
  next
    case False
    define m d where "m = n div 10" and "d = n mod 10"
    have n: "n = m * 10 + d" and "d < 10" and "0 < m" using False by (simp_all add: m_def d_def div_greater_zero_iff)
    have m64: "m < 2 ^ 64" using 1(2) n by simp
    then have um: "unat (word_of_nat m :: u64) = m" by simp
    then have nz: "(word_of_nat m :: u64) \<noteq> 0" using \<open>0 < m\<close> by (metis less_irrefl unsigned_0)
    have "parse_dotted_decimal_loop 0 False (decimal m @ t') = parse_dotted_decimal_loop (word_of_nat m) True t'" for t'
      using 1(1) [OF False] m64 by (simp add: m_def)
    then have "parse_dotted_decimal_loop 0 False (decimal n @ t) =
        parse_dotted_decimal_loop (word_of_nat m) True (word_of_nat (48 + d) # t)"
      using decimal_step [OF \<open>0 < m\<close> \<open>d < 10\<close>] by (simp add: n del: of_nat_add)
    also have "\<dots> = parse_dotted_decimal_loop (word_of_nat n) True t"
      using digit_step [of "word_of_nat (48 + d)" True "word_of_nat m" t] dg [OF \<open>d < 10\<close>] nz 1(2) um
      by (simp add: n del: of_nat_add of_nat_mult)
    finally show ?thesis .
  qed
qed

text \<open>The remainder after a component: nothing, or what follows a dot that is not the last byte.\<close>

definition component_rest :: "byte list \<Rightarrow> byte list" where
  "component_rest rest = (if rest = [] then [] else 0x2e # rest)"

lemma parse_decimal:
  "n < 2 ^ 64 \<Longrightarrow> parse_dotted_decimal (decimal n @ component_rest rest) = (Some (word_of_nat n), rest)"
  by (simp add: parse_dotted_decimal_def parse_decimal_prefix component_rest_def CBS_len_def)

lemma parse_decimal_loop_decode:
  assumes "parse_dotted_decimal_loop out seen s = (Some v, rest)" "\<not> seen \<Longrightarrow> out = 0"
  shows "\<exists>u. s = u @ component_rest rest \<and> (if seen then decimal (unat out) @ u else u) = decimal (unat v)"
  using assms
proof (induction out seen s rule: parse_dotted_decimal_loop.induct)
  case (1 out seen)
  then show ?case by (auto simp: component_rest_def split: if_splits)
next
  case (2 out seen u cbs)
  show ?case
  proof (cases "u = 0x2e \<and> CBS_len cbs > 0")
    case True
    with 2 show ?thesis by (auto simp: component_rest_def CBS_len_def split: if_splits)
  next
    case False
    then have nd: "\<not> u < 0x30" "\<not> u > 0x39" and so: "seen \<Longrightarrow> out \<noteq> 0"
      using 2(2) by (auto split: if_splits)
    then have dg: "48 \<le> unat u" "unat u \<le> 57" by (simp_all add: word_less_nat_alt)
    define d where "d = unat u - 48"
    have d: "d < 10" "word_of_nat (48 + d) = u"
      using dg by (simp_all add: d_def)
    have "(if unat out * 10 + d < 2 ^ 64
        then parse_dotted_decimal_loop (word_of_nat (unat out * 10 + d)) True cbs else (None, cbs)) = (Some v, rest)"
      using trans [OF sym [OF digit_step [OF dg so]] 2(2)] unfolding d_def .
    then have step: "unat out * 10 + d < 2 ^ 64"
      "parse_dotted_decimal_loop (word_of_nat (unat out * 10 + d)) True cbs = (Some v, rest)"
      by (metis fst_conv option.distinct(1))+
    have next_out: "out * 10 + ucast (u - 0x30) = word_of_nat (unat out * 10 + d)"
    proof -
      have "unat (u - 0x30) = d" using dg(1) by (simp add: d_def unat_sub word_le_nat_alt)
      then have "(ucast (u - 0x30) :: u64) = word_of_nat d" using step(1)
        by (intro unsigned_word_eqI [where 'a = nat]) simp
      then show ?thesis by simp
    qed
    have un: "unat (word_of_nat (unat out * 10 + d) :: u64) = unat out * 10 + d"
      by (rule unat_word_of_nat_64 [OF step(1)])
    have "\<not> (u < 0x30 \<or> u > 0x39 \<or> seen \<and> out = 0 \<or> out > (- 1) div 10 \<or> out * 10 > - 1 - ucast (u - 0x30))"
      using 2(2) False by (auto split: if_splits)
    from 2(1) [OF False this, unfolded next_out, OF step(2)] un
    obtain w where w: "cbs = w @ component_rest rest" "decimal (unat out * 10 + d) @ w = decimal (unat v)"
      by auto
    show ?thesis
    proof (cases seen)
      case True
      then have "0 < unat out" using so by (simp add: unat_pos_iff)
      with w d True show ?thesis by (auto simp: decimal_step)
    next
      case False
      with w d 2(3) show ?thesis by (auto simp: decimal_small)
    qed
  qed
qed

section \<open>From text\<close>

lemma oid_text_eq_Nil_iff: "oid_text as = [] \<longleftrightarrow> as = []"
  by (cases as rule: oid_text.cases) auto

lemma oid_text_Cons: "oid_text (a # as) = decimal a @ component_rest (oid_text as)"
  by (cases as) (simp_all add: component_rest_def oid_text_eq_Nil_iff)

lemma oid_components_text:
  "\<forall>c \<in> set cs. c < 2 ^ 64 \<Longrightarrow>
     appender malloc d (oid_components malloc d (oid_text cs)) () (concat (map base128 cs))"
proof (induction cs)
  case Nil
  show ?case by (simp add: oid_components.simps [of malloc d "[]"] appender_ret)
next
  case (Cons c cs)
  then have c: "unat (word_of_nat c :: u64) = c" by simp
  have "parse_dotted_decimal (oid_text (c # cs)) = (Some (word_of_nat c), oid_text cs)"
    unfolding oid_text_Cons using Cons.prems by (intro parse_decimal) simp
  then have "oid_components malloc d (oid_text (c # cs)) =
      andthen (add_base128_integer malloc d (word_of_nat c)) (\<lambda>_. oid_components malloc d (oid_text cs))"
    using oid_text_eq_Nil_iff [of "c # cs"] by (simp add: oid_components.simps [of malloc d "oid_text (c # cs)"])
  then show ?case
    using appender_andthen [OF add_base128.appender_axioms [of malloc d "word_of_nat c"], of
        "\<lambda>_. oid_components malloc d (oid_text cs)"] Cons c by simp
qed

lemma oid_components_decode:
  "fst (oid_components malloc d s cbb) \<noteq> None \<Longrightarrow>
     \<exists>cs. (\<forall>c \<in> set cs. c < 2 ^ 64) \<and> s = oid_text cs"
proof (induction malloc d s arbitrary: cbb rule: oid_components.induct)
  case (1 malloc d s)
  show ?case
  proof (cases "s = []")
    case True
    then show ?thesis by (intro exI [of _ "[]"]) simp
  next
    case False
    with 1(2) obtain v rest where p: "parse_dotted_decimal s = (Some v, rest)"
      by (auto simp: oid_components.simps [of malloc d s] fail_def split: prod.splits option.splits)
    with 1(2) False obtain cbb' where "fst (oid_components malloc d rest cbb') \<noteq> None"
      by (auto simp: oid_components.simps [of malloc d s] andthen_def split: prod.splits option.splits)
    from 1(1) [OF False p [symmetric] refl this] obtain cs
      where cs: "\<forall>c \<in> set cs. c < 2 ^ 64" "rest = oid_text cs" by blast
    have "s = decimal (unat v) @ component_rest rest"
      using parse_decimal_loop_decode [of 0 False s v rest] p by (auto simp: parse_dotted_decimal_def)
    with cs u64_less [of v] show ?thesis by (intro exI [of _ "unat v # cs"]) (simp add: oid_text_Cons)
  qed
qed

lemma first_component_word:
  fixes a b :: u64
  assumes "unat a \<le> 2" "unat b \<le> 2 ^ 64 - 81"
  shows "unat (40 * a + b) = 40 * unat a + unat b"
proof -
  have "40 * unat a + unat b < 2 ^ 64" using assms by simp
  then show ?thesis using assms(1) by (simp add: unat_word_ariths)
qed

lemma bad_first_components:
  fixes a b :: u64
  shows "a > 2 \<or> (a < 2 \<and> b > 39) \<or> b > - 1 - 80 \<longleftrightarrow>
    \<not> (unat a \<le> 2 \<and> (unat a < 2 \<longrightarrow> unat b < 40) \<and> unat b < 2 ^ 64 - 80)"
proof -
  have "unat (- 1 - 80 :: u64) = 2 ^ 64 - 81"
    by (subst unat_sub) (simp_all add: word_le_nat_alt unat_max_64)
  then show ?thesis by (auto simp: word_less_nat_alt)
qed

lemma appender_oid_from_text:
  assumes "valid_oid cs" "take n txt = oid_text cs"
  shows "appender malloc d (CBB_add_asn1_oid_from_text malloc d txt n) () (oid_der cs)"
proof -
  obtain a b rest where cs: "cs = a # b # rest" and ok: "a \<le> 2" "a < 2 \<longrightarrow> b < 40" "b < 2 ^ 64 - 80"
    "\<forall>c \<in> set rest. c < 2 ^ 64"
    using assms(1) by (cases cs rule: valid_oid.cases) auto
  define wa wb :: u64 where "wa = word_of_nat a" and "wb = word_of_nat b"
  have w: "unat wa = a" "unat wb = b" using ok by (simp_all add: wa_def wb_def)
  have "parse_dotted_decimal (CBS_init txt n) = (Some wa, oid_text (b # rest))"
    unfolding CBS_init_def assms(2) cs oid_text_Cons [of a] wa_def using ok by (intro parse_decimal) simp
  moreover have "parse_dotted_decimal (oid_text (b # rest)) = (Some wb, oid_text rest)"
    unfolding oid_text_Cons [of b] wb_def using ok by (intro parse_decimal) simp
  moreover have "\<not> (wa > 2 \<or> (wa < 2 \<and> wb > 39) \<or> wb > - 1 - 80)"
    unfolding bad_first_components w using ok by simp
  ultimately have eq: "CBB_add_asn1_oid_from_text malloc d txt n = andthen (CBB_flush malloc d) (\<lambda>_.
      andthen (add_base128_integer malloc d (40 * wa + wb)) (\<lambda>_. oid_components malloc d (oid_text rest)))"
    unfolding CBB_add_asn1_oid_from_text_def by (simp only: option.case prod.case if_False)
  have "unat (40 * wa + wb) = 40 * a + b" using first_component_word [of wa wb] ok w by simp
  then show ?thesis
    unfolding eq cs
    using appender_andthen [OF appender_flush appender_andthen [OF
        add_base128.appender_axioms [of malloc d "40 * wa + wb"] oid_components_text [OF ok(4), of malloc d]]]
    by simp
qed

lemma oid_from_text_decode:
  assumes "fst (CBB_add_asn1_oid_from_text malloc d txt n cbb) \<noteq> None"
  shows "\<exists>cs. valid_oid cs \<and> take n txt = oid_text cs"
proof -
  obtain a r1 b r2 cbb' where p1: "parse_dotted_decimal (take n txt) = (Some a, r1)"
    and p2: "parse_dotted_decimal r1 = (Some b, r2)"
    and ok: "\<not> (a > 2 \<or> (a < 2 \<and> b > 39) \<or> b > - 1 - 80)"
    and rest: "fst (oid_components malloc d r2 cbb') \<noteq> None"
    using assms by (auto simp: CBB_add_asn1_oid_from_text_def CBS_init_def andthen_def fail_def
        split: prod.splits option.splits if_splits)
  obtain cs where cs: "\<forall>c \<in> set cs. c < 2 ^ 64" "r2 = oid_text cs"
    using oid_components_decode [OF rest] by blast
  have "r1 = oid_text (unat b # cs)"
    using parse_decimal_loop_decode [of 0 False r1 b r2] p2 cs
    by (auto simp: parse_dotted_decimal_def oid_text_Cons)
  then have "take n txt = oid_text (unat a # unat b # cs)"
    using parse_decimal_loop_decode [of 0 False "take n txt" a r1] p1
    by (auto simp: parse_dotted_decimal_def oid_text_Cons [of "unat a"] simp del: oid_text.simps)
  moreover have "valid_oid (unat a # unat b # cs)"
    using ok cs unfolding bad_first_components by simp
  ultimately show ?thesis by blast
qed

section \<open>To text\<close>

lemma length_decimal: "n < 10 ^ Suc k \<Longrightarrow> length (decimal n) \<le> Suc k"
proof (induction k arbitrary: n)
  case 0
  then show ?case by (simp add: decimal_small)
next
  case (Suc k)
  then have "n div 10 < 10 ^ Suc k" by (simp add: less_mult_imp_div_less mult.commute)
  with Suc.IH [of "n div 10"] show ?case by (simp add: decimal.simps [of n])
qed

lemma appender_decimal: "appender malloc d (add_decimal malloc d v) () (decimal (unat v))"
proof -
  have "unat v < 10 ^ Suc 19" using u64_less [of v] by simp
  then have "length (decimal (unat v)) < 2 ^ 64" using length_decimal [of "unat v" 19] by simp
  then show ?thesis unfolding add_decimal_def by (rule appender_add_bytes)
qed

lemma appender_oid_text_rest:
  "\<forall>c \<in> set cs. c < 2 ^ 64 \<Longrightarrow>
     appender malloc 0 (oid_text_rest malloc (concat (map base128 cs))) () (component_rest (oid_text cs))"
proof (induction cs)
  case Nil
  show ?case by (simp add: oid_text_rest.simps [of malloc "[]"] appender_ret component_rest_def CBS_len_def)
next
  case (Cons c cs)
  then have c: "unat (word_of_nat c :: u64) = c" by simp
  have "parse_base128_integer (base128 c @ concat (map base128 cs)) = (Some (word_of_nat c), concat (map base128 cs))"
    using c by (simp add: parse_base128_integer_Some_iff)
  then have eq: "oid_text_rest malloc (concat (map base128 (c # cs))) =
      andthen (CBB_add_u8 malloc 0 0x2e) (\<lambda>_. andthen (add_decimal malloc 0 (word_of_nat c)) (\<lambda>_.
      oid_text_rest malloc (concat (map base128 cs))))"
    by (simp add: oid_text_rest.simps [of malloc "base128 c @ concat (map base128 cs)"] CBS_len_def)
  have "oid_text (c # cs) \<noteq> []" using oid_text_eq_Nil_iff by blast
  then have "component_rest (oid_text (c # cs)) = [0x2e] @ decimal c @ component_rest (oid_text cs)"
    unfolding component_rest_def [of "oid_text (c # cs)"] by (simp add: oid_text_Cons)
  moreover have "appender malloc 0 (andthen (add_decimal malloc 0 (word_of_nat c)) (\<lambda>_.
      oid_text_rest malloc (concat (map base128 cs)))) () (decimal c @ component_rest (oid_text cs))"
    using appender_andthen [OF appender_decimal [of malloc 0 "word_of_nat c"] Cons.IH] Cons.prems c by simp
  ultimately show ?case
    unfolding eq using appender_andthen [OF add_u8.appender_axioms [of malloc 0 "0x2e"]] by simp
qed

lemma oid_text_rest_decode:
  "fst (oid_text_rest malloc s cbb) \<noteq> None \<Longrightarrow>
     \<exists>cs. (\<forall>c \<in> set cs. c < 2 ^ 64) \<and> s = concat (map base128 cs)"
proof (induction malloc s arbitrary: cbb rule: oid_text_rest.induct)
  case (1 malloc s)
  show ?case
  proof (cases "CBS_len s = 0")
    case True
    then show ?thesis by (intro exI [of _ "[]"]) (simp add: CBS_len_def)
  next
    case False
    with 1(2) obtain v rest where p: "parse_base128_integer s = (Some v, rest)"
      by (auto simp: oid_text_rest.simps [of malloc s] fail_def split: prod.splits option.splits)
    with 1(2) False obtain cbb' where "fst (oid_text_rest malloc rest cbb') \<noteq> None"
      by (auto simp: oid_text_rest.simps [of malloc s] andthen_def split: prod.splits option.splits)
    from 1(1) [OF False p [symmetric] refl this] obtain cs
      where cs: "\<forall>c \<in> set cs. c < 2 ^ 64" "rest = concat (map base128 cs)" by blast
    with p u64_less [of v] show ?thesis
      by (intro exI [of _ "unat v # cs"]) (simp add: parse_base128_integer_Some_iff)
  qed
qed

lemma first_component_text:
  assumes "v = 40 * a + b" "a \<le> 2" "a < 2 \<longrightarrow> b < 40"
  shows "if v \<ge> 80 then a = 2 \<and> b = v - 80 else v div 40 = a \<and> v mod 40 = (b :: nat)"
  using assms by (cases "a = 2") auto

lemma appender_oid_text_first:
  assumes "unat v = 40 * a + b" "a \<le> 2" "a < 2 \<longrightarrow> b < 40"
  shows "appender malloc 0 (oid_text_first malloc v) () (decimal a @ 0x2e # decimal b)"
proof (cases "80 \<le> v")
  case True
  then have "80 \<le> unat v" by (simp add: word_le_nat_alt)
  then have "a = 2" "b = unat (v - 80)"
    using first_component_text [OF assms] True by (simp_all add: unat_sub)
  moreover have "decimal 2 = [0x32]" by (simp add: decimal_small)
  moreover have "appender malloc 0 (andthen (CBB_add_bytes malloc 0 [0x32, 0x2e]) (\<lambda>_. add_decimal malloc 0 (v - 80)))
      () ([0x32, 0x2e] @ decimal (unat (v - 80)))"
    by (rule appender_andthen [OF appender_add_bytes appender_decimal]) simp
  ultimately show ?thesis
    using True by (simp add: oid_text_first_def)
next
  case False
  then have "\<not> 80 \<le> unat v" by (simp add: word_le_nat_alt)
  then have "unat (v div 40) = a" "unat (v mod 40) = b"
    using first_component_text [OF assms] by (simp_all add: unat_div_distrib unat_mod_distrib)
  moreover have "appender malloc 0 (andthen (add_decimal malloc 0 (v div 40)) (\<lambda>_. andthen (CBB_add_u8 malloc 0 0x2e)
      (\<lambda>_. add_decimal malloc 0 (v mod 40)))) () (decimal (unat (v div 40)) @ [0x2e] @ decimal (unat (v mod 40)))"
    by (rule appender_andthen [OF appender_decimal appender_andthen [OF add_u8.appender_axioms appender_decimal]])
  ultimately show ?thesis
    using False by (simp add: oid_text_first_def)
qed

lemma oid_text_no_NUL: "0 \<notin> set (oid_text cs)"
proof (induction cs)
  case (Cons c cs)
  have "0 \<notin> set (decimal c)" using decimal_digit [of 0 c] by auto
  with Cons show ?case unfolding oid_text_Cons by (auto simp: component_rest_def)
qed simp

lemma cstr_terminated: "0 \<notin> set t \<Longrightarrow> take n out = t @ [0] \<Longrightarrow> cstr out = t"
proof -
  assume t: "0 \<notin> set t" and out: "take n out = t @ [0]"
  have "out = t @ 0 # drop n out" using append_take_drop_id [of n out] out by simp
  then have "cstr out = cstr (t @ 0 # drop n out)" by simp
  also have "\<dots> = t" using t by (simp add: cstr_def takeWhile_append)
  finally show ?thesis .
qed

lemma CBS_asn1_oid_to_text_ok:
  assumes "malloc_returns_size malloc" "CBS_asn1_oid_to_text malloc cbs = Some txt"
  shows "\<exists>cs. valid_oid cs \<and> cbs = oid_der cs \<and> cstr txt = oid_text cs"
proof -
  obtain cbb v copy out n c2 where init: "CBB_init malloc 32 = (Some (), cbb)"
    and p: "parse_base128_integer cbs = (Some v, copy)"
    and run: "andthen (oid_text_first malloc v) (\<lambda>_. andthen (oid_text_rest malloc copy) (\<lambda>_.
       andthen (CBB_add_u8 malloc 0 0) (\<lambda>_. CBB_finish malloc 0 True))) cbb = (Some (out, n), c2)"
    and tx: "txt = out"
    using assms(2) by (auto simp: CBS_asn1_oid_to_text_def split: prod.splits option.splits)
       (metis prod.collapse)
  obtain c1 where "fst (oid_text_rest malloc copy c1) \<noteq> None"
    using run by (elim andthen_SomeE) (metis fst_conv option.distinct(1))
  then obtain cs where cs: "\<forall>c \<in> set cs. c < 2 ^ 64" "copy = concat (map base128 cs)"
    using oid_text_rest_decode by blast
  define a b where "a = (if unat v \<ge> 80 then 2 else unat v div 40)" and "b = unat v - 40 * a"
  have ab: "unat v = 40 * a + b" "a \<le> 2" "a < 2 \<longrightarrow> b < 40"
    by (auto simp: a_def b_def minus_mult_div_eq_mod)
  have valid: "valid_oid (a # b # cs)" using ab cs u64_less [of v] by (auto simp: a_def b_def)
  have der: "cbs = oid_der (a # b # cs)" using p cs ab by (simp add: parse_base128_integer_Some_iff)
  have "appender malloc 0 (andthen (oid_text_first malloc v) (\<lambda>_. andthen (oid_text_rest malloc copy) (\<lambda>_.
      CBB_add_u8 malloc 0 0))) () ((decimal a @ 0x2e # decimal b) @ component_rest (oid_text cs) @ [0])"
    unfolding cs(2) using cs(1) ab
    by (intro appender_andthen [OF appender_oid_text_first appender_andthen [OF appender_oid_text_rest
          add_u8.appender_axioms]])
  from appender.finished [OF this refl assms(1) CBB_init_ok(1) [OF assms(1) _ init]] run
  have "take n out = oid_text (a # b # cs) @ [0]"
    using CBB_init_ok(2) [OF assms(1) _ init] by (simp add: andthen_assoc oid_text_Cons component_rest_def)
  then have "cstr txt = oid_text (a # b # cs)" unfolding tx by (intro cstr_terminated oid_text_no_NUL)
  with valid der show ?thesis by blast
qed

section \<open>The encoding is injective\<close>

lemma base128_append_eq:
  assumes "base128 a @ s = base128 b @ t" "a < 2 ^ 64" "b < 2 ^ 64"
  shows "a = b \<and> s = t"
proof -
  have "parse_base128_integer (base128 a @ s) = (Some (word_of_nat a), s)"
    "parse_base128_integer (base128 b @ t) = (Some (word_of_nat b), t)"
    using assms(2,3) by (simp_all add: parse_base128_integer_Some_iff)
  with assms(1) have "(word_of_nat a :: u64) = word_of_nat b" "s = t" by simp_all
  then show ?thesis using assms(2,3) by (metis unat_word_of_nat_64)
qed

lemma concat_base128_inject:
  "concat (map base128 cs) = concat (map base128 ds) \<Longrightarrow> \<forall>c \<in> set cs. c < 2 ^ 64 \<Longrightarrow>
     \<forall>d \<in> set ds. d < 2 ^ 64 \<Longrightarrow> cs = ds"
proof (induction cs arbitrary: ds)
  case Nil
  then show ?case by (cases ds) simp_all
next
  case (Cons c cs)
  then obtain d ds' where ds: "ds = d # ds'" by (cases ds) simp_all
  with Cons.prems base128_append_eq [of c "concat (map base128 cs)" d "concat (map base128 ds')"]
  have "c = d" "concat (map base128 cs) = concat (map base128 ds')" by simp_all
  with Cons ds show ?case by simp
qed

lemma oid_der_inject:
  assumes "valid_oid cs" "valid_oid ds" "oid_der cs = oid_der ds"
  shows "cs = ds"
proof -
  obtain a b cs' where cs: "cs = a # b # cs'" using assms(1) by (cases cs rule: valid_oid.cases) auto
  obtain a' b' ds' where ds: "ds = a' # b' # ds'" using assms(2) by (cases ds rule: valid_oid.cases) auto
  have first: "40 * a + b < 2 ^ 64" "40 * a' + b' < 2 ^ 64" using assms(1,2) cs ds by auto
  have "40 * a + b = 40 * a' + b' \<and> concat (map base128 cs') = concat (map base128 ds')"
    using assms(3) cs ds by (intro base128_append_eq first) simp
  moreover from this have "cs' = ds'" using assms(1,2) cs ds by (intro concat_base128_inject) auto
  moreover have "a = a' \<and> b = b'"
  proof -
    have "40 * a + b = 40 * a' + b'" using calculation(1) by blast
    moreover have "a = 0 \<or> a = 1 \<or> a = 2" "a' = 0 \<or> a' = 1 \<or> a' = 2"
      and "a < 2 \<longrightarrow> b < 40" "a' < 2 \<longrightarrow> b' < 40"
      using assms(1,2) cs ds by auto
    ultimately show ?thesis by (elim disjE) simp_all
  qed
  ultimately show ?thesis by (simp add: cs ds)
qed

section \<open>Properties\<close>

text \<open>C12 (CBB_oid_from_text_correct): \<open>CBB_add_asn1_oid_from_text\<close> accepts only well-formed dotted decimal
  text (at least two components without leading zeros, the first at most 2, the second below
  40 under 0 and 1, none above 64 bits), and appends exactly the base-128 encoding of its
  components.\<close>

theorem CBB_oid_from_text_correct:
  assumes "malloc_returns_size malloc" "cbb_ok cbb" "d \<le> length (child cbb)"
    and "CBB_add_asn1_oid_from_text malloc d t n cbb = (Some u, cbb')"
  shows "\<exists>cs. valid_oid cs \<and> take n t = oid_text cs \<and> view d cbb' = view d cbb @ oid_der cs"
proof -
  obtain cs where cs: "valid_oid cs" "take n t = oid_text cs"
    using oid_from_text_decode [of malloc d t n cbb] assms(4) by auto
  from appender.appends [OF appender_oid_from_text [OF cs] assms] cs show ?thesis by blast
qed

definition oid_example :: "byte list" where
  "oid_example = [0x31, 0x2e, 0x32, 0x2e, 0x38, 0x34, 0x30]"

lemma CBB_oid_from_text_correct_witness:
  "\<exists>cs. valid_oid cs \<and> take 7 oid_example = oid_text cs \<and>
     view 0 (snd (CBB_add_asn1_oid_from_text zero_malloc 0 oid_example 7 (snd (CBB_init zero_malloc 2))))
       = view 0 (snd (CBB_init zero_malloc 2)) @ oid_der cs"
proof -
  define c0 where "c0 = snd (CBB_init zero_malloc 2)"
  have "fst (CBB_add_asn1_oid_from_text zero_malloc 0 oid_example 7 (snd (CBB_init zero_malloc 2))) = Some ()"
    by code_simp
  then have run: "CBB_add_asn1_oid_from_text zero_malloc 0 oid_example 7 c0 =
      (Some (), snd (CBB_add_asn1_oid_from_text zero_malloc 0 oid_example 7 c0))"
    unfolding c0_def by (metis prod.collapse)
  have "CBB_init zero_malloc 2 = (Some (), c0)" unfolding c0_def by code_simp
  from CBB_init_ok(1) [OF zero_malloc_returns_size _ this] have ok: "cbb_ok c0" by simp
  from CBB_oid_from_text_correct [OF zero_malloc_returns_size ok _ run] show ?thesis
    unfolding c0_def by simp
qed

text \<open>C11 (OID_text_roundtrip): the text from which \<open>CBB_add_asn1_oid_from_text\<close> built an object identifier
  is the text that \<open>CBS_asn1_oid_to_text\<close> prints for it.\<close>

theorem OID_text_roundtrip:
  assumes "malloc_returns_size malloc" "k < 2 ^ 64" "CBB_init malloc k = (Some (), cbb)"
    and "andthen (CBB_add_asn1_oid_from_text malloc 0 t m) (\<lambda>_. CBB_finish malloc 0 True) cbb = (Some (out, n), cbb')"
    and "CBS_asn1_oid_to_text malloc (take n out) = Some t'"
  shows "cstr t' = take m t"
proof -
  note init = CBB_init_ok [OF assms(1-3)]
  have "fst (CBB_add_asn1_oid_from_text malloc 0 t m cbb) \<noteq> None"
    using assms(4) by (auto elim: andthen_SomeE)
  then obtain cs where cs: "valid_oid cs" "take m t = oid_text cs" using oid_from_text_decode by blast
  have "take n out = oid_der cs"
    using appender.finished [OF appender_oid_from_text [OF cs] refl assms(1) init(1) assms(4)] init(2) by simp
  moreover obtain ds where "valid_oid ds" "take n out = oid_der ds" "cstr t' = oid_text ds"
    using CBS_asn1_oid_to_text_ok [OF assms(1,5)] by blast
  ultimately show ?thesis using oid_der_inject cs by metis
qed

lemma OID_text_roundtrip_witness: "cstr (the (CBS_asn1_oid_to_text zero_malloc [0x2a, 0x86, 0x48])) = oid_example"
proof -
  define c0 where "c0 = snd (CBB_init zero_malloc 3)"
  have init: "CBB_init zero_malloc 3 = (Some (), c0)" unfolding c0_def by code_simp
  define r where "r = andthen (CBB_add_asn1_oid_from_text zero_malloc 0 oid_example 7)
      (\<lambda>_. CBB_finish zero_malloc 0 True) c0"
  have "fst r = Some ([0x2a, 0x86, 0x48], 3)" unfolding r_def c0_def by code_simp
  then have run: "andthen (CBB_add_asn1_oid_from_text zero_malloc 0 oid_example 7)
      (\<lambda>_. CBB_finish zero_malloc 0 True) c0 = (Some ([0x2a, 0x86, 0x48], 3), snd r)"
    unfolding r_def by (metis prod.collapse)
  have "CBS_asn1_oid_to_text zero_malloc [0x2a, 0x86, 0x48] \<noteq> None" by code_simp
  then have t: "CBS_asn1_oid_to_text zero_malloc (take 3 [0x2a, 0x86, 0x48]) =
      Some (the (CBS_asn1_oid_to_text zero_malloc [0x2a, 0x86, 0x48]))" by simp
  from OID_text_roundtrip [OF zero_malloc_returns_size _ init run t] show ?thesis
    by (simp add: oid_example_def)
qed

end
