(* ===== verification/Base64.thy ===== *)
theory Base64
  imports Constant_Time
begin

unbundle bit_operations_syntax

text \<open>
  Base64 as in BoringSSL's \<open>crypto/base64/base64.c\<close>: the branch-free conversions between six-bit
  values and characters, the block encoder and decoder, and the streaming encoder and decoder
  with their context. An output buffer is the list of the bytes that are written to it; the
  NUL that the encoders put after the text is not part of that list. \<open>int\<close> outputs are
  mathematical integers, their range checks are written out.
\<close>

section \<open>Six-bit values and characters\<close>

definition constant_time_lt_args_8 :: "byte \<Rightarrow> byte \<Rightarrow> byte" where
  "constant_time_lt_args_8 a b =
     (let aw = ucast a; bw = ucast b in ucast (constant_time_msb_w (aw - bw)))"

definition constant_time_in_range_8 :: "byte \<Rightarrow> byte \<Rightarrow> byte \<Rightarrow> byte" where
  "constant_time_in_range_8 a mn mx =
     (let a = a - mn in constant_time_lt_args_8 a (mx - mn + 1))"

definition conv_bin2ascii :: "byte \<Rightarrow> byte" where
  "conv_bin2ascii a0 =
     (let a = a0 AND 0x3f;
          r = constant_time_select_8 (constant_time_eq_8 (ucast a) 62) 0x2b 0x2f;
          r = constant_time_select_8 (constant_time_lt_args_8 a 62) (a - 52 + 0x30) r;
          r = constant_time_select_8 (constant_time_lt_args_8 a 52) (a - 26 + 0x61) r;
          r = constant_time_select_8 (constant_time_lt_args_8 a 26) (a + 0x41) r
      in r)"

definition base64_ascii_to_bin :: "byte \<Rightarrow> byte" where
  "base64_ascii_to_bin a =
     (let is_upper = constant_time_in_range_8 a 0x41 0x5a;
          is_lower = constant_time_in_range_8 a 0x61 0x7a;
          is_digit = constant_time_in_range_8 a 0x30 0x39;
          is_plus = constant_time_eq_8 (ucast a) 0x2b;
          is_slash = constant_time_eq_8 (ucast a) 0x2f;
          is_equals = constant_time_eq_8 (ucast a) 0x3d;
          r = 0;
          r = r OR (is_upper AND (a - 0x41));
          r = r OR (is_lower AND (a - 0x61 + 26));
          r = r OR (is_digit AND (a - 0x30 + 52));
          r = r OR (is_plus AND 62);
          r = r OR (is_slash AND 63);
          is_valid = is_upper OR is_lower OR is_digit OR is_plus OR is_slash OR is_equals
      in r OR NOT is_valid)"

section \<open>Encoding\<close>

text \<open>\<open>size_t\<close> arithmetic, with the overflow tests of the code.\<close>

definition EVP_EncodedLength :: "u64 \<Rightarrow> u64 option" where
  "EVP_EncodedLength len =
     (if len + 2 < len then None
      else
        let len = (len + 2) div 3 in
        if drop_bit 2 (push_bit 2 len) \<noteq> len then None
        else
          let len = push_bit 2 len in
          if len + 1 < len then None else Some (len + 1))"

fun EVP_EncodeBlock :: "byte list \<Rightarrow> byte list" where
  "EVP_EncodeBlock (s0 # s1 # s2 # src) =
     (let l = push_bit 16 (ucast s0) OR push_bit 8 (ucast s1) OR ucast s2 :: u32 in
      conv_bin2ascii (ucast (drop_bit 18 l)) # conv_bin2ascii (ucast (drop_bit 12 l)) #
      conv_bin2ascii (ucast (drop_bit 6 l)) # conv_bin2ascii (ucast l) # EVP_EncodeBlock src)"
| "EVP_EncodeBlock [s0, s1] =
     (let l = push_bit 16 (ucast s0) OR push_bit 8 (ucast s1) :: u32 in
      [conv_bin2ascii (ucast (drop_bit 18 l)), conv_bin2ascii (ucast (drop_bit 12 l)),
       conv_bin2ascii (ucast (drop_bit 6 l)), 0x3d])"
| "EVP_EncodeBlock [s0] =
     (let l = push_bit 16 (ucast s0) :: u32 in
      [conv_bin2ascii (ucast (drop_bit 18 l)), conv_bin2ascii (ucast (drop_bit 12 l)), 0x3d, 0x3d])"
| "EVP_EncodeBlock [] = []"

text \<open>
  The context. \<open>data\<close> holds the \<open>data_used\<close> valid bytes of the C array, whose size is 48;
  \<open>INT_MAX\<close> is \<open>2 ^ 31 - 1\<close>.
\<close>

record EVP_ENCODE_CTX =
  data :: "byte list"
  eof_seen :: bool
  error_encountered :: bool

definition sizeof_data :: nat where
  "sizeof_data = 48"

definition INT_MAX :: nat where
  "INT_MAX = 2 ^ 31 - 1"

definition EVP_EncodeInit :: EVP_ENCODE_CTX where
  "EVP_EncodeInit = \<lparr>data = [], eof_seen = False, error_encountered = False\<rparr>"

text \<open>The loop over the whole lines; it returns the output and the input that is left.\<close>

function encode_lines :: "byte list \<Rightarrow> byte list \<times> byte list" where
  "encode_lines inp =
     (if length inp \<ge> sizeof_data then
        (case encode_lines (drop sizeof_data inp) of
           (out, rest) \<Rightarrow> (EVP_EncodeBlock (take sizeof_data inp) @ 0x0a # out, rest))
      else ([], inp))"
  by pat_completeness auto
termination by (relation "measure length") (auto simp: sizeof_data_def)

declare encode_lines.simps [simp del]

text \<open>
  The new context, the bytes written, and \<open>*out_len\<close>. \<open>total\<close> is a natural number: the code's
  test \<open>total + encoded + 1 < total\<close> only succeeds on an output of \<open>2 ^ 64\<close> bytes or more, which no
  buffer can hold, and is left out.
\<close>

definition EVP_EncodeUpdate :: "EVP_ENCODE_CTX \<Rightarrow> byte list \<Rightarrow> EVP_ENCODE_CTX \<times> byte list \<times> nat" where
  "EVP_EncodeUpdate ctx inp =
     (if length inp = 0 then (ctx, [], 0)
      else if sizeof_data - length (data ctx) > length inp then
        (ctx\<lparr>data := data ctx @ inp\<rparr>, [], 0)
      else
        let (inp, out1) =
              (if length (data ctx) \<noteq> 0 then
                 let todo = sizeof_data - length (data ctx) in
                 (drop todo inp, EVP_EncodeBlock (data ctx @ take todo inp) @ [0x0a])
               else (inp, []));
            (out2, rest) = encode_lines inp;
            out = out1 @ out2;
            total = length out
        in (ctx\<lparr>data := rest\<rparr>, out, if total > INT_MAX then 0 else total))"

definition EVP_EncodeFinal :: "EVP_ENCODE_CTX \<Rightarrow> EVP_ENCODE_CTX \<times> byte list \<times> nat" where
  "EVP_EncodeFinal ctx =
     (if length (data ctx) = 0 then (ctx, [], 0)
      else
        let out = EVP_EncodeBlock (data ctx) @ [0x0a] in (ctx\<lparr>data := []\<rparr>, out, length out))"

section \<open>Decoding\<close>

definition EVP_DecodedLength :: "nat \<Rightarrow> nat option" where
  "EVP_DecodedLength len = (if len mod 4 \<noteq> 0 then None else Some (len div 4 * 3))"

definition EVP_DecodeInit :: EVP_ENCODE_CTX where
  "EVP_DecodeInit = \<lparr>data = [], eof_seen = False, error_encountered = False\<rparr>"

definition base64_decode_quad :: "byte \<Rightarrow> byte \<Rightarrow> byte \<Rightarrow> byte \<Rightarrow> byte list option" where
  "base64_decode_quad in0 in1 in2 in3 =
     (let a = base64_ascii_to_bin in0; b = base64_ascii_to_bin in1;
          c = base64_ascii_to_bin in2; d = base64_ascii_to_bin in3 in
      if a = 0xff \<or> b = 0xff \<or> c = 0xff \<or> d = 0xff then None
      else
        let v = push_bit 18 (ucast a) OR push_bit 12 (ucast b) OR push_bit 6 (ucast c) OR ucast d :: u32;
            padding_pattern = push_bit 3 (of_bool (in0 = 0x3d)) OR push_bit 2 (of_bool (in1 = 0x3d)) OR
              push_bit 1 (of_bool (in2 = 0x3d)) OR of_bool (in3 = 0x3d) :: u32 in
        if padding_pattern = 0 then
          Some [ucast (drop_bit 16 v), ucast (drop_bit 8 v), ucast v]
        else if padding_pattern = 1 then Some [ucast (drop_bit 16 v), ucast (drop_bit 8 v)]
        else if padding_pattern = 3 then Some [ucast (drop_bit 16 v)]
        else None)"

definition is_base64_space :: "byte \<Rightarrow> bool" where
  "is_base64_space c = (c = 0x20 \<or> c = 0x09 \<or> c = 0x0d \<or> c = 0x0a)"

text \<open>
  The loop of \<open>EVP_DecodeUpdate\<close>: the context, whether the loop was finished (\<open>False\<close> when the function
  returns -1 from it), and the bytes written to \<open>out\<close> up to there. \<open>ctx->data\<close> holds at most four
  bytes here.
\<close>

fun decode_loop :: "EVP_ENCODE_CTX \<Rightarrow> byte list \<Rightarrow> byte list \<Rightarrow> EVP_ENCODE_CTX \<times> bool \<times> byte list" where
  "decode_loop ctx out [] = (ctx, True, out)"
| "decode_loop ctx out (c # inp) =
     (if is_base64_space c then decode_loop ctx out inp
      else if eof_seen ctx then (ctx\<lparr>error_encountered := True\<rparr>, False, out)
      else
        let ctx = ctx\<lparr>data := data ctx @ [c]\<rparr> in
        if length (data ctx) = 4 then
          (case base64_decode_quad (data ctx ! 0) (data ctx ! 1) (data ctx ! 2) (data ctx ! 3) of
             None \<Rightarrow> (ctx\<lparr>error_encountered := True\<rparr>, False, out)
           | Some bytes \<Rightarrow>
               let ctx = ctx\<lparr>data := []\<rparr>;
                   ctx = (if length bytes < 3 then ctx\<lparr>eof_seen := True\<rparr> else ctx)
               in decode_loop ctx (out @ bytes) inp)
        else decode_loop ctx out inp)"

text \<open>
  The new context, the return value, the bytes written to \<open>out\<close> (also by a call that fails
  after it has decoded a part of its input) and \<open>*out_len\<close>.
\<close>

definition EVP_DecodeUpdate :: "EVP_ENCODE_CTX \<Rightarrow> byte list \<Rightarrow> EVP_ENCODE_CTX \<times> int \<times> byte list \<times> nat" where
  "EVP_DecodeUpdate ctx inp =
     (if error_encountered ctx then (ctx, - 1, [], 0)
      else case decode_loop ctx [] inp of
             (ctx, going, out) \<Rightarrow>
               if \<not> going then (ctx, - 1, out, 0)
               else if length out > INT_MAX then (ctx\<lparr>error_encountered := True\<rparr>, - 1, out, 0)
               else (ctx, if eof_seen ctx then 0 else 1, out, length out))"

definition EVP_DecodeFinal :: "EVP_ENCODE_CTX \<Rightarrow> int" where
  "EVP_DecodeFinal ctx = (if error_encountered ctx \<or> length (data ctx) \<noteq> 0 then - 1 else 1)"

fun decode_quads :: "byte list \<Rightarrow> byte list option" where
  "decode_quads (c0 # c1 # c2 # c3 # inp) =
     (case base64_decode_quad c0 c1 c2 c3 of
        None \<Rightarrow> None
      | Some bytes \<Rightarrow>
          if length bytes \<noteq> 3 \<and> inp \<noteq> [] then None
          else map_option ((@) bytes) (decode_quads inp))"
| "decode_quads _ = Some []"

text \<open>
  The bytes of a successful call; what a call that fails leaves in \<open>out\<close>, with \<open>*out_len\<close> 0,
  is not modelled.
\<close>

definition EVP_DecodeBase64 :: "nat \<Rightarrow> byte list \<Rightarrow> byte list option" where
  "EVP_DecodeBase64 max_out inp =
     (if length inp mod 4 \<noteq> 0 then None
      else (case EVP_DecodedLength (length inp) of
              None \<Rightarrow> None
            | Some max_len \<Rightarrow> if max_out < max_len then None else decode_quads inp))"

text \<open>The block decoder pads its output with NULs to a multiple of three.\<close>

definition EVP_DecodeBlock :: "byte list \<Rightarrow> byte list option" where
  "EVP_DecodeBlock src =
     (let src = dropWhile (\<lambda>c. c = 0x20 \<or> c = 0x09) src;
          src = rev (dropWhile is_base64_space (rev src)) in
      case EVP_DecodedLength (length src) of
        None \<Rightarrow> None
      | Some dst_len \<Rightarrow>
          if dst_len > INT_MAX then None
          else map_option (\<lambda>out. out @ replicate ((3 - length out mod 3) mod 3) 0)
                 (EVP_DecodeBase64 dst_len src))"

section \<open>The alphabet\<close>

text \<open>The characters of RFC 4648 in the order of the values they stand for.\<close>

definition alphabet :: "byte list" where
  "alphabet = map word_of_nat ([65..<91] @ [97..<123] @ [48..<58] @ [43, 47])"

lemma constant_time_lt_args_8_eq: "constant_time_lt_args_8 a b = (if a < b then - 1 else 0)"
proof -
  have "\<not> bit (ucast c :: u64) 63" for c :: byte
    by (auto simp: bit_simps dest: bit_imp_le_length)
  then have "bit ((ucast a :: u64) - ucast b) 63 \<longleftrightarrow> (ucast a :: u64) < ucast b"
    by (intro bit_63_minus_iff) simp
  also have "\<dots> \<longleftrightarrow> a < b" by (simp add: word_less_nat_alt)
  finally show ?thesis
    by (simp add: constant_time_lt_args_8_def Let_def constant_time_msb_w_eq ucast_minus_one_byte)
qed

lemma ucast_eq_numeral_iff: "(ucast (a :: byte) :: u64) = ucast (b :: byte) \<longleftrightarrow> a = b"
  by (metis unat_ucast_up_byte(3) unsigned_word_eqI)

lemma constant_time_eq_byte:
  "constant_time_eq_8 (ucast (a :: byte)) (ucast (b :: byte)) = (if a = b then - 1 else 0)"
  by (simp add: constant_time_8_eq ucast_eq_numeral_iff)

lemma conv_bin2ascii_if:
  "conv_bin2ascii a0 = (let a = a0 AND 0x3f in
     if a < 26 then a + 0x41 else if a < 52 then a - 26 + 0x61 else if a < 62 then a - 52 + 0x30
     else if a = 62 then 0x2b else 0x2f)"
  using constant_time_eq_byte [of "a0 AND 0x3f" 62]
  by (simp add: conv_bin2ascii_def Let_def constant_time_lt_args_8_eq)

lemma alphabet_nth:
  "n < 26 \<Longrightarrow> alphabet ! n = word_of_nat (65 + n)"
  "26 \<le> n \<Longrightarrow> n < 52 \<Longrightarrow> alphabet ! n = word_of_nat (71 + n)"
  "52 \<le> n \<Longrightarrow> n < 62 \<Longrightarrow> alphabet ! n = word_of_nat (n - 4)"
  "alphabet ! 62 = 0x2b" "alphabet ! 63 = 0x2f"
proof -
  have "length (map word_of_nat [65..<91] :: byte list) = 26" "length (map word_of_nat [97..<123] :: byte list) = 26"
    "length (map word_of_nat [48..<58] :: byte list) = 10" by simp_all
  then show "n < 26 \<Longrightarrow> alphabet ! n = word_of_nat (65 + n)"
    "26 \<le> n \<Longrightarrow> n < 52 \<Longrightarrow> alphabet ! n = word_of_nat (71 + n)"
    "52 \<le> n \<Longrightarrow> n < 62 \<Longrightarrow> alphabet ! n = word_of_nat (n - 4)"
    "alphabet ! 62 = 0x2b" "alphabet ! 63 = 0x2f"
    unfolding alphabet_def map_append nth_append
    by (auto simp del: upt_rec_numeral of_nat_add of_nat_diff)
qed

lemma conv_bin2ascii_less:
  assumes "n < 64" "a0 AND 0x3f = word_of_nat n"
  shows "conv_bin2ascii a0 = alphabet ! n"
proof -
  define a :: byte where "a = word_of_nat n"
  have a: "unat a = n" using assms(1) by (simp add: a_def)
  consider "n < 26" | "26 \<le> n" "n < 52" | "52 \<le> n" "n < 62" | "n = 62" | "n = 63"
    using assms by linarith
  then have "(if a < 26 then a + 0x41 else if a < 52 then a - 26 + 0x61 else if a < 62 then a - 52 + 0x30
     else if a = 62 then 0x2b else 0x2f) = alphabet ! n"
  proof cases
    case 1
    then show ?thesis using a by (simp add: word_less_nat_alt alphabet_nth a_def)
  next
    case 2
    then show ?thesis using a alphabet_nth(2) [OF 2] by (simp add: word_less_nat_alt a_def)
  next
    case 3
    then show ?thesis using a alphabet_nth(3) [OF 3] by (simp add: word_less_nat_alt a_def)
  qed (simp_all add: word_less_nat_alt alphabet_nth a_def)
  then show ?thesis unfolding conv_bin2ascii_if Let_def assms(2) a_def .
qed

lemma conv_bin2ascii_eq: "conv_bin2ascii b = alphabet ! (unat b mod 64)"
proof -
  have "unat (b AND 0x3f) = unat b mod 64"
    using unat_and_mask [of b 6] by (simp add: mask_eq_exp_minus_1)
  then have "b AND 0x3f = word_of_nat (unat b mod 64)"
    by (simp add: byte_of_unat_eq_iff)
  then show ?thesis by (intro conv_bin2ascii_less) simp_all
qed

lemma in_range_8_eq:
  assumes "mn \<le> mx" "unat mx - unat mn < 255"
  shows "constant_time_in_range_8 a mn mx = (if mn \<le> a \<and> a \<le> mx then - 1 else 0)"
proof -
  have u: "unat (mx - mn + 1) = unat mx - unat mn + 1"
    using assms by (simp add: unat_word_ariths unat_sub word_le_nat_alt)
  have "a - mn < mx - mn + 1 \<longleftrightarrow> mn \<le> a \<and> a \<le> mx"
    using assms byte_less [of a] byte_less [of mx] unfolding word_less_nat_alt word_le_nat_alt u
    by (auto simp: unat_sub_if' simp del: byte_less)
  then show ?thesis
    by (simp add: constant_time_in_range_8_def Let_def constant_time_lt_args_8_eq)
qed

lemma base64_ascii_to_bin_if:
  "base64_ascii_to_bin a =
     (if 0x41 \<le> a \<and> a \<le> 0x5a then a - 0x41
      else if 0x61 \<le> a \<and> a \<le> 0x7a then a - 0x61 + 26
      else if 0x30 \<le> a \<and> a \<le> 0x39 then a - 0x30 + 52
      else if a = 0x2b then 62 else if a = 0x2f then 63 else if a = 0x3d then 0 else 0xff)"
proof -
  have r: "constant_time_in_range_8 a 0x41 0x5a = (if 0x41 \<le> a \<and> a \<le> 0x5a then - 1 else 0)"
    "constant_time_in_range_8 a 0x61 0x7a = (if 0x61 \<le> a \<and> a \<le> 0x7a then - 1 else 0)"
    "constant_time_in_range_8 a 0x30 0x39 = (if 0x30 \<le> a \<and> a \<le> 0x39 then - 1 else 0)"
    by (rule in_range_8_eq; simp)+
  have e: "constant_time_eq_8 (ucast a) 0x2b = (if a = 0x2b then - 1 else 0)"
    "constant_time_eq_8 (ucast a) 0x2f = (if a = 0x2f then - 1 else 0)"
    "constant_time_eq_8 (ucast a) 0x3d = (if a = 0x3d then - 1 else 0)"
    using constant_time_eq_byte [of a "0x2b"] constant_time_eq_byte [of a "0x2f"]
      constant_time_eq_byte [of a "0x3d"] by simp_all
  consider (U) "0x41 \<le> a \<and> a \<le> 0x5a" | (L) "0x61 \<le> a \<and> a \<le> 0x7a" | (D) "0x30 \<le> a \<and> a \<le> 0x39"
    | (P) "a = 0x2b" | (S) "a = 0x2f" | (E) "a = 0x3d"
    | (N) "\<not> (0x41 \<le> a \<and> a \<le> 0x5a)" "\<not> (0x61 \<le> a \<and> a \<le> 0x7a)" "\<not> (0x30 \<le> a \<and> a \<le> 0x39)"
        "a \<noteq> 0x2b" "a \<noteq> 0x2f" "a \<noteq> 0x3d"
    by blast
  then show ?thesis
  proof cases
    case U
    then have "\<not> (0x61 \<le> a \<and> a \<le> 0x7a)" "\<not> (0x30 \<le> a \<and> a \<le> 0x39)" "a \<noteq> 0x2b" "a \<noteq> 0x2f" "a \<noteq> 0x3d"
      by (auto simp: word_le_nat_alt)
    with U show ?thesis
      unfolding base64_ascii_to_bin_def Let_def r e by (simp only: if_True if_False simp_thms) simp
  next
    case L
    then have "\<not> (0x41 \<le> a \<and> a \<le> 0x5a)" "\<not> (0x30 \<le> a \<and> a \<le> 0x39)" "a \<noteq> 0x2b" "a \<noteq> 0x2f" "a \<noteq> 0x3d"
      by (auto simp: word_le_nat_alt)
    with L show ?thesis
      unfolding base64_ascii_to_bin_def Let_def r e by (simp only: if_True if_False simp_thms) simp
  next
    case D
    then have "\<not> (0x41 \<le> a \<and> a \<le> 0x5a)" "\<not> (0x61 \<le> a \<and> a \<le> 0x7a)" "a \<noteq> 0x2b" "a \<noteq> 0x2f" "a \<noteq> 0x3d"
      by (auto simp: word_le_nat_alt)
    with D show ?thesis
      unfolding base64_ascii_to_bin_def Let_def r e by (simp only: if_True if_False simp_thms) simp
  next
    case N
    then show ?thesis unfolding base64_ascii_to_bin_def Let_def r e
      by (simp only: if_True if_False simp_thms) simp
  next
    case P
    show ?thesis unfolding base64_ascii_to_bin_def Let_def r e unfolding P by simp
  next
    case S
    show ?thesis unfolding base64_ascii_to_bin_def Let_def r e unfolding S by simp
  next
    case E
    show ?thesis unfolding base64_ascii_to_bin_def Let_def r e unfolding E by simp
  qed
qed

lemma length_alphabet: "length alphabet = 64"
  by (simp add: alphabet_def)

lemma ascii_to_bin_alphabet:
  assumes "n < 64"
  shows "base64_ascii_to_bin (alphabet ! n) = word_of_nat n"
proof -
  consider "n < 26" | "26 \<le> n" "n < 52" | "52 \<le> n" "n < 62" | "n = 62" | "n = 63"
    using assms by linarith
  then show ?thesis
  proof cases
    case 1
    define a :: byte where "a = word_of_nat (65 + n)"
    have "0x41 \<le> a \<and> a \<le> 0x5a" using 1 by (simp add: a_def word_le_nat_alt del: of_nat_add)
    moreover have "a - 0x41 = word_of_nat n" by (simp add: a_def)
    ultimately show ?thesis using 1 by (simp add: alphabet_nth base64_ascii_to_bin_if a_def)
  next
    case 2
    define a :: byte where "a = word_of_nat (71 + n)"
    have "\<not> a \<le> 0x5a" "0x61 \<le> a \<and> a \<le> 0x7a"
      using 2 by (simp_all add: a_def word_le_nat_alt del: of_nat_add)
    moreover have "a - 0x61 + 26 = word_of_nat n" by (simp add: a_def)
    ultimately have "base64_ascii_to_bin a = word_of_nat n" by (simp add: base64_ascii_to_bin_if)
    then show ?thesis using alphabet_nth(2) [OF 2] by (simp only: a_def)
  next
    case 3
    define a :: byte where "a = word_of_nat (n - 4)"
    have "\<not> 0x41 \<le> a" "\<not> 0x61 \<le> a" "0x30 \<le> a \<and> a \<le> 0x39"
      using 3 by (auto simp: a_def word_le_nat_alt simp del: of_nat_diff)
    moreover have "a - 0x30 + 52 = word_of_nat n" using 3 by (simp add: a_def)
    ultimately have "base64_ascii_to_bin a = word_of_nat n" by (simp add: base64_ascii_to_bin_if)
    then show ?thesis using alphabet_nth(3) [OF 3] by (simp only: a_def)
  qed (simp_all add: alphabet_nth base64_ascii_to_bin_if)
qed

lemma ascii_to_bin_cases:
  obtains (padding) "a = 0x3d" "base64_ascii_to_bin a = 0"
  | (invalid) "a \<noteq> 0x3d" "a \<notin> set alphabet" "base64_ascii_to_bin a = 0xff"
  | (digit) n where "n < 64" "a = alphabet ! n" "base64_ascii_to_bin a = word_of_nat n"
proof (cases "a = 0x3d")
  case True
  then show thesis by (intro padding) (simp_all add: base64_ascii_to_bin_if)
next
  case False
  show thesis
  proof (cases "base64_ascii_to_bin a = 0xff")
    case True
    have "a \<notin> set alphabet"
    proof
      assume "a \<in> set alphabet"
      then obtain n where "n < 64" "a = alphabet ! n" by (auto simp: in_set_conv_nth length_alphabet)
      with True ascii_to_bin_alphabet [of n] have "(word_of_nat n :: byte) = 0xff" by simp
      then show False using \<open>n < 64\<close> by (simp add: word_of_nat_byte_eq_iff)
    qed
    with False True show thesis using invalid by blast
  next
    case valid: False
    define n where "n = unat (base64_ascii_to_bin a)"
    consider "0x41 \<le> a \<and> a \<le> 0x5a" | "0x61 \<le> a \<and> a \<le> 0x7a" | "0x30 \<le> a \<and> a \<le> 0x39"
      | "a = 0x2b" | "a = 0x2f"
      using valid False unfolding base64_ascii_to_bin_if by argo
    then have "n < 64 \<and> a = alphabet ! n"
    proof cases
      case 1
      then have "n = unat a - 65" "65 \<le> unat a" "unat a \<le> 90"
        by (auto simp: n_def base64_ascii_to_bin_if word_le_nat_alt unat_sub)
      then have n: "n < 26" and a: "a = word_of_nat (65 + n)"
        by (linarith | simp add: byte_of_unat_eq_iff del: of_nat_add)+
      show ?thesis using alphabet_nth(1) [OF n] n a by simp
    next
      case 2
      then have "\<not> (0x41 \<le> a \<and> a \<le> 0x5a)" by (auto simp: word_le_nat_alt)
      then have "base64_ascii_to_bin a = a - 0x61 + 26" using 2 unfolding base64_ascii_to_bin_if by (simp only: if_False if_True simp_thms)
      then have "n = unat (a - 0x61 + 26)" by (simp only: n_def)
      with 2 have "n = unat a - 97 + 26" "97 \<le> unat a" "unat a \<le> 122"
        by (auto simp: word_le_nat_alt unat_sub unat_word_ariths)
      then have n: "26 \<le> n" "n < 52" and a: "a = word_of_nat (71 + n)"
        by (linarith | simp add: byte_of_unat_eq_iff del: of_nat_add)+
      show ?thesis using alphabet_nth(2) [OF n] n a by simp
    next
      case 3
      then have "\<not> (0x41 \<le> a \<and> a \<le> 0x5a)" "\<not> (0x61 \<le> a \<and> a \<le> 0x7a)" by (auto simp: word_le_nat_alt)
      then have "base64_ascii_to_bin a = a - 0x30 + 52" using 3 unfolding base64_ascii_to_bin_if by (simp only: if_False if_True simp_thms)
      then have "n = unat (a - 0x30 + 52)" by (simp only: n_def)
      with 3 have "n = unat a - 48 + 52" "48 \<le> unat a" "unat a \<le> 57"
        by (auto simp: word_le_nat_alt unat_sub unat_word_ariths)
      then have n: "52 \<le> n" "n < 62" and a: "a = word_of_nat (n - 4)"
        by (linarith | simp add: byte_of_unat_eq_iff del: of_nat_diff)+
      show ?thesis using alphabet_nth(3) [OF n] n a by simp
    next
      case 4
      then show ?thesis by (simp add: n_def base64_ascii_to_bin_if alphabet_nth)
    next
      case 5
      then show ?thesis by (simp add: n_def base64_ascii_to_bin_if alphabet_nth)
    qed
    then have n: "n < 64" "a = alphabet ! n" by blast+
    have "base64_ascii_to_bin a = word_of_nat n" by (simp add: n_def)
    with n show thesis by (rule digit)
  qed
qed

section \<open>The block encoder is RFC 4648\<close>

text \<open>Three bytes are a number of 24 bits, which is written with four digits in base 64.\<close>

definition b64_digit :: "nat \<Rightarrow> byte" where
  "b64_digit n = alphabet ! (n mod 64)"

definition be24 :: "byte \<Rightarrow> byte \<Rightarrow> byte \<Rightarrow> nat" where
  "be24 a b c = unat a * 65536 + unat b * 256 + unat c"

definition b64_group :: "nat \<Rightarrow> byte list" where
  "b64_group n = [b64_digit (n div 262144), b64_digit (n div 4096), b64_digit (n div 64), b64_digit n]"

fun base64 :: "byte list \<Rightarrow> byte list" where
  "base64 (a # b # c # xs) = b64_group (be24 a b c) @ base64 xs"
| "base64 [a, b] = take 3 (b64_group (be24 a b 0)) @ [0x3d]"
| "base64 [a] = take 2 (b64_group (be24 a 0 0)) @ [0x3d, 0x3d]"
| "base64 [] = []"

lemma be24_less: "be24 a b c < 16777216"
  unfolding be24_def using byte_less [of a] byte_less [of b] byte_less [of c] by linarith

lemma or_three_bytes:
  "unat (push_bit 16 (ucast (s0 :: byte)) OR push_bit 8 (ucast (s1 :: byte)) OR ucast (s2 :: byte) :: u32) = be24 s0 s1 s2"
proof -
  have e: "push_bit 16 (ucast s0) OR push_bit 8 (ucast s1) OR ucast s2
      = (push_bit 8 (push_bit 8 (ucast s0) OR ucast s1) OR ucast s2 :: u32)"
    by (simp add: push_bit_or or.assoc)
  have lt: "unat s0 < 256" "unat s1 < 256" "unat s2 < 256" by simp_all
  then have 1: "unat (push_bit 8 (ucast s0) OR ucast s1 :: u32) = unat s0 * 256 + unat s1"
    by (subst unat_push_or) (auto simp del: byte_less)
  show ?thesis
    unfolding e using lt by (subst unat_push_or) (auto simp: 1 be24_def simp del: byte_less)
qed

lemma or_two_bytes:
  "push_bit 16 (ucast (s0 :: byte)) OR push_bit 8 (ucast (s1 :: byte))
     = (push_bit 16 (ucast s0) OR push_bit 8 (ucast s1) OR ucast (0 :: byte) :: u32)"
  by simp

lemma or_one_byte:
  "push_bit 16 (ucast (s0 :: byte))
     = (push_bit 16 (ucast s0) OR push_bit 8 (ucast (0 :: byte)) OR ucast (0 :: byte) :: u32)"
  by simp

lemma conv_bin2ascii_drop:
  "conv_bin2ascii (ucast (drop_bit k (l :: u32))) = b64_digit (unat l div 2 ^ k)"
  "conv_bin2ascii (ucast (l :: u32)) = b64_digit (unat l)"
proof -
  have "(256 :: nat) = 64 * 4" by simp
  then have m: "n mod 256 mod 64 = n mod (64 :: nat)" for n by (simp only: mod_mult2_eq) simp
  show "conv_bin2ascii (ucast (drop_bit k l)) = b64_digit (unat l div 2 ^ k)"
    by (simp add: conv_bin2ascii_eq b64_digit_def unat_ucast_mod unat_drop_bit m)
  show "conv_bin2ascii (ucast l) = b64_digit (unat l)"
    by (simp add: conv_bin2ascii_eq b64_digit_def unat_ucast_mod m)
qed

lemma encode_group:
  assumes "l = push_bit 16 (ucast (a :: byte)) OR push_bit 8 (ucast (b :: byte)) OR ucast (c :: byte)"
  shows "conv_bin2ascii (ucast (drop_bit 18 (l :: u32))) = b64_digit (be24 a b c div 262144)"
    "conv_bin2ascii (ucast (drop_bit 12 l)) = b64_digit (be24 a b c div 4096)"
    "conv_bin2ascii (ucast (drop_bit 6 l)) = b64_digit (be24 a b c div 64)"
    "conv_bin2ascii (ucast l) = b64_digit (be24 a b c)"
  using or_three_bytes [of a b c] unfolding assms [symmetric]
  by (simp_all add: conv_bin2ascii_drop(1)) (simp add: conv_bin2ascii_drop(2))

lemma EVP_EncodeBlock_eq: "EVP_EncodeBlock src = base64 src"
proof (induction src rule: base64.induct)
  case (1 a b c xs)
  show ?case unfolding EVP_EncodeBlock.simps Let_def encode_group [OF refl] 1 by (simp add: b64_group_def)
next
  case (2 a b)
  show ?case
    unfolding EVP_EncodeBlock.simps Let_def encode_group [OF or_two_bytes] by (simp add: b64_group_def)
next
  case (3 a)
  show ?case
    unfolding EVP_EncodeBlock.simps Let_def encode_group [OF or_one_byte] by (simp add: b64_group_def)
qed simp

lemma length_base64: "length (base64 xs) = (length xs + 2) div 3 * 4"
proof (induction xs rule: base64.induct)
  case (1 a b c xs)
  have "(5 + n) div 3 = Suc ((n + 2) div 3)" for n :: nat by linarith
  with 1 show ?case by (simp add: b64_group_def)
qed (simp_all add: b64_group_def)

lemma base64_append:
  "length xs mod 3 = 0 \<Longrightarrow> base64 (xs @ ys) = base64 xs @ base64 ys"
  by (induction xs rule: base64.induct) (simp_all add: mod_Suc split: if_splits)

section \<open>Decoding a group\<close>

lemma equals_not_alphabet: "(0x3d :: byte) \<notin> set alphabet"
  by (simp add: alphabet_def word_of_nat_byte_eq_iff del: upt_rec_numeral) (auto simp: byte_of_unat_eq_iff)

lemma b64_digit_facts:
  "b64_digit n \<noteq> 0x3d" "base64_ascii_to_bin (b64_digit n) = word_of_nat (n mod 64)"
proof -
  have "b64_digit n \<in> set alphabet" by (simp add: b64_digit_def length_alphabet)
  then show "b64_digit n \<noteq> 0x3d" using equals_not_alphabet by metis
  show "base64_ascii_to_bin (b64_digit n) = word_of_nat (n mod 64)"
    by (simp add: b64_digit_def ascii_to_bin_alphabet)
qed

lemma ascii_to_bin_equals: "base64_ascii_to_bin 0x3d = 0"
  by (simp add: base64_ascii_to_bin_if)

lemma quad_value:
  fixes a b c d :: byte
  assumes "unat a < 64" "unat b < 64" "unat c < 64" "unat d < 64"
  shows "unat (push_bit 18 (ucast a) OR push_bit 12 (ucast b) OR push_bit 6 (ucast c) OR ucast d :: u32)
    = unat a * 262144 + unat b * 4096 + unat c * 64 + unat d"
proof -
  have e: "push_bit 18 (ucast a) OR push_bit 12 (ucast b) OR push_bit 6 (ucast c) OR ucast d
      = (push_bit 6 (push_bit 6 (push_bit 6 (ucast a) OR ucast b) OR ucast c) OR ucast d :: u32)"
    by (simp add: push_bit_or or.assoc)
  have 1: "unat (push_bit 6 (ucast a) OR ucast b :: u32) = unat a * 64 + unat b"
    using assms by (subst unat_push_or) auto
  have 2: "unat (push_bit 6 (push_bit 6 (ucast a) OR ucast b) OR ucast c :: u32)
      = (unat a * 64 + unat b) * 64 + unat c"
    using assms unfolding 1 [symmetric] by (subst unat_push_or) (auto simp: 1 simp del: push_bit_or)
  show ?thesis
    unfolding e using assms by (subst unat_push_or) (auto simp: 2 simp del: push_bit_or)
qed

lemma small_not_ff: "n < 64 \<Longrightarrow> (word_of_nat n :: byte) \<noteq> 0xff"
  by (simp add: word_of_nat_byte_eq_iff)

lemma three_bytes_of:
  assumes "unat (v :: u32) = be24 a b c"
  shows "ucast (drop_bit 16 v) = a" "ucast (drop_bit 8 v) = b" "ucast v = c"
proof -
  have lt: "unat a < 256" "unat b < 256" "unat c < 256" by simp_all
  have e: "be24 a b c = (unat a * 256 + unat b) * 256 + unat c" by (simp add: be24_def)
  have "be24 a b c div 65536 = unat a" "be24 a b c div 256 = unat a * 256 + unat b"
    "be24 a b c mod 256 = unat c"
      apply (rule div_nat_eqI; use lt in \<open>simp add: be24_def del: byte_less\<close>)
     apply (rule div_nat_eqI; use lt in \<open>simp add: be24_def del: byte_less\<close>)
    unfolding e mod_mult_self3 by simp
  with lt have "be24 a b c div 65536 mod 256 = unat a" "be24 a b c div 256 mod 256 = unat b"
    "be24 a b c mod 256 = unat c"
    by simp_all
  then show "ucast (drop_bit 16 v) = a" "ucast (drop_bit 8 v) = b" "ucast v = c"
    by (simp_all add: word_eq_iff_unat unat_ucast_mod unat_drop_bit assms)
qed

section \<open>Decoding what was encoded\<close>

text \<open>The value of four digits, and the decoding of a full and of a short group.\<close>

lemma group_value:
  assumes "n < 16777216"
  shows "unat (push_bit 18 (ucast (word_of_nat (n div 262144 mod 64) :: byte)) OR
      push_bit 12 (ucast (word_of_nat (n div 4096 mod 64) :: byte)) OR
      push_bit 6 (ucast (word_of_nat (n div 64 mod 64) :: byte)) OR
      ucast (word_of_nat (n mod 64) :: byte) :: u32) = n"
proof -
  have u: "unat (word_of_nat (m mod 64) :: byte) = m mod 64" for m by simp
  have "n = n div 262144 * 262144 + n mod 262144" by simp
  also have "n mod 262144 = n div 4096 mod 64 * 4096 + n mod 4096"
    using mod_mult2_eq [of n 4096 64] by simp
  also have "n mod 4096 = n div 64 mod 64 * 64 + n mod 64"
    using mod_mult2_eq [of n 64 64] by simp
  also have "n div 262144 = n div 262144 mod 64" using assms by simp
  finally have n: "n div 262144 mod 64 * 262144 + n div 4096 mod 64 * 4096 + n div 64 mod 64 * 64 + n mod 64 = n"
    by linarith
  show ?thesis by (subst quad_value) (simp_all only: u n)
qed

lemma decode_group:
  "base64_decode_quad (b64_digit (be24 a b c div 262144)) (b64_digit (be24 a b c div 4096))
     (b64_digit (be24 a b c div 64)) (b64_digit (be24 a b c)) = Some [a, b, c]"
  using three_bytes_of [OF group_value [OF be24_less [of a b c]]]
  by (simp add: base64_decode_quad_def Let_def b64_digit_facts small_not_ff)

lemma decode_group_2:
  "base64_decode_quad (b64_digit (be24 a b 0 div 262144)) (b64_digit (be24 a b 0 div 4096))
     (b64_digit (be24 a b 0 div 64)) 0x3d = Some [a, b]"
proof -
  have "be24 a b 0 = (unat a * 256 * 4 + unat b * 4) * 64" by (simp add: be24_def)
  then have "(word_of_nat (be24 a b 0 mod 64) :: byte) = 0" by simp
  with three_bytes_of [OF group_value [OF be24_less [of a b 0]]] show ?thesis
    by (simp add: base64_decode_quad_def Let_def b64_digit_facts small_not_ff ascii_to_bin_equals)
qed

lemma decode_group_1:
  "base64_decode_quad (b64_digit (be24 a 0 0 div 262144)) (b64_digit (be24 a 0 0 div 4096))
     0x3d 0x3d = Some [a]"
proof -
  have e: "be24 a 0 0 = (unat a * 16) * 64 * 64" by (simp add: be24_def)
  then have "(word_of_nat (be24 a 0 0 mod 64) :: byte) = 0"
    "(word_of_nat (be24 a 0 0 div 64 mod 64) :: byte) = 0" by simp_all
  with three_bytes_of [OF group_value [OF be24_less [of a 0 0]]] show ?thesis
    by (simp add: base64_decode_quad_def Let_def b64_digit_facts small_not_ff ascii_to_bin_equals)
qed

lemma base64_not_Nil: "base64 xs = [] \<longleftrightarrow> xs = []"
  by (cases xs rule: base64.cases) (simp_all add: b64_group_def)

lemma decode_quads_base64: "decode_quads (base64 xs) = Some xs"
proof (induction xs rule: base64.induct)
  case (1 a b c xs)
  then show ?case by (simp add: b64_group_def decode_group)
qed (simp_all add: b64_group_def decode_group_1 decode_group_2)

text \<open>C17 (EVP_EncodeBlock_RFC4648): \<open>EVP_EncodeBlock\<close>, which computes every character with branch-free
masks, writes the base64 encoding of its input: the input in groups of three bytes, each a 24-bit
number in base 64, the last group padded with \<open>=\<close>.\<close>

theorem EVP_EncodeBlock_RFC4648: "EVP_EncodeBlock src = base64 src"
  by (rule EVP_EncodeBlock_eq)

text \<open>\<open>EVP_DecodeBase64\<close> inverts \<open>EVP_EncodeBlock\<close> for every input, and
fails exactly when the output buffer is smaller than three bytes per group.\<close>

theorem EVP_DecodeBase64_roundtrip:
  "EVP_DecodeBase64 max_out (EVP_EncodeBlock src) =
     (if max_out < (length src + 2) div 3 * 3 then None else Some src)"
  by (simp add: EVP_EncodeBlock_eq EVP_DecodeBase64_def EVP_DecodedLength_def length_base64 decode_quads_base64)

section \<open>The streaming encoder\<close>

text \<open>The specification: lines of 48 input bytes, each ended by a newline.\<close>

function base64_lines :: "byte list \<Rightarrow> byte list" where
  "base64_lines xs =
     (if xs = [] then [] else base64 (take 48 xs) @ 0x0a # base64_lines (drop 48 xs))"
  by pat_completeness auto
termination by (relation "measure length") auto

declare base64_lines.simps [simp del]

lemma base64_lines_Nil [simp]: "base64_lines [] = []"
  by (simp add: base64_lines.simps)

lemma base64_lines_line:
  "length xs = 48 \<Longrightarrow> base64_lines (xs @ ys) = base64 xs @ 0x0a # base64_lines ys"
  by (subst base64_lines.simps) auto

lemma encode_lines_correct:
  assumes "encode_lines inp = (out, rest)"
  shows "out @ base64_lines (rest @ ys) = base64_lines (inp @ ys)" (is ?A)
    and "length rest < 48" (is ?B) and "48 * length out \<le> 65 * length inp" (is ?C)
proof -
  have "?A \<and> ?B \<and> ?C"
    using assms
  proof (induction inp arbitrary: out rule: encode_lines.induct)
    case (1 inp)
    show ?case
    proof (cases "length inp \<ge> 48")
      case True
      then obtain out' where out': "encode_lines (drop 48 inp) = (out', rest)"
        and out: "out = base64 (take 48 inp) @ 0x0a # out'"
        using "1.prems" by (subst (asm) encode_lines.simps)
          (auto simp: sizeof_data_def EVP_EncodeBlock_eq split: prod.splits)
      have "base64_lines (inp @ ys) = base64 (take 48 inp) @ 0x0a # base64_lines (drop 48 inp @ ys)"
        using base64_lines_line [of "take 48 inp" "drop 48 inp @ ys"] True
        by (simp flip: append_assoc)
      with "1.IH" [of out'] True out out' show ?thesis
        by (simp add: sizeof_data_def length_base64) linarith
    next
      case False
      with "1.prems" show ?thesis by (subst (asm) encode_lines.simps) (simp add: sizeof_data_def)
    qed
  qed
  then show ?A ?B ?C by blast+
qed

lemma EVP_EncodeUpdate_correct:
  assumes "EVP_EncodeUpdate ctx inp = (ctx', out, n)" and "length (data ctx) < 48"
    and "length inp \<le> 2 ^ 30"
  shows "out @ base64_lines (data ctx' @ ys) = base64_lines (data ctx @ inp @ ys)"
    and "length (data ctx') < 48" and "n = length out"
proof -
  have "out @ base64_lines (data ctx' @ ys) = base64_lines (data ctx @ inp @ ys)
      \<and> length (data ctx') < 48 \<and> n = length out"
  proof (cases "inp = [] \<or> 48 - length (data ctx) > length inp")
    case True
    then have "ctx' = (if inp = [] then ctx else ctx\<lparr>data := data ctx @ inp\<rparr>)" "out = []" "n = 0"
      using assms(1) by (auto simp: EVP_EncodeUpdate_def sizeof_data_def split: if_splits)
    with True assms(2) show ?thesis by auto
  next
    case False
    define todo where "todo = 48 - length (data ctx)"
    define rest1 where "rest1 = (if data ctx \<noteq> [] then drop todo inp else inp)"
    define out1 where "out1 = (if data ctx \<noteq> [] then base64 (data ctx @ take todo inp) @ [0x0a] else [])"
    obtain out2 rest where e: "encode_lines rest1 = (out2, rest)" by fastforce
    note el = encode_lines_correct [OF e]
    have r: "ctx' = ctx\<lparr>data := rest\<rparr>" "out = out1 @ out2" "n = (if length out > INT_MAX then 0 else length out)"
      using assms(1) False e
      by (auto simp: EVP_EncodeUpdate_def sizeof_data_def rest1_def out1_def todo_def EVP_EncodeBlock_eq Let_def
          split: if_splits prod.splits)
    have "length rest1 \<le> length inp" by (simp add: rest1_def)
    moreover have "length out1 \<le> 65"
      using False assms(2) by (simp add: out1_def length_base64 todo_def)
    ultimately have "48 * length out \<le> 48 * 65 + 65 * length inp"
      using el(3) by (simp add: r(2))
    then have "length out \<le> INT_MAX" using assms(3) by (simp add: INT_MAX_def)
    moreover have "out1 @ base64_lines (rest1 @ ys) = base64_lines (data ctx @ inp @ ys)"
    proof (cases "data ctx = []")
      case True
      then show ?thesis by (simp add: out1_def rest1_def)
    next
      case nonempty: False
      have "length (data ctx @ take todo inp) = 48" using False assms(2) by (simp add: todo_def)
      from base64_lines_line [OF this, of "drop todo inp @ ys"] nonempty show ?thesis
        by (simp add: out1_def rest1_def) (simp flip: append_assoc)
    qed
    ultimately show ?thesis using el(1) [of ys] el(2) r by simp
  qed
  then show "out @ base64_lines (data ctx' @ ys) = base64_lines (data ctx @ inp @ ys)"
    and "length (data ctx') < 48" and "n = length out" by blast+
qed

text \<open>A caller that encodes chunk by chunk and keeps the bytes that \<open>*out_len\<close> counts.\<close>

fun encode_stream :: "EVP_ENCODE_CTX \<Rightarrow> byte list list \<Rightarrow> byte list" where
  "encode_stream ctx [] = (case EVP_EncodeFinal ctx of (ctx, out, n) \<Rightarrow> take n out)"
| "encode_stream ctx (c # cs) =
     (case EVP_EncodeUpdate ctx c of (ctx, out, n) \<Rightarrow> take n out @ encode_stream ctx cs)"

lemma encode_stream_lines:
  assumes "length (data ctx) < 48" and "\<forall>c \<in> set cs. length c \<le> 2 ^ 30"
  shows "encode_stream ctx cs = base64_lines (data ctx @ concat cs)"
  using assms
proof (induction cs arbitrary: ctx)
  case Nil
  then show ?case
    by (subst base64_lines.simps) (simp add: EVP_EncodeFinal_def Let_def EVP_EncodeBlock_eq)
next
  case (Cons c cs)
  obtain ctx' out n where e: "EVP_EncodeUpdate ctx c = (ctx', out, n)" by (metis prod_cases3)
  have len: "length c \<le> 2 ^ 30" using Cons.prems by simp
  note u = EVP_EncodeUpdate_correct [OF e Cons.prems(1) len]
  have "encode_stream ctx' cs = base64_lines (data ctx' @ concat cs)"
    using Cons.IH u(2) Cons.prems(2) by simp
  with e u(1) [of "concat cs"] u(3) show ?case by simp
qed

section \<open>The streaming decoder\<close>

text \<open>Feeding the input in two parts is feeding it at once; the output is accumulated.\<close>

lemma decode_loop_append:
  "decode_loop ctx out (xs @ ys) =
     (case decode_loop ctx out xs of
        (ctx, going, out) \<Rightarrow> if going then decode_loop ctx out ys else (ctx, going, out))"
  by (induction ctx out xs rule: decode_loop.induct) (auto simp: Let_def split: option.splits)

lemma decode_loop_acc:
  "decode_loop ctx (o1 @ o2) xs = apsnd (apsnd ((@) o1)) (decode_loop ctx o2 xs)"
  by (induction ctx o2 xs rule: decode_loop.induct) (auto simp: Let_def split: option.splits)

lemma length_decode_quad: "base64_decode_quad a b c d = Some out \<Longrightarrow> length out \<le> 3"
  by (auto simp: base64_decode_quad_def Let_def split: if_splits)

text \<open>What the loop keeps: fewer than four pending characters, and three bytes out per four in.\<close>

lemma decode_loop_bound:
  assumes "decode_loop ctx out inp = (ctx', going, out')" and "length (data ctx) < 4"
  shows "length (data ctx') \<le> 4 \<and>
    4 * length out' \<le> 4 * length out + 3 * (length (data ctx) + length inp) \<and>
    (\<not> going \<longrightarrow> error_encountered ctx') \<and>
    (going \<longrightarrow> length (data ctx') < 4 \<and> error_encountered ctx' = error_encountered ctx \<and>
        4 * length out' + 3 * length (data ctx') \<le> 4 * length out + 3 * (length (data ctx) + length inp))"
  using assms
proof (induction ctx out inp rule: decode_loop.induct)
  case (1 ctx out)
  then show ?case by auto
next
  case (2 ctx out c inp)
  let ?d = "data ctx @ [c]"
  consider "is_base64_space c" | "\<not> is_base64_space c" "eof_seen ctx"
    | "\<not> is_base64_space c" "\<not> eof_seen ctx" "length ?d \<noteq> 4"
    | "\<not> is_base64_space c" "\<not> eof_seen ctx" "length ?d = 4" by blast
  then show ?case
  proof cases
    case 1
    with "2.IH"(1) "2.prems" show ?thesis by fastforce
  next
    case 2
    with "2.prems" show ?thesis by auto
  next
    case 3
    with "2.IH"(3) [OF 3(1,2) refl] "2.prems" show ?thesis by auto
  next
    case 4
    show ?thesis
    proof (cases "base64_decode_quad (?d ! 0) (?d ! 1) (?d ! 2) (?d ! 3)")
      case None
      with 4 "2.prems" show ?thesis by (auto simp: Let_def)
    next
      case (Some bytes)
      define ctx2 where "ctx2 = (if length bytes < 3 then ctx\<lparr>data := [], eof_seen := True\<rparr> else ctx\<lparr>data := []\<rparr>)"
      have ctx2: "data ctx2 = []" "error_encountered ctx2 = error_encountered ctx"
        by (simp_all add: ctx2_def)
      have "decode_loop ctx2 (out @ bytes) inp = (ctx', going, out')"
        using "2.prems"(1) 4 Some by (simp add: Let_def ctx2_def split: if_splits)
      with "2.IH"(2) [OF 4(1,2) refl _ _ refl refl, of bytes] Some 4(3) ctx2 length_decode_quad [OF Some]
      show ?thesis by (fastforce simp: ctx2_def split: if_splits)
    qed
  qed
qed

lemma digits_not_space: "n < 64 \<Longrightarrow> \<not> is_base64_space (alphabet ! n)" "\<not> is_base64_space 0x3d"
proof -
  have "\<not> is_base64_space a" if "a \<in> set alphabet" for a
    using that by (auto simp: alphabet_def is_base64_space_def word_of_nat_byte_eq_iff simp del: upt_rec_numeral)
  then show "n < 64 \<Longrightarrow> \<not> is_base64_space (alphabet ! n)" by (simp add: length_alphabet)
qed (simp add: is_base64_space_def)

lemma b64_digit_not_space: "\<not> is_base64_space (b64_digit n)"
  by (simp add: b64_digit_def digits_not_space)

lemma decode_loop_quad:
  assumes "data ctx = []" "\<not> eof_seen ctx" "\<forall>c \<in> {c0, c1, c2, c3}. \<not> is_base64_space c"
    and "base64_decode_quad c0 c1 c2 c3 = Some bytes"
  shows "decode_loop ctx out (c0 # c1 # c2 # c3 # inp) =
    decode_loop (if length bytes < 3 then ctx\<lparr>eof_seen := True\<rparr> else ctx) (out @ bytes) inp"
  using assms by (cases ctx) (auto simp: Let_def)

lemma mod_3_3: "Suc (Suc (Suc n)) mod 3 = n mod 3" "(n + 48) mod 3 = n mod (3 :: nat)"
  by presburger+

lemma decode_loop_base64:
  assumes "data ctx = []" "\<not> eof_seen ctx"
  shows "decode_loop ctx out (base64 xs @ ys) =
    decode_loop (if length xs mod 3 = 0 then ctx else ctx\<lparr>eof_seen := True\<rparr>) (out @ xs) ys"
  using assms
proof (induction xs arbitrary: out rule: base64.induct)
  case (1 a b c xs)
  then show ?case
    by (simp add: b64_group_def decode_loop_quad [OF _ _ _ decode_group] b64_digit_not_space mod_3_3 del: decode_loop.simps(2))
next
  case (2 a b)
  then show ?case
    by (simp add: b64_group_def decode_loop_quad [OF _ _ _ decode_group_2] b64_digit_not_space digits_not_space
        del: decode_loop.simps(2))
next
  case (3 a)
  then show ?case
    by (simp add: b64_group_def decode_loop_quad [OF _ _ _ decode_group_1] b64_digit_not_space digits_not_space
        del: decode_loop.simps(2))
qed simp

lemma decode_loop_newline: "decode_loop ctx out (0x0a # xs) = decode_loop ctx out xs"
  by (simp add: is_base64_space_def)

lemma decode_loop_lines:
  assumes "data ctx = []" "\<not> eof_seen ctx"
  shows "decode_loop ctx out (base64_lines xs) =
    (if length xs mod 3 = 0 then ctx else ctx\<lparr>eof_seen := True\<rparr>, True, out @ xs)"
  using assms
proof (induction xs arbitrary: out rule: base64_lines.induct)
  case (1 xs)
  show ?case
  proof (cases "length xs \<le> 48")
    case True
    then have "base64_lines xs = (if xs = [] then [] else base64 xs @ [0x0a])"
      by (subst base64_lines.simps) simp
    with "1.prems" show ?thesis
      by (auto simp: decode_loop_base64 decode_loop_newline simp del: decode_loop.simps(2))
  next
    case False
    then have "xs \<noteq> []" by (cases xs) auto
    moreover have "base64_lines xs = base64 (take 48 xs) @ 0x0a # base64_lines (drop 48 xs)"
      using calculation by (subst base64_lines.simps) simp
    moreover have "(length xs - 48) mod 3 = length xs mod 3"
      using False mod_3_3(2) [of "length xs - 48"] by simp
    moreover have "decode_loop ctx out (base64_lines xs) = decode_loop ctx (out @ take 48 xs) (base64_lines (drop 48 xs))"
      unfolding calculation(2) decode_loop_base64 [OF "1.prems"] decode_loop_newline using False by simp
    ultimately show ?thesis
      using "1.IH" [of "out @ take 48 xs"] "1.prems" by simp
  qed
qed

text \<open>A caller that decodes chunk by chunk, and checks every return value and the final one.\<close>

fun decode_stream :: "EVP_ENCODE_CTX \<Rightarrow> byte list list \<Rightarrow> byte list option" where
  "decode_stream ctx [] = (if EVP_DecodeFinal ctx = 1 then Some [] else None)"
| "decode_stream ctx (c # cs) =
     (case EVP_DecodeUpdate ctx c of (ctx, r, out, out_len) \<Rightarrow>
        if r = - 1 then None else map_option ((@) (take out_len out)) (decode_stream ctx cs))"

lemma decode_stream_loop:
  assumes "decode_loop ctx [] (concat ds) = (ctx', True, out)" and "length (data ctx) < 4"
    and "\<not> error_encountered ctx" and "data ctx' = []" and "\<forall>d \<in> set ds. length d \<le> INT_MAX"
  shows "decode_stream ctx ds = Some out"
  using assms
proof (induction ds arbitrary: ctx out)
  case Nil
  then show ?case by (simp add: EVP_DecodeFinal_def)
next
  case (Cons d ds)
  obtain ctx1 going out1 where r: "decode_loop ctx [] d = (ctx1, going, out1)" by (metis prod_cases3)
  with Cons.prems(1) have going by (cases going) (auto simp: decode_loop_append)
  note b = decode_loop_bound [OF r Cons.prems(2)]
  from b Cons.prems(2,5) \<open>going\<close> have "length out1 \<le> INT_MAX" by (auto simp: INT_MAX_def)
  then have u: "EVP_DecodeUpdate ctx d = (ctx1, if eof_seen ctx1 then 0 else 1, out1, length out1)"
    using r \<open>going\<close> Cons.prems(3) by (simp add: EVP_DecodeUpdate_def)
  obtain out2 where "decode_loop ctx1 [] (concat ds) = (ctx', True, out2)" and out: "out = out1 @ out2"
    using Cons.prems(1) r \<open>going\<close> decode_loop_acc [of ctx1 out1 "[]" "concat ds"]
    by (cases "decode_loop ctx1 [] (concat ds)") (auto simp: decode_loop_append)
  then have "decode_stream ctx1 ds = Some out2"
    using Cons b \<open>going\<close> by auto
  with u out show ?case by simp
qed

section \<open>Properties of the streaming interface\<close>

text \<open>however the input is cut into chunks, the bytes that the calls of
\<open>EVP_EncodeUpdate\<close> and the final \<open>EVP_EncodeFinal\<close> report are the same: the base64 encoding of the
whole input in lines of 48 input bytes, each ended by a newline.\<close>

theorem EVP_encode_stream_lines:
  assumes "\<forall>c \<in> set cs. length c \<le> 2 ^ 30"
  shows "encode_stream EVP_EncodeInit cs = base64_lines (concat cs)"
  using assms by (simp add: encode_stream_lines EVP_EncodeInit_def)

theorem EVP_encode_stream_lines_witness:
  "encode_stream EVP_EncodeInit [[0x4d], [], [0x61, 0x6e]] = base64_lines [0x4d, 0x61, 0x6e]"
  using EVP_encode_stream_lines [of "[[0x4d], [], [0x61, 0x6e]]"] by simp

text \<open>C18 (EVP_stream_roundtrip): text that the streaming encoder wrote, cut into any chunks, is accepted by
the streaming decoder (no call of \<open>EVP_DecodeUpdate\<close> returns -1, \<open>EVP_DecodeFinal\<close> returns 1), and
the decoded bytes are the bytes that were encoded. The chunks are small enough for the counts
to be representable in an \<open>int\<close>.\<close>

theorem EVP_stream_roundtrip:
  assumes "\<forall>c \<in> set cs. length c \<le> 2 ^ 30" and "\<forall>d \<in> set ds. length d \<le> INT_MAX"
    and "concat ds = encode_stream EVP_EncodeInit cs"
  shows "decode_stream EVP_DecodeInit ds = Some (concat cs)"
proof -
  have "concat ds = base64_lines (concat cs)"
    using assms(1,3) by (simp add: encode_stream_lines EVP_EncodeInit_def)
  moreover have i: "data EVP_DecodeInit = []" "\<not> eof_seen EVP_DecodeInit" "\<not> error_encountered EVP_DecodeInit"
    by (simp_all add: EVP_DecodeInit_def)
  ultimately have "decode_loop EVP_DecodeInit [] (concat ds) =
      (if length (concat cs) mod 3 = 0 then EVP_DecodeInit else EVP_DecodeInit\<lparr>eof_seen := True\<rparr>,
       True, concat cs)"
    by (simp only: decode_loop_lines append_Nil simp_thms)
  then show ?thesis
    by (rule decode_stream_loop) (use assms(2) i in simp_all)
qed

theorem EVP_stream_roundtrip_witness:
  "decode_stream EVP_DecodeInit [[0x54, 0x57], [0x46, 0x75, 0x0a]] = Some [0x4d, 0x61, 0x6e]"
proof -
  have "encode_stream EVP_EncodeInit [[0x4d], [0x61, 0x6e]] = [0x54, 0x57, 0x46, 0x75, 0x0a]"
  proof -
    have "EVP_EncodeBlock [0x4d, 0x61, 0x6e] = [0x54, 0x57, 0x46, 0x75]"
      by (simp add: EVP_EncodeBlock_eq b64_group_def be24_def b64_digit_def alphabet_nth)
    then show ?thesis
      by (simp add: EVP_EncodeUpdate_def EVP_EncodeFinal_def EVP_EncodeInit_def sizeof_data_def Let_def
          del: EVP_EncodeBlock.simps)
  qed
  then show ?thesis
    using EVP_stream_roundtrip [of "[[0x4d], [0x61, 0x6e]]" "[[0x54, 0x57], [0x46, 0x75, 0x0a]]"]
    by (simp add: INT_MAX_def)
qed

text \<open>C19 (EVP_DecodeUpdate_safe): a call of \<open>EVP_DecodeUpdate\<close> with fewer than four pending characters writes at
most three bytes for every four characters it has seen, whether it succeeds or fails (a call that
fails has written what it decoded before the fault). \<open>*out_len\<close> is the number of bytes written,
and 0 on a failure. A call that does not fail leaves fewer than four pending characters, and once
a call has returned -1 every later call returns -1 and writes nothing.\<close>

theorem EVP_DecodeUpdate_safe:
  assumes "EVP_DecodeUpdate ctx inp = (ctx', r, out, out_len)" and "length (data ctx) < 4"
  shows "4 * length out \<le> 3 * (length (data ctx) + length inp) \<and> out_len = (if r = - 1 then 0 else length out) \<and>
    (if r = - 1 then EVP_DecodeUpdate ctx' later = (ctx', - 1, [], 0) \<and> EVP_DecodeFinal ctx' = - 1
     else length (data ctx') < 4)"
proof (cases "error_encountered ctx")
  case True
  with assms show ?thesis by (auto simp: EVP_DecodeUpdate_def EVP_DecodeFinal_def)
next
  case False
  obtain ctx1 going out1 where e: "decode_loop ctx [] inp = (ctx1, going, out1)" by (metis prod_cases3)
  from decode_loop_bound [OF e assms(2)] e False assms show ?thesis
    by (auto simp: EVP_DecodeUpdate_def EVP_DecodeFinal_def split: if_splits)
qed

text \<open>A whole block, of which three bytes are written, and then a character outside the alphabet.\<close>

theorem EVP_DecodeUpdate_safe_witness:
  "EVP_DecodeUpdate EVP_DecodeInit [0x41, 0x41, 0x41, 0x41, 0x2a, 0x41, 0x41, 0x41] =
     (EVP_DecodeInit\<lparr>data := [0x2a, 0x41, 0x41, 0x41], error_encountered := True\<rparr>, - 1, [0, 0, 0], 0) \<and>
   EVP_DecodeUpdate (EVP_DecodeInit\<lparr>data := [0x2a, 0x41, 0x41, 0x41], error_encountered := True\<rparr>) [0x51] =
     (EVP_DecodeInit\<lparr>data := [0x2a, 0x41, 0x41, 0x41], error_encountered := True\<rparr>, - 1, [], 0)"
proof -
  have run: "EVP_DecodeUpdate EVP_DecodeInit [0x41, 0x41, 0x41, 0x41, 0x2a, 0x41, 0x41, 0x41] =
     (EVP_DecodeInit\<lparr>data := [0x2a, 0x41, 0x41, 0x41], error_encountered := True\<rparr>, - 1, [0, 0, 0], 0)"
    by (simp add: EVP_DecodeUpdate_def EVP_DecodeInit_def is_base64_space_def base64_decode_quad_def
        base64_ascii_to_bin_if Let_def)
  from EVP_DecodeUpdate_safe [OF this] show ?thesis using run by (simp add: EVP_DecodeInit_def)
qed

text \<open>\<open>EVP_EncodedLength\<close> is the number of characters that
\<open>EVP_EncodeBlock\<close> writes and the NUL, and fails exactly when that number does not fit in a
\<open>size_t\<close>.\<close>

theorem EVP_EncodedLength_exact:
  assumes "length src = unat len"
  shows "EVP_EncodedLength len =
    (let n = length (EVP_EncodeBlock src) + 1 in if n < 2 ^ 64 then Some (word_of_nat n) else None)"
proof -
  define n where "n = unat len"
  have n: "n < 2 ^ 64" using unsigned_less [of len] by (simp add: n_def)
  have L: "length (EVP_EncodeBlock src) + 1 = (n + 2) div 3 * 4 + 1"
    using assms by (simp add: EVP_EncodeBlock_eq length_base64 n_def)
  have lt: "len + 2 < len \<longleftrightarrow> 2 ^ 64 \<le> n + 2"
    using n by (cases "n + 2 < 2 ^ 64") (simp_all add: word_less_nat_alt unat_word_ariths mod_if flip: n_def)
  show ?thesis
  proof (cases "2 ^ 64 \<le> n + 2")
    case True
    then have "\<not> (n + 2) div 3 * 4 + 1 < 2 ^ 64" by simp
    then show ?thesis using True lt unfolding L by (simp add: EVP_EncodedLength_def)
  next
    case False
    define q where "q = (n + 2) div 3"
    have q: "unat ((len + 2) div 3) = q"
      using False by (simp add: unat_div unat_word_ariths n_def [symmetric] q_def)
    have "q < 2 ^ 63" using False by (simp add: q_def)
    have p: "unat (push_bit 2 ((len + 2) div 3)) = q * 4 mod 2 ^ 64"
      by (simp only: push_bit_eq_mult unat_word_ariths(2) q) simp
    have "drop_bit 2 (push_bit 2 ((len + 2) div 3)) \<noteq> (len + 2) div 3 \<longleftrightarrow> 2 ^ 62 \<le> q"
      unfolding word_eq_iff_unat unat_drop_bit p q using \<open>q < 2 ^ 63\<close> by (auto simp: mod_if)
    moreover have "push_bit 2 ((len + 2) div 3) + 1 < push_bit 2 ((len + 2) div 3) \<longleftrightarrow> False" if "q < 2 ^ 62"
      using that by (simp add: word_less_nat_alt unat_word_ariths p)
    moreover have "push_bit 2 ((len + 2) div 3) + 1 = word_of_nat (q * 4 + 1)" if "q < 2 ^ 62"
      using that by (simp add: word_eq_iff_unat unat_word_ariths p unsigned_of_nat take_bit_eq_mod)
    ultimately show ?thesis
      using False lt unfolding EVP_EncodedLength_def Let_def L q_def [symmetric]
      by (cases "q < 2 ^ 62") (simp_all add: add.commute [of 1] del: of_nat_add of_nat_mult)
  qed
qed

theorem EVP_EncodedLength_exact_witness:
  "EVP_EncodedLength 4 = Some 9"
proof -
  have "length (EVP_EncodeBlock [1, 2, 3, 4]) = 8"
    by (simp add: EVP_EncodeBlock_eq length_base64 del: base64.simps)
  then show ?thesis using EVP_EncodedLength_exact [of "[1, 2, 3, 4]" 4] by (simp add: Let_def)
qed

end
