(* ===== verification/Unicode.thy ===== *)
theory Unicode
  imports CBB
begin

unbundle bit_operations_syntax

text \<open>
  The code point readers and writers of BoringSSL's \<open>crypto/bytestring/unicode.c\<close>: UTF-8,
  Latin-1, UCS-2 and UTF-32 on a CBS and on a CBB, with the validity test of code points.
\<close>

section \<open>The code\<close>

definition is_valid_code_point :: "u32 \<Rightarrow> bool" where
  "is_valid_code_point v =
     (\<not> (v > 0x10ffff \<or> (v AND 0xfffe) = 0xfffe \<or> (v \<ge> 0xfdd0 \<and> v \<le> 0xfdef) \<or>
         (v \<ge> 0xd800 \<and> v \<le> 0xdfff)))"

definition BOTTOM_BITS :: "nat \<Rightarrow> byte" where
  "BOTTOM_BITS n = ucast (push_bit n 1 - 1 :: u32)"

definition TOP_BITS :: "nat \<Rightarrow> byte" where
  "TOP_BITS n = NOT (BOTTOM_BITS (8 - n))"

text \<open>The loop over the \<open>len\<close> continuation bytes; \<open>n\<close> is the number that is left.\<close>

fun utf8_continuation :: "nat \<Rightarrow> u32 \<Rightarrow> (cbs, u32) op" where
  "utf8_continuation n v cbs =
     (if n = 0 then ret v cbs
      else andthen CBS_get_u8 (\<lambda>c cbs.
             if c AND TOP_BITS 2 \<noteq> TOP_BITS 1 then fail cbs
             else utf8_continuation (n - 1) (push_bit 6 v OR ucast (c AND BOTTOM_BITS 6)) cbs) cbs)"

declare utf8_continuation.simps [simp del]

text \<open>Value bits, number of continuation bytes and smallest code point, from the first byte.\<close>

definition utf8_lead :: "byte \<Rightarrow> (u32 \<times> nat \<times> u32) option" where
  "utf8_lead c =
     (if c AND TOP_BITS 3 = TOP_BITS 2 then Some (ucast (c AND BOTTOM_BITS 5), 1, 0x80)
      else if c AND TOP_BITS 4 = TOP_BITS 3 then Some (ucast (c AND BOTTOM_BITS 4), 2, 0x800)
      else if c AND TOP_BITS 5 = TOP_BITS 4 then Some (ucast (c AND BOTTOM_BITS 3), 3, 0x10000)
      else None)"

definition cbs_get_utf8 :: "(cbs, u32) op" where
  "cbs_get_utf8 =
     andthen CBS_get_u8 (\<lambda>c.
       if c \<le> 0x7f then ret (ucast c)
       else (case utf8_lead c of
               None \<Rightarrow> fail
             | Some (v, n, lower_bound) \<Rightarrow>
                 andthen (utf8_continuation n v) (\<lambda>v.
                   if \<not> is_valid_code_point v \<or> v < lower_bound then fail else ret v)))"

definition cbs_get_latin1 :: "(cbs, u32) op" where
  "cbs_get_latin1 = andthen CBS_get_u8 (\<lambda>c. ret (ucast c))"

definition cbs_get_ucs2_be :: "(cbs, u32) op" where
  "cbs_get_ucs2_be =
     andthen CBS_get_u16 (\<lambda>c. if \<not> is_valid_code_point (ucast c) then fail else ret (ucast c))"

definition cbs_get_utf32_be :: "(cbs, u32) op" where
  "cbs_get_utf32_be = andthen CBS_get_u32 (\<lambda>u. if is_valid_code_point u then ret u else fail)"

definition cbb_get_utf8_len :: "u32 \<Rightarrow> nat" where
  "cbb_get_utf8_len u = (if u \<le> 0x7f then 1 else if u \<le> 0x7ff then 2 else if u \<le> 0xffff then 3 else 4)"

text \<open>\<open>CBB_add_u8\<close> takes a \<open>uint8_t\<close>: its argument, a promoted 32-bit value, is truncated.\<close>

definition top_or :: "nat \<Rightarrow> u32 \<Rightarrow> byte" where
  "top_or n u = ucast (ucast (TOP_BITS n) OR u)"

definition low6 :: "u32 \<Rightarrow> u32" where
  "low6 u = u AND ucast (BOTTOM_BITS 6)"

definition cbb_add_utf8 :: "allocator \<Rightarrow> nat \<Rightarrow> u32 \<Rightarrow> (CBB, unit) op" where
  "cbb_add_utf8 malloc d u =
     (if \<not> is_valid_code_point u then fail
      else if u \<le> 0x7f then CBB_add_u8 malloc d (ucast u)
      else if u \<le> 0x7ff then
        andthen (CBB_add_u8 malloc d (top_or 2 (drop_bit 6 u))) (\<lambda>_.
          CBB_add_u8 malloc d (top_or 1 (low6 u)))
      else if u \<le> 0xffff then
        andthen (CBB_add_u8 malloc d (top_or 3 (drop_bit 12 u))) (\<lambda>_.
          andthen (CBB_add_u8 malloc d (top_or 1 (low6 (drop_bit 6 u)))) (\<lambda>_.
            CBB_add_u8 malloc d (top_or 1 (low6 u))))
      else if u \<le> 0x10ffff then
        andthen (CBB_add_u8 malloc d (top_or 4 (drop_bit 18 u))) (\<lambda>_.
          andthen (CBB_add_u8 malloc d (top_or 1 (low6 (drop_bit 12 u)))) (\<lambda>_.
            andthen (CBB_add_u8 malloc d (top_or 1 (low6 (drop_bit 6 u)))) (\<lambda>_.
              CBB_add_u8 malloc d (top_or 1 (low6 u)))))
      else fail)"

definition cbb_add_latin1 :: "allocator \<Rightarrow> nat \<Rightarrow> u32 \<Rightarrow> (CBB, unit) op" where
  "cbb_add_latin1 malloc d u = (if u \<le> 0xff then CBB_add_u8 malloc d (ucast u) else fail)"

definition cbb_add_ucs2_be :: "allocator \<Rightarrow> nat \<Rightarrow> u32 \<Rightarrow> (CBB, unit) op" where
  "cbb_add_ucs2_be malloc d u =
     (if u \<le> 0xffff \<and> is_valid_code_point u then CBB_add_u16 malloc d (ucast u) else fail)"

definition cbb_add_utf32_be :: "allocator \<Rightarrow> nat \<Rightarrow> u32 \<Rightarrow> (CBB, unit) op" where
  "cbb_add_utf32_be malloc d u = (if is_valid_code_point u then CBB_add_u32 malloc d u else fail)"

section \<open>UTF-8 as in RFC 3629\<close>

definition utf8_units :: "nat \<Rightarrow> nat list" where
  "utf8_units v =
     (if v < 0x80 then [v]
      else if v < 0x800 then [0xc0 + v div 64, 0x80 + v mod 64]
      else if v < 0x10000 then [0xe0 + v div 4096, 0x80 + v div 64 mod 64, 0x80 + v mod 64]
      else [0xf0 + v div 262144, 0x80 + v div 4096 mod 64, 0x80 + v div 64 mod 64, 0x80 + v mod 64])"

definition utf8 :: "nat \<Rightarrow> byte list" where
  "utf8 v = map word_of_nat (utf8_units v)"

lemma bits_values:
  "TOP_BITS (Suc 0) = 0x80" "TOP_BITS 2 = 0xc0" "TOP_BITS 3 = 0xe0" "TOP_BITS 4 = 0xf0" "TOP_BITS 5 = 0xf8"
  "BOTTOM_BITS 3 = mask 3" "BOTTOM_BITS 4 = mask 4" "BOTTOM_BITS 5 = mask 5" "BOTTOM_BITS 6 = mask 6"
  by (simp_all add: TOP_BITS_def BOTTOM_BITS_def mask_eq_exp_minus_1)

lemma unat_and_not_mask:
  "unat (c AND NOT (mask m) :: byte) = unat c div 2 ^ m * 2 ^ m"
proof -
  have "c AND NOT (mask m) = push_bit m (drop_bit m c) OR 0"
    by (auto simp: bit_eq_iff bit_simps)
  moreover have "unat (drop_bit m c) * 2 ^ m \<le> unat c" by (simp add: unat_drop_bit)
  ultimately show ?thesis
    using byte_less [of c] unat_push_or [of "drop_bit m c" m 0]
      div_times_less_eq_dividend [of "unat c" "2 ^ m"] by (simp add: unat_drop_bit del: byte_less)
qed

lemma top_bits_iff:
  "c AND 0xc0 = 0x80 \<longleftrightarrow> 0x80 \<le> unat c \<and> unat (c :: byte) < 0xc0"
  "c AND 0xe0 = 0xc0 \<longleftrightarrow> 0xc0 \<le> unat c \<and> unat c < 0xe0"
  "c AND 0xf0 = 0xe0 \<longleftrightarrow> 0xe0 \<le> unat c \<and> unat c < 0xf0"
  "c AND 0xf8 = 0xf0 \<longleftrightarrow> 0xf0 \<le> unat c \<and> unat c < 0xf8"
proof -
  have m: "(0xc0 :: byte) = NOT (mask 6)" "(0xe0 :: byte) = NOT (mask 5)" "(0xf0 :: byte) = NOT (mask 4)"
    "(0xf8 :: byte) = NOT (mask 3)" by (simp_all add: mask_eq_exp_minus_1)
  show "c AND 0xc0 = 0x80 \<longleftrightarrow> 0x80 \<le> unat c \<and> unat (c :: byte) < 0xc0"
    unfolding m(1) word_eq_iff_unat unat_and_not_mask by simp linarith
  show "c AND 0xe0 = 0xc0 \<longleftrightarrow> 0xc0 \<le> unat c \<and> unat c < 0xe0"
    unfolding m(2) word_eq_iff_unat unat_and_not_mask by simp linarith
  show "c AND 0xf0 = 0xe0 \<longleftrightarrow> 0xe0 \<le> unat c \<and> unat c < 0xf0"
    unfolding m(3) word_eq_iff_unat unat_and_not_mask by simp linarith
  show "c AND 0xf8 = 0xf0 \<longleftrightarrow> 0xf0 \<le> unat c \<and> unat c < 0xf8"
    unfolding m(4) word_eq_iff_unat unat_and_not_mask by simp linarith
qed

section \<open>Reading\<close>

definition is_continuation :: "byte \<Rightarrow> bool" where
  "is_continuation c \<longleftrightarrow> 0x80 \<le> unat c \<and> unat c < 0xc0"

definition continue6 :: "nat \<Rightarrow> byte \<Rightarrow> nat" where
  "continue6 v c = v * 64 + unat c mod 64"

lemma utf8_continuation_Some_iff:
  assumes "unat v < 2 ^ (32 - 6 * n)" "n \<le> 3"
  shows "utf8_continuation n v s = (Some w, rest) \<longleftrightarrow>
    (\<exists>cs. s = cs @ rest \<and> length cs = n \<and> list_all is_continuation cs \<and>
       unat w = foldl continue6 (unat v) cs)"
  using assms
proof (induction n arbitrary: v s)
  case 0
  then show ?case by (auto simp: utf8_continuation.simps word_eq_iff_unat)
next
  case (Suc n)
  have step: "unat (push_bit 6 v OR ucast (c AND BOTTOM_BITS 6)) = continue6 (unat v) c" for c
  proof -
    have "(2::nat) ^ (32 - 6 * Suc n) \<le> 2 ^ 26" by (rule power_increasing) simp_all
    with Suc.prems have "unat v < 2 ^ 26" by simp
    moreover have "unat (ucast (c AND BOTTOM_BITS 6) :: u32) = unat c mod 64"
      by (simp add: bits_values unat_and_mask)
    ultimately show ?thesis by (simp add: unat_push_or continue6_def)
  qed
  have bound: "unat (push_bit 6 v OR ucast (c AND BOTTOM_BITS 6)) < 2 ^ (32 - 6 * n)" for c
  proof -
    have "32 - 6 * n = (32 - 6 * Suc n) + 6" using Suc.prems(2) by simp
    then have "(2::nat) ^ (32 - 6 * n) = 2 ^ (32 - 6 * Suc n) * 2 ^ 6" by (simp only: power_add)
    then have "(2::nat) ^ (32 - 6 * n) = 2 ^ (32 - 6 * Suc n) * 64" by simp
    with Suc.prems(1) show ?thesis unfolding step continue6_def
      using mod_less_divisor [of 64 "unat c"] by simp
  qed
  show ?case
  proof (cases s)
    case Nil
    then show ?thesis by (simp add: utf8_continuation.simps [of "Suc n"] andthen_def)
  next
    case (Cons c t)
    have "utf8_continuation (Suc n) v s = (Some w, rest) \<longleftrightarrow>
      is_continuation c \<and> utf8_continuation n (push_bit 6 v OR ucast (c AND BOTTOM_BITS 6)) t = (Some w, rest)"
      by (subst utf8_continuation.simps)
        (auto simp: Cons andthen_Some bits_values top_bits_iff is_continuation_def)
    also have "\<dots> \<longleftrightarrow> is_continuation c \<and> (\<exists>cs. t = cs @ rest \<and> length cs = n \<and> list_all is_continuation cs \<and>
       unat w = foldl continue6 (continue6 (unat v) c) cs)"
      using Suc.IH [OF bound] Suc.prems(2) step by simp
    finally show ?thesis
      by (auto simp: Cons length_Suc_conv append_eq_Cons_conv)
  qed
qed

lemma valid_code_point_less: "is_valid_code_point v \<Longrightarrow> unat v \<le> 0x10ffff"
  by (simp add: is_valid_code_point_def word_le_nat_alt not_less)

lemma utf8_lead_Some_iff:
  "utf8_lead c = Some (v, n, lb) \<longleftrightarrow>
     0xc0 \<le> unat c \<and> unat c < 0xe0 \<and> unat v = unat c mod 32 \<and> n = 1 \<and> lb = 0x80 \<or>
     0xe0 \<le> unat c \<and> unat c < 0xf0 \<and> unat v = unat c mod 16 \<and> n = 2 \<and> lb = 0x800 \<or>
     0xf0 \<le> unat c \<and> unat c < 0xf8 \<and> unat v = unat c mod 8 \<and> n = 3 \<and> lb = 0x10000"
proof -
  have "c AND 0xe0 = 0xc0 \<longleftrightarrow> 0xc0 \<le> unat c \<and> unat c < 0xe0" "c AND 0xf0 = 0xe0 \<longleftrightarrow> 0xe0 \<le> unat c \<and> unat c < 0xf0"
    "c AND 0xf8 = 0xf0 \<longleftrightarrow> 0xf0 \<le> unat c \<and> unat c < 0xf8" by (rule top_bits_iff)+
  moreover have "unat v = unat c mod 2 ^ k \<longleftrightarrow> v = ucast (c AND mask k)" for k
    by (simp add: word_eq_iff_unat unat_and_mask)
  from this [of 3] this [of 4] this [of 5]
  have "unat v = unat c mod 8 \<longleftrightarrow> v = ucast (c AND mask 3)" "unat v = unat c mod 16 \<longleftrightarrow> v = ucast (c AND mask 4)"
    "unat v = unat c mod 32 \<longleftrightarrow> v = ucast (c AND mask 5)" by simp_all
  ultimately show ?thesis unfolding utf8_lead_def bits_values by auto
qed

text \<open>The three ways in which a multi-byte encoding is laid out.\<close>

lemma mod_block:
  assumes "m dvd b" "b \<le> x" "x < b + (m :: nat)"
  shows "x mod m = x - b"
proof -
  obtain q where b: "b = m * q" using assms(1) by (elim dvdE)
  have "x = (x - b) + m * q" using assms(2) b by simp
  then have "x mod m = (x - b) mod m" by (metis mod_mult_self2)
  also have "\<dots> = x - b" using assms by simp
  finally show ?thesis .
qed

lemma mod_blocks:
  "0x80 \<le> x \<Longrightarrow> x < 0xc0 \<Longrightarrow> x mod 64 = x - 0x80" "0xc0 \<le> x \<Longrightarrow> x < 0xe0 \<Longrightarrow> x mod 32 = x - 0xc0"
  "0xe0 \<le> x \<Longrightarrow> x < 0xf0 \<Longrightarrow> x mod 16 = x - 0xe0" "0xf0 \<le> x \<Longrightarrow> x < 0xf8 \<Longrightarrow> x mod 8 = x - (0xf0 :: nat)"
  by (intro mod_block; simp)+

lemma map_of_nat_eq_iff:
  "list_all (\<lambda>n. n < 256) ns \<Longrightarrow> bs = (map word_of_nat ns :: byte list) \<longleftrightarrow> map unat bs = ns"
proof (induction ns arbitrary: bs)
  case (Cons n ns)
  then show ?case by (cases bs) (auto simp: byte_of_unat_eq_iff)
qed simp

lemma eq_utf8_iff:
  assumes "v \<le> 0x10ffff"
  shows "bs = utf8 v \<longleftrightarrow> map unat bs = utf8_units v"
  unfolding utf8_def
proof (rule map_of_nat_eq_iff)
  have "m mod 64 < 64" for m :: nat by simp
  note this [of v] this [of "v div 64"] this [of "v div 4096"]
  then show "list_all (\<lambda>n. n < 256) (utf8_units v)"
    using assms unfolding utf8_units_def list_all_iff by (auto simp: div_less_iff_less_mult)
qed

lemma digits_64:
  assumes "b < 64"
  shows "v = a * 64 + b \<longleftrightarrow> v div 64 = a \<and> v mod 64 = (b :: nat)"
  using div_mod_split [OF assms, of a v] by (simp only: eq_commute [of v])

lemma digits_64_3:
  assumes "b < 64" "c < (64 :: nat)"
  shows "v = (a * 64 + b) * 64 + c \<longleftrightarrow> v div 4096 = a \<and> v div 64 mod 64 = b \<and> v mod 64 = c"
proof -
  have "v = (a * 64 + b) * 64 + c \<longleftrightarrow> v div 64 = a * 64 + b \<and> v mod 64 = c"
    by (rule digits_64 [OF assms(2)])
  also have "\<dots> \<longleftrightarrow> v div 64 div 64 = a \<and> v div 64 mod 64 = b \<and> v mod 64 = c"
    using digits_64 [OF assms(1), of "v div 64" a] by blast
  finally show ?thesis by (simp only: div_mult2_eq [of v 64 64, symmetric] mult_numeral_left_semiring_numeral) simp
qed

lemma digits_64_4:
  assumes "b < 64" "c < 64" "d < (64 :: nat)"
  shows "v = ((a * 64 + b) * 64 + c) * 64 + d \<longleftrightarrow>
    v div 262144 = a \<and> v div 4096 mod 64 = b \<and> v div 64 mod 64 = c \<and> v mod 64 = d"
proof -
  have "v = ((a * 64 + b) * 64 + c) * 64 + d \<longleftrightarrow> v div 64 = (a * 64 + b) * 64 + c \<and> v mod 64 = d"
    by (rule digits_64 [OF assms(3)])
  also have "\<dots> \<longleftrightarrow> v div 64 div 4096 = a \<and> v div 64 div 64 mod 64 = b \<and> v div 64 mod 64 = c \<and> v mod 64 = d"
    using digits_64_3 [OF assms(1,2), of "v div 64" a] by blast
  finally show ?thesis by (simp flip: div_mult2_eq)
qed

text \<open>A lead byte and its continuation bytes against the units of the code point.\<close>

lemma lead_unit_iff:
  assumes "m dvd b"
  shows "b \<le> x \<and> x < b + m \<and> x mod m = k \<longleftrightarrow> x = b + k \<and> k < (m :: nat)"
  using mod_block [OF assms, of x] assms by auto

lemma two_units_iff:
  "(0xc0 \<le> x \<and> x < (0xe0 :: nat)) \<and> (0x80 \<le> y \<and> y < (0xc0 :: nat)) \<and> v = x mod 32 * 64 + y mod 64 \<longleftrightarrow>
     v < 0x800 \<and> x = 0xc0 + v div 64 \<and> y = 0x80 + v mod 64"
proof -
  have "v = x mod 32 * 64 + y mod 64 \<longleftrightarrow> x mod 32 = v div 64 \<and> y mod 64 = v mod 64"
    using digits_64 [of "y mod 64" v "x mod 32"] by (auto simp del: mod_mult_self3)
  then show ?thesis
    using lead_unit_iff [of 32 192 x "v div 64"] lead_unit_iff [of 64 128 y "v mod 64"] div_less_iff_less_mult [of 64 v 32]
    by auto
qed

lemma three_units_iff:
  "(0xe0 \<le> x \<and> x < (0xf0 :: nat)) \<and> (0x80 \<le> y \<and> y < (0xc0 :: nat)) \<and> (0x80 \<le> z \<and> z < (0xc0 :: nat)) \<and>
     v = (x mod 16 * 64 + y mod 64) * 64 + z mod 64 \<longleftrightarrow>
     v < 0x10000 \<and> x = 0xe0 + v div 4096 \<and> y = 0x80 + v div 64 mod 64 \<and> z = 0x80 + v mod 64"
proof -
  have "v = (x mod 16 * 64 + y mod 64) * 64 + z mod 64 \<longleftrightarrow>
      x mod 16 = v div 4096 \<and> y mod 64 = v div 64 mod 64 \<and> z mod 64 = v mod 64"
    using digits_64_3 [of "y mod 64" "z mod 64" v "x mod 16"] by (simp only: mod_less_divisor zero_less_numeral) metis
  then show ?thesis
    using lead_unit_iff [of 16 224 x "v div 4096"] lead_unit_iff [of 64 128 y "v div 64 mod 64"]
      lead_unit_iff [of 64 128 z "v mod 64"] div_less_iff_less_mult [of 4096 v 16]
    by auto
qed

lemma four_units_iff:
  "(0xf0 \<le> x \<and> x < (0xf8 :: nat)) \<and> (0x80 \<le> y \<and> y < (0xc0 :: nat)) \<and> (0x80 \<le> z \<and> z < (0xc0 :: nat)) \<and>
     (0x80 \<le> w \<and> w < (0xc0 :: nat)) \<and> v = ((x mod 8 * 64 + y mod 64) * 64 + z mod 64) * 64 + w mod 64 \<longleftrightarrow>
     v < 0x200000 \<and> x = 0xf0 + v div 262144 \<and> y = 0x80 + v div 4096 mod 64 \<and> z = 0x80 + v div 64 mod 64 \<and>
       w = 0x80 + v mod 64"
proof -
  have "v = ((x mod 8 * 64 + y mod 64) * 64 + z mod 64) * 64 + w mod 64 \<longleftrightarrow>
      x mod 8 = v div 262144 \<and> y mod 64 = v div 4096 mod 64 \<and> z mod 64 = v div 64 mod 64 \<and> w mod 64 = v mod 64"
    using digits_64_4 [of "y mod 64" "z mod 64" "w mod 64" v "x mod 8"]
    by (simp only: mod_less_divisor zero_less_numeral) metis
  then show ?thesis
    using lead_unit_iff [of 8 240 x "v div 262144"] lead_unit_iff [of 64 128 y "v div 4096 mod 64"]
      lead_unit_iff [of 64 128 z "v div 64 mod 64"] lead_unit_iff [of 64 128 w "v mod 64"]
      div_less_iff_less_mult [of 262144 v 8]
    by auto
qed

lemma length_1_3:
  "length cs = 1 \<longleftrightarrow> (\<exists>a. cs = [a])" "length cs = 2 \<longleftrightarrow> (\<exists>a b. cs = [a, b])"
  "length cs = 3 \<longleftrightarrow> (\<exists>a b c. cs = [a, b, c])"
  by (auto simp: length_Suc_conv eval_nat_numeral)

lemma valid_low: "unat v < 0x80 \<Longrightarrow> is_valid_code_point v"
proof -
  assume lt: "unat v < 0x80"
  have "v AND 0xfffe \<noteq> 0xfffe"
  proof
    assume "v AND 0xfffe = 0xfffe"
    then have "bit (v AND 0xfffe) 8" by simp
    then have "bit v 8" by (simp add: bit_and_iff)
    then have "2 ^ 8 \<le> unat v" by (metis bit_imp_le_length bit_iff_odd unat_drop_bit drop_bit_eq_0_iff not_le drop_bit_eq_div even_zero bit_unsigned_iff unsigned_0)
    with lt show False by simp
  qed
  with lt show ?thesis by (auto simp: is_valid_code_point_def word_le_nat_alt word_less_nat_alt)
qed

lemma bytes_before_rest:
  "(\<exists>cs. t = cs @ rest \<and> length cs = 1 \<and> list_all P cs \<and> v = foldl f k cs) \<longleftrightarrow>
     (\<exists>a. t = a # rest \<and> P a \<and> v = f k a)"
  "(\<exists>cs. t = cs @ rest \<and> length cs = 2 \<and> list_all P cs \<and> v = foldl f k cs) \<longleftrightarrow>
     (\<exists>a b. t = a # b # rest \<and> P a \<and> P b \<and> v = f (f k a) b)"
  "(\<exists>cs. t = cs @ rest \<and> length cs = 3 \<and> list_all P cs \<and> v = foldl f k cs) \<longleftrightarrow>
     (\<exists>a b d. t = a # b # d # rest \<and> P a \<and> P b \<and> P d \<and> v = f (f (f k a) b) d)"
  unfolding length_1_3 by auto

lemma units_before_rest:
  "(\<exists>bs. t = bs @ rest \<and> map unat bs = []) \<longleftrightarrow> t = rest"
  "(\<exists>bs. t = bs @ rest \<and> map unat bs = x # xs) \<longleftrightarrow>
     (\<exists>a u. t = a # u \<and> unat a = x \<and> (\<exists>bs. u = bs @ rest \<and> map unat bs = xs))"
proof -
  show "(\<exists>bs. t = bs @ rest \<and> map unat bs = x # xs) \<longleftrightarrow>
     (\<exists>a u. t = a # u \<and> unat a = x \<and> (\<exists>bs. u = bs @ rest \<and> map unat bs = xs))"
    by (simp only: map_eq_Cons_conv) (metis append_Cons)
qed simp

lemma get_utf8_Some_iff:
  "cbs_get_utf8 s = (Some v, rest) \<longleftrightarrow> is_valid_code_point v \<and> s = utf8 (unat v) @ rest"
proof (cases s)
  case Nil
  have "utf8 (unat v) \<noteq> []" by (simp add: utf8_def utf8_units_def)
  then show ?thesis by (simp add: Nil cbs_get_utf8_def andthen_def)
next
  case (Cons c t)
  let ?v = "unat v" and ?x = "unat c"
  have cont: "utf8_continuation n v0 t = (Some v, rest) \<longleftrightarrow> (\<exists>cs. t = cs @ rest \<and> length cs = n \<and>
       list_all is_continuation cs \<and> ?v = foldl continue6 (unat v0) cs)" if "unat v0 < 32" "n \<le> 3" for n v0
  proof -
    have "(2::nat) ^ 5 \<le> 2 ^ (32 - 6 * n)" using that(2) by (intro power_increasing) auto
    with that show ?thesis by (intro utf8_continuation_Some_iff) simp_all
  qed
  define tail where "tail v0 n lb \<longleftrightarrow> (\<exists>cs. t = cs @ rest \<and> length cs = n \<and> list_all is_continuation cs \<and>
     ?v = foldl continue6 v0 cs) \<and> is_valid_code_point v \<and> lb \<le> ?v" for v0 n lb
  have "cbs_get_utf8 s = (Some v, rest) \<longleftrightarrow>
      ?x < 0x80 \<and> ?v = ?x \<and> t = rest \<or> 
      (0xc0 \<le> ?x \<and> ?x < 0xe0) \<and> tail (?x mod 32) 1 0x80 \<or>
      (0xe0 \<le> ?x \<and> ?x < 0xf0) \<and> tail (?x mod 16) 2 0x800 \<or>
      (0xf0 \<le> ?x \<and> ?x < 0xf8) \<and> tail (?x mod 8) 3 0x10000"
  proof (cases "?x < 0x80")
    case True
    have ucast: "ucast c = v \<longleftrightarrow> ?v = ?x" by (auto simp: word_eq_iff_unat)
    have "cbs_get_utf8 s = ret (ucast c) t"
      using True by (simp add: cbs_get_utf8_def Cons andthen_Some word_le_nat_alt)
    with True ucast show ?thesis by (auto simp: tail_def)
  next
    case False
    then have "cbs_get_utf8 s = (case utf8_lead c of None \<Rightarrow> fail
             | Some (v, n, lower_bound) \<Rightarrow> andthen (utf8_continuation n v) (\<lambda>v.
                   if \<not> is_valid_code_point v \<or> v < lower_bound then fail else ret v)) t"
      by (simp add: cbs_get_utf8_def Cons andthen_Some word_le_nat_alt)
    then have "cbs_get_utf8 s = (Some v, rest) \<longleftrightarrow> (\<exists>v0 n lb. utf8_lead c = Some (v0, n, lb) \<and>
        utf8_continuation n v0 t = (Some v, rest) \<and> is_valid_code_point v \<and> lb \<le> v)"
      by (auto simp: andthen_Some_iff split: option.splits if_splits)
    also have "\<dots> \<longleftrightarrow> (\<exists>v0 n lb. utf8_lead c = Some (v0, n, lb) \<and> tail (unat v0) n (unat lb))"
    proof -
      have "utf8_lead c = Some (v0, n, lb) \<Longrightarrow> utf8_continuation n v0 t = (Some v, rest) \<and> is_valid_code_point v \<and> lb \<le> v
          \<longleftrightarrow> tail (unat v0) n (unat lb)" for v0 n lb
        using cont [of v0 n] by (auto simp: utf8_lead_Some_iff tail_def word_le_nat_alt)
      then show ?thesis by blast
    qed
    also have "\<dots> \<longleftrightarrow>
      (0xc0 \<le> ?x \<and> ?x < 0xe0) \<and> tail (?x mod 32) 1 0x80 \<or>
      (0xe0 \<le> ?x \<and> ?x < 0xf0) \<and> tail (?x mod 16) 2 0x800 \<or>
      (0xf0 \<le> ?x \<and> ?x < 0xf8) \<and> tail (?x mod 8) 3 0x10000" (is "?A \<longleftrightarrow> ?B")
    proof
      show "?A \<Longrightarrow> ?B" by (auto simp: utf8_lead_Some_iff)
      have w: "\<exists>v0 :: u32. unat v0 = ?x mod m" if "m < 2 ^ 32" "0 < m" for m
      proof -
        have "?x mod m < 2 ^ 32" using mod_less_divisor [OF that(2)] that(1) by (rule less_trans)
        then have "unat (word_of_nat (?x mod m) :: u32) = ?x mod m" by (rule unat_word_of_nat_32)
        then show ?thesis by blast
      qed
      from w [of 32] w [of 16] w [of 8] obtain v1 v2 v3 :: u32
        where "unat v1 = ?x mod 32" "unat v2 = ?x mod 16" "unat v3 = ?x mod 8" by auto
      then have "?B \<Longrightarrow> tail (unat v1) 1 (unat (0x80 :: u32)) \<and> utf8_lead c = Some (v1, 1, 0x80) \<or>
          tail (unat v2) 2 (unat (0x800 :: u32)) \<and> utf8_lead c = Some (v2, 2, 0x800) \<or>
          tail (unat v3) 3 (unat (0x10000 :: u32)) \<and> utf8_lead c = Some (v3, 3, 0x10000)"
        by (auto simp: utf8_lead_Some_iff)
      then show "?B \<Longrightarrow> ?A" by blast
    qed
    finally show ?thesis using False by simp
  qed
  also have "\<dots> \<longleftrightarrow> is_valid_code_point v \<and> s = utf8 ?v @ rest"
  proof (cases "is_valid_code_point v")
    case True
    note max = valid_code_point_less [OF True]
    have "(0xc0 \<le> ?x \<and> ?x < 0xe0) \<and> tail (?x mod 32) 1 0x80 \<longleftrightarrow> 0x80 \<le> ?v \<and> (\<exists>a. t = a # rest \<and>
        ((0xc0 \<le> ?x \<and> ?x < 0xe0) \<and> (0x80 \<le> unat a \<and> unat a < 0xc0) \<and> ?v = ?x mod 32 * 64 + unat a mod 64))"
      using True unfolding tail_def bytes_before_rest is_continuation_def continue6_def by blast
    note t1 = this [unfolded two_units_iff]
    have "(0xe0 \<le> ?x \<and> ?x < 0xf0) \<and> tail (?x mod 16) 2 0x800 \<longleftrightarrow> 0x800 \<le> ?v \<and> (\<exists>a b. t = a # b # rest \<and>
        ((0xe0 \<le> ?x \<and> ?x < 0xf0) \<and> (0x80 \<le> unat a \<and> unat a < 0xc0) \<and> (0x80 \<le> unat b \<and> unat b < 0xc0) \<and>
          ?v = (?x mod 16 * 64 + unat a mod 64) * 64 + unat b mod 64))"
      using True unfolding tail_def bytes_before_rest is_continuation_def continue6_def by blast
    note t2 = this [unfolded three_units_iff]
    have "(0xf0 \<le> ?x \<and> ?x < 0xf8) \<and> tail (?x mod 8) 3 0x10000 \<longleftrightarrow> 0x10000 \<le> ?v \<and> (\<exists>a b d. t = a # b # d # rest \<and>
        ((0xf0 \<le> ?x \<and> ?x < 0xf8) \<and> (0x80 \<le> unat a \<and> unat a < 0xc0) \<and> (0x80 \<le> unat b \<and> unat b < 0xc0) \<and>
          (0x80 \<le> unat d \<and> unat d < 0xc0) \<and>
          ?v = ((?x mod 8 * 64 + unat a mod 64) * 64 + unat b mod 64) * 64 + unat d mod 64))"
      using True unfolding tail_def bytes_before_rest is_continuation_def continue6_def by blast
    note t3 = this [unfolded four_units_iff]
    have "s = utf8 ?v @ rest \<longleftrightarrow> (\<exists>bs. c # t = bs @ rest \<and> map unat bs = utf8_units ?v)"
      unfolding eq_utf8_iff [OF max, symmetric] by (simp add: Cons)
    then have rhs: "s = utf8 ?v @ rest \<longleftrightarrow> (\<exists>bs. c # t = bs @ rest \<and> map unat bs = utf8_units ?v)" .
    consider "?v < 0x80" | "0x80 \<le> ?v" "?v < 0x800" | "0x800 \<le> ?v" "?v < 0x10000" | "0x10000 \<le> ?v"
      by linarith
    then have "s = utf8 ?v @ rest \<longleftrightarrow> ?x < 0x80 \<and> ?v = ?x \<and> t = rest \<or> 
      (0xc0 \<le> ?x \<and> ?x < 0xe0) \<and> tail (?x mod 32) 1 0x80 \<or>
      (0xe0 \<le> ?x \<and> ?x < 0xf0) \<and> tail (?x mod 16) 2 0x800 \<or>
      (0xf0 \<le> ?x \<and> ?x < 0xf8) \<and> tail (?x mod 8) 3 0x10000"
    proof cases
      case 1
      then have "utf8_units ?v = [?v]" by (simp add: utf8_units_def)
      with 1 show ?thesis unfolding t1 t2 t3 rhs units_before_rest by (auto simp: units_before_rest)
    next
      case 2
      then have "utf8_units ?v = [0xc0 + ?v div 64, 0x80 + ?v mod 64]" by (simp add: utf8_units_def)
      with 2 show ?thesis unfolding t1 t2 t3 rhs by (auto simp: units_before_rest)
    next
      case 3
      then have "utf8_units ?v = [0xe0 + ?v div 4096, 0x80 + ?v div 64 mod 64, 0x80 + ?v mod 64]"
        by (simp add: utf8_units_def)
      with 3 show ?thesis unfolding t1 t2 t3 rhs by (auto simp: units_before_rest)
    next
      case 4
      then have "utf8_units ?v = [0xf0 + ?v div 262144, 0x80 + ?v div 4096 mod 64, 0x80 + ?v div 64 mod 64,
          0x80 + ?v mod 64]"
        by (simp add: utf8_units_def)
      with 4 max show ?thesis unfolding t1 t2 t3 rhs by (auto simp: units_before_rest)
    qed
    with True show ?thesis by simp
  next
    case False
    with valid_low [of v] show ?thesis by (auto simp: tail_def)
  qed
  finally show ?thesis .
qed

section \<open>Writing\<close>

lemma unat_low6: "unat (low6 u) = unat u mod 64"
  using unat_and_mask [of u 6] by (simp add: low6_def bits_values mask_eq_exp_minus_1)

lemma top_or_values:
  "unat u < 64 \<Longrightarrow> top_or 1 u = word_of_nat (0x80 + unat u)"
  "unat u < 32 \<Longrightarrow> top_or 2 u = word_of_nat (0xc0 + unat u)"
  "unat u < 16 \<Longrightarrow> top_or 3 u = word_of_nat (0xe0 + unat u)"
  "unat u < 8 \<Longrightarrow> top_or 4 u = word_of_nat (0xf0 + unat u)"
  using unat_push_or [of 2 6 u] unat_push_or [of 6 5 u] unat_push_or [of 14 4 u] unat_push_or [of 30 3 u]
  by (simp_all add: top_or_def bits_values word_eq_iff_unat unat_ucast_mod del: of_nat_add)

lemma low6_byte: "top_or 1 (low6 u) = word_of_nat (0x80 + unat u mod 64)"
  by (subst top_or_values(1)) (simp_all add: unat_low6)

lemma appender_u8s:
  "appender malloc d (andthen (CBB_add_u8 malloc d a) (\<lambda>_. CBB_add_u8 malloc d b)) () [a, b]"
  "appender malloc d (andthen (CBB_add_u8 malloc d a) (\<lambda>_. andthen (CBB_add_u8 malloc d b) (\<lambda>_.
     CBB_add_u8 malloc d c))) () [a, b, c]"
  "appender malloc d (andthen (CBB_add_u8 malloc d a) (\<lambda>_. andthen (CBB_add_u8 malloc d b) (\<lambda>_.
     andthen (CBB_add_u8 malloc d c) (\<lambda>_. CBB_add_u8 malloc d e)))) () [a, b, c, e]"
proof -
  note u8 = add_u8.appender_axioms
  show two: "appender malloc d (andthen (CBB_add_u8 malloc d a) (\<lambda>_. CBB_add_u8 malloc d b)) () [a, b]" for a b
    using appender_andthen [OF u8 [of malloc d a], of "\<lambda>_. CBB_add_u8 malloc d b" "()" "[b]"] u8 [of malloc d b] by simp
  show three: "appender malloc d (andthen (CBB_add_u8 malloc d a) (\<lambda>_. andthen (CBB_add_u8 malloc d b) (\<lambda>_.
     CBB_add_u8 malloc d c))) () [a, b, c]" for a b c
    using appender_andthen [OF u8 [of malloc d a] two [of b c]] by simp
  show "appender malloc d (andthen (CBB_add_u8 malloc d a) (\<lambda>_. andthen (CBB_add_u8 malloc d b) (\<lambda>_.
     andthen (CBB_add_u8 malloc d c) (\<lambda>_. CBB_add_u8 malloc d e)))) () [a, b, c, e]"
    using appender_andthen [OF u8 [of malloc d a] three [of b c e]] by simp
qed

lemma appender_utf8:
  assumes "is_valid_code_point u"
  shows "appender malloc d (cbb_add_utf8 malloc d u) () (utf8 (unat u))"
proof -
  note max = valid_code_point_less [OF assms]
  note u8 = add_u8.appender_axioms
  consider "unat u < 0x80" | "0x80 \<le> unat u" "unat u < 0x800" | "0x800 \<le> unat u" "unat u < 0x10000"
    | "0x10000 \<le> unat u" by linarith
  then show ?thesis
  proof cases
    case 1
    then have "utf8 (unat u) = [ucast u]"
      by (simp add: utf8_def utf8_units_def word_eq_iff_unat unat_ucast_mod)
    with 1 assms u8 [of malloc d "ucast u"] show ?thesis
      by (simp add: cbb_add_utf8_def word_le_nat_alt)
  next
    case 2
    then have "top_or 2 (drop_bit 6 u) = word_of_nat (0xc0 + unat u div 64)"
      by (subst top_or_values(2)) (simp_all add: unat_drop_bit div_less_iff_less_mult)
    with 2 have "utf8 (unat u) = [top_or 2 (drop_bit 6 u)] @ [top_or 1 (low6 u)]"
      by (simp only: low6_byte utf8_def utf8_units_def) (simp del: of_nat_add)
    with 2 assms appender_u8s(1) [of malloc d "top_or 2 (drop_bit 6 u)" "top_or 1 (low6 u)"]
    show ?thesis by (simp add: cbb_add_utf8_def word_le_nat_alt)
  next
    case 3
    then have "top_or 3 (drop_bit 12 u) = word_of_nat (0xe0 + unat u div 4096)"
      by (subst top_or_values(3)) (simp_all add: unat_drop_bit div_less_iff_less_mult)
    with 3 have "utf8 (unat u) = [top_or 3 (drop_bit 12 u)] @ [top_or 1 (low6 (drop_bit 6 u))] @ [top_or 1 (low6 u)]"
      by (simp only: low6_byte utf8_def utf8_units_def unat_drop_bit) (simp del: of_nat_add)
    with 3 assms appender_u8s(2) [of malloc d "top_or 3 (drop_bit 12 u)"
        "top_or 1 (low6 (drop_bit 6 u))" "top_or 1 (low6 u)"]
    show ?thesis by (simp add: cbb_add_utf8_def word_le_nat_alt)
  next
    case 4
    then have "top_or 4 (drop_bit 18 u) = word_of_nat (0xf0 + unat u div 262144)"
      using max by (subst top_or_values(4)) (simp_all add: unat_drop_bit div_less_iff_less_mult)
    with 4 have "utf8 (unat u) = [top_or 4 (drop_bit 18 u)] @ [top_or 1 (low6 (drop_bit 12 u))] @
        [top_or 1 (low6 (drop_bit 6 u))] @ [top_or 1 (low6 u)]"
      by (simp only: low6_byte utf8_def utf8_units_def unat_drop_bit) (simp del: of_nat_add)
    with 4 max assms appender_u8s(3) [of malloc d "top_or 4 (drop_bit 18 u)"
        "top_or 1 (low6 (drop_bit 12 u))" "top_or 1 (low6 (drop_bit 6 u))" "top_or 1 (low6 u)"]
    show ?thesis by (simp add: cbb_add_utf8_def word_le_nat_alt)
  qed
qed

lemma add_utf8_invalid: "\<not> is_valid_code_point u \<Longrightarrow> cbb_add_utf8 malloc d u cbb = (None, cbb)"
  by (simp add: cbb_add_utf8_def fail_def)

interpretation get_utf8: reader cbs_get_utf8
proof unfold_locales
  have loop: "reader (utf8_continuation n v)" for n v
  proof (induction n arbitrary: v)
    case 0
    have "utf8_continuation 0 v = ret v" by (rule ext) (simp add: utf8_continuation.simps)
    then show ?case by (simp add: reader_ret)
  next
    case (Suc n)
    have "utf8_continuation (Suc n) v = andthen CBS_get_u8 (\<lambda>c. if c AND TOP_BITS 2 \<noteq> TOP_BITS 1 then fail
        else utf8_continuation n (push_bit 6 v OR ucast (c AND BOTTOM_BITS 6)))"
    proof -
      have "(\<lambda>c cbs. if c AND TOP_BITS 2 \<noteq> TOP_BITS 1 then fail cbs
          else utf8_continuation (Suc n - 1) (push_bit 6 v OR ucast (c AND BOTTOM_BITS 6)) cbs) =
        (\<lambda>c. if c AND TOP_BITS 2 \<noteq> TOP_BITS 1 then fail
          else utf8_continuation n (push_bit 6 v OR ucast (c AND BOTTOM_BITS 6)))"
        by (intro ext) simp
      then show ?thesis by (intro ext) (subst utf8_continuation.simps, simp only: if_False nat.distinct)
    qed
    with Suc show ?case by (auto intro!: reader_intros get_u8.reader_axioms)
  qed
  have "reader cbs_get_utf8"
    unfolding cbs_get_utf8_def
    by (intro reader_intros get_u8.reader_axioms) (auto intro!: reader_intros loop split: option.split)
  from reader.rest_suffix [OF this] reader.locality [OF this]
  show "suffix (snd (cbs_get_utf8 s)) s"
    and "cbs_get_utf8 (u @ s) = (Some v, s) \<Longrightarrow> cbs_get_utf8 (u @ t) = (Some v, t)" for s u t v
    by blast+
qed

lemma length_utf8: "unat u \<le> 0x10ffff \<Longrightarrow> length (utf8 (unat u)) = cbb_get_utf8_len u"
  by (auto simp: utf8_def utf8_units_def cbb_get_utf8_len_def word_le_nat_alt)

lemma get_u16_be_fixed: "CBS_get_u16 (be_fixed 2 (unat (u :: u16)) @ rest) = (Some u, rest)"
proof -
  have "cbs_get_u 2 (be_fixed 2 (unat u) @ rest) = (Some (be_word (be_fixed 2 (unat u))), rest)"
    by (auto simp: cbs_get_u_Some_iff)
  moreover have lt: "unat u < 65536" using unsigned_less [of u] by simp
  then have "unat (be_word (be_fixed 2 (unat u))) = unat u"
    by (simp add: unat_be_word be_nat_be_fixed)
  then have "ucast (be_word (be_fixed 2 (unat u))) = u"
    using lt by (simp add: word_eq_iff_unat unat_ucast_mod)
  ultimately show ?thesis by (simp add: CBS_get_u16_def andthen_def ret_def)
qed

lemma get_u32_be_fixed: "CBS_get_u32 (be_fixed 4 (unat (u :: u32)) @ rest) = (Some u, rest)"
proof -
  have "cbs_get_u 4 (be_fixed 4 (unat u) @ rest) = (Some (be_word (be_fixed 4 (unat u))), rest)"
    by (auto simp: cbs_get_u_Some_iff)
  moreover have lt: "unat u < 4294967296" using unsigned_less [of u] by simp
  then have "unat (be_word (be_fixed 4 (unat u))) = unat u"
    by (simp add: unat_be_word be_nat_be_fixed)
  then have "ucast (be_word (be_fixed 4 (unat u))) = u"
    using lt by (simp add: word_eq_iff_unat unat_ucast_mod)
  ultimately show ?thesis by (simp add: CBS_get_u32_def andthen_def ret_def)
qed

section \<open>Properties of the readers and writers\<close>

text \<open>C20 (cbs_get_utf8_correct): \<open>cbs_get_utf8\<close> accepts exactly the UTF-8 encodings of RFC 3629 of the valid
code points: it returns a code point iff that code point is valid and the input starts with
its one encoding, and it then leaves the rest. Overlong forms, surrogates, stray continuation
bytes and truncated sequences are therefore all refused.\<close>

theorem cbs_get_utf8_correct:
  "cbs_get_utf8 s = (Some v, rest) \<longleftrightarrow> is_valid_code_point v \<and> s = utf8 (unat v) @ rest"
  by (rule get_utf8_Some_iff)

text \<open>C21 (cbb_utf8_roundtrip): when \<open>cbb_add_utf8\<close> succeeds it has appended as many bytes as
\<open>cbb_get_utf8_len\<close> says, and \<open>cbs_get_utf8\<close> reads the same code point back, whatever follows.\<close>

theorem cbb_utf8_roundtrip:
  assumes "malloc_returns_size malloc" "cbb_ok cbb" "d \<le> length (child cbb)"
    and "cbb_add_utf8 malloc d u cbb = (Some x, cbb')"
  shows "\<exists>bytes. view d cbb' = view d cbb @ bytes \<and> length bytes = cbb_get_utf8_len u \<and>
    cbs_get_utf8 (bytes @ rest) = (Some u, rest)"
proof -
  have valid: "is_valid_code_point u" using assms(4) add_utf8_invalid by fastforce
  have "view d cbb' = view d cbb @ utf8 (unat u)"
    using appender.appends [OF appender_utf8 [OF valid] assms(1-4)] by simp
  moreover have "cbs_get_utf8 (utf8 (unat u) @ rest) = (Some u, rest)"
    using valid get_utf8_Some_iff by simp
  ultimately show ?thesis using length_utf8 [OF valid_code_point_less [OF valid]] by auto
qed

definition utf8_example :: "unit option \<times> CBB" where
  "utf8_example = cbb_add_utf8 zero_malloc 0 0x20ac (snd (CBB_init zero_malloc 4))"

lemma cbb_utf8_roundtrip_witness:
  "\<exists>bytes. view 0 (snd utf8_example) = view 0 (snd (CBB_init zero_malloc 4)) @ bytes \<and>
     length bytes = cbb_get_utf8_len 0x20ac \<and> cbs_get_utf8 (bytes @ [9]) = (Some 0x20ac, [9])"
proof -
  have "fst utf8_example = Some ()" by code_simp
  then have run: "utf8_example = (Some (), snd utf8_example)" by (metis prod.collapse)
  have "CBB_init zero_malloc 4 = (Some (), snd (CBB_init zero_malloc 4))" by code_simp
  from CBB_init_ok(1) [OF zero_malloc_returns_size _ this]
  have ok: "cbb_ok (snd (CBB_init zero_malloc 4))" by simp
  from cbb_utf8_roundtrip [OF zero_malloc_returns_size ok _ run [unfolded utf8_example_def], of "[9]"]
  show ?thesis by (simp add: utf8_example_def)
qed

text \<open>the Latin-1, UCS-2 and UTF-32 writers append one, two and four bytes, and the
reader of the same encoding reads the code point back.\<close>

theorem cbb_wide_roundtrip:
  assumes "malloc_returns_size malloc" "cbb_ok cbb" "d \<le> length (child cbb)"
    and "(add, get, n) \<in> {(cbb_add_latin1, cbs_get_latin1, 1), (cbb_add_ucs2_be, cbs_get_ucs2_be, 2),
           (cbb_add_utf32_be, cbs_get_utf32_be, 4)}"
    and "add malloc d u cbb = (Some x, cbb')"
  shows "\<exists>bytes. view d cbb' = view d cbb @ bytes \<and> length bytes = n \<and> get (bytes @ rest) = (Some u, rest)"
proof -
  consider "add = cbb_add_latin1" "get = cbs_get_latin1" "n = 1" | "add = cbb_add_ucs2_be" "get = cbs_get_ucs2_be" "n = 2"
    | "add = cbb_add_utf32_be" "get = cbs_get_utf32_be" "n = 4" using assms(4) by blast
  then show ?thesis
  proof cases
    case 1
    with assms(5) have u: "u \<le> 0xff" and run: "CBB_add_u8 malloc d (ucast u) cbb = (Some x, cbb')"
      by (auto simp: cbb_add_latin1_def split: if_splits)
    have "ucast (ucast u :: byte) = u" using u by (simp add: word_eq_iff_unat unat_ucast_mod word_le_nat_alt)
    then have "cbs_get_latin1 ([ucast u] @ rest) = (Some u, rest)"
      by (simp add: cbs_get_latin1_def andthen_Some ret_def)
    with add_u8.appends [OF assms(1-3) run] show ?thesis unfolding 1 by (intro exI [of _ "[ucast u]"]) simp
  next
    case 2
    with assms(5) have u: "u \<le> 0xffff" "is_valid_code_point u" and run: "CBB_add_u16 malloc d (ucast u) cbb = (Some x, cbb')"
      by (auto simp: cbb_add_ucs2_be_def split: if_splits)
    have "ucast (ucast u :: u16) = u" using u by (simp add: word_eq_iff_unat unat_ucast_mod word_le_nat_alt)
    then have "cbs_get_ucs2_be (be_fixed 2 (unat (ucast u :: u16)) @ rest) = (Some u, rest)"
      using u(2) by (simp add: cbs_get_ucs2_be_def andthen_def get_u16_be_fixed ret_def)
    with add_u16.appends [OF assms(1-3) run] show ?thesis unfolding 2 by (metis length_be_fixed)
  next
    case 3
    with assms(5) have u: "is_valid_code_point u" and run: "CBB_add_u32 malloc d u cbb = (Some x, cbb')"
      by (auto simp: cbb_add_utf32_be_def split: if_splits)
    have "cbs_get_utf32_be (be_fixed 4 (unat u) @ rest) = (Some u, rest)"
      using u by (simp add: cbs_get_utf32_be_def andthen_def get_u32_be_fixed ret_def)
    with add_u32.appends [OF assms(1-3) run] show ?thesis unfolding 3 by (metis length_be_fixed)
  qed
qed

definition ucs2_example :: "unit option \<times> CBB" where
  "ucs2_example = cbb_add_ucs2_be zero_malloc 0 0x20ac (snd (CBB_init zero_malloc 4))"

lemma cbb_wide_roundtrip_witness:
  "\<exists>bytes. view 0 (snd ucs2_example) = view 0 (snd (CBB_init zero_malloc 4)) @ bytes \<and>
     length bytes = 2 \<and> cbs_get_ucs2_be (bytes @ [9]) = (Some 0x20ac, [9])"
proof -
  have "fst ucs2_example = Some ()" by code_simp
  then have run: "ucs2_example = (Some (), snd ucs2_example)" by (metis prod.collapse)
  have "CBB_init zero_malloc 4 = (Some (), snd (CBB_init zero_malloc 4))" by code_simp
  from CBB_init_ok(1) [OF zero_malloc_returns_size _ this]
  have ok: "cbb_ok (snd (CBB_init zero_malloc 4))" by simp
  from cbb_wide_roundtrip [where add = cbb_add_ucs2_be and get = cbs_get_ucs2_be and n = 2 and rest = "[9]",
      OF zero_malloc_returns_size ok _ _ run [unfolded ucs2_example_def]]
  show ?thesis by (simp add: ucs2_example_def zero_malloc_returns_size)
qed

end
