(* ===== verification/BER.thy ===== *)
theory BER
  imports CBB
begin

unbundle bit_operations_syntax

text \<open>
  The BER to DER conversion of BoringSSL's \<open>crypto/bytestring/ber.c\<close>. The walk that looks for
  BER, the conversion from a CBS into a CBB, and the reader of implicitly tagged strings.
  The recursion of the C functions is kept, with its bound \<open>kMaxDepth\<close>; that the model is total
  is the termination proof that both functions carry.
\<close>

section \<open>Looking for BER\<close>

definition kMaxDepth :: nat where
  "kMaxDepth = 2048"

definition is_string_type :: "u32 \<Rightarrow> bool" where
  "is_string_type tag =
     (tag AND NOT CBS_ASN1_CONSTRUCTED \<in>
        {CBS_ASN1_OCTETSTRING, 0xc, 0x12, 0x13, 0x14, 0x15, 0x16, 0x19, 0x1a, 0x1b, 0x1c, 0x1e})"

text \<open>
  What every element that the BER reader returns satisfies: it is a prefix of the input and
  contains its own header, which is not empty.
\<close>

lemma asn1_length_ber:
  assumes "asn1_length True tag k s = (Some (n, hl, f), r)" "k \<le> 6"
  shows "k < hl \<and> hl \<le> unat n"
proof -
  obtain lb t where s: "s = lb # t" using assms(1) by (cases s) (auto simp: asn1_length_def andthen_def)
  have short: "unat (ucast lb + word_of_nat (k + 1) :: u64) = unat lb + k + 1"
    using assms(2) byte_less [of lb] by (simp add: unat_word_ariths unsigned_of_nat take_bit_eq_mod del: byte_less)
  have long: "k + 1 + m \<le> unat (len64 + word_of_nat (k + 1) + word_of_nat m :: u64)"
    if h: "cbs_get_u m t = (Some len64, r)" "m \<le> 4" for m len64
  proof -
    obtain bs where "length bs = m" "len64 = be_word bs" using h(1) unfolding cbs_get_u_Some_iff by blast
    then have "unat len64 = be_nat bs" "be_nat bs < 256 ^ m"
      using h(2) be_nat_less [of bs] by (simp_all add: unat_be_word)
    moreover have "(256::nat) ^ m \<le> 256 ^ 4" using h(2) by (intro power_increasing) simp_all
    ultimately have "unat len64 < 2 ^ 32" by simp
    with assms(2) h(2) show ?thesis
      by (simp add: unat_word_ariths unsigned_of_nat take_bit_eq_mod)
  qed
  have indefinite: "unat (word_of_nat (k + 1) :: u64) = k + 1"
    using assms(2) by (intro unat_word_of_nat_64) simp
  show ?thesis
    using assms short indefinite long [of "unat (lb AND 0x7f)"]
    by (auto simp: asn1_length_def s Let_def andthen_Some andthen_Some_iff split: if_splits)
qed

lemma ber_element:
  assumes "CBS_get_any_ber_asn1_element s = (Some (c, tag, hl, f), rest)"
  shows "s = c @ rest" "0 < hl" "hl \<le> length c"
proof -
  obtain header n r where tag: "parse_asn1_tag s = (Some tag, header)"
    and len: "asn1_length True tag (length s - length header) header = (Some (n, hl, f), r)"
    and bytes: "CBS_get_bytes (unat n) s = (Some c, rest)"
    using assms by (auto simp: CBS_get_any_ber_asn1_element_def cbs_get_any_asn1_element_def andthen_Some_iff
        CBS_len_def split: prod.splits option.splits)
  have "length s - length header \<le> 6" using tag length_der_tag by (auto simp: parse_asn1_tag_Some_iff)
  from asn1_length_ber [OF len this] bytes show "s = c @ rest" "0 < hl" "hl \<le> length c"
    by (auto simp: CBS_get_bytes_Some_iff)
qed

lemma ber_element_shorter:
  assumes "CBS_get_any_ber_asn1_element s = (Some (c, tag, hl, f), rest)"
  shows "length rest < length s" "CBS_skip hl c = (u, body) \<Longrightarrow> length body < length s"
  using ber_element [OF assms] by (auto simp: CBS_skip_def andthen_def cbs_get_def ret_def split: if_splits)

text \<open>
  The loop of \<open>cbs_find_ber\<close>, with the current value of \<open>*ber_found\<close>; the result is \<open>None\<close> for
  an error. \<open>CBS_get_any_ber_asn1_element\<close> overwrites \<open>*ber_found\<close> in every iteration.
\<close>

function cbs_find_ber :: "nat \<Rightarrow> cbs \<Rightarrow> bool option"
  and find_ber_loop :: "nat \<Rightarrow> bool \<Rightarrow> cbs \<Rightarrow> bool option" where
  "cbs_find_ber depth orig_in = (if depth > kMaxDepth then None else find_ber_loop depth False orig_in)"
| "find_ber_loop depth ber_found inp =
     (if \<not> CBS_len inp > 0 then Some ber_found
      else (case CBS_get_any_ber_asn1_element inp of
              (None, _) \<Rightarrow> None
            | (Some (elem, tag, header_len, ber_found), inp') \<Rightarrow>
                if ber_found then Some True
                else if tag AND CBS_ASN1_CONSTRUCTED \<noteq> 0 then
                  if is_string_type tag then Some True
                  else (case CBS_skip header_len elem of
                          (None, _) \<Rightarrow> None
                        | (Some _, body) \<Rightarrow>
                            (case cbs_find_ber (depth + 1) body of
                               None \<Rightarrow> None
                             | Some ber_found \<Rightarrow> find_ber_loop depth ber_found inp'))
                else find_ber_loop depth ber_found inp'))"
  by pat_completeness auto
termination
  by (relation "measure (case_sum (\<lambda>(_, s). 2 * length s + 1) (\<lambda>(_, _, s). 2 * length s))")
     (auto dest: ber_element_shorter(1) [OF sym] ber_element_shorter(2) [OF sym sym])

declare cbs_find_ber.simps [simp del] find_ber_loop.simps [simp del]

section \<open>Converting\<close>

definition is_eoc :: "nat \<Rightarrow> cbs \<Rightarrow> bool" where
  "is_eoc header_len elem =
     (header_len = 2 \<and> CBS_len elem = 2 \<and> OPENSSL_memcmp (CBS_data elem) [0, 0] 2 = 0)"

text \<open>Where the contents of an element go, and the string tag for its children.\<close>

definition ber_out_contents :: "allocator \<Rightarrow> nat \<Rightarrow> u32 \<Rightarrow> u32 \<Rightarrow> (CBB, nat \<times> u32) op" where
  "ber_out_contents malloc d string_tag tag =
     (if string_tag \<noteq> 0 then
        if tag AND NOT CBS_ASN1_CONSTRUCTED \<noteq> string_tag then fail else ret (d, string_tag)
      else
        let is_string = tag AND CBS_ASN1_CONSTRUCTED \<noteq> 0 \<and> is_string_type tag;
            out_tag = (if is_string then tag AND NOT CBS_ASN1_CONSTRUCTED else tag);
            child_string_tag = (if is_string then out_tag else string_tag)
        in andthen (CBB_add_asn1 malloc d out_tag) (\<lambda>_. ret (Suc d, child_string_tag)))"

lemma andthen_cong [fundef_cong]:
  assumes "s = s'" "m s' = m' s'" "\<And>a s1. m' s' = (Some a, s1) \<Longrightarrow> f a s1 = f' a s1"
  shows "andthen m f s = andthen m' f' s'"
  using assms by (auto simp: andthen_def split: prod.splits option.splits)

text \<open>
  The result of \<open>cbs_convert_ber\<close> is what is left of \<open>in\<close>; \<open>out\<close> is the node at depth \<open>d\<close> of the
  builder, and the child that \<open>CBB_add_asn1\<close> opens is the node below it. After a failure the C
  function leaves \<open>in\<close> somewhere in the middle, which no caller looks at.
\<close>

function cbs_convert_ber ::
    "allocator \<Rightarrow> nat \<Rightarrow> u32 \<Rightarrow> bool \<Rightarrow> nat \<Rightarrow> cbs \<Rightarrow> (CBB, cbs) op" where
  "cbs_convert_ber malloc d string_tag looking_for_eoc depth inp out =
     (if depth > kMaxDepth then fail out
      else if \<not> CBS_len inp > 0 then (if looking_for_eoc then fail out else ret inp out)
      else (case CBS_get_any_ber_asn1_element inp of
              (None, _) \<Rightarrow> fail out
            | (Some (elem, tag, header_len, ber_found), inp') \<Rightarrow>
                if is_eoc header_len elem then (if looking_for_eoc then ret inp' out else fail out)
                else
                  (case ber_out_contents malloc d string_tag tag out of
                     (None, out) \<Rightarrow> (None, out)
                   | (Some (out_contents, child_string_tag), out) \<Rightarrow>
                       (case (if CBS_len elem = header_len \<and> header_len > 0 \<and> elem ! (header_len - 1) = 0x80 then
                                cbs_convert_ber malloc out_contents child_string_tag True (depth + 1) inp' out
                              else
                                (case CBS_skip header_len elem of
                                   (None, _) \<Rightarrow> fail out
                                 | (Some _, body) \<Rightarrow>
                                     if tag AND CBS_ASN1_CONSTRUCTED \<noteq> 0 then
                                       andthen (cbs_convert_ber malloc out_contents child_string_tag False (depth + 1) body)
                                         (\<lambda>_. ret inp') out
                                     else
                                       andthen (CBB_add_bytes malloc out_contents (CBS_data body)) (\<lambda>_. ret inp') out)) of
                          (None, out) \<Rightarrow> (None, out)
                        | (Some inp'', out) \<Rightarrow>
                            (case CBB_flush malloc d out of
                               (None, out) \<Rightarrow> (None, out)
                             | (Some _, out) \<Rightarrow>
                                 cbs_convert_ber malloc d string_tag looking_for_eoc depth inp'' out)))))"
  by pat_completeness auto

text \<open>What is left of the input is not longer than it, so the nested calls make the input shorter.\<close>

lemma convert_ber_shrinks:
  assumes "cbs_convert_ber_dom (malloc, d, string_tag, eoc, depth, inp, out)"
    and "cbs_convert_ber malloc d string_tag eoc depth inp out = (Some rest, out')"
  shows "length rest \<le> length inp"
  using assms
proof (induction arbitrary: rest out' rule: cbs_convert_ber.pinduct)
  case (1 malloc d string_tag eoc depth inp out)
  from "1.prems" consider "inp = []" "rest = inp"
    | elem tag hl bf inp' where "CBS_get_any_ber_asn1_element inp = (Some (elem, tag, hl, bf), inp')" "rest = inp'"
    | elem tag hl bf inp' oc ct out1 inp'' out2 u out3
      where "CBS_get_any_ber_asn1_element inp = (Some (elem, tag, hl, bf), inp')"
        "\<not> depth > kMaxDepth" "\<not> \<not> CBS_len inp > 0" "\<not> is_eoc hl elem" "ber_out_contents malloc d string_tag tag out = (Some (oc, ct), out1)"
        "(if CBS_len elem = hl \<and> hl > 0 \<and> elem ! (hl - 1) = 0x80 then
            cbs_convert_ber malloc oc ct True (depth + 1) inp' out1
          else (case CBS_skip hl elem of (None, _) \<Rightarrow> fail out1
            | (Some _, body) \<Rightarrow>
                if tag AND CBS_ASN1_CONSTRUCTED \<noteq> 0 then
                  andthen (cbs_convert_ber malloc oc ct False (depth + 1) body) (\<lambda>_. ret inp') out1
                else andthen (CBB_add_bytes malloc oc (CBS_data body)) (\<lambda>_. ret inp') out1)) = (Some inp'', out2)"
        "CBB_flush malloc d out2 = (Some u, out3)"
        "cbs_convert_ber malloc d string_tag eoc depth inp'' out3 = (Some rest, out')"
    unfolding cbs_convert_ber.psimps [OF "1.hyps"]
    by (auto simp: CBS_len_def split: if_splits prod.splits option.splits)
  then show ?case
  proof cases
    case 1
    then show ?thesis by simp
  next
    case 2
    with ber_element_shorter(1) [OF 2(1)] show ?thesis by simp
  next
    case 3
    have "length inp'' \<le> length inp'"
    proof (cases "CBS_len elem = hl \<and> hl > 0 \<and> elem ! (hl - 1) = 0x80")
      case True
      with 3(6) have "cbs_convert_ber malloc oc ct True (depth + 1) inp' out1 = (Some inp'', out2)" by simp
      from "1.IH"(1) [OF 3(2,3) 3(1) [symmetric] refl refl refl refl 3(4) 3(5) [symmetric] refl refl True this]
      show ?thesis .
    next
      case False
      with 3(6) have "inp'' = inp'"
        unfolding if_not_P [OF False] by (auto simp: andthen_Some_iff split: prod.splits option.splits if_splits)
      then show ?thesis by simp
    qed
    moreover have "length rest \<le> length inp''"
      by (rule "1.IH"(3) [OF 3(2,3) 3(1) [symmetric] refl refl refl refl 3(4) 3(5) [symmetric] refl refl
            3(6) [symmetric] refl 3(7) [symmetric] refl 3(8)])
    ultimately show ?thesis using ber_element_shorter(1) [OF 3(1)] by simp
  qed
qed

lemma contents_leave_less:
  assumes "(Some inp'', out2) =
      (if C then cbs_convert_ber malloc oc ct True (depth + 1) inp' out1
       else (case CBS_skip hl elem of (None, _) \<Rightarrow> fail out1
         | (Some _, body) \<Rightarrow>
             if K then andthen (cbs_convert_ber malloc oc ct False (depth + 1) body) (\<lambda>_. ret inp') out1
             else andthen (CBB_add_bytes malloc oc (CBS_data body)) (\<lambda>_. ret inp') out1))"
    and "C \<Longrightarrow> cbs_convert_ber_dom (malloc, oc, ct, True, depth + 1, inp', out1)"
    and "length inp' < n"
  shows "length inp'' < n"
proof (cases C)
  case True
  with assms(1) have "cbs_convert_ber malloc oc ct True (depth + 1) inp' out1 = (Some inp'', out2)" by simp
  from convert_ber_shrinks [OF assms(2) [OF True] this] assms(3) show ?thesis by simp
next
  case False
  with assms(1,3) show ?thesis
    unfolding if_not_P [OF False] by (auto simp: andthen_Some_iff split: prod.splits option.splits if_splits dest: sym)
qed

termination cbs_convert_ber
proof (relation "measure (\<lambda>(_, _, _, _, _, inp, _). length inp)", goal_cases)
  case 1
  show ?case by simp
next
  case 2
  then show ?case by (auto dest: ber_element_shorter(1) [OF sym])
next
  case 3
  then show ?case by (auto dest: ber_element_shorter(2) [OF sym sym])
next
  case prems: (4 malloc d string_tag eoc depth inp out)
  then show ?case
    by (auto intro: contents_leave_less dest: ber_element_shorter(1) [OF sym])
qed

declare cbs_convert_ber.simps [simp del]

section \<open>The interface\<close>

text \<open>
  The output is \<open>out\<close> and \<open>*out_storage\<close>, the state is \<open>in\<close>. \<open>CBB_finish\<close> is called with both
  of its out parameters, the data it hands out is the window \<open>out\<close>.
\<close>

definition CBS_asn1_ber_to_der :: "allocator \<Rightarrow> (cbs, cbs \<times> byte list option) op" where
  "CBS_asn1_ber_to_der malloc inp =
     (case cbs_find_ber 0 inp of
        None \<Rightarrow> fail inp
      | Some conversion_needed \<Rightarrow>
          if \<not> conversion_needed then
            andthen CBS_get_any_asn1_element (\<lambda>(out, _, _). ret (out, None)) inp
          else
            (case CBB_init malloc (CBS_len inp) of
               (None, _) \<Rightarrow> fail inp
             | (Some _, cbb) \<Rightarrow>
                 (case cbs_convert_ber malloc 0 0 False 0 inp cbb of
                    (None, _) \<Rightarrow> fail inp
                  | (Some inp', cbb) \<Rightarrow>
                      (case CBB_finish malloc 0 True cbb of
                         (None, _) \<Rightarrow> fail inp'
                       | (Some (out_storage, n), _) \<Rightarrow>
                           ret (CBS_init out_storage n, Some out_storage) inp'))))"

text \<open>The loop over the chunks of a constructed string.\<close>

lemma get_asn1_shorter:
  assumes "CBS_get_asn1 tag s = (Some c, rest)"
  shows "length rest < length s"
proof -
  have "0 < length (der tag c)" by (simp add: der_def der_tag_def Let_def)
  with assms show ?thesis by (auto simp: CBS_get_asn1_Some_iff)
qed

function implicit_string_chunks :: "allocator \<Rightarrow> u32 \<Rightarrow> cbs \<Rightarrow> (CBB, unit) op" where
  "implicit_string_chunks malloc inner_tag str result =
     (if \<not> CBS_len str > 0 then ret () result
      else (case CBS_get_asn1 inner_tag str of
              (None, _) \<Rightarrow> fail result
            | (Some chunk, str') \<Rightarrow>
                andthen (CBB_add_bytes malloc 0 (CBS_data chunk))
                  (\<lambda>_. implicit_string_chunks malloc inner_tag str') result))"
  by pat_completeness auto
termination
  by (relation "measure (\<lambda>(_, _, str, _). length str)") (auto dest: get_asn1_shorter [OF sym])

declare implicit_string_chunks.simps [simp del]

definition CBS_get_asn1_implicit_string ::
    "allocator \<Rightarrow> u32 \<Rightarrow> u32 \<Rightarrow> (cbs, cbs \<times> byte list option) op" where
  "CBS_get_asn1_implicit_string malloc outer_tag inner_tag inp =
     (if CBS_peek_asn1_tag inp outer_tag then
        andthen (CBS_get_asn1 outer_tag) (\<lambda>out. ret (out, None)) inp
      else
        (case CBB_init malloc (CBS_len inp) of
           (None, _) \<Rightarrow> fail inp
         | (Some _, result) \<Rightarrow>
             (case CBS_get_asn1 (outer_tag OR CBS_ASN1_CONSTRUCTED) inp of
                (None, inp') \<Rightarrow> fail inp'
              | (Some str, inp') \<Rightarrow>
                  (case andthen (implicit_string_chunks malloc inner_tag str)
                          (\<lambda>_. CBB_finish malloc 0 True) result of
                     (None, _) \<Rightarrow> fail inp'
                   | (Some (data, n), _) \<Rightarrow> ret (CBS_init data n, Some data) inp'))))"

section \<open>The walk misses BER in front of other elements\<close>

lemma asn1_length_der_ber:
  assumes "asn1_length False tag k s = (Some (n, hl, f), r)"
  shows "asn1_length True tag k s = (Some (n, hl, False), r)"
proof -
  obtain lb t where lb: "CBS_get_u8 s = (Some lb, t)"
    using assms unfolding asn1_length_def by (elim andthen_SomeE)
  then have lb2: "andthen CBS_get_u8 g s = g lb t" for g :: "byte \<Rightarrow> (cbs, u64 \<times> nat \<times> bool) op"
    by (rule andthen_Some)
  show ?thesis
  proof (cases "lb AND 0x80 = 0")
    case True
    with lb assms show ?thesis by (simp add: asn1_length_def andthen_Some)
  next
    case False
    define m where "m = unat (lb AND 0x7f)"
    have m: "\<not> (m = 0 \<or> m > 4)"
      using lb assms False by (auto simp: asn1_length_def andthen_Some m_def Let_def split: if_splits)
    obtain len64 r' where l: "cbs_get_u m t = (Some len64, r')"
      using lb assms False m by (auto simp: asn1_length_def andthen_Some m_def Let_def elim: andthen_SomeE split: if_splits)
    then have l2: "andthen (cbs_get_u m) g t = g len64 r'" for g :: "u64 \<Rightarrow> (cbs, u64 \<times> nat \<times> bool) op"
      by (rule andthen_Some)
    have c: "\<not> (len64 < 128 \<or> drop_bit ((m - 1) * 8) len64 = 0)"
      using assms m False unfolding asn1_length_def lb2 Let_def m_def [symmetric]
      by (auto simp: l2 split: if_splits)
    then have c2: "(len64 < 128 \<or> drop_bit ((m - 1) * 8) len64 = 0) = False" by simp
    from assms show ?thesis
      unfolding asn1_length_def lb2 Let_def m_def [symmetric] using False m
      by (simp add: l2 c2 split: if_split_asm)
  qed
qed

lemma ber_of_der:
  assumes "length body < 2 ^ 32"
  shows "CBS_get_any_ber_asn1_element (der tag body @ rest) =
    (Some (der tag body, tag, length (der_tag tag) + length (der_len (length body)), False), rest)"
proof -
  define hl where "hl = length (der_tag tag) + length (der_len (length body))"
  have "cbs_get_any_asn1_element False (der tag body @ rest) = (Some (der tag body, tag, hl, False), rest)"
    unfolding get_any_asn1_element_der_iff using assms by (auto simp: hl_def)
  then have "cbs_get_any_asn1_element True (der tag body @ rest) = (Some (der tag body, tag, hl, False), rest)"
    by (auto simp: cbs_get_any_asn1_element_def andthen_Some_iff dest!: asn1_length_der_ber
        split: prod.splits option.splits)
  then show ?thesis by (simp add: CBS_get_any_ber_asn1_element_def hl_def)
qed

lemma der_not_Nil: "der tag body @ rest \<noteq> []"
  by (simp add: der_def der_tag_def Let_def)

lemma find_ber_loop_Nil [simp]: "find_ber_loop depth f [] = Some f"
  by (simp add: find_ber_loop.simps CBS_len_def)

lemma find_ber_loop_der:
  assumes "length body < 2 ^ 32"
  shows "find_ber_loop depth f (der tag body @ rest) =
    (if tag AND CBS_ASN1_CONSTRUCTED \<noteq> 0 then
       if is_string_type tag then Some True
       else (case cbs_find_ber (depth + 1) body of None \<Rightarrow> None | Some f \<Rightarrow> find_ber_loop depth f rest)
     else find_ber_loop depth False rest)"
  using der_not_Nil [of tag body rest]
  by (subst find_ber_loop.simps) (simp add: ber_of_der [OF assms] CBS_skip_header CBS_len_def)

section \<open>What the conversion does, without the builder\<close>

text \<open>
  \<open>ber_to_der string_tag looking_for_eoc depth s out rest\<close>: the elements at the front of \<open>s\<close>
  become the bytes \<open>out\<close>, and \<open>rest\<close> is left. \<open>ber_contents\<close> is the same for the contents of
  one element, of which \<open>s\<close> is what follows its header (indefinite form) or the element.
\<close>

definition out_tag :: "u32 \<Rightarrow> u32" where
  "out_tag tag =
     (if tag AND CBS_ASN1_CONSTRUCTED \<noteq> 0 \<and> is_string_type tag then tag AND NOT CBS_ASN1_CONSTRUCTED else tag)"

definition child_string_tag :: "u32 \<Rightarrow> u32 \<Rightarrow> u32" where
  "child_string_tag string_tag tag =
     (if string_tag = 0 \<and> tag AND CBS_ASN1_CONSTRUCTED \<noteq> 0 \<and> is_string_type tag then out_tag tag else string_tag)"

definition wrap :: "u32 \<Rightarrow> u32 \<Rightarrow> byte list \<Rightarrow> byte list" where
  "wrap string_tag tag body = (if string_tag = 0 then der (out_tag tag) body else body)"

definition is_indefinite :: "nat \<Rightarrow> cbs \<Rightarrow> bool" where
  "is_indefinite hl elem \<longleftrightarrow> CBS_len elem = hl \<and> hl > 0 \<and> elem ! (hl - 1) = 0x80"

inductive ber_to_der :: "u32 \<Rightarrow> bool \<Rightarrow> nat \<Rightarrow> byte list \<Rightarrow> byte list \<Rightarrow> byte list \<Rightarrow> bool"
  and ber_contents :: "u32 \<Rightarrow> u32 \<Rightarrow> nat \<Rightarrow> nat \<Rightarrow> byte list \<Rightarrow> byte list \<Rightarrow> byte list \<Rightarrow> byte list \<Rightarrow> bool" where
  at_end: "depth \<le> kMaxDepth \<Longrightarrow> ber_to_der st False depth [] [] []"
| at_eoc: "depth \<le> kMaxDepth \<Longrightarrow> CBS_get_any_ber_asn1_element s = (Some (elem, tag, hl, f), s') \<Longrightarrow>
    is_eoc hl elem \<Longrightarrow> ber_to_der st True depth s [] s'"
| element: "depth \<le> kMaxDepth \<Longrightarrow> CBS_get_any_ber_asn1_element s = (Some (elem, tag, hl, f), s') \<Longrightarrow>
    \<not> is_eoc hl elem \<Longrightarrow> st \<noteq> 0 \<longrightarrow> tag AND NOT CBS_ASN1_CONSTRUCTED = st \<Longrightarrow>
    ber_contents (child_string_tag st tag) tag (depth + 1) hl elem s' body s'' \<Longrightarrow>
    ber_to_der st eoc depth s'' out rest \<Longrightarrow>
    ber_to_der st eoc depth s (wrap st tag body @ out) rest"
| indefinite: "is_indefinite hl elem \<Longrightarrow> ber_to_der st True depth s body s' \<Longrightarrow>
    ber_contents st tag depth hl elem s body s'"
| constructed: "\<not> is_indefinite hl elem \<Longrightarrow> tag AND CBS_ASN1_CONSTRUCTED \<noteq> 0 \<Longrightarrow>
    ber_to_der st False depth (drop hl elem) body r \<Longrightarrow> ber_contents st tag depth hl elem s body s"
| primitive: "\<not> is_indefinite hl elem \<Longrightarrow> tag AND CBS_ASN1_CONSTRUCTED = 0 \<Longrightarrow>
    ber_contents st tag depth hl elem s (drop hl elem) s"

section \<open>The builder follows the relation\<close>

text \<open>One successful run from \<open>c1\<close> to \<open>c2\<close>, seen as an operation that only works on \<open>c1\<close>.\<close>

definition appended :: "nat \<Rightarrow> byte list \<Rightarrow> CBB \<Rightarrow> CBB \<Rightarrow> bool" where
  "appended d bytes c1 c2 \<longleftrightarrow> cbb_ok c2 \<and> d \<le> length (child c2) \<and> length (child c2) \<le> length (child c1) \<and>
     take d (child c2) = take d (child c1) \<and> view d c2 = view d c1 @ bytes"

lemma run_appender:
  assumes "appended d bytes c1 c2"
  shows "appender malloc d (\<lambda>c. if c = c1 then (Some v, c2) else (None, CBB_zero)) v bytes"
proof -
  have "cbb_ok CBB_zero" "\<not> live CBB_zero" by (simp_all add: cbb_ok_def live_def CBB_zero_def)
  with assms show ?thesis by unfold_locales (auto simp: appended_def split: if_splits)
qed

lemma appended_element:
  assumes "malloc_returns_size malloc" "cbb_ok cbb" "d \<le> length (child cbb)"
    and "CBB_add_asn1 malloc d tag cbb = (Some u, c1)" "appended (Suc d) body c1 c2"
    and "CBB_flush malloc d c2 = (Some w, c3)"
  shows "appended d (der tag body) cbb c3"
proof -
  note app = appender_element [OF run_appender [OF assms(5)], of malloc tag "()"]
  have "andthen (CBB_add_asn1 malloc d tag) (\<lambda>_. andthen (\<lambda>c. if c = c1 then (Some (), c2) else (None, CBB_zero))
      (\<lambda>_. CBB_flush malloc d)) cbb = (Some w, c3)"
    using assms(4,6) by (simp add: andthen_def)
  from appender.appends [OF app assms(1-3) this] appender.appends_ok [OF app assms(1-3) this]
  show ?thesis by (simp add: appended_def)
qed

lemma appended_trans: "appended d a c1 c2 \<Longrightarrow> appended d b c2 c3 \<Longrightarrow> appended d (a @ b) c1 c3"
  by (auto simp: appended_def)

lemma appended_appender:
  assumes "appender malloc d f v bytes" "malloc_returns_size malloc" "cbb_ok cbb" "d \<le> length (child cbb)"
    and "f cbb = (Some u, cbb')"
  shows "appended d bytes cbb cbb'"
  using appender.appends [OF assms] appender.appends_ok [OF assms] by (simp add: appended_def)

lemma ber_element_length:
  assumes "CBS_get_any_ber_asn1_element s = (Some (c, tag, hl, f), rest)"
  shows "length c < 2 ^ 64"
proof -
  obtain n :: u64 where "CBS_get_bytes (unat n) s = (Some c, rest)"
    using assms by (auto simp: CBS_get_any_ber_asn1_element_def cbs_get_any_asn1_element_def andthen_Some_iff
        split: prod.splits option.splits)
  then show ?thesis using unsigned_less [of n] by (auto simp: CBS_get_bytes_Some_iff)
qed

lemma convert_ber_appends:
  assumes "cbs_convert_ber malloc d st eoc depth inp out = (Some rest, out')"
    and "malloc_returns_size malloc" "cbb_ok out" "d \<le> length (child out)"
  shows "\<exists>bytes. ber_to_der st eoc depth inp bytes rest \<and> appended d bytes out out'"
  using assms
proof (induction malloc d st eoc depth inp out arbitrary: rest out' rule: cbs_convert_ber.induct)
  case (1 malloc d st eoc depth inp out)
  note ok = "1.prems"(2-4)
  have refl_appended: "appended d [] out out" using ok by (simp add: appended_def)
  from "1.prems"(1) consider "inp = []" "\<not> eoc" "rest = inp" "out' = out" "depth \<le> kMaxDepth"
    | elem tag hl bf inp' where "CBS_get_any_ber_asn1_element inp = (Some (elem, tag, hl, bf), inp')" "eoc"
        "is_eoc hl elem" "rest = inp'" "out' = out" "depth \<le> kMaxDepth"
    | elem tag hl bf inp' oc ct out1 inp'' out2 u out3
      where "CBS_get_any_ber_asn1_element inp = (Some (elem, tag, hl, bf), inp')"
        "\<not> depth > kMaxDepth" "\<not> \<not> CBS_len inp > 0" "\<not> is_eoc hl elem" "ber_out_contents malloc d st tag out = (Some (oc, ct), out1)"
        "(if CBS_len elem = hl \<and> hl > 0 \<and> elem ! (hl - 1) = 0x80 then
            cbs_convert_ber malloc oc ct True (depth + 1) inp' out1
          else (case CBS_skip hl elem of (None, _) \<Rightarrow> fail out1
            | (Some _, body) \<Rightarrow>
                if tag AND CBS_ASN1_CONSTRUCTED \<noteq> 0 then
                  andthen (cbs_convert_ber malloc oc ct False (depth + 1) body) (\<lambda>_. ret inp') out1
                else andthen (CBB_add_bytes malloc oc (CBS_data body)) (\<lambda>_. ret inp') out1)) = (Some inp'', out2)"
        "CBB_flush malloc d out2 = (Some u, out3)"
        "cbs_convert_ber malloc d st eoc depth inp'' out3 = (Some rest, out')"
    by (subst (asm) cbs_convert_ber.simps) (auto simp: CBS_len_def split: if_splits prod.splits option.splits)
  then show ?case
  proof cases
    case 1
    with refl_appended show ?thesis by (auto intro: at_end)
  next
    case 2
    with refl_appended show ?thesis by (auto intro: at_eoc)
  next
    case 3
    let ?indef = "CBS_len elem = hl \<and> hl > 0 \<and> elem ! (hl - 1) = 0x80"
    have inner: "\<exists>body. ber_contents ct tag (depth + 1) hl elem inp' body inp'' \<and> appended oc body out1 out2"
      if oc: "cbb_ok out1" "oc \<le> length (child out1)"
    proof (cases ?indef)
      case True
      with 3(6) have run: "cbs_convert_ber malloc oc ct True (depth + 1) inp' out1 = (Some inp'', out2)" by simp
      from "1.IH"(1) [OF 3(2,3) 3(1) [symmetric] refl refl refl refl 3(4) 3(5) [symmetric] refl refl True run ok(1) oc]
      moreover have "is_indefinite hl elem" using True by (simp add: is_indefinite_def)
      ultimately show ?thesis by (blast intro: indefinite)
    next
      case False
      then have ni: "\<not> is_indefinite hl elem" by (simp add: is_indefinite_def)
      from 3(6) obtain body where skip: "CBS_skip hl elem = (Some (), body)"
        unfolding if_not_P [OF False] by (auto split: prod.splits option.splits)
      then have body: "body = drop hl elem" by (auto simp: CBS_skip_def andthen_def cbs_get_def ret_def split: if_splits)
      show ?thesis
      proof (cases "tag AND CBS_ASN1_CONSTRUCTED \<noteq> 0")
        case True
        with 3(6) skip obtain r where run: "cbs_convert_ber malloc oc ct False (depth + 1) body out1 = (Some r, out2)"
          and inp'': "inp'' = inp'"
          unfolding if_not_P [OF False] by (auto elim: andthen_SomeE)
        from "1.IH"(2) [OF 3(2,3) 3(1) [symmetric] refl refl refl refl 3(4) 3(5) [symmetric] refl refl False
            skip [symmetric] refl True run ok(1) oc]
        show ?thesis using ni True inp'' body by (blast intro: constructed)
      next
        case prim: False
        with 3(6) skip have run: "CBB_add_bytes malloc oc body out1 = (Some (), out2)" and inp'': "inp'' = inp'"
          unfolding if_not_P [OF False] by (auto elim: andthen_SomeE simp: CBS_data_def)
        have "length body < 2 ^ 64" using ber_element_length [OF 3(1)] body by simp
        from appended_appender [OF appender_add_bytes [OF this] ok(1) oc run]
        show ?thesis using ni prim inp'' body by (auto intro: primitive)
      qed
    qed
    have "\<exists>body. ber_contents (child_string_tag st tag) tag (depth + 1) hl elem inp' body inp'' \<and>
        appended d (wrap st tag body) out out3 \<and> (st \<noteq> 0 \<longrightarrow> tag AND NOT CBS_ASN1_CONSTRUCTED = st)"
    proof (cases "st = 0")
      case False
      with 3(5) have o: "oc = d" "ct = st" "out1 = out" and tag: "tag AND NOT CBS_ASN1_CONSTRUCTED = st"
        by (auto simp: ber_out_contents_def split: if_splits)
      from inner o ok obtain body where body: "ber_contents ct tag (depth + 1) hl elem inp' body inp''"
        "appended d body out out2" by auto
      then have "cbb_ok out2" "d \<le> length (child out2)" by (simp_all add: appended_def)
      from appended_trans [OF body(2) appended_appender [OF appender_flush ok(1) this 3(7)]]
      have "appended d body out out3" by simp
      with body(1) False tag o(2) show ?thesis by (auto simp: wrap_def child_string_tag_def)
    next
      case True
      with 3(5) have o: "CBB_add_asn1 malloc d (out_tag tag) out = (Some (), out1)" "oc = Suc d"
        "ct = child_string_tag st tag"
        by (auto simp: ber_out_contents_def out_tag_def child_string_tag_def Let_def elim!: andthen_SomeE split: if_splits)
      have "cbb_ok out1" using add_asn1.keeps [OF ok, of "out_tag tag"] o(1) by simp
      moreover have "Suc d \<le> length (child out1)" using add_asn1.opens [OF ok o(1)] ok(3) by simp
      ultimately obtain body where body: "ber_contents ct tag (depth + 1) hl elem inp' body inp''"
        "appended (Suc d) body out1 out2" using inner o(2) by auto
      from appended_element [OF ok o(1) body(2) 3(7)] body(1) True o(3)
      show ?thesis by (auto simp: wrap_def)
    qed
    then obtain body where body: "ber_contents (child_string_tag st tag) tag (depth + 1) hl elem inp' body inp''"
      "appended d (wrap st tag body) out out3" "st \<noteq> 0 \<longrightarrow> tag AND NOT CBS_ASN1_CONSTRUCTED = st" by blast
    then have "cbb_ok out3" "d \<le> length (child out3)" by (simp_all add: appended_def)
    from "1.IH"(3) [OF 3(2,3) 3(1) [symmetric] refl refl refl refl 3(4) 3(5) [symmetric] refl refl
            3(6) [symmetric] refl 3(7) [symmetric] refl 3(8) ok(1) this]
    obtain bytes where bytes: "ber_to_der st eoc depth inp'' bytes rest" "appended d bytes out3 out'" by blast
    have "depth \<le> kMaxDepth" using 3(2) by simp
    from element [OF this 3(1) 3(4) body(3) body(1) bytes(1)] appended_trans [OF body(2) bytes(2)]
    show ?thesis by blast
  qed
qed

section \<open>The output is DER\<close>

lemma ber_to_der_depth: "ber_to_der st eoc depth s out rest \<Longrightarrow> depth \<le> kMaxDepth"
  by (erule ber_to_der.cases) auto

lemma ber_to_der_rest: "ber_to_der st eoc depth s out rest \<Longrightarrow> \<not> eoc \<Longrightarrow> rest = []"
  by (induction rule: ber_to_der_ber_contents.inducts(1) [where ?P2.0 = "\<lambda>_ _ _ _ _ _ _ _. True"]) auto

lemma out_tag_cases:
  obtains (plain) "out_tag tag AND CBS_ASN1_CONSTRUCTED = 0"
  | (descend) "tag AND CBS_ASN1_CONSTRUCTED \<noteq> 0" "\<not> is_string_type tag" "out_tag tag = tag" "child_string_tag 0 tag = 0"
proof (cases "tag AND CBS_ASN1_CONSTRUCTED \<noteq> 0 \<and> \<not> is_string_type tag")
  case True
  then show thesis by (intro descend) (auto simp: out_tag_def child_string_tag_def)
next
  case False
  have "(tag AND NOT CBS_ASN1_CONSTRUCTED) AND CBS_ASN1_CONSTRUCTED = 0"
    by (simp add: and.assoc)
  with False show thesis by (intro plain) (auto simp: out_tag_def)
qed

lemma length_der_body: "length body \<le> length (der tag body)"
  by (simp add: der_def)

lemma find_ber_converted:
  "ber_to_der st eoc depth s out rest \<Longrightarrow> st = 0 \<longrightarrow> length out < 2 ^ 32 \<longrightarrow>
     (\<forall>f t. find_ber_loop depth f (out @ t) = find_ber_loop depth (out = [] \<and> f) t)"
  "ber_contents st tag depth hl elem s body s' \<Longrightarrow>
     st = 0 \<longrightarrow> tag AND CBS_ASN1_CONSTRUCTED \<noteq> 0 \<longrightarrow> length body < 2 ^ 32 \<longrightarrow> cbs_find_ber depth body = Some False"
proof (induction rule: ber_to_der_ber_contents.inducts)
  case (element depth s elem tag hl f s' st body s'' eoc out rest)
  show ?case
  proof (intro impI allI)
    fix g t
    assume st: "st = 0" and len: "length (wrap st tag body @ out) < 2 ^ 32"
    then have body: "length body < 2 ^ 32" and out: "length out < 2 ^ 32"
      using length_der_body [of body "out_tag tag"] by (simp_all add: wrap_def)
    have "find_ber_loop depth g (der (out_tag tag) body @ out @ t) = find_ber_loop depth False (out @ t)"
    proof (cases tag rule: out_tag_cases)
      case plain
      with find_ber_loop_der [OF body] show ?thesis by simp
    next
      case descend
      then have "cbs_find_ber (depth + 1) body = Some False" using element.IH(1) body st by simp
      with descend find_ber_loop_der [OF body] show ?thesis by simp
    qed
    moreover have "find_ber_loop depth False (out @ t) = find_ber_loop depth False t"
      using element.IH(2) st out by simp
    ultimately show "find_ber_loop depth g ((wrap st tag body @ out) @ t)
        = find_ber_loop depth (wrap st tag body @ out = [] \<and> g) t"
      using st der_not_Nil [of "out_tag tag" body "[]"] by (simp add: wrap_def)
  qed
next
  case (indefinite hl elem st depth s body s' tag)
  show ?case
  proof (intro impI)
    assume "st = 0" "tag AND CBS_ASN1_CONSTRUCTED \<noteq> 0" "length body < 2 ^ 32"
    with indefinite.IH have "find_ber_loop depth False (body @ []) = find_ber_loop depth (body = [] \<and> False) []"
      by blast
    with ber_to_der_depth [OF indefinite.hyps(2)] show "cbs_find_ber depth body = Some False"
      by (simp add: cbs_find_ber.simps)
  qed
next
  case (constructed hl elem tag st depth body r s)
  show ?case
  proof (intro impI)
    assume "st = 0" "tag AND CBS_ASN1_CONSTRUCTED \<noteq> 0" "length body < 2 ^ 32"
    with constructed.IH have "find_ber_loop depth False (body @ []) = find_ber_loop depth (body = [] \<and> False) []"
      by blast
    with ber_to_der_depth [OF constructed.hyps(3)] show "cbs_find_ber depth body = Some False"
      by (simp add: cbs_find_ber.simps)
  qed
qed auto

section \<open>Properties\<close>

lemma ber_to_der_run:
  assumes "malloc_returns_size malloc" "length s < 2 ^ 64"
    and "CBS_asn1_ber_to_der malloc s = (Some (out, Some storage), rest)"
  shows "cbs_find_ber 0 s = Some True" "ber_to_der 0 False 0 s out rest"
proof -
  from assms(3) obtain u cbb cbb1 n cbb2 where f: "cbs_find_ber 0 s = Some True" and init: "CBB_init malloc (length s) = (Some u, cbb)"
    and conv: "cbs_convert_ber malloc 0 0 False 0 s cbb = (Some rest, cbb1)"
    and fin: "CBB_finish malloc 0 True cbb1 = (Some (storage, n), cbb2)" and out: "out = take n storage"
    by (auto simp: CBS_asn1_ber_to_der_def CBS_init_def CBS_len_def andthen_Some_iff split: option.splits prod.splits if_splits)
  note ok = CBB_init_ok [OF assms(1,2) init]
  show "cbs_find_ber 0 s = Some True" by (rule f)
  from convert_ber_appends [OF conv assms(1) ok(1)] obtain bytes where
    bytes: "ber_to_der 0 False 0 s bytes rest" "appended 0 bytes cbb cbb1" by auto
  have "andthen (ret ()) (\<lambda>_. CBB_finish malloc 0 True) cbb1 = (Some (storage, n), cbb2)"
    using fin by (simp add: andthen_def ret_def)
  from appender.finished [OF appender_ret refl assms(1) _ this] bytes(2) have "take n storage = view 0 cbb1"
    by (simp add: appended_def)
  with bytes(2) ok out have "out = bytes" by (simp add: appended_def)
  with bytes(1) show "ber_to_der 0 False 0 s out rest" by simp
qed

text \<open>C22 (ber_to_der_refines): when \<open>CBS_asn1_ber_to_der\<close> converts, its output is related to its input by the
conversion relation, which says what becomes of every element and mentions no builder: an indefinite
length becomes a definite one, the parts of a constructed string are concatenated, everything
else keeps its tag and its converted contents. The whole input is consumed.\<close>

theorem ber_to_der_refines:
  assumes "malloc_returns_size malloc" "length s < 2 ^ 64"
    and "CBS_asn1_ber_to_der malloc s = (Some (out, Some storage), rest)"
  shows "ber_to_der 0 False 0 s out rest \<and> rest = []"
  using ber_to_der_run [OF assms] ber_to_der_rest by blast

text \<open>C23 (ber_to_der_output_is_der): the output of a conversion needs no conversion: the walk that looks for BER
finds none in it, and within the depth that it accepts.\<close>

theorem ber_to_der_output_is_der:
  assumes "malloc_returns_size malloc" "length s < 2 ^ 64"
    and "CBS_asn1_ber_to_der malloc s = (Some (out, Some storage), rest)" "length out < 2 ^ 32"
  shows "cbs_find_ber 0 out = Some False"
proof -
  note r = ber_to_der_run(2) [OF assms(1-3)]
  from find_ber_converted(1) [OF r] assms(4) have "find_ber_loop 0 False (out @ []) = find_ber_loop 0 (out = [] \<and> False) []"
    by blast
  then show ?thesis by (simp add: cbs_find_ber.simps)
qed

text \<open>The walk loses what it has found: a nested element in BER goes unnoticed when an element in DER
follows it in the same constructed element.\<close>

text \<open>C24 (ber_found_is_overwritten): \<open>cbs_find_ber\<close> reports that no conversion is needed for a sequence whose
first element contains BER, whatever that is, when a primitive element follows it: the next call of
\<open>CBS_get_any_ber_asn1_element\<close> resets \<open>*ber_found\<close>. \<open>CBS_asn1_ber_to_der\<close> then returns the input as it is.\<close>

theorem ber_found_is_overwritten:
  assumes "seq AND CBS_ASN1_CONSTRUCTED \<noteq> 0" "\<not> is_string_type seq" "prim AND CBS_ASN1_CONSTRUCTED = 0"
    and "cbs_find_ber 2 inner = Some True"
    and "length (der seq inner @ der prim x) < 2 ^ 32"
  shows "CBS_asn1_ber_to_der malloc (der seq (der seq inner @ der prim x)) =
    (Some (der seq (der seq inner @ der prim x), None), [])"
proof -
  let ?body = "der seq inner @ der prim x"
  have len: "length inner < 2 ^ 32" "length x < 2 ^ 32"
    using assms(5) length_der_body [of inner seq] length_der_body [of x prim] by simp_all
  have "find_ber_loop 1 False ?body = find_ber_loop 1 True (der prim x)"
    using find_ber_loop_der [OF len(1)] assms(1,2,4) by (simp add: numeral_2_eq_2)
  also have "\<dots> = find_ber_loop 1 False []"
    using find_ber_loop_der [OF len(2), of 1 True prim "[]"] assms(3) by simp
  finally have "cbs_find_ber 1 ?body = Some False" by (simp add: cbs_find_ber.simps kMaxDepth_def)
  then have "cbs_find_ber 0 (der seq ?body) = Some False"
    using find_ber_loop_der [OF assms(5), of 0 False seq "[]"] assms(1,2) by (simp add: cbs_find_ber.simps kMaxDepth_def)
  moreover have "CBS_get_any_asn1_element (der seq ?body) =
      (Some (der seq ?body, seq, length (der_tag seq) + length (der_len (length ?body))), [])"
    using assms(5) unfolding CBS_get_any_asn1_element_Some_iff by (intro exI [of _ ?body]) simp
  ultimately show ?thesis by (simp add: CBS_asn1_ber_to_der_def andthen_Some ret_def)
qed

definition nested_ber :: "byte list" where
  "nested_ber = [0x30, 0x08, 0x30, 0x04, 0x30, 0x80, 0x00, 0x00, 0x05, 0x00]"

theorem ber_found_is_overwritten_witness:
  "CBS_asn1_ber_to_der zero_malloc nested_ber = (Some (nested_ber, None), [])"
proof -
  define seq :: u32 where "seq = 0x20000010"
  define inner :: "byte list" where "inner = [0x30, 0x80, 0x00, 0x00]"
  have c: "seq AND CBS_ASN1_CONSTRUCTED \<noteq> 0" "\<not> is_string_type seq" "(5 :: u32) AND CBS_ASN1_CONSTRUCTED = 0"
    by (simp_all add: seq_def CBS_ASN1_CONSTRUCTED_def CBS_ASN1_TAG_SHIFT_def is_string_type_def CBS_ASN1_OCTETSTRING_def)
  have tags: "der_tag seq = [0x30]" "der_tag 5 = [0x05]"
    by (simp_all add: der_tag_def seq_def)
  then have d: "der 5 [] = [0x05, 0x00]" "der seq (der seq inner @ [0x05, 0x00]) = nested_ber"
    by (simp_all add: der_def der_len_def inner_def nested_ber_def)
  have "CBS_get_any_ber_asn1_element inner = (Some ([0x30, 0x80], seq, 2, True), [0, 0])"
    unfolding inner_def seq_def by code_simp
  moreover have "inner \<noteq> []" by (simp add: inner_def)
  ultimately have "find_ber_loop 2 False inner = Some True"
    by (subst find_ber_loop.simps) (simp add: CBS_len_def)
  then have "cbs_find_ber 2 inner = Some True"
    by (simp add: cbs_find_ber.simps kMaxDepth_def)
  from ber_found_is_overwritten [OF c this, of "[]" zero_malloc] d show ?thesis
    by (simp add: der_def der_len_def tags inner_def)
qed

definition indefinite_sequence :: "byte list" where
  "indefinite_sequence = [0x30, 0x80, 0x00, 0x00]"

lemma indefinite_sequence_run:
  "CBS_asn1_ber_to_der zero_malloc indefinite_sequence = (Some ([0x30, 0x00], Some [0x30, 0x00, 0x00, 0x00]), [])"
  unfolding indefinite_sequence_def by code_simp

theorem ber_to_der_refines_witness:
  "ber_to_der 0 False 0 indefinite_sequence [0x30, 0x00] []"
  using ber_to_der_refines [OF zero_malloc_returns_size _ indefinite_sequence_run]
  by (simp add: indefinite_sequence_def)

theorem ber_to_der_output_is_der_witness:
  "cbs_find_ber 0 [0x30, 0x00] = Some False"
  using ber_to_der_output_is_der [OF zero_malloc_returns_size _ indefinite_sequence_run]
  by (simp add: indefinite_sequence_def)

section \<open>Implicitly tagged strings\<close>

lemma implicit_chunks_append:
  assumes "implicit_string_chunks malloc inner_tag str cbb = (Some u, cbb')"
    and "malloc_returns_size malloc" "cbb_ok cbb"
  shows "\<exists>chunks. str = concat (map (der inner_tag) chunks) \<and> appended 0 (concat chunks) cbb cbb'"
  using assms
proof (induction malloc inner_tag str cbb rule: implicit_string_chunks.induct)
  case (1 malloc inner_tag str cbb)
  show ?case
  proof (cases "str = []")
    case True
    with "1.prems" show ?thesis
      by (intro exI [of _ "[]"]) (simp add: implicit_string_chunks.simps [of _ _ "[]"] CBS_len_def appended_def)
  next
    case False
    then obtain chunk str' c1 where get: "CBS_get_asn1 inner_tag str = (Some chunk, str')"
      and add: "CBB_add_bytes malloc 0 chunk cbb = (Some (), c1)"
      and rest: "implicit_string_chunks malloc inner_tag str' c1 = (Some u, cbb')"
      using "1.prems"(1) by (subst (asm) implicit_string_chunks.simps)
        (auto simp: CBS_len_def CBS_data_def split: prod.splits option.splits elim: andthen_SomeE)
    have e: "str = der inner_tag chunk @ str'" "length chunk < 2 ^ 32"
      using get by (simp_all add: CBS_get_asn1_Some_iff)
    then have "length chunk < 2 ^ 64" by simp
    from appended_appender [OF appender_add_bytes [OF this] "1.prems"(2,3) _ add]
    have a1: "appended 0 chunk cbb c1" by simp
    have add2: "CBB_add_bytes malloc 0 (CBS_data chunk) cbb = (Some (), c1)" using add by (simp add: CBS_data_def)
    have "\<not> \<not> 0 < CBS_len str" using False by (simp add: CBS_len_def)
    from "1.IH" [OF this get [symmetric] refl add2 rest "1.prems"(2)] a1
    obtain chunks where "str' = concat (map (der inner_tag) chunks)" "appended 0 (concat chunks) c1 cbb'"
      by (auto simp: appended_def)
    with e(1) appended_trans [OF a1] show ?thesis by (intro exI [of _ "chunk # chunks"]) simp
  qed
qed

text \<open>a string that \<open>CBS_get_asn1_implicit_string\<close> returns is the contents of
the primitive element with the outer tag, or, with a storage of its own, the concatenation of the contents of
the primitive elements with the inner tag that the constructed element with the outer tag consists of.\<close>

theorem implicit_string_correct:
  assumes "malloc_returns_size malloc" "length s < 2 ^ 64"
    and "CBS_get_asn1_implicit_string malloc outer_tag inner_tag s = (Some (out, storage), rest)"
  shows "case storage of
      None \<Rightarrow> s = der outer_tag out @ rest
    | Some data \<Rightarrow> \<exists>chunks. s = der (outer_tag OR CBS_ASN1_CONSTRUCTED) (concat (map (der inner_tag) chunks)) @ rest \<and>
        out = concat chunks"
proof (cases "CBS_peek_asn1_tag s outer_tag")
  case True
  with assms(3) show ?thesis
    by (auto simp: CBS_get_asn1_implicit_string_def andthen_Some_iff CBS_get_asn1_Some_iff)
next
  case False
  with assms(3) obtain u cbb str data n cbb1 where init: "CBB_init malloc (length s) = (Some u, cbb)"
    and get: "CBS_get_asn1 (outer_tag OR CBS_ASN1_CONSTRUCTED) s = (Some str, rest)"
    and run: "andthen (implicit_string_chunks malloc inner_tag str) (\<lambda>_. CBB_finish malloc 0 True) cbb = (Some (data, n), cbb1)"
    and out: "out = take n data" "storage = Some data"
    by (auto simp: CBS_get_asn1_implicit_string_def CBS_init_def CBS_len_def split: option.splits prod.splits if_splits)
  note ok = CBB_init_ok [OF assms(1,2) init]
  from run obtain v c2 where chunks: "implicit_string_chunks malloc inner_tag str cbb = (Some v, c2)"
    and fin: "CBB_finish malloc 0 True c2 = (Some (data, n), cbb1)" by (rule andthen_SomeE)
  from implicit_chunks_append [OF chunks assms(1) ok(1)] obtain cs where
    cs: "str = concat (map (der inner_tag) cs)" "appended 0 (concat cs) cbb c2" by blast
  have "andthen (ret ()) (\<lambda>_. CBB_finish malloc 0 True) c2 = (Some (data, n), cbb1)"
    using fin by (simp add: andthen_def ret_def)
  from appender.finished [OF appender_ret refl assms(1) _ this] cs(2) have "take n data = view 0 c2"
    by (simp add: appended_def)
  with cs(2) ok have "take n data = concat cs" by (simp add: appended_def)
  with cs(1) get out show ?thesis by (auto simp: CBS_get_asn1_Some_iff)
qed

definition implicit_example :: "byte list" where
  "implicit_example = [0xa1, 0x03, 0x04, 0x01, 0x61, 0x09]"

lemma implicit_example_run:
  "CBS_get_asn1_implicit_string zero_malloc 0x80000001 CBS_ASN1_OCTETSTRING implicit_example =
     (Some ([0x61], Some [0x61, 0, 0, 0, 0, 0]), [0x09])"
  by code_simp

lemma implicit_string_correct_witness:
  "\<exists>chunks. implicit_example = der 0xa0000001 (concat (map (der CBS_ASN1_OCTETSTRING) chunks)) @ [0x09] \<and>
     [0x61] = concat chunks"
proof -
  have "(0x80000001 :: u32) OR CBS_ASN1_CONSTRUCTED = 0xa0000001"
    by (simp add: CBS_ASN1_CONSTRUCTED_def CBS_ASN1_TAG_SHIFT_def)
  with implicit_string_correct [OF zero_malloc_returns_size _ implicit_example_run]
  show ?thesis by (simp add: implicit_example_def)
qed

end
