(* ===== verification/PB_Encode.thy ===== *)
theory PB_Encode
  imports Prelude
begin

unbundle bit_operations_syntax

text \<open>
  The wire format writers of nanopb (\<open>pb_encode.c\<close>, \<open>pb_encode.h\<close>, \<open>pb.h\<close>): output streams, varints,
  zigzag and fixed-width integers, tags, strings and length-delimited submessages. The code is
  modelled in its default configuration (64-bit integers, callback streams, error messages);
  \<open>size_t\<close> is 64 bits wide.
\<close>

section \<open>Output streams\<close>

text \<open>
  A stream's callback and its \<open>state\<close> together: no callback (\<open>PB_OSTREAM_SIZING\<close>), \<open>buf_write\<close> with
  the bytes that were put into the buffer so far, or a callback of the user, which returns
  success and its new state.
\<close>

datatype 's sink =
    Sizing
  | Buffer "byte list"
  | Callback "'s \<Rightarrow> byte list \<Rightarrow> bool \<times> 's" 's

record 's pb_ostream =
  sink :: "'s sink"
  max_size :: u64
  bytes_written :: u64
  errmsg :: "string option"

definition PB_OSTREAM_SIZING :: "'s pb_ostream" where
  "PB_OSTREAM_SIZING = \<lparr>sink = Sizing, max_size = 0, bytes_written = 0, errmsg = None\<rparr>"

definition pb_ostream_from_buffer :: "u64 \<Rightarrow> 's pb_ostream" where
  "pb_ostream_from_buffer bufsize =
     \<lparr>sink = Buffer [], max_size = bufsize, bytes_written = 0, errmsg = None\<rparr>"

text \<open>\<open>PB_SET_ERROR\<close> keeps the first message.\<close>

definition PB_RETURN_ERROR :: "string \<Rightarrow> ('s pb_ostream, 'a) op" where
  "PB_RETURN_ERROR msg stream =
     (None, stream\<lparr>errmsg := (case errmsg stream of None \<Rightarrow> Some msg | Some m \<Rightarrow> Some m)\<rparr>)"

fun is_sizing :: "'s sink \<Rightarrow> bool" where
  "is_sizing Sizing = True"
| "is_sizing _ = False"

fun buf_write :: "'s sink \<Rightarrow> byte list \<Rightarrow> bool \<times> 's sink" where
  "buf_write (Buffer dest) buf = (True, Buffer (dest @ buf))"
| "buf_write (Callback f state) buf = (case f state buf of (ok, state) \<Rightarrow> (ok, Callback f state))"
| "buf_write Sizing buf = (True, Sizing)"

text \<open>The \<open>count\<close> bytes at \<open>buf\<close>; a sizing stream does not look at them.\<close>

definition pb_write :: "byte list \<Rightarrow> u64 \<Rightarrow> ('s pb_ostream, unit) op" where
  "pb_write buf count stream =
     (if count > 0 \<and> \<not> is_sizing (sink stream) then
        if bytes_written stream + count < bytes_written stream \<or>
           bytes_written stream + count > max_size stream
        then PB_RETURN_ERROR ''stream full'' stream
        else
          (case buf_write (sink stream) (take (unat count) buf) of
             (False, k) \<Rightarrow> PB_RETURN_ERROR ''io error'' (stream\<lparr>sink := k\<rparr>)
           | (True, k) \<Rightarrow> (Some (), stream\<lparr>sink := k, bytes_written := bytes_written stream + count\<rparr>))
      else (Some (), stream\<lparr>bytes_written := bytes_written stream + count\<rparr>))"

section \<open>Integers\<close>

function varint_loop :: "u64 \<Rightarrow> byte list" where
  "varint_loop value =
     (if value = 0 then []
      else ucast ((value AND 0x7f) OR 0x80) # varint_loop (drop_bit 7 value))"
  by pat_completeness auto
termination
  by (relation "measure unat") (auto simp: unat_drop_bit unat_pos_iff intro!: div_less_dividend)

declare varint_loop.simps [simp del]

definition pb_encode_varint :: "u64 \<Rightarrow> ('s pb_ostream, unit) op" where
  "pb_encode_varint value =
     (if value \<le> 0x7f then pb_write [ucast value] 1
      else
        let buffer = varint_loop value; i = length buffer;
            buffer = buffer[i - 1 := buffer ! (i - 1) AND 0x7f]
        in pb_write buffer (word_of_nat i))"

text \<open>The argument is the 64-bit pattern of an \<open>int64_t\<close>.\<close>

definition zigzag :: "u64 \<Rightarrow> u64" where
  "zigzag value = (if sint value < 0 then NOT (push_bit 1 value) else push_bit 1 value)"

definition pb_encode_svarint :: "u64 \<Rightarrow> ('s pb_ostream, unit) op" where
  "pb_encode_svarint value = pb_encode_varint (zigzag value)"

definition pb_encode_fixed32 :: "u32 \<Rightarrow> ('s pb_ostream, unit) op" where
  "pb_encode_fixed32 val =
     pb_write [ucast (val AND 0xff), ucast (drop_bit 8 val AND 0xff), ucast (drop_bit 16 val AND 0xff),
               ucast (drop_bit 24 val AND 0xff)] 4"

definition pb_encode_fixed64 :: "u64 \<Rightarrow> ('s pb_ostream, unit) op" where
  "pb_encode_fixed64 val =
     pb_write [ucast (val AND 0xff), ucast (drop_bit 8 val AND 0xff), ucast (drop_bit 16 val AND 0xff),
               ucast (drop_bit 24 val AND 0xff), ucast (drop_bit 32 val AND 0xff), ucast (drop_bit 40 val AND 0xff),
               ucast (drop_bit 48 val AND 0xff), ucast (drop_bit 56 val AND 0xff)] 8"

section \<open>Fields\<close>

text \<open>\<open>pb_size_t\<close> has 32 bits in the configuration that the Pods are built with (\<open>PB_FIELD_32BIT\<close>).\<close>

record pb_field =
  tag :: u32
  type :: byte
  data_offset :: u32
  size_offset :: u32
  data_size :: u32
  array_size :: u32
  ptr :: u64

definition PB_LTYPE :: "byte \<Rightarrow> byte" where "PB_LTYPE x = x AND 0x0f"
definition PB_HTYPE :: "byte \<Rightarrow> byte" where "PB_HTYPE x = x AND 0x30"
definition PB_ATYPE :: "byte \<Rightarrow> byte" where "PB_ATYPE x = x AND 0xc0"

definition PB_WT_VARINT :: u32 where "PB_WT_VARINT = 0"
definition PB_WT_64BIT :: u32 where "PB_WT_64BIT = 1"
definition PB_WT_STRING :: u32 where "PB_WT_STRING = 2"
definition PB_WT_32BIT :: u32 where "PB_WT_32BIT = 5"

definition pb_encode_tag :: "u32 \<Rightarrow> u32 \<Rightarrow> ('s pb_ostream, unit) op" where
  "pb_encode_tag wiretype field_number =
     (let t = push_bit 3 (ucast field_number) OR ucast wiretype in pb_encode_varint t)"

definition pb_encode_tag_for_field :: "pb_field \<Rightarrow> ('s pb_ostream, unit) op" where
  "pb_encode_tag_for_field field =
     (let ltype = PB_LTYPE (type field) in
      if ltype = 0x00 \<or> ltype = 0x01 \<or> ltype = 0x02 \<or> ltype = 0x03 then
        pb_encode_tag PB_WT_VARINT (tag field)
      else if ltype = 0x04 then pb_encode_tag PB_WT_32BIT (tag field)
      else if ltype = 0x05 then pb_encode_tag PB_WT_64BIT (tag field)
      else if ltype = 0x06 \<or> ltype = 0x07 \<or> ltype = 0x08 \<or> ltype = 0x0a then
        pb_encode_tag PB_WT_STRING (tag field)
      else PB_RETURN_ERROR ''invalid field type'')"

definition pb_encode_string :: "byte list \<Rightarrow> u64 \<Rightarrow> ('s pb_ostream, unit) op" where
  "pb_encode_string buffer sz = andthen (pb_encode_varint sz) (\<lambda>_. pb_write buffer sz)"

section \<open>Submessages\<close>

text \<open>
  \<open>enc\<close> is the call of \<open>pb_encode\<close> on the fields of the submessage. It runs twice: on a
  sizing stream, and on a substream that has the parent's callback and may write exactly the
  size that the first run found.
\<close>

definition pb_encode_submessage :: "('s pb_ostream, unit) op \<Rightarrow> ('s pb_ostream, unit) op" where
  "pb_encode_submessage enc stream =
     (case enc PB_OSTREAM_SIZING of
        (None, substream) \<Rightarrow> (None, stream\<lparr>errmsg := errmsg substream\<rparr>)
      | (Some _, substream) \<Rightarrow>
          let sz = bytes_written substream in
          (case pb_encode_varint sz stream of
             (None, stream) \<Rightarrow> (None, stream)
           | (Some _, stream) \<Rightarrow>
               if is_sizing (sink stream) then pb_write [] sz stream
               else if bytes_written stream + sz > max_size stream then
                 PB_RETURN_ERROR ''stream full'' stream
               else
                 (case enc \<lparr>sink = sink stream, max_size = sz, bytes_written = 0, errmsg = None\<rparr> of
                    (status, substream) \<Rightarrow>
                      let stream = stream\<lparr>bytes_written := bytes_written stream + bytes_written substream,
                                          sink := sink substream, errmsg := errmsg substream\<rparr> in
                      if bytes_written substream \<noteq> sz then
                        PB_RETURN_ERROR ''submsg size changed'' stream
                      else (status, stream))))"

text \<open>The three callers that only differ in what they do around the call of \<open>pb_encode\<close>.\<close>

definition pb_encode_delimited :: "('s pb_ostream, unit) op \<Rightarrow> ('s pb_ostream, unit) op" where
  "pb_encode_delimited enc = pb_encode_submessage enc"

definition pb_encode_nullterminated :: "('s pb_ostream, unit) op \<Rightarrow> ('s pb_ostream, unit) op" where
  "pb_encode_nullterminated enc = andthen enc (\<lambda>_. pb_write [0] 1)"

definition pb_get_encoded_size :: "('s pb_ostream, unit) op \<Rightarrow> u64 option" where
  "pb_get_encoded_size enc =
     (case enc PB_OSTREAM_SIZING of
        (None, _) \<Rightarrow> None
      | (Some _, stream) \<Rightarrow> Some (bytes_written stream))"

section \<open>What every encoder promises\<close>

text \<open>
  An encoder stands for the bytes that it writes. On a sizing stream it counts them, on a buffer
  with enough room it appends them, and on a buffer without enough room it fails. These laws
  are what \<open>pb_encode_submessage\<close> relies on when it runs the same encoder twice.
\<close>

locale encoder =
  fixes enc :: "('s pb_ostream, unit) op" and bytes :: "byte list"
  assumes sizing: "sink s = Sizing \<Longrightarrow>
      enc s = (Some (), s\<lparr>bytes_written := bytes_written s + word_of_nat (length bytes)\<rparr>)"
    and fits: "sink s = Buffer out \<Longrightarrow> errmsg s = None \<Longrightarrow> unat (bytes_written s) + length bytes \<le> unat (max_size s) \<Longrightarrow>
      enc s = (Some (), s\<lparr>sink := Buffer (out @ bytes), bytes_written := bytes_written s + word_of_nat (length bytes)\<rparr>)"
    and full: "sink s = Buffer out \<Longrightarrow> errmsg s = None \<Longrightarrow> unat (bytes_written s) \<le> unat (max_size s) \<Longrightarrow>
      unat (max_size s) < unat (bytes_written s) + length bytes \<Longrightarrow> unat (max_size s) + length bytes < 2 ^ 64 \<Longrightarrow>
      fst (enc s) = None"
begin

lemma encoded_size: "pb_get_encoded_size enc = Some (word_of_nat (length bytes))"
  using sizing [of PB_OSTREAM_SIZING] by (simp add: pb_get_encoded_size_def PB_OSTREAM_SIZING_def)

lemma into_buffer:
  "length bytes \<le> unat n \<Longrightarrow> enc (pb_ostream_from_buffer n) =
     (Some (), \<lparr>sink = Buffer bytes, max_size = n, bytes_written = word_of_nat (length bytes), errmsg = None\<rparr>)"
  using fits [of "pb_ostream_from_buffer n" "[]"] by (simp add: pb_ostream_from_buffer_def)

lemma buffer_too_small:
  "unat n < length bytes \<Longrightarrow> unat n + length bytes < 2 ^ 64 \<Longrightarrow> fst (enc (pb_ostream_from_buffer n)) = None"
  using full [of "pb_ostream_from_buffer n" "[]"] by (simp add: pb_ostream_from_buffer_def)

end

lemma unat_add_le:
  assumes "unat a + n \<le> unat (m :: u64)"
  shows "unat (a + word_of_nat n :: u64) = unat a + n"
proof -
  have "unat a + n < 2 ^ 64" using assms u64_bound [of m] by simp
  then show ?thesis by (simp add: unat_word_ariths unsigned_of_nat take_bit_eq_mod)
qed

lemma encoder_write:
  assumes "length bytes < 2 ^ 64"
  shows "encoder (pb_write bytes (word_of_nat (length bytes))) bytes"
proof unfold_locales
  fix s :: "'a pb_ostream" and out
  have len: "unat (word_of_nat (length bytes) :: u64) = length bytes" using assms by simp
  have pos: "(word_of_nat (length bytes) :: u64) > 0 \<longleftrightarrow> bytes \<noteq> []"
    using len by (simp add: word_less_nat_alt)
  show "sink s = Sizing \<Longrightarrow> pb_write bytes (word_of_nat (length bytes)) s =
      (Some (), s\<lparr>bytes_written := bytes_written s + word_of_nat (length bytes)\<rparr>)"
    by (simp add: pb_write_def)
  show "pb_write bytes (word_of_nat (length bytes)) s =
      (Some (), s\<lparr>sink := Buffer (out @ bytes), bytes_written := bytes_written s + word_of_nat (length bytes)\<rparr>)"
    if "sink s = Buffer out" "errmsg s = None" "unat (bytes_written s) + length bytes \<le> unat (max_size s)"
  proof (cases "bytes = []")
    case True
    with that show ?thesis by (simp add: pb_write_def)
  next
    case False
    note u = unat_add_le [OF that(3)]
    have "\<not> (bytes_written s + word_of_nat (length bytes) < bytes_written s \<or>
        bytes_written s + word_of_nat (length bytes) > max_size s)"
      using that(3) by (simp add: word_less_nat_alt u)
    with False that(1) show ?thesis by (simp add: pb_write_def pos len)
  qed
  show "fst (pb_write bytes (word_of_nat (length bytes)) s) = None"
    if h: "sink s = Buffer out" "errmsg s = None" "unat (bytes_written s) \<le> unat (max_size s)"
      "unat (max_size s) < unat (bytes_written s) + length bytes" "unat (max_size s) + length bytes < 2 ^ 64"
  proof -
    have "unat (bytes_written s + word_of_nat (length bytes)) = unat (bytes_written s) + length bytes"
      using h by (simp add: unat_word_ariths len)
    then have "bytes_written s + word_of_nat (length bytes) > max_size s"
      using h(4) by (simp add: word_less_nat_alt)
    moreover have "bytes \<noteq> []" using h by auto
    ultimately show ?thesis using h(1) by (simp add: pb_write_def pos PB_RETURN_ERROR_def)
  qed
qed

lemma encoder_andthen:
  assumes a: "encoder f xs" and b: "encoder g ys"
  shows "encoder (andthen f (\<lambda>_. g)) (xs @ ys)"
proof unfold_locales
  fix s :: "'a pb_ostream" and out
  have sum: "w + word_of_nat (length xs) + word_of_nat (length ys) = w + word_of_nat (length (xs @ ys))" for w :: u64
    by (simp add: add.assoc)
  show "sink s = Sizing \<Longrightarrow> andthen f (\<lambda>_. g) s =
      (Some (), s\<lparr>bytes_written := bytes_written s + word_of_nat (length (xs @ ys))\<rparr>)"
    by (simp add: andthen_def encoder.sizing [OF a] encoder.sizing [OF b] add.assoc)
  show "andthen f (\<lambda>_. g) s = (Some (), s\<lparr>sink := Buffer (out @ xs @ ys),
      bytes_written := bytes_written s + word_of_nat (length (xs @ ys))\<rparr>)"
    if h: "sink s = Buffer out" "errmsg s = None" "unat (bytes_written s) + length (xs @ ys) \<le> unat (max_size s)"
  proof -
    have 1: "unat (bytes_written s) + length xs \<le> unat (max_size s)" using h(3) by simp
    define s1 where "s1 = s\<lparr>sink := Buffer (out @ xs), bytes_written := bytes_written s + word_of_nat (length xs)\<rparr>"
    have "g s1 = (Some (), s1\<lparr>sink := Buffer ((out @ xs) @ ys), bytes_written := bytes_written s1 + word_of_nat (length ys)\<rparr>)"
      by (rule encoder.fits [OF b]) (use h in \<open>simp_all add: s1_def unat_add_le [OF 1]\<close>)
    then show ?thesis
      using encoder.fits [OF a h(1,2) 1] by (simp add: andthen_def s1_def add.assoc)
  qed
  show "fst (andthen f (\<lambda>_. g) s) = None"
    if h: "sink s = Buffer out" "errmsg s = None" "unat (bytes_written s) \<le> unat (max_size s)"
      "unat (max_size s) < unat (bytes_written s) + length (xs @ ys)" "unat (max_size s) + length (xs @ ys) < 2 ^ 64"
  proof (cases "unat (bytes_written s) + length xs \<le> unat (max_size s)")
    case True
    define s1 where "s1 = s\<lparr>sink := Buffer (out @ xs), bytes_written := bytes_written s + word_of_nat (length xs)\<rparr>"
    have "fst (g s1) = None"
      by (rule encoder.full [OF b, of _ "out @ xs"]) (use h True in \<open>simp_all add: s1_def unat_add_le [OF True]\<close>)
    then show ?thesis using encoder.fits [OF a h(1,2) True] by (simp add: andthen_def s1_def)
  next
    case False
    then have "fst (f s) = None" using h by (intro encoder.full [OF a h(1,2)]) simp_all
    then show ?thesis by (cases "f s") (simp add: andthen_def)
  qed
qed

section \<open>Varints\<close>

text \<open>The base-128 varint of the protocol buffers encoding, least significant group first.\<close>

fun varint :: "nat \<Rightarrow> byte list" where
  "varint n = (if n < 128 then [word_of_nat n] else word_of_nat (128 + n mod 128) # varint (n div 128))"

declare varint.simps [simp del]

lemma varint_byte: "unat (ucast ((v AND 0x7f) OR 0x80 :: u64) :: byte) = 128 + unat v mod 128"
proof -
  have "(v AND 0x7f) OR 0x80 = push_bit 7 1 OR (v AND mask 7)"
    by (simp add: mask_eq_exp_minus_1 or.commute)
  moreover have "unat (push_bit 7 1 OR (v AND mask 7) :: u64) = 128 + unat v mod 128"
    by (subst unat_push_or) (simp_all add: unat_and_mask)
  ultimately show ?thesis by (simp add: unat_ucast_mod)
qed

lemma clear_top: "unat (b AND 0x7f :: byte) = unat b mod 128"
  by (rule low_bits)

lemma update_last_Cons:
  "bs \<noteq> [] \<Longrightarrow> (b # bs)[length bs := f ((b # bs) ! length bs)] = b # bs[length bs - 1 := f (bs ! (length bs - 1))]"
  by (cases bs rule: rev_cases) simp_all

lemma varint_loop_eq:
  "v \<noteq> 0 \<Longrightarrow> (let b = varint_loop v; i = length b in b[i - 1 := b ! (i - 1) AND 0x7f]) = varint (unat v)"
proof (induction v rule: varint_loop.induct)
  case (1 v)
  define w where "w = drop_bit 7 v"
  have w: "unat w = unat v div 128" by (simp add: w_def unat_drop_bit)
  have loop: "varint_loop v = ucast ((v AND 0x7f) OR 0x80) # varint_loop w"
    using "1.prems" by (subst varint_loop.simps) (simp add: w_def)
  show ?case
  proof (cases "w = 0")
    case True
    then have "unat v < 128" using w by (simp add: div_eq_0_iff)
    moreover from this have "ucast ((v AND 0x7f) OR 0x80) AND 0x7f = (word_of_nat (unat v) :: byte)"
      by (simp add: word_eq_iff_unat clear_top varint_byte) (simp add: unat_ucast_mod)
    ultimately show ?thesis using True
      by (simp add: loop varint_loop.simps [of 0] varint.simps [of "unat v"])
  next
    case False
    then have ge: "128 \<le> unat v" using w by (metis div_less not_less unsigned_eq_0_iff unsigned_0)
    have ne: "varint_loop w \<noteq> []" using False by (subst varint_loop.simps) simp
    have "ucast ((v AND 0x7f) OR 0x80) = (word_of_nat (128 + unat v mod 128) :: byte)"
      by (simp add: word_eq_iff_unat varint_byte del: of_nat_add)
    with "1.IH" [folded w_def] False "1.prems" ge
      update_last_Cons [OF ne, of _ "\<lambda>b. b AND 0x7f"] show ?thesis
      by (simp add: loop varint.simps [of "unat v"] w Let_def del: of_nat_add)
  qed
qed

lemma length_varint: "n < 128 ^ Suc k \<Longrightarrow> length (varint n) \<le> Suc k"
proof (induction k arbitrary: n)
  case 0
  then show ?case by (simp add: varint.simps)
next
  case (Suc k)
  then have "n div 128 < 128 ^ Suc k" by (simp add: less_mult_imp_div_less mult.commute)
  from Suc.IH [OF this] show ?case by (subst varint.simps) simp
qed

lemma length_varint_u64: "length (varint (unat (v :: u64))) \<le> 10"
proof -
  have "unat v < 2 ^ 64" by (rule u64_bound)
  then have "unat v < 128 ^ Suc 9" by simp
  from length_varint [OF this] show ?thesis by simp
qed

lemma encoder_varint: "encoder (pb_encode_varint v) (varint (unat v))"
proof (cases "v \<le> 0x7f")
  case True
  then have "varint (unat v) = [ucast v]"
    by (simp add: varint.simps [of "unat v"] word_le_nat_alt word_eq_iff_unat unat_ucast_mod)
  with True encoder_write [of "[ucast v]"] show ?thesis by (simp add: pb_encode_varint_def)
next
  case False
  then have "v \<noteq> 0" by auto
  from varint_loop_eq [OF this] have b: "varint (unat v) =
      (varint_loop v)[length (varint_loop v) - 1 := varint_loop v ! (length (varint_loop v) - 1) AND 0x7f]"
    by (simp add: Let_def)
  then have "length (varint (unat v)) = length (varint_loop v)" by simp
  moreover have "length (varint (unat v)) < 2 ^ 64" using length_varint_u64 [of v] by simp
  from encoder_write [OF this] calculation False b show ?thesis
    by (simp add: pb_encode_varint_def Let_def)
qed

interpretation varint: encoder "pb_encode_varint v" "varint (unat v)"
  by (rule encoder_varint)

interpretation svarint: encoder "pb_encode_svarint v" "varint (unat (zigzag v))"
  unfolding pb_encode_svarint_def by (rule encoder_varint)

text \<open>The little-endian bytes of a number.\<close>

definition le_bytes :: "nat \<Rightarrow> nat \<Rightarrow> byte list" where
  "le_bytes n v = map (\<lambda>i. word_of_nat (v div 256 ^ i)) [0..<n]"

lemma length_le_bytes [simp]: "length (le_bytes n v) = n"
  by (simp add: le_bytes_def)

lemma byte_at_32: "(ucast (drop_bit n v AND 0xff) :: byte) = word_of_nat (unat (v :: u32) div 2 ^ n)"
  using unat_and_mask [of "drop_bit n v" 8]
  by (simp add: word_eq_iff_unat unat_ucast_mod unat_drop_bit mask_eq_exp_minus_1)

lemma byte_at_64: "(ucast (drop_bit n v AND 0xff) :: byte) = word_of_nat (unat (v :: u64) div 2 ^ n)"
  using unat_and_mask [of "drop_bit n v" 8]
  by (simp add: word_eq_iff_unat unat_ucast_mod unat_drop_bit mask_eq_exp_minus_1)

lemma encoder_fixed32: "encoder (pb_encode_fixed32 v :: ('s pb_ostream, unit) op) (le_bytes 4 (unat v))"
proof -
  have "pb_encode_fixed32 v = (pb_write (le_bytes 4 (unat v)) (word_of_nat (length (le_bytes 4 (unat v)))) :: ('s pb_ostream, unit) op)"
    using byte_at_32 [of 0 v] by (simp add: pb_encode_fixed32_def le_bytes_def upt_rec byte_at_32)
  then show ?thesis using encoder_write [of "le_bytes 4 (unat v)"] by simp
qed

lemma encoder_fixed64: "encoder (pb_encode_fixed64 v :: ('s pb_ostream, unit) op) (le_bytes 8 (unat v))"
proof -
  have "pb_encode_fixed64 v = (pb_write (le_bytes 8 (unat v)) (word_of_nat (length (le_bytes 8 (unat v)))) :: ('s pb_ostream, unit) op)"
    using byte_at_64 [of 0 v] by (simp add: pb_encode_fixed64_def le_bytes_def upt_rec byte_at_64)
  then show ?thesis using encoder_write [of "le_bytes 8 (unat v)"] by simp
qed

lemma encoder_tag:
  assumes "unat wiretype < 8"
  shows "encoder (pb_encode_tag wiretype n) (varint (unat n * 8 + unat wiretype))"
proof -
  have "unat (push_bit 3 (ucast n) OR ucast wiretype :: u64) = unat n * 8 + unat wiretype"
    using assms u32_bound [of n] by (subst unat_push_or) simp_all
  then show ?thesis using encoder_varint [of "push_bit 3 (ucast n) OR ucast wiretype"]
    by (simp add: pb_encode_tag_def Let_def)
qed

interpretation fixed32: encoder "pb_encode_fixed32 v" "le_bytes 4 (unat v)"
  by (rule encoder_fixed32)

interpretation fixed64: encoder "pb_encode_fixed64 v" "le_bytes 8 (unat v)"
  by (rule encoder_fixed64)

interpretation string_tag: encoder "pb_encode_tag PB_WT_STRING n" "varint (unat n * 8 + 2)"
  using encoder_tag [of PB_WT_STRING n] by (simp add: PB_WT_STRING_def)

lemma encoder_string: 
  assumes "length bytes < 2 ^ 64"
  shows "encoder (pb_encode_string bytes (word_of_nat (length bytes))) (varint (length bytes) @ bytes)"
  using encoder_andthen [OF encoder_varint encoder_write [OF assms], of "word_of_nat (length bytes)"] assms
  by (simp add: pb_encode_string_def)

lemma encoder_submessage:
  assumes enc: "encoder enc bytes" and len: "length bytes < 2 ^ 64"
  shows "encoder (pb_encode_submessage enc) (varint (length bytes) @ bytes)"
proof unfold_locales
  fix s :: "'a pb_ostream" and out
  let ?size = "word_of_nat (length bytes) :: u64"
  let ?v = "varint (length bytes)"
  have size: "unat ?size = length bytes" using len by simp
  have sizing: "enc PB_OSTREAM_SIZING = (Some (), PB_OSTREAM_SIZING\<lparr>bytes_written := ?size\<rparr>)"
    using encoder.sizing [OF enc, of PB_OSTREAM_SIZING] by (simp add: PB_OSTREAM_SIZING_def)
  note var = encoder_varint [of ?size, unfolded size]
  show "sink s = Sizing \<Longrightarrow> pb_encode_submessage enc s =
      (Some (), s\<lparr>bytes_written := bytes_written s + word_of_nat (length (?v @ bytes))\<rparr>)"
    using encoder.sizing [OF var, of s]
    by (simp add: pb_encode_submessage_def sizing Let_def pb_write_def add.assoc)
  show "pb_encode_submessage enc s = (Some (), s\<lparr>sink := Buffer (out @ ?v @ bytes),
      bytes_written := bytes_written s + word_of_nat (length (?v @ bytes))\<rparr>)"
    if h: "sink s = Buffer out" "errmsg s = None" "unat (bytes_written s) + length (?v @ bytes) \<le> unat (max_size s)"
  proof -
    have 1: "unat (bytes_written s) + length ?v \<le> unat (max_size s)" using h(3) by simp
    note u = unat_add_le [OF 1]
    have "\<not> bytes_written s + word_of_nat (length ?v) + ?size > max_size s"
      using h(3) unat_add_le [of "bytes_written s + word_of_nat (length ?v)" "length bytes" "max_size s"]
      by (simp add: word_less_nat_alt u)
    moreover have "enc \<lparr>sink = Buffer (out @ ?v), max_size = ?size, bytes_written = 0, errmsg = None\<rparr> =
        (Some (), \<lparr>sink = Buffer (out @ ?v @ bytes), max_size = ?size, bytes_written = ?size, errmsg = None\<rparr>)"
      by (subst encoder.fits [OF enc, of _ "out @ ?v"]) (simp_all add: size)
    ultimately show ?thesis
      using encoder.fits [OF var h(1,2) 1] h(1,2)
      by (cases s) (simp add: pb_encode_submessage_def sizing Let_def add.assoc)
  qed
  show "fst (pb_encode_submessage enc s) = None"
    if h: "sink s = Buffer out" "errmsg s = None" "unat (bytes_written s) \<le> unat (max_size s)"
      "unat (max_size s) < unat (bytes_written s) + length (?v @ bytes)"
      "unat (max_size s) + length (?v @ bytes) < 2 ^ 64"
  proof (cases "unat (bytes_written s) + length ?v \<le> unat (max_size s)")
    case True
    note u = unat_add_le [OF True]
    have "bytes_written s + word_of_nat (length ?v) + ?size > max_size s"
      using h True by (simp add: word_less_nat_alt unat_word_ariths u size)
    then show ?thesis
      using encoder.fits [OF var h(1,2) True]
      by (simp add: pb_encode_submessage_def sizing Let_def PB_RETURN_ERROR_def)
  next
    case False
    then have "fst (pb_encode_varint ?size s) = None" using h by (intro encoder.full [OF var h(1,2)]) simp_all
    then show ?thesis
      by (cases "pb_encode_varint ?size s") (simp add: pb_encode_submessage_def sizing Let_def)
  qed
qed

lemma encoder_nullterminated:
  assumes "encoder enc bytes"
  shows "encoder (pb_encode_nullterminated enc) (bytes @ [0])"
  using encoder_andthen [OF assms encoder_write [of "[0]"]] by (simp add: pb_encode_nullterminated_def)

lemma encoder_delimited:
  assumes "encoder enc bytes" and "length bytes < 2 ^ 64"
  shows "encoder (pb_encode_delimited enc) (varint (length bytes) @ bytes)"
  unfolding pb_encode_delimited_def by (rule encoder_submessage [OF assms])

section \<open>No writer leaves its buffer\<close>

text \<open>
  The buffer holds the \<open>base\<close> bytes that were there when the stream was made, and those that the
  stream has written since, at most \<open>max_size\<close>.
\<close>

definition in_bounds :: "nat \<Rightarrow> 's pb_ostream \<Rightarrow> bool" where
  "in_bounds base s = (case sink s of
     Buffer out \<Rightarrow> length out = base + unat (bytes_written s) \<and> unat (bytes_written s) \<le> unat (max_size s)
   | _ \<Rightarrow> True)"

fun is_buffer :: "'s sink \<Rightarrow> bool" where
  "is_buffer (Buffer _) = True"
| "is_buffer _ = False"

lemma in_bounds_other: "\<not> is_buffer (sink s) \<Longrightarrow> in_bounds base s"
  by (cases "sink s") (simp_all add: in_bounds_def)

lemma in_bounds_errmsg [simp]: "in_bounds base (s\<lparr>errmsg := e\<rparr>) = in_bounds base s"
  by (cases "sink s") (simp_all add: in_bounds_def)

locale writer =
  fixes enc :: "('s pb_ostream, unit) op"
  assumes stays: "in_bounds base s \<Longrightarrow> in_bounds base (snd (enc s))"
    and keeps_max: "max_size (snd (enc s)) = max_size s"
    and keeps_kind: "is_buffer (sink (snd (enc s))) = is_buffer (sink s)"

lemma in_bounds_error [simp]:
  "in_bounds base (snd (PB_RETURN_ERROR m s)) = in_bounds base s"
  "max_size (snd (PB_RETURN_ERROR m s)) = max_size s"
  "sink (snd (PB_RETURN_ERROR m s)) = sink s"
  "bytes_written (snd (PB_RETURN_ERROR m s)) = bytes_written s"
  by (simp_all add: PB_RETURN_ERROR_def)

lemma buf_write_sizing: "is_buffer (snd (buf_write k b)) = is_buffer k"
  by (cases k) (auto split: prod.splits)

lemma writer_write:
  assumes "unat count \<le> length buf"
  shows "writer (pb_write buf count)"
proof unfold_locales
  fix s :: "'a pb_ostream" and base
  show "max_size (snd (pb_write buf count s)) = max_size s"
    by (simp add: pb_write_def split: prod.splits bool.splits)
  show "is_buffer (sink (snd (pb_write buf count s))) = is_buffer (sink s)"
    using buf_write_sizing [of "sink s" "take (unat count) buf"]
    by (simp add: pb_write_def split: prod.splits bool.splits) auto
  assume h: "in_bounds base s"
  show "in_bounds base (snd (pb_write buf count s))"
  proof (cases "sink s")
    case (Buffer out)
    show ?thesis
    proof (cases "bytes_written s + count < bytes_written s \<or> bytes_written s + count > max_size s")
      case True
      then show ?thesis using h Buffer
        by (cases "count = 0") (auto simp: pb_write_def word_neq_0_conv in_bounds_def)
    next
      case False
      then have "unat (bytes_written s + count) = unat (bytes_written s) + unat count"
        by (metis not_less unat_plus_simple)
      then show ?thesis using h Buffer False assms
        by (auto simp: pb_write_def word_le_nat_alt not_less in_bounds_def)
    qed
  qed (auto simp: pb_write_def in_bounds_def split: prod.splits bool.splits)
qed

lemma writer_andthen:
  assumes f: "writer f" and g: "writer g"
  shows "writer (andthen f (\<lambda>_. g))"
proof unfold_locales
  fix s :: "'a pb_ostream" and base
  obtain r s1 where fs: "f s = (r, s1)" by fastforce
  show "in_bounds base s \<Longrightarrow> in_bounds base (snd (andthen f (\<lambda>_. g) s))"
    using writer.stays [OF f, of base s] writer.stays [OF g, of base s1]
    by (cases r) (simp_all add: andthen_def fs)
  show "max_size (snd (andthen f (\<lambda>_. g) s)) = max_size s"
    using writer.keeps_max [OF f, of s] writer.keeps_max [OF g, of s1]
    by (cases r) (simp_all add: andthen_def fs)
  show "is_buffer (sink (snd (andthen f (\<lambda>_. g) s))) = is_buffer (sink s)"
    using writer.keeps_kind [OF f, of s] writer.keeps_kind [OF g, of s1]
    by (cases r) (simp_all add: andthen_def fs)
qed

lemma length_varint_loop: "length (varint_loop v) < 2 ^ 64"
proof (cases "v = 0")
  case False
  from arg_cong [OF varint_loop_eq [OF this], of length] length_varint_u64 [of v]
  show ?thesis by (simp add: Let_def)
qed (simp add: varint_loop.simps)

lemma writer_varint: "writer (pb_encode_varint v)"
  unfolding pb_encode_varint_def Let_def
  using length_varint_loop [of v] by (auto intro!: writer_write)

interpretation varint_writer: writer "pb_encode_varint v"
  by (rule writer_varint)

text \<open>
  A submessage keeps to the parent's buffer whatever its two runs do, also when a callback
  writes something else the second time, if the sum in the check of the remaining room does
  not wrap.
\<close>

lemma in_bounds_submessage:
  assumes enc: "writer enc" and s: "in_bounds base s"
    and size: "unat (bytes_written (snd (enc PB_OSTREAM_SIZING))) + unat (max_size s) < 2 ^ 64"
  shows "in_bounds base (snd (pb_encode_submessage enc s))"
proof (cases "enc PB_OSTREAM_SIZING")
  case (Pair r sub)
  show ?thesis
  proof (cases r)
    case None
    then show ?thesis using s Pair by (simp add: pb_encode_submessage_def)
  next
    case (Some u)
    define sz where "sz = bytes_written sub"
    obtain r1 s1 where v: "pb_encode_varint sz s = (r1, s1)" by fastforce
    have s1: "in_bounds base s1" "max_size s1 = max_size s"
      using varint_writer.stays [OF s, of sz] varint_writer.keeps_max [of sz s] v by simp_all
    have room: "unat sz + unat (max_size s) < 2 ^ 64" using size by (simp add: Pair sz_def)
    consider (fails) "r1 = None" | (sizing) "r1 = Some ()" "is_sizing (sink s1)"
      | (full) "r1 = Some ()" "\<not> is_sizing (sink s1)" "bytes_written s1 + sz > max_size s1"
      | (run) "r1 = Some ()" "\<not> is_sizing (sink s1)" "\<not> bytes_written s1 + sz > max_size s1"
      by (cases r1) auto
    then show ?thesis
    proof cases
      case fails
      then show ?thesis using s1 by (simp add: pb_encode_submessage_def Pair Some v sz_def [symmetric])
    next
      case sizing
      then have "\<not> is_buffer (sink s1)" by (cases "sink s1") simp_all
      with sizing have "\<not> is_buffer (sink (snd (pb_encode_submessage enc s)))"
        by (simp add: pb_encode_submessage_def Pair Some v sz_def [symmetric] pb_write_def)
      then show ?thesis by (rule in_bounds_other)
    next
      case full
      then show ?thesis using s1 by (simp add: pb_encode_submessage_def Pair Some v sz_def [symmetric])
    next
      case run
      define sub1 where "sub1 = \<lparr>sink = sink s1, max_size = sz, bytes_written = 0, errmsg = None\<rparr>"
      obtain status s2 where s2: "enc sub1 = (status, s2)" by fastforce
      define s3 where "s3 = s1\<lparr>bytes_written := bytes_written s1 + bytes_written s2, sink := sink s2, errmsg := errmsg s2\<rparr>"
      have "in_bounds base s3"
      proof (cases "sink s1")
        case (Buffer out)
        then have "in_bounds (length out) sub1" by (simp add: in_bounds_def sub1_def)
        from writer.stays [OF enc this] have b2: "in_bounds (length out) s2" by (simp add: s2)
        have "is_buffer (sink s2)" using writer.keeps_kind [OF enc, of sub1, unfolded s2] Buffer by (simp add: sub1_def)
        then obtain out2 where out2: "sink s2 = Buffer out2" by (cases "sink s2") simp_all
        have "max_size s2 = sz" using writer.keeps_max [OF enc, of sub1, unfolded s2] by (simp add: sub1_def)
        with b2 out2 have 2: "length out2 = length out + unat (bytes_written s2)" "unat (bytes_written s2) \<le> unat sz"
          by (simp_all add: in_bounds_def)
        have 1: "length out = base + unat (bytes_written s1)" "unat (bytes_written s1) \<le> unat (max_size s)"
          using s1 Buffer by (simp_all add: in_bounds_def)
        have "unat (bytes_written s1 + sz) = unat (bytes_written s1) + unat sz"
          using room 1(2) by (simp add: unat_word_ariths)
        moreover have "unat (bytes_written s1 + bytes_written s2) = unat (bytes_written s1) + unat (bytes_written s2)"
          using room 1(2) 2(2) by (simp add: unat_word_ariths)
        ultimately show ?thesis
          using run(3) 1 2 s1(2) out2 by (simp add: in_bounds_def s3_def word_less_nat_alt)
      next
        case (Callback f st)
        then have "\<not> is_buffer (sink s2)" using writer.keeps_kind [OF enc, of sub1, unfolded s2] by (simp add: sub1_def)
        then show ?thesis by (intro in_bounds_other) (simp add: s3_def)
      qed (use run in simp)
      moreover have "snd (pb_encode_submessage enc s) =
          (if bytes_written s2 \<noteq> sz then snd (PB_RETURN_ERROR ''submsg size changed'' s3 :: unit option \<times> _) else s3)"
        using run s2 by (simp add: pb_encode_submessage_def Pair Some v sz_def [symmetric] sub1_def [symmetric] s3_def Let_def)
      ultimately show ?thesis by simp
    qed
  qed
qed


section \<open>Properties\<close>

text \<open>A submessage whose fields are written as some bytes is written as the
  varint of their number and the bytes themselves. The size computed on a sizing stream is the
  number of bytes that end up in a buffer, and a buffer that is too small for them is an error,
  whatever the nesting of the submessages.\<close>

theorem pb_encode_submessage_wire:
  fixes enc :: "('s pb_ostream, unit) op"
  defines "wire bytes \<equiv> varint (length bytes) @ bytes"
  assumes enc: "encoder enc bytes" and room: "unat n + length (wire bytes) < 2 ^ 64"
  shows "pb_get_encoded_size (pb_encode_submessage enc) = Some (word_of_nat (length (wire bytes)))
    \<and> (case pb_encode_submessage enc (pb_ostream_from_buffer n) of (result, stream) \<Rightarrow>
         if length (wire bytes) \<le> unat n
         then result = Some () \<and> sink stream = Buffer (wire bytes) \<and> unat (bytes_written stream) = length (wire bytes)
         else result = None)"
proof -
  have "length bytes < 2 ^ 64" using room by (simp add: wire_def)
  then have sub: "encoder (pb_encode_submessage enc) (wire bytes)"
    unfolding wire_def by (rule encoder_submessage [OF enc])
  then show ?thesis
    using encoder.encoded_size [OF sub] encoder.into_buffer [OF sub, of n]
      encoder.buffer_too_small [OF sub, of n] room
    by (auto split: prod.split)
qed

theorem pb_encode_submessage_wire_witness:
  "pb_get_encoded_size (pb_encode_submessage (pb_encode_submessage (pb_encode_string [7, 8] 2)) :: (unit pb_ostream, unit) op) = Some 5
    \<and> sink (snd (pb_encode_submessage (pb_encode_submessage (pb_encode_string [7, 8] 2)) (pb_ostream_from_buffer 5 :: unit pb_ostream))) = Buffer [4, 3, 2, 7, 8]
    \<and> fst (pb_encode_submessage (pb_encode_submessage (pb_encode_string [7, 8] 2)) (pb_ostream_from_buffer 4 :: unit pb_ostream)) = None"
proof -
  have v: "varint 2 = [2]" "varint (Suc (Suc 0)) = [2]" "varint (Suc (Suc (Suc 0))) = [3]"
    "varint (Suc (Suc (Suc (Suc 0)))) = [4]" by (simp_all add: varint.simps)
  have "encoder (pb_encode_string [7, 8] 2 :: (unit pb_ostream, unit) op) [2, 7, 8]"
    using encoder_string [of "[7, 8]"] by (simp add: v)
  from encoder_submessage [OF this] have "encoder (pb_encode_submessage (pb_encode_string [7, 8] 2) :: (unit pb_ostream, unit) op) [3, 2, 7, 8]" by (simp add: v)
  from pb_encode_submessage_wire [OF this, of 5] pb_encode_submessage_wire [OF this, of 4]
  show ?thesis by (auto simp: v split: prod.splits)
qed

text \<open>Writing a submessage never puts a byte behind the end of the
  stream's buffer, and the count of the written bytes is exact, whether the call succeeds or
  not and whatever the writer of the fields does in its second run, as long as the size that
  the first run found and the size of the buffer do not add up to \<open>2 ^ 64\<close>.\<close>

theorem pb_encode_stays_in_buffer:
  fixes enc :: "('s pb_ostream, unit) op"
  assumes "writer enc" and "in_bounds base stream"
    and "unat (bytes_written (snd (enc PB_OSTREAM_SIZING))) + unat (max_size stream) < 2 ^ 64"
  shows "in_bounds base (snd (pb_encode_submessage enc stream))"
  using assms by (rule in_bounds_submessage)

theorem pb_encode_stays_in_buffer_witness:
  "in_bounds 0 (snd (pb_encode_submessage (pb_encode_varint 300) (pb_ostream_from_buffer 2 :: unit pb_ostream)))"
proof (rule pb_encode_stays_in_buffer [OF writer_varint])
  show "in_bounds 0 (pb_ostream_from_buffer 2 :: unit pb_ostream)"
    by (simp add: in_bounds_def pb_ostream_from_buffer_def)
  show "unat (bytes_written (snd (pb_encode_varint 300 (PB_OSTREAM_SIZING :: unit pb_ostream))))
      + unat (max_size (pb_ostream_from_buffer 2 :: unit pb_ostream)) < 2 ^ 64"
    using encoder.sizing [OF encoder_varint, of "PB_OSTREAM_SIZING :: unit pb_ostream" 300] length_varint_u64 [of 300]
    by (simp add: PB_OSTREAM_SIZING_def pb_ostream_from_buffer_def)
qed

end
