(* ===== verification/PB_Decode.thy ===== *)
theory PB_Decode
  imports PB_Encode
begin

unbundle bit_operations_syntax

text \<open>
  The wire format readers of nanopb (\<open>pb_decode.c\<close>, \<open>pb_decode.h\<close>): input streams, varints, tags,
  skipping of unknown fields, substreams of length-delimited fields and the decoders of single
  values. The code is modelled with the options of the Pods (\<open>PB_FIELD_32BIT\<close>,
  \<open>PB_ENABLE_MALLOC\<close>), with \<open>size_t\<close> of 64 bits.
\<close>

section \<open>Input streams\<close>

text \<open>
  The callback and the \<open>state\<close> of a stream together: \<open>buf_read\<close> with the bytes from the state
  pointer to the end of the memory behind it, or a callback of the user. That one gets its
  state and the number of the wanted bytes; it fails (\<open>Inl\<close>, with whether it set \<open>bytes_left\<close> to 0
  to report the end of its input) or fills the buffer. Other changes of \<open>bytes_left\<close> by a
  callback are outside the rules that \<open>pb_decode.h\<close> gives for it.
\<close>

datatype 's src =
    Memory "byte list"
  | Reader "'s \<Rightarrow> u64 \<Rightarrow> (bool + (nat \<Rightarrow> byte)) \<times> 's" 's

record 's pb_istream =
  src :: "'s src"
  bytes_left :: u64
  in_errmsg :: "string option"

definition pb_istream_from_buffer :: "byte list \<Rightarrow> u64 \<Rightarrow> 's pb_istream" where
  "pb_istream_from_buffer buf bufsize = \<lparr>src = Memory buf, bytes_left = bufsize, in_errmsg = None\<rparr>"

definition PB_IN_ERROR :: "string \<Rightarrow> ('s pb_istream, 'a) op" where
  "PB_IN_ERROR msg stream =
     (None, stream\<lparr>in_errmsg := (case in_errmsg stream of None \<Rightarrow> Some msg | Some m \<Rightarrow> Some m)\<rparr>)"

text \<open>The call of the stream's callback for \<open>count\<close> bytes.\<close>

fun buf_read :: "u64 \<Rightarrow> 's src \<Rightarrow> (bool + byte list) \<times> 's src" where
  "buf_read count (Memory source) = (Inr (take (unat count) source), Memory (drop (unat count) source))"
| "buf_read count (Reader f state) =
     (case f state count of
        (Inl eof, state) \<Rightarrow> (Inl eof, Reader f state)
      | (Inr buf, state) \<Rightarrow> (Inr (map buf [0..<unat count]), Reader f state))"

text \<open>\<open>pb_read\<close> into a buffer.\<close>

definition pb_read_buf :: "u64 \<Rightarrow> ('s pb_istream, byte list) op" where
  "pb_read_buf count stream =
     (if count = 0 then (Some [], stream)
      else if bytes_left stream < count then PB_IN_ERROR ''end-of-stream'' stream
      else
        (case buf_read count (src stream) of
           (Inl eof, k) \<Rightarrow> PB_IN_ERROR ''io error''
             (stream\<lparr>src := k, bytes_left := (if eof then 0 else bytes_left stream)\<rparr>)
         | (Inr buf, k) \<Rightarrow> (Some buf, stream\<lparr>src := k, bytes_left := bytes_left stream - count\<rparr>)))"

text \<open>The loop that skips with a buffer of 16 bytes.\<close>

function pb_read_skip :: "u64 \<Rightarrow> ('s pb_istream, unit) op" where
  "pb_read_skip count stream =
     (if count > 16 then
        (case pb_read_buf 16 stream of
           (None, stream) \<Rightarrow> (None, stream)
         | (Some _, stream) \<Rightarrow> pb_read_skip (count - 16) stream)
      else andthen (pb_read_buf count) (\<lambda>_. ret ()) stream)"
  by pat_completeness auto
termination
  by (relation "measure (\<lambda>(count, _). unat count)") (auto simp: word_less_nat_alt unat_sub_if_size)

declare pb_read_skip.simps [simp del]

fun is_memory :: "'s src \<Rightarrow> bool" where
  "is_memory (Memory _) = True"
| "is_memory (Reader _ _) = False"

text \<open>\<open>pb_read\<close> with a null pointer.\<close>

definition pb_read_null :: "u64 \<Rightarrow> ('s pb_istream, unit) op" where
  "pb_read_null count stream =
     (if count = 0 then (Some (), stream)
      else if \<not> is_memory (src stream) then pb_read_skip count stream
      else andthen (pb_read_buf count) (\<lambda>_. ret ()) stream)"

definition pb_readbyte :: "('s pb_istream, byte) op" where
  "pb_readbyte stream =
     (if bytes_left stream = 0 then PB_IN_ERROR ''end-of-stream'' stream
      else
        (case buf_read 1 (src stream) of
           (Inl eof, k) \<Rightarrow> PB_IN_ERROR ''io error''
             (stream\<lparr>src := k, bytes_left := (if eof then 0 else bytes_left stream)\<rparr>)
         | (Inr buf, k) \<Rightarrow> (Some (hd buf), stream\<lparr>src := k, bytes_left := bytes_left stream - 1\<rparr>)))"

lemma pb_readbyte_shrinks:
  "pb_readbyte s = (Some b, s') \<Longrightarrow> unat (bytes_left s) = Suc (unat (bytes_left s'))"
  by (auto simp: pb_readbyte_def PB_IN_ERROR_def split: if_splits prod.splits sum.splits)
    (metis Suc_pred' unat_minus_one unat_pos_iff)+

lemma pb_read_buf_1: "pb_read_buf 1 s = (Some bs, s') \<Longrightarrow> unat (bytes_left s) = Suc (unat (bytes_left s'))"
  by (auto simp: pb_read_buf_def PB_IN_ERROR_def split: if_splits prod.splits sum.splits)
    (metis Suc_pred' unat_minus_one unat_pos_iff not_le word_less_1)+

section \<open>Varints\<close>

text \<open>The \<open>do\<close> loop of the 32-bit decoder, with the position in 8 bits, and the last byte.\<close>

function varint32_loop :: "byte \<Rightarrow> u32 \<Rightarrow> ('s pb_istream, byte \<times> u32 \<times> byte) op" where
  "varint32_loop bitpos result stream =
     (case pb_readbyte stream of
        (None, stream) \<Rightarrow> (None, stream)
      | (Some byte, stream) \<Rightarrow>
          if bitpos \<ge> 32 \<and>
             byte AND 0x7f \<noteq> 0 \<and>
             (drop_bit 31 result = 0 \<or> byte \<noteq> (if bitpos < 63 then 0xff else 0x01))
          then PB_IN_ERROR ''varint overflow'' stream
          else
            let result = (if bitpos \<ge> 32 then result
                          else result OR push_bit (unat bitpos) (ucast (byte AND 0x7f)));
                bitpos = bitpos + 7
            in if byte AND 0x80 \<noteq> 0 then varint32_loop bitpos result stream
               else (Some (bitpos, result, byte), stream))"
  by pat_completeness auto
termination
  by (relation "measure (\<lambda>(_, _, stream). unat (bytes_left stream))")
    (auto dest!: sym [of "(Some _, _)"] pb_readbyte_shrinks)

declare varint32_loop.simps [simp del]

text \<open>The result, whether \<open>eof\<close> was set, and the stream.\<close>

definition pb_decode_varint32_eof :: "'s pb_istream \<Rightarrow> u32 option \<times> bool \<times> 's pb_istream" where
  "pb_decode_varint32_eof stream =
     (case pb_readbyte stream of
        (None, stream) \<Rightarrow> (None, bytes_left stream = 0, stream)
      | (Some byte, stream) \<Rightarrow>
          if byte AND 0x80 = 0 then (Some (ucast byte), False, stream)
          else
            (case varint32_loop 7 (ucast (byte AND 0x7f)) stream of
               (None, stream) \<Rightarrow> (None, False, stream)
             | (Some (bitpos, result, byte), stream) \<Rightarrow>
                 if bitpos = 35 \<and> byte AND 0x70 \<noteq> 0 then
                   (None, False, snd (PB_IN_ERROR ''varint overflow'' stream :: unit option \<times> _))
                 else (Some result, False, stream)))"

definition pb_decode_varint32 :: "('s pb_istream, u32) op" where
  "pb_decode_varint32 stream =
     (case pb_decode_varint32_eof stream of (r, _, stream) \<Rightarrow> (r, stream))"

function varint64_loop :: "byte \<Rightarrow> u64 \<Rightarrow> ('s pb_istream, u64) op" where
  "varint64_loop bitpos result stream =
     (if bitpos \<ge> 64 then PB_IN_ERROR ''varint overflow'' stream
      else
        (case pb_readbyte stream of
           (None, stream) \<Rightarrow> (None, stream)
         | (Some byte, stream) \<Rightarrow>
             let result = result OR push_bit (unat bitpos) (ucast (byte AND 0x7f));
                 bitpos = bitpos + 7
             in if byte AND 0x80 \<noteq> 0 then varint64_loop bitpos result stream
                else (Some result, stream)))"
  by pat_completeness auto
termination
  by (relation "measure (\<lambda>(_, _, stream). unat (bytes_left stream))")
    (auto dest!: sym [of "(Some _, _)"] pb_readbyte_shrinks)

declare varint64_loop.simps [simp del]

definition pb_decode_varint :: "('s pb_istream, u64) op" where
  "pb_decode_varint = varint64_loop 0 0"

section \<open>Skipping\<close>

function pb_skip_varint :: "('s pb_istream, unit) op" where
  "pb_skip_varint stream =
     (case pb_read_buf 1 stream of
        (None, stream) \<Rightarrow> (None, stream)
      | (Some byte, stream) \<Rightarrow>
          if hd byte AND 0x80 \<noteq> 0 then pb_skip_varint stream else (Some (), stream))"
  by pat_completeness auto
termination
  by (relation "measure (\<lambda>stream. unat (bytes_left stream))")
    (auto dest!: sym [of "(Some _, _)"] pb_read_buf_1)

declare pb_skip_varint.simps [simp del]

definition pb_skip_string :: "('s pb_istream, unit) op" where
  "pb_skip_string = andthen pb_decode_varint32 (\<lambda>length. pb_read_null (ucast length))"

text \<open>Wire type and tag, whether \<open>eof\<close> was set, and the stream.\<close>

definition pb_decode_tag :: "'s pb_istream \<Rightarrow> (u32 \<times> u32) option \<times> bool \<times> 's pb_istream" where
  "pb_decode_tag stream =
     (case pb_decode_varint32_eof stream of
        (None, eof, stream) \<Rightarrow> (None, eof, stream)
      | (Some temp, eof, stream) \<Rightarrow>
          if temp = 0 then (None, True, stream)
          else (Some (temp AND 7, drop_bit 3 temp), eof, stream))"

definition pb_skip_field :: "u32 \<Rightarrow> ('s pb_istream, unit) op" where
  "pb_skip_field wire_type =
     (if wire_type = PB_WT_VARINT then pb_skip_varint
      else if wire_type = PB_WT_64BIT then pb_read_null 8
      else if wire_type = PB_WT_STRING then pb_skip_string
      else if wire_type = PB_WT_32BIT then pb_read_null 4
      else PB_IN_ERROR ''invalid wire_type'')"

text \<open>The bytes of a single value, at most \<open>max_size\<close> of them.\<close>

function read_raw_varint :: "u64 \<Rightarrow> u64 \<Rightarrow> byte list \<Rightarrow> ('s pb_istream, byte list) op" where
  "read_raw_varint limit sz buf stream =
     (let sz = sz + 1 in
      if sz > limit then (None, stream)
      else
        (case pb_read_buf 1 stream of
           (None, stream) \<Rightarrow> (None, stream)
         | (Some byte, stream) \<Rightarrow>
             if hd byte AND 0x80 \<noteq> 0 then read_raw_varint limit sz (buf @ byte) stream
             else (Some (buf @ byte), stream)))"
  by pat_completeness auto
termination
  by (relation "measure (\<lambda>(_, _, _, stream). unat (bytes_left stream))")
    (auto dest!: sym [of "(Some _, _)"] pb_read_buf_1)

declare read_raw_varint.simps [simp del]

definition read_raw_value :: "u32 \<Rightarrow> u64 \<Rightarrow> ('s pb_istream, byte list) op" where
  "read_raw_value wire_type limit =
     (if wire_type = PB_WT_VARINT then read_raw_varint limit 0 []
      else if wire_type = PB_WT_64BIT then pb_read_buf 8
      else if wire_type = PB_WT_32BIT then pb_read_buf 4
      else PB_IN_ERROR ''invalid wire_type'')"

section \<open>Substreams\<close>

text \<open>The substream; it shares the state of the stream at the time of the call.\<close>

definition pb_make_string_substream :: "('s pb_istream, 's pb_istream) op" where
  "pb_make_string_substream =
     andthen pb_decode_varint32 (\<lambda>size stream.
       if bytes_left stream < ucast size then PB_IN_ERROR ''parent stream too short'' stream
       else (Some (stream\<lparr>bytes_left := ucast size\<rparr>), stream\<lparr>bytes_left := bytes_left stream - ucast size\<rparr>))"

definition pb_close_string_substream :: "'s pb_istream \<Rightarrow> ('s pb_istream, unit) op" where
  "pb_close_string_substream substream stream =
     (case (if bytes_left substream \<noteq> 0 then pb_read_null (bytes_left substream) substream
            else (Some (), substream)) of
        (None, _) \<Rightarrow> (None, stream)
      | (Some _, substream) \<Rightarrow> (Some (), stream\<lparr>src := src substream, in_errmsg := in_errmsg substream\<rparr>))"

text \<open>
  The calls that run a decoder of fields on the contents of a length-delimited value;
  \<open>dec\<close> stands for \<open>pb_decode\<close> or \<open>pb_decode_noinit\<close> on the fields and the structure.
\<close>

definition pb_decode_delimited :: "('s pb_istream, 'a) op \<Rightarrow> ('s pb_istream, 'a) op" where
  "pb_decode_delimited dec =
     andthen pb_make_string_substream (\<lambda>substream stream.
       (case dec substream of
          (status, substream) \<Rightarrow>
            (case pb_close_string_substream substream stream of
               (None, stream) \<Rightarrow> (None, stream)
             | (Some _, stream) \<Rightarrow> (status, stream))))"

definition pb_dec_submessage :: "bool \<Rightarrow> ('s pb_istream, 'a) op \<Rightarrow> ('s pb_istream, 'a) op \<Rightarrow> pb_field \<Rightarrow> ('s pb_istream, 'a) op" where
  "pb_dec_submessage has_fields decode decode_noinit field =
     andthen pb_make_string_substream (\<lambda>substream stream.
       if \<not> has_fields then PB_IN_ERROR ''invalid field descriptor'' stream
       else
         (case (if PB_HTYPE (type field) = 0x20 then decode substream else decode_noinit substream) of
            (status, substream) \<Rightarrow>
              (case pb_close_string_substream substream stream of
                 (None, stream) \<Rightarrow> (None, stream)
               | (Some _, stream) \<Rightarrow> (status, stream))))"

section \<open>Single values\<close>

definition pb_decode_svarint :: "('s pb_istream, u64) op" where
  "pb_decode_svarint =
     andthen pb_decode_varint (\<lambda>value.
       ret (if value AND 1 \<noteq> 0 then NOT (drop_bit 1 value) else drop_bit 1 value))"

definition pb_decode_fixed32 :: "('s pb_istream, u32) op" where
  "pb_decode_fixed32 =
     andthen (pb_read_buf 4) (\<lambda>bytes.
       ret (push_bit 0 (ucast (bytes ! 0)) OR push_bit 8 (ucast (bytes ! 1)) OR
            push_bit 16 (ucast (bytes ! 2)) OR push_bit 24 (ucast (bytes ! 3))))"

definition pb_decode_fixed64 :: "('s pb_istream, u64) op" where
  "pb_decode_fixed64 =
     andthen (pb_read_buf 8) (\<lambda>bytes.
       ret (push_bit 0 (ucast (bytes ! 0)) OR push_bit 8 (ucast (bytes ! 1)) OR
            push_bit 16 (ucast (bytes ! 2)) OR push_bit 24 (ucast (bytes ! 3)) OR
            push_bit 32 (ucast (bytes ! 4)) OR push_bit 40 (ucast (bytes ! 5)) OR
            push_bit 48 (ucast (bytes ! 6)) OR push_bit 56 (ucast (bytes ! 7))))"

definition pb_dec_bool :: "('s pb_istream, bool) op" where
  "pb_dec_bool = andthen pb_decode_varint32 (\<lambda>value. ret (value \<noteq> 0))"

text \<open>The value that is stored, extended to 64 bits again; the field has 8, 4, 2 or 1 bytes.\<close>

definition store_signed :: "u32 \<Rightarrow> u64 \<Rightarrow> u64 option" where
  "store_signed width svalue =
     (if width = 8 then Some svalue
      else if width = 4 then Some (scast (ucast svalue :: u32))
      else if width = 2 then Some (scast (ucast svalue :: u16))
      else if width = 1 then Some (scast (ucast svalue :: byte))
      else None)"

definition store_unsigned :: "u32 \<Rightarrow> u64 \<Rightarrow> u64 option" where
  "store_unsigned width value =
     (if width = 8 then Some value
      else if width = 4 then Some (ucast (ucast value :: u32))
      else if width = 2 then Some (ucast (ucast value :: u16))
      else if width = 1 then Some (ucast (ucast value :: byte))
      else None)"

definition check_stored :: "u64 option \<Rightarrow> u64 \<Rightarrow> ('s pb_istream, u64) op" where
  "check_stored clamped value =
     (case clamped of
        None \<Rightarrow> PB_IN_ERROR ''invalid data_size''
      | Some c \<Rightarrow> if c \<noteq> value then PB_IN_ERROR ''integer too large'' else ret c)"

definition pb_dec_varint :: "pb_field \<Rightarrow> ('s pb_istream, u64) op" where
  "pb_dec_varint field =
     andthen pb_decode_varint (\<lambda>value.
       let svalue = (if data_size field = 8 then value else scast (ucast value :: u32))
       in check_stored (store_signed (data_size field) svalue) svalue)"

definition pb_dec_uvarint :: "pb_field \<Rightarrow> ('s pb_istream, u64) op" where
  "pb_dec_uvarint field =
     andthen pb_decode_varint (\<lambda>value. check_stored (store_unsigned (data_size field) value) value)"

definition pb_dec_svarint :: "pb_field \<Rightarrow> ('s pb_istream, u64) op" where
  "pb_dec_svarint field =
     andthen pb_decode_svarint (\<lambda>value. check_stored (store_signed (data_size field) value) value)"

text \<open>
  The number of bytes that \<open>allocate_field\<close> asks \<open>realloc\<close> for, where \<open>realloc_ok\<close> says whether
  that succeeds. The pointer itself is not modelled.
\<close>

definition allocate_field :: "(u64 \<Rightarrow> bool) \<Rightarrow> u64 \<Rightarrow> u64 \<Rightarrow> ('s pb_istream, u64) op" where
  "allocate_field realloc_ok item_size count stream =
     (if item_size = 0 \<or> count = 0 then PB_IN_ERROR ''invalid size'' stream
      else
        let check_limit = push_bit 32 1 in
        if (item_size \<ge> check_limit \<or> count \<ge> check_limit) \<and> (- 1) div count < item_size then
          PB_IN_ERROR ''size too large'' stream
        else if \<not> realloc_ok (count * item_size) then PB_IN_ERROR ''realloc failed'' stream
        else (Some (count * item_size), stream))"

text \<open>\<open>offsetof(pb_bytes_array_t, bytes)\<close> is the size of a \<open>pb_size_t\<close>.\<close>

definition pb_dec_bytes :: "(u64 \<Rightarrow> bool) \<Rightarrow> pb_field \<Rightarrow> ('s pb_istream, byte list) op" where
  "pb_dec_bytes realloc_ok field =
     andthen pb_decode_varint32 (\<lambda>size.
       let alloc_size = ucast size + 4 in
       if ucast size > alloc_size then PB_IN_ERROR ''size too large''
       else
         andthen
           (if PB_ATYPE (type field) = 0x80 then
              (\<lambda>stream. if bytes_left stream < ucast size then PB_IN_ERROR ''end-of-stream'' stream
                        else andthen (allocate_field realloc_ok alloc_size 1) (\<lambda>_. ret ()) stream)
            else if alloc_size > ucast (data_size field) then PB_IN_ERROR ''bytes overflow''
            else ret ())
           (\<lambda>_. pb_read_buf (ucast size)))"

text \<open>The bytes of the string with the null that ends it.\<close>

definition pb_dec_string :: "(u64 \<Rightarrow> bool) \<Rightarrow> pb_field \<Rightarrow> ('s pb_istream, byte list) op" where
  "pb_dec_string realloc_ok field =
     andthen pb_decode_varint32 (\<lambda>size.
       let alloc_size = ucast (size + 1) in
       if alloc_size < ucast size then PB_IN_ERROR ''size too large''
       else
         andthen
           (if PB_ATYPE (type field) = 0x80 then
              (\<lambda>stream. if bytes_left stream < ucast size then PB_IN_ERROR ''end-of-stream'' stream
                        else andthen (allocate_field realloc_ok alloc_size 1) (\<lambda>_. ret ()) stream)
            else if alloc_size > ucast (data_size field) then PB_IN_ERROR ''string overflow''
            else ret ())
           (\<lambda>_. andthen (pb_read_buf (ucast size)) (\<lambda>bytes. ret (bytes @ [0]))))"

definition pb_dec_fixed_length_bytes :: "pb_field \<Rightarrow> ('s pb_istream, byte list) op" where
  "pb_dec_fixed_length_bytes field =
     andthen pb_decode_varint32 (\<lambda>size.
       if size = 0 then ret (replicate (unat (data_size field)) 0)
       else if size \<noteq> data_size field then PB_IN_ERROR ''incorrect fixed length bytes size''
       else pb_read_buf (ucast (data_size field)))"

section \<open>What every decoder promises\<close>

text \<open>
  A decoder of a value reads the bytes that stand for the value from the memory, moves the
  stream behind them and leaves the rest; when the stream ends before them it fails.
\<close>

definition behind :: "nat \<Rightarrow> byte list \<Rightarrow> 's pb_istream \<Rightarrow> 's pb_istream" where
  "behind n rest s = s\<lparr>src := Memory rest, bytes_left := bytes_left s - word_of_nat n\<rparr>"

lemma behind_simps [simp]:
  "src (behind n rest s) = Memory rest"
  "in_errmsg (behind n rest s) = in_errmsg s"
  "behind m r (behind n rest s) = behind (n + m) r s"
  by (simp_all add: behind_def diff_diff_add)

lemma unat_sub_nat: "n \<le> unat (w :: u64) \<Longrightarrow> unat (w - word_of_nat n) = unat w - n"
  using u64_bound [of w] by (simp add: unat_sub_if_size word_size)

lemma bytes_left_behind [simp]:
  "n \<le> unat (bytes_left s) \<Longrightarrow> unat (bytes_left (behind n rest s)) = unat (bytes_left s) - n"
  by (simp add: behind_def unat_sub_nat)

lemma behind_0: "src s = Memory m \<Longrightarrow> behind 0 m s = s"
  by (simp add: behind_def)

locale decoder =
  fixes dec :: "('s pb_istream, 'a) op" and bytes :: "byte list" and v :: 'a
  assumes reads: "src s = Memory (bytes @ rest) \<Longrightarrow> length bytes \<le> unat (bytes_left s) \<Longrightarrow>
      dec s = (Some v, behind (length bytes) rest s)"
    and ends: "src s = Memory (bytes @ rest) \<Longrightarrow> unat (bytes_left s) < length bytes \<Longrightarrow> fst (dec s) = None"
begin

lemma from_buffer:
  "length (bytes @ rest) < 2 ^ 64 \<Longrightarrow>
   dec (pb_istream_from_buffer (bytes @ rest) (word_of_nat (length (bytes @ rest)))) =
     (Some v, pb_istream_from_buffer rest (word_of_nat (length rest)))"
  by (subst reads [of _ rest]) (simp_all add: pb_istream_from_buffer_def behind_def del: of_nat_add, simp)

lemma truncated:
  "unat n < length bytes \<Longrightarrow> fst (dec (pb_istream_from_buffer bytes n)) = None"
  using ends [of "pb_istream_from_buffer bytes n" "[]"] by (simp add: pb_istream_from_buffer_def)

end

lemma decoder_andthen:
  assumes m: "decoder m xs a" and f: "decoder (f a) ys b"
  shows "decoder (andthen m f) (xs @ ys) b"
proof unfold_locales
  fix s :: "'a pb_istream" and rest
  assume s: "src s = Memory ((xs @ ys) @ rest)"
  then have s': "src s = Memory (xs @ (ys @ rest))" by simp
  show "andthen m f s = (Some b, behind (length (xs @ ys)) rest s)" if h: "length (xs @ ys) \<le> unat (bytes_left s)"
    using decoder.reads [OF m s'] decoder.reads [OF f, of "behind (length xs) (ys @ rest) s" rest] h
    by (simp add: andthen_def)
  show "fst (andthen m f s) = None" if h: "unat (bytes_left s) < length (xs @ ys)"
  proof (cases "length xs \<le> unat (bytes_left s)")
    case True
    then show ?thesis
      using decoder.reads [OF m s'] decoder.ends [OF f, of "behind (length xs) (ys @ rest) s" rest] h
      by (simp add: andthen_def)
  next
    case False
    then show ?thesis using decoder.ends [OF m s'] by (cases "m s") (simp add: andthen_def)
  qed
qed

lemma decoder_ret: "decoder (ret v) [] v"
  by unfold_locales (simp_all add: ret_def behind_0)

lemma decoder_map:
  assumes "decoder m xs a" shows "decoder (andthen m (\<lambda>a. ret (f a))) xs (f a)"
  using decoder_andthen [OF assms, of "\<lambda>a. ret (f a)", OF decoder_ret] by simp

lemma decoder_read:
  assumes "length bytes < 2 ^ 64"
  shows "decoder (pb_read_buf (word_of_nat (length bytes))) bytes bytes"
proof unfold_locales
  fix s :: "'a pb_istream" and rest
  have len: "unat (word_of_nat (length bytes) :: u64) = length bytes" using assms by simp
  have zero: "(word_of_nat (length bytes) :: u64) = 0 \<longleftrightarrow> bytes = []"
    using len by (metis length_0_conv unsigned_0 unsigned_eq_0_iff)
  assume s: "src s = Memory (bytes @ rest)"
  show "pb_read_buf (word_of_nat (length bytes)) s = (Some bytes, behind (length bytes) rest s)"
    if "length bytes \<le> unat (bytes_left s)"
    using that s by (auto simp: pb_read_buf_def zero word_less_nat_alt len behind_0) (simp add: behind_def)
  show "fst (pb_read_buf (word_of_nat (length bytes)) s) = None" if "unat (bytes_left s) < length bytes"
  proof -
    have "bytes \<noteq> []" using that by auto
    then show ?thesis using that by (simp add: pb_read_buf_def zero word_less_nat_alt len PB_IN_ERROR_def)
  qed
qed

lemma decoder_read_null:
  assumes "length bytes < 2 ^ 64"
  shows "decoder (pb_read_null (word_of_nat (length bytes))) bytes ()"
proof -
  have eq: "pb_read_null c s = andthen (pb_read_buf c) (\<lambda>_. ret ()) s" if "src s = Memory m" for c m and s :: "'a pb_istream"
    using that by (simp add: pb_read_null_def pb_read_buf_def andthen_def ret_def)
  show ?thesis
    using decoder_map [OF decoder_read [OF assms], of "\<lambda>_. ()"]
    by (simp add: decoder_def eq)
qed

lemma bytes_left_pos: "bytes_left s = 0 \<longleftrightarrow> unat (bytes_left s) < Suc 0"
  by (simp add: word_eq_iff_unat)

lemma decoder_readbyte: "decoder pb_readbyte [b] b"
  by unfold_locales (simp_all add: pb_readbyte_def behind_def PB_IN_ERROR_def bytes_left_pos)

section \<open>Varints\<close>

text \<open>A varint: every byte but the last has the high bit. It stands for the sum of its groups.\<close>

fun is_varint :: "byte list \<Rightarrow> bool" where
  "is_varint [] = False"
| "is_varint [b] = (unat b < 128)"
| "is_varint (b # bs) = (128 \<le> unat b \<and> is_varint bs)"

fun varint_value :: "byte list \<Rightarrow> nat" where
  "varint_value [] = 0"
| "varint_value (b # bs) = unat b mod 128 + 128 * varint_value bs"

lemma is_varint_Cons: "is_varint (b # bs) \<longleftrightarrow> (if bs = [] then unat b < 128 else 128 \<le> unat b \<and> is_varint bs)"
  by (cases bs) simp_all

lemma varint_is_varint: "is_varint (varint n) \<and> varint_value (varint n) = n"
proof (induction n rule: varint.induct)
  case (1 n)
  have ne: "varint m \<noteq> []" for m by (subst varint.simps) simp
  show ?case
  proof (cases "n < 128")
    case True
    then show ?thesis by (subst varint.simps, subst (2) varint.simps) simp
  next
    case False
    have "unat (word_of_nat (128 + n mod 128) :: byte) = 128 + n mod 128" by (simp del: of_nat_add)
    with 1 False show ?thesis
      by (subst varint.simps, subst (2) varint.simps) (simp add: is_varint_Cons ne del: of_nat_add)
  qed
qed

text \<open>Adding a group above the bits that are there.\<close>

lemma or_group:
  fixes r :: "'a::len word"
  assumes "unat r < 2 ^ k" and "k < LENGTH('a)" and "8 \<le> LENGTH('a)"
  shows "r OR push_bit k (ucast (b AND 0x7f)) = word_of_nat (unat r + unat (b :: byte) mod 128 * 2 ^ k)"
proof -
  let ?g = "unat b mod 128" and ?n = "LENGTH('a)"
  let ?w = "r OR push_bit k (ucast (b AND 0x7f))"
  have g: "unat (ucast (b AND 0x7f) :: 'a word) = ?g" using assms(3) by (simp add: unat_ucast_up low_bits)
  have "(2 :: nat) ^ ?n = 2 ^ (?n - k) * 2 ^ k" using assms(2) by (simp only: power_add [symmetric]) simp
  then have shift: "?g * 2 ^ k mod 2 ^ ?n = push_bit k (?g mod 2 ^ (?n - k))"
    by (simp only: mod_mult_mult2 push_bit_eq_mult)
  have "unat ?w = unat r OR (?g * 2 ^ k mod 2 ^ ?n)"
    by (simp only: unsigned_or_eq unsigned_push_bit_eq g) (simp only: take_bit_eq_mod push_bit_eq_mult)
  also have "\<dots> = unat r + (?g * 2 ^ k mod 2 ^ ?n)"
    using or_push_bit_nat [OF assms(1), of "?g mod 2 ^ (?n - k)"]
    by (simp only: shift or.commute) (simp only: push_bit_eq_mult add.commute)
  finally have e: "unat ?w = unat r + (?g * 2 ^ k mod 2 ^ ?n)" .
  then have "unat ?w mod 2 ^ ?n = (unat r + ?g * 2 ^ k) mod 2 ^ ?n" by (simp only: mod_add_right_eq)
  then have "unat ?w = (unat r + ?g * 2 ^ k) mod 2 ^ ?n" using unsigned_less [of ?w, where ?'a = nat] by (simp only: mod_less)
  then show ?thesis by (simp only: word_eq_iff_unat) (simp add: unsigned_of_nat take_bit_eq_mod del: of_nat_add)
qed

lemma high_iff: "b AND 0x80 \<noteq> 0 \<longleftrightarrow> 128 \<le> unat (b :: byte)"
  by (simp add: high_bit_iff not_less)

lemma varint64_loop_reads:
  "is_varint bs \<Longrightarrow> unat bitpos + 7 * length bs \<le> 70 \<Longrightarrow> unat r < 2 ^ unat bitpos \<Longrightarrow>
   src s = Memory (bs @ rest) \<Longrightarrow> length bs \<le> unat (bytes_left s) \<Longrightarrow>
   varint64_loop bitpos r s =
     (Some (word_of_nat (unat r + 2 ^ unat bitpos * varint_value bs)), behind (length bs) rest s)"
proof (induction bs arbitrary: bitpos r s)
  case Nil
  then show ?case by simp
next
  case (Cons b bs)
  have pos: "unat bitpos < 64" using Cons.prems(2) by simp
  have read: "pb_readbyte s = (Some b, behind 1 (bs @ rest) s)"
    using decoder.reads [OF decoder_readbyte, of s b "bs @ rest"] Cons.prems by simp
  let ?r = "r OR push_bit (unat bitpos) (ucast (b AND 0x7f)) :: u64"
  have r: "?r = word_of_nat (unat r + unat b mod 128 * 2 ^ unat bitpos)"
    by (rule or_group [OF Cons.prems(3)]) (use pos in simp_all)
  have "\<not> bitpos \<ge> 64" using pos by (simp add: word_le_nat_alt)
  then have loop: "varint64_loop bitpos r s =
      (if 128 \<le> unat b then varint64_loop (bitpos + 7) ?r (behind 1 (bs @ rest) s) else (Some ?r, behind 1 (bs @ rest) s))"
    by (subst varint64_loop.simps) (simp add: read Let_def high_bit_iff)
  show ?case
  proof (cases "bs = []")
    case True
    then show ?thesis using Cons.prems by (simp add: loop r is_varint_Cons ac_simps)
  next
    case False
    then have b: "128 \<le> unat b" and bs: "is_varint bs" using Cons.prems by (simp_all add: is_varint_Cons)
    have "length bs \<ge> 1" using False by (cases bs) simp_all
    then have "unat bitpos + 14 \<le> 70" using Cons.prems(2) by simp
    then have p: "unat (bitpos + 7) = unat bitpos + 7" by (simp add: unat_word_ariths)
    have small: "unat r + unat b mod 128 * 2 ^ unat bitpos < 2 ^ (unat bitpos + 7)"
    proof -
      have "unat r + unat b mod 128 * 2 ^ unat bitpos < 2 ^ unat bitpos + 127 * 2 ^ unat bitpos"
        using Cons.prems(3) by (intro add_less_le_mono mult_right_mono) simp_all
      also have "\<dots> = 2 ^ (unat bitpos + 7)" by (simp add: power_add)
      finally show ?thesis .
    qed
    also have "\<dots> \<le> 2 ^ 63" using \<open>unat bitpos + 14 \<le> 70\<close> by (intro power_increasing) simp_all
    finally have ur: "unat ?r = unat r + unat b mod 128 * 2 ^ unat bitpos"
      unfolding r by (intro unat_word_of_nat_64) simp
    have "varint64_loop (bitpos + 7) ?r (behind 1 (bs @ rest) s) =
        (Some (word_of_nat (unat ?r + 2 ^ unat (bitpos + 7) * varint_value bs)), behind (length bs) rest (behind 1 (bs @ rest) s))"
      using Cons.prems small by (intro Cons.IH [OF bs]) (simp_all only: p ur, simp_all)
    moreover have "unat ?r + 2 ^ unat (bitpos + 7) * varint_value bs = unat r + 2 ^ unat bitpos * varint_value (b # bs)"
      by (simp add: p ur power_add algebra_simps)
    ultimately show ?thesis using b by (simp add: loop del: of_nat_add)
  qed
qed

text \<open>A varint that the stream cuts off is an error, wherever the loop stands.\<close>

lemma varint64_loop_ends:
  "is_varint bs \<Longrightarrow> src s = Memory (bs @ rest) \<Longrightarrow> unat (bytes_left s) < length bs \<Longrightarrow>
   fst (varint64_loop bitpos r s) = None"
proof (induction bs arbitrary: bitpos r s)
  case Nil
  then show ?case by simp
next
  case (Cons b bs)
  show ?case
  proof (cases "bitpos \<ge> 64 \<or> bytes_left s = 0")
    case True
    then show ?thesis by (subst varint64_loop.simps) (auto simp: PB_IN_ERROR_def pb_readbyte_def)
  next
    case False
    then have "0 < unat (bytes_left s)" by (simp add: unat_pos_iff)
    then have "bs \<noteq> []" using Cons.prems by auto
    then have b: "128 \<le> unat b" and bs: "is_varint bs" using Cons.prems by (simp_all add: is_varint_Cons)
    have read: "pb_readbyte s = (Some b, behind 1 (bs @ rest) s)"
      using decoder.reads [OF decoder_readbyte, of s b "bs @ rest"] Cons.prems False by (simp add: bytes_left_pos)
    have "fst (varint64_loop (bitpos + 7) r' (behind 1 (bs @ rest) s)) = None" for r'
      using Cons.prems \<open>0 < unat (bytes_left s)\<close> by (intro Cons.IH [OF bs]) simp_all
    then show ?thesis using False b
      by (subst varint64_loop.simps) (simp add: read Let_def high_bit_iff)
  qed
qed

lemma varint64_loop_overlong:
  "is_varint bs \<Longrightarrow> unat bitpos + 7 * length bs > 70 \<Longrightarrow> unat bitpos \<le> 70 \<Longrightarrow> 7 dvd unat bitpos \<Longrightarrow>
   src s = Memory (bs @ rest) \<Longrightarrow> fst (varint64_loop bitpos r s) = None"
proof (induction bs arbitrary: bitpos r s)
  case Nil
  then show ?case by simp
next
  case (Cons b bs)
  show ?case
  proof (cases "bitpos \<ge> 64 \<or> bytes_left s = 0")
    case True
    then show ?thesis by (subst varint64_loop.simps) (auto simp: PB_IN_ERROR_def pb_readbyte_def)
  next
    case False
    then have pos: "unat bitpos < 64" by (simp add: word_le_nat_alt)
    with Cons.prems(4) have le: "unat bitpos \<le> 63" by simp
    then have "bs \<noteq> []" using Cons.prems(2) by auto
    then have b: "128 \<le> unat b" and bs: "is_varint bs" using Cons.prems by (simp_all add: is_varint_Cons)
    have p: "unat (bitpos + 7) = unat bitpos + 7" using le by (simp add: unat_word_ariths)
    have read: "pb_readbyte s = (Some b, behind 1 (bs @ rest) s)"
      using decoder.reads [OF decoder_readbyte, of s b "bs @ rest"] Cons.prems False by (simp add: bytes_left_pos)
    have "fst (varint64_loop (bitpos + 7) r' (behind 1 (bs @ rest) s)) = None" for r'
      using Cons.prems le by (intro Cons.IH [OF bs]) (simp_all add: p)
    then show ?thesis using False b
      by (subst varint64_loop.simps) (simp add: read Let_def high_bit_iff)
  qed
qed


lemma decoder_varint:
  assumes "is_varint bs" and "length bs \<le> 10"
  shows "decoder pb_decode_varint bs (word_of_nat (varint_value bs))"
proof unfold_locales
  fix s :: "'a pb_istream" and rest
  assume s: "src s = Memory (bs @ rest)"
  show "pb_decode_varint s = (Some (word_of_nat (varint_value bs)), behind (length bs) rest s)"
    if "length bs \<le> unat (bytes_left s)"
    using varint64_loop_reads [OF assms(1) _ _ s that, of 0 0] assms by (simp add: pb_decode_varint_def)
  show "fst (pb_decode_varint s) = None" if "unat (bytes_left s) < length bs"
    unfolding pb_decode_varint_def using assms(1) s that
    by (rule varint64_loop_ends)
qed


interpretation varint: decoder pb_decode_varint "varint (unat v)" v
  using decoder_varint [of "varint (unat v)"] varint_is_varint length_varint_u64 by simp

lemma unzigzag:
  "(if zigzag v AND 1 \<noteq> 0 then NOT (drop_bit 1 (zigzag v)) else drop_bit 1 (zigzag v)) = v"
proof -
  have sgn: "sint v < 0 \<longleftrightarrow> bit v 63" using bit_last_iff [of v] by simp
  have bits: "bit (zigzag v) n \<longleftrightarrow> (if n = 0 then bit v 63 else n < 64 \<and> (bit v (n - 1) \<noteq> bit v 63))" for n
    by (cases "bit v 63") (auto simp: zigzag_def sgn bit_simps simp del: One_nat_def)
  have low: "zigzag v AND 1 \<noteq> 0 \<longleftrightarrow> bit v 63"
    by (metis and_exp_eq_0_iff_not_bit bits power_0)
  show ?thesis
  proof (rule bit_word_eqI)
    fix n assume "n < LENGTH(64)"
    then show "bit (if zigzag v AND 1 \<noteq> 0 then NOT (drop_bit 1 (zigzag v)) else drop_bit 1 (zigzag v)) n = bit v n"
      by (cases "n = 63") (auto simp: low bit_simps bits)
  qed
qed

interpretation svarint: decoder pb_decode_svarint "varint (unat (zigzag v))" v
  using decoder_map [OF varint.decoder_axioms [of "zigzag v"], of
    "\<lambda>value. if value AND 1 \<noteq> 0 then NOT (drop_bit 1 value) else drop_bit 1 value"]
  by (simp only: pb_decode_svarint_def unzigzag)

text \<open>Putting the bytes of a number together again.\<close>

lemma join_4: "push_bit 0 (ucast (ucast v :: byte)) OR push_bit 8 (ucast (ucast (drop_bit 8 v) :: byte)) OR
    push_bit 16 (ucast (ucast (drop_bit 16 v) :: byte)) OR push_bit 24 (ucast (ucast (drop_bit 24 v) :: byte)) = (v :: u32)"
proof (rule bit_word_eqI)
  fix n assume "n < LENGTH(32)"
  then show "bit (push_bit 0 (ucast (ucast v :: byte)) OR push_bit 8 (ucast (ucast (drop_bit 8 v) :: byte)) OR
    push_bit 16 (ucast (ucast (drop_bit 16 v) :: byte)) OR push_bit 24 (ucast (ucast (drop_bit 24 v) :: byte)) :: u32) n = bit v n"
    by (cases "n < 8"; cases "n < 16"; cases "n < 24") (auto simp: bit_simps)
qed

lemma le_bytes_nth_32: "i < 4 \<Longrightarrow> le_bytes 4 (unat (v :: u32)) ! i = ucast (drop_bit (8 * i) v)"
  by (simp add: le_bytes_def word_eq_iff_unat unat_ucast_mod unat_drop_bit power_mult)

lemma le_bytes_nth_64: "i < 8 \<Longrightarrow> le_bytes 8 (unat (v :: u64)) ! i = ucast (drop_bit (8 * i) v)"
  by (simp add: le_bytes_def word_eq_iff_unat unat_ucast_mod unat_drop_bit power_mult)

lemma decoder_fixed32: "decoder (pb_decode_fixed32 :: ('s pb_istream, u32) op) (le_bytes 4 (unat v)) v"
proof -
  let ?f = "\<lambda>bytes. (push_bit 0 (ucast (bytes ! 0)) OR push_bit 8 (ucast (bytes ! 1)) OR push_bit 16 (ucast (bytes ! 2)) OR push_bit 24 (ucast (bytes ! 3))) :: u32"
  have "?f (le_bytes 4 (unat v)) = v" using join_4 [of v] by (simp add: le_bytes_nth_32)
  then show ?thesis
    unfolding pb_decode_fixed32_def
    using decoder_map [OF decoder_read [where 'a = 's, of "le_bytes 4 (unat v)"], of ?f] by simp
qed

interpretation fixed32: decoder pb_decode_fixed32 "le_bytes 4 (unat v)" v
  by (rule decoder_fixed32)

lemma join_8: "(push_bit 0 (ucast (ucast (drop_bit 0 v) :: byte)) OR push_bit 8 (ucast (ucast (drop_bit 8 v) :: byte)) OR push_bit 16 (ucast (ucast (drop_bit 16 v) :: byte)) OR push_bit 24 (ucast (ucast (drop_bit 24 v) :: byte)) OR push_bit 32 (ucast (ucast (drop_bit 32 v) :: byte)) OR push_bit 40 (ucast (ucast (drop_bit 40 v) :: byte)) OR push_bit 48 (ucast (ucast (drop_bit 48 v) :: byte)) OR push_bit 56 (ucast (ucast (drop_bit 56 v) :: byte))) = (v :: u64)" (is "?l = v")
proof (rule bit_word_eqI)
  fix n assume "n < LENGTH(64)"
  then consider "n < 8" | "8 \<le> n" "n < 16" | "16 \<le> n" "n < 24" | "24 \<le> n" "n < 32" | "32 \<le> n" "n < 40" | "40 \<le> n" "n < 48" | "48 \<le> n" "n < 56" | "56 \<le> n" "n < 64"
    by (simp, linarith)
  then show "bit ?l n = bit v n" by cases (simp_all add: bit_simps less_diff_conv2)
qed

lemma decoder_fixed64: "decoder (pb_decode_fixed64 :: ('s pb_istream, u64) op) (le_bytes 8 (unat v)) v"
proof -
  let ?f = "\<lambda>bytes. (push_bit 0 (ucast (bytes ! 0)) OR push_bit 8 (ucast (bytes ! 1)) OR push_bit 16 (ucast (bytes ! 2)) OR push_bit 24 (ucast (bytes ! 3)) OR push_bit 32 (ucast (bytes ! 4)) OR push_bit 40 (ucast (bytes ! 5)) OR push_bit 48 (ucast (bytes ! 6)) OR push_bit 56 (ucast (bytes ! 7))) :: u64"
  have "?f (le_bytes 8 (unat v)) = v" using join_8 [of v] by (simp add: le_bytes_nth_64)
  then show ?thesis
    unfolding pb_decode_fixed64_def
    using decoder_map [OF decoder_read [where 'a = 's, of "le_bytes 8 (unat v)"], of ?f] by simp
qed

interpretation fixed64: decoder pb_decode_fixed64 "le_bytes 8 (unat v)" v
  by (rule decoder_fixed64)

section \<open>The 32-bit decoder\<close>

lemma varint32_loop_reads:
  "is_varint bs \<Longrightarrow> unat bitpos + 7 * length bs \<le> 35 \<Longrightarrow> unat r < 2 ^ unat bitpos \<Longrightarrow>
   unat r + 2 ^ unat bitpos * varint_value bs < 2 ^ 32 \<Longrightarrow>
   src s = Memory (bs @ rest) \<Longrightarrow> length bs \<le> unat (bytes_left s) \<Longrightarrow>
   varint32_loop bitpos r s =
     (Some (bitpos + word_of_nat (7 * length bs), word_of_nat (unat r + 2 ^ unat bitpos * varint_value bs), last bs),
      behind (length bs) rest s)"
proof (induction bs arbitrary: bitpos r s)
  case Nil
  then show ?case by simp
next
  case (Cons b bs)
  have pos: "unat bitpos < 32" using Cons.prems(2) by simp
  then have small_pos: "\<not> bitpos \<ge> 32" by (simp add: word_le_nat_alt)
  have read: "pb_readbyte s = (Some b, behind 1 (bs @ rest) s)"
    using decoder.reads [OF decoder_readbyte, of s b "bs @ rest"] Cons.prems by simp
  let ?r = "r OR push_bit (unat bitpos) (ucast (b AND 0x7f)) :: u32"
  have r: "?r = word_of_nat (unat r + unat b mod 128 * 2 ^ unat bitpos)"
    by (rule or_group [OF Cons.prems(3)]) (use pos in simp_all)
  have loop: "varint32_loop bitpos r s =
      (if 128 \<le> unat b then varint32_loop (bitpos + 7) ?r (behind 1 (bs @ rest) s)
       else (Some (bitpos + 7, ?r, b), behind 1 (bs @ rest) s))"
    using small_pos by (subst varint32_loop.simps) (simp add: read Let_def high_bit_iff)
  show ?case
  proof (cases "bs = []")
    case True
    then show ?thesis using Cons.prems by (simp add: loop r is_varint_Cons ac_simps)
  next
    case False
    then have b: "128 \<le> unat b" and bs: "is_varint bs" using Cons.prems by (simp_all add: is_varint_Cons)
    have "length bs \<ge> 1" using False by (cases bs) simp_all
    then have le: "unat bitpos + 14 \<le> 35" using Cons.prems(2) by simp
    then have p: "unat (bitpos + 7) = unat bitpos + 7" by (simp add: unat_word_ariths)
    have "unat r + unat b mod 128 * 2 ^ unat bitpos < 2 ^ unat bitpos + 127 * 2 ^ unat bitpos"
      using Cons.prems(3) by (intro add_less_le_mono mult_right_mono) simp_all
    then have small: "unat r + unat b mod 128 * 2 ^ unat bitpos < 2 ^ (unat bitpos + 7)" by (simp add: power_add)
    also have "\<dots> \<le> 2 ^ 28" using le by (intro power_increasing) simp_all
    finally have ur: "unat ?r = unat r + unat b mod 128 * 2 ^ unat bitpos"
      unfolding r by (intro unat_word_of_nat_32) simp
    have sum: "unat ?r + 2 ^ unat (bitpos + 7) * varint_value bs = unat r + 2 ^ unat bitpos * varint_value (b # bs)"
      by (simp add: p ur power_add algebra_simps)
    have "varint32_loop (bitpos + 7) ?r (behind 1 (bs @ rest) s) =
        (Some (bitpos + 7 + word_of_nat (7 * length bs), word_of_nat (unat ?r + 2 ^ unat (bitpos + 7) * varint_value bs), last bs),
         behind (length bs) rest (behind 1 (bs @ rest) s))"
    proof (rule Cons.IH [OF bs])
      show "unat ?r + 2 ^ unat (bitpos + 7) * varint_value bs < 2 ^ 32" unfolding sum by (rule Cons.prems)
      show "unat ?r < 2 ^ unat (bitpos + 7)" using small by (simp only: ur p)
    qed (use Cons.prems p in simp_all)
    moreover have "bitpos + 7 + word_of_nat (7 * length bs) = bitpos + word_of_nat (7 * length (b # bs))" by simp
    ultimately show ?thesis using b False by (simp add: loop sum del: of_nat_add of_nat_mult of_nat_Suc)
  qed
qed

lemma varint32_loop_ends:
  "is_varint bs \<Longrightarrow> src s = Memory (bs @ rest) \<Longrightarrow> unat (bytes_left s) < length bs \<Longrightarrow>
   fst (varint32_loop bitpos r s) = None"
proof (induction bs arbitrary: bitpos r s)
  case Nil
  then show ?case by simp
next
  case (Cons b bs)
  show ?case
  proof (cases "bytes_left s = 0")
    case True
    then show ?thesis by (subst varint32_loop.simps) (simp add: PB_IN_ERROR_def pb_readbyte_def)
  next
    case False
    then have "0 < unat (bytes_left s)" by (simp add: unat_pos_iff)
    then have "bs \<noteq> []" using Cons.prems by auto
    then have b: "128 \<le> unat b" and bs: "is_varint bs" using Cons.prems by (simp_all add: is_varint_Cons)
    have read: "pb_readbyte s = (Some b, behind 1 (bs @ rest) s)"
      using decoder.reads [OF decoder_readbyte, of s b "bs @ rest"] Cons.prems False by (simp add: bytes_left_pos)
    have "fst (varint32_loop (bitpos + 7) r' (behind 1 (bs @ rest) s)) = None" for r'
      using Cons.prems \<open>0 < unat (bytes_left s)\<close> by (intro Cons.IH [OF bs]) simp_all
    then show ?thesis using b
      by (subst varint32_loop.simps) (simp add: read Let_def high_bit_iff PB_IN_ERROR_def)
  qed
qed

lemma last_group: "is_varint bs \<Longrightarrow> unat (last bs) * 128 ^ (length bs - 1) \<le> varint_value bs"
proof (induction bs rule: is_varint.induct)
  case (3 b c bs)
  then have "unat (last (c # bs)) * 128 ^ length bs \<le> varint_value (c # bs)" by simp
  then have "128 * (unat (last (c # bs)) * 128 ^ length bs) \<le> 128 * varint_value (c # bs)" by (rule mult_le_mono2)
  then show ?case by (simp add: ac_simps)
qed simp_all

lemma low_nibble:
  assumes "unat (b :: byte) < 16"
  shows "b AND 0x70 = 0"
proof -
  have "take_bit 4 b = b"
    using assms by (simp only: word_eq_iff_unat unsigned_take_bit_eq) (simp add: take_bit_nat_eq_self_iff)
  then have "\<not> bit b n" if "4 \<le> n" for n using that by (metis bit_take_bit_iff not_le)
  then show ?thesis by (intro byte_bits_eqI) (auto simp: bit_simps)
qed

lemma varint32_eof_reads:
  assumes v: "is_varint bs" and len: "length bs \<le> 5" and small: "varint_value bs < 2 ^ 32"
    and s: "src s = Memory (bs @ rest)" and left: "length bs \<le> unat (bytes_left s)"
  shows "pb_decode_varint32_eof s = (Some (word_of_nat (varint_value bs)), False, behind (length bs) rest s)"
proof -
  obtain b cs where bs: "bs = b # cs" using v by (cases bs) simp_all
  have read: "pb_readbyte s = (Some b, behind 1 (cs @ rest) s)"
    using decoder.reads [OF decoder_readbyte, of s b "cs @ rest"] s left bs by simp
  show ?thesis
  proof (cases "cs = []")
    case True
    then have "unat b < 128" using v bs by simp
    then have "(ucast b :: u32) = word_of_nat (varint_value bs)"
      by (simp only: word_eq_iff_unat) (simp add: bs True)
    with True \<open>unat b < 128\<close> show ?thesis
      by (simp add: pb_decode_varint32_eof_def read high_bit_iff) (simp add: bs)
  next
    case False
    then have b: "128 \<le> unat b" and cs: "is_varint cs" using v by (simp_all add: is_varint_Cons bs)
    let ?r = "ucast (b AND 0x7f) :: u32"
    have r: "unat ?r = unat b mod 128" using low_bits [of b] by simp
    have sum: "unat ?r + 2 ^ unat (7 :: byte) * varint_value cs = varint_value bs" by (simp only: r) (simp add: bs)
    have "varint32_loop 7 ?r (behind 1 (cs @ rest) s) =
        (Some (7 + word_of_nat (7 * length cs), word_of_nat (unat ?r + 2 ^ unat (7 :: byte) * varint_value cs), last cs),
         behind (length cs) rest (behind 1 (cs @ rest) s))"
    proof (rule varint32_loop_reads [OF cs])
      show "unat ?r + 2 ^ unat (7 :: byte) * varint_value cs < 2 ^ 32" unfolding sum by (rule small)
      show "unat ?r < 2 ^ unat (7 :: byte)" unfolding r by simp
    qed (use len left bs in simp_all)
    then have loop: "varint32_loop 7 ?r (behind 1 (cs @ rest) s) =
        (Some (7 + word_of_nat (7 * length cs), word_of_nat (varint_value bs), last cs), behind (length bs) rest s)"
      unfolding sum by (simp add: bs)
    have "last cs AND 0x70 = 0" if "7 + word_of_nat (7 * length cs) = (35 :: byte)"
    proof -
      have "unat (7 + word_of_nat (7 * length cs) :: byte) = 7 + 7 * length cs"
        using len bs by (simp add: unat_word_ariths)
      then have "length cs = 4" using that by simp
      then have "length bs - 1 = 4" by (simp add: bs)
      have "unat (last bs) * 128 ^ 4 < 2 ^ 32" using last_group [OF v] small \<open>length bs - 1 = 4\<close> by simp
      then have "unat (last cs) < 16" using False by (simp add: bs)
      then show ?thesis by (rule low_nibble)
    qed
    then show ?thesis using b
      by (simp add: pb_decode_varint32_eof_def read high_bit_iff loop del: One_nat_def of_nat_mult)
  qed
qed


lemma varint32_eof_ends:
  assumes v: "is_varint bs" and s: "src s = Memory (bs @ rest)" and left: "unat (bytes_left s) < length bs"
  shows "fst (pb_decode_varint32_eof s) = None"
proof (cases "bytes_left s = 0")
  case True
  then show ?thesis by (simp add: pb_decode_varint32_eof_def pb_readbyte_def PB_IN_ERROR_def)
next
  case False
  then have pos: "0 < unat (bytes_left s)" by (simp add: unat_pos_iff)
  obtain b cs where bs: "bs = b # cs" using v by (cases bs) simp_all
  have read: "pb_readbyte s = (Some b, behind 1 (cs @ rest) s)"
    using decoder.reads [OF decoder_readbyte, of s b "cs @ rest"] s pos bs by simp
  have "cs \<noteq> []" using pos left bs by auto
  then have b: "128 \<le> unat b" and cs: "is_varint cs" using v by (simp_all add: is_varint_Cons bs)
  have "fst (varint32_loop 7 (ucast (b AND 0x7f)) (behind 1 (cs @ rest) s)) = None"
    by (rule varint32_loop_ends [OF cs]) (use left pos bs in simp_all)
  with b show ?thesis
    by (auto simp: pb_decode_varint32_eof_def read high_bit_iff split: prod.splits option.splits)
qed

lemma decoder_varint32:
  assumes "is_varint bs" and "length bs \<le> 5" and "varint_value bs < 2 ^ 32"
  shows "decoder pb_decode_varint32 bs (word_of_nat (varint_value bs))"
  by unfold_locales
    (simp_all add: pb_decode_varint32_def varint32_eof_reads [OF assms] varint32_eof_ends [OF assms(1)] split_beta)

lemma decoder_varint32_of:
  assumes "n < 2 ^ 32"
  shows "decoder pb_decode_varint32 (varint n) (word_of_nat n)"
proof -
  have "length (varint n) \<le> Suc 4" by (rule length_varint) (use assms in simp)
  then show ?thesis using decoder_varint32 [of "varint n"] varint_is_varint [of n] assms by simp
qed

section \<open>Fields\<close>

text \<open>Tags, with the wire type in the low three bits.\<close>

lemma pb_decode_tag_reads:
  assumes wt: "unat wt < 8" and n: "0 < unat n" "unat n < 2 ^ 29"
    and s: "src s = Memory (varint (unat n * 8 + unat wt) @ rest)"
    and left: "length (varint (unat n * 8 + unat wt)) \<le> unat (bytes_left s)"
  shows "pb_decode_tag s = (Some (wt, n), False, behind (length (varint (unat n * 8 + unat wt))) rest s)"
proof -
  let ?t = "unat n * 8 + unat wt"
  have t: "?t < 2 ^ 32" using wt n by simp
  have "length (varint ?t) \<le> Suc 4" by (rule length_varint) (use t in simp)
  then have r: "pb_decode_varint32_eof s = (Some (word_of_nat ?t), False, behind (length (varint ?t)) rest s)"
    using varint32_eof_reads [of "varint ?t" s rest] varint_is_varint [of ?t] t s left by simp
  have u: "unat (word_of_nat ?t :: u32) = ?t" using t by (rule unat_word_of_nat_32)
  have "unat (word_of_nat ?t AND 7 :: u32) = unat wt"
    using unat_and_mask [of "word_of_nat ?t :: u32" 3] wt by (simp only: u) (simp add: mask_eq_exp_minus_1)
  moreover have "unat (drop_bit 3 (word_of_nat ?t) :: u32) = unat n"
    using wt by (simp only: unat_drop_bit u) simp
  moreover have "word_of_nat ?t \<noteq> (0 :: u32)" using u n by (metis add_is_0 mult_is_0 not_less_zero unsigned_0 zero_neq_numeral)
  ultimately show ?thesis
    by (simp add: pb_decode_tag_def r word_eq_iff_unat del: of_nat_add of_nat_mult)
qed

lemma decoder_skip_varint:
  assumes "is_varint bs"
  shows "decoder pb_skip_varint bs ()"
proof unfold_locales
  have read: "pb_read_buf 1 s = (Some [b], behind 1 m s)" if "src s = Memory (b # m)" "1 \<le> unat (bytes_left s)"
    for b m and s :: "'a pb_istream"
    using decoder.reads [OF decoder_read [of "[b]"], of s m] that by simp
  fix s :: "'a pb_istream" and rest
  show "src s = Memory (bs @ rest) \<Longrightarrow> length bs \<le> unat (bytes_left s) \<Longrightarrow>
      pb_skip_varint s = (Some (), behind (length bs) rest s)"
    using assms
  proof (induction bs arbitrary: s)
    case (Cons b bs)
    then show ?case
      by (subst pb_skip_varint.simps) (auto simp: read high_bit_iff is_varint_Cons split: if_splits)
  qed simp
  show "src s = Memory (bs @ rest) \<Longrightarrow> unat (bytes_left s) < length bs \<Longrightarrow> fst (pb_skip_varint s) = None"
    using assms
  proof (induction bs arbitrary: s)
    case (Cons b bs)
    show ?case
    proof (cases "bytes_left s = 0")
      case True
      then show ?thesis by (subst pb_skip_varint.simps) (simp add: pb_read_buf_def PB_IN_ERROR_def)
    next
      case False
      then have "0 < unat (bytes_left s)" by (simp add: unat_pos_iff)
      then show ?thesis using Cons
        by (subst pb_skip_varint.simps) (auto simp: read high_bit_iff is_varint_Cons split: if_splits)
    qed
  qed simp
qed

lemma decoder_skip_string:
  assumes "length bytes < 2 ^ 32"
  shows "decoder pb_skip_string (varint (length bytes) @ bytes) ()"
proof -
  have "ucast (word_of_nat (length bytes) :: u32) = (word_of_nat (length bytes) :: u64)"
    using assms by (simp only: word_eq_iff_unat) simp
  then show ?thesis
    unfolding pb_skip_string_def
    using decoder_andthen [OF decoder_varint32_of [OF assms], of "\<lambda>length. pb_read_null (ucast length)" bytes "()"]
      decoder_read_null [of bytes] assms by simp
qed

section \<open>Length-delimited values\<close>

text \<open>What the decoder of the contents leaves unread is skipped.\<close>

lemma decoder_delimited:
  assumes dec: "decoder dec xs v" and len: "length (xs @ ys) < 2 ^ 32"
  shows "decoder (pb_decode_delimited dec) (varint (length (xs @ ys)) @ xs @ ys) v"
proof unfold_locales
  fix s :: "'a pb_istream" and rest
  define n where "n = length xs + length ys"
  have n: "length xs + length ys = n" "length (xs @ ys) = n" by (simp_all add: n_def)
  have len: "n < 2 ^ 32" using len by (simp add: n_def)
  note size = decoder_varint32_of [OF len]
  let ?p = "varint n"
  have un: "unat (ucast (word_of_nat n :: u32) :: u64) = n"
    using len by (simp only: unat_ucast_up_byte unat_word_of_nat_32)
  have u: "(ucast (word_of_nat n :: u32) :: u64) = word_of_nat n"
    using len by (simp only: word_eq_iff_unat un, subst unat_word_of_nat_64) simp_all
  have u64: "unat (word_of_nat n :: u64) = n" "unat (word_of_nat n :: u32) = n" using len by simp_all
  assume "src s = Memory ((varint (length (xs @ ys)) @ xs @ ys) @ rest)"
  then have s: "src s = Memory (?p @ (xs @ ys @ rest))" by (simp add: n)
  show "fst (pb_decode_delimited dec s) = None" if "unat (bytes_left s) < length (varint (length (xs @ ys)) @ xs @ ys)"
  proof (cases "length ?p \<le> unat (bytes_left s)")
    case True
    have h: "unat (bytes_left s) < length ?p + n" using that by (simp add: n)
    define s1 where "s1 = behind (length ?p) (xs @ ys @ rest) s"
    have "unat (bytes_left s1) < n" using h True by (simp add: s1_def)
    then have "fst (pb_make_string_substream s) = None"
      using decoder.reads [OF size s True]
      by (simp add: pb_make_string_substream_def andthen_def s1_def [symmetric] word_less_nat_alt u u64 PB_IN_ERROR_def)
    then show ?thesis by (cases "pb_make_string_substream s") (simp add: pb_decode_delimited_def andthen_def)
  next
    case False
    then show ?thesis using decoder.ends [OF size s]
      by (cases "pb_decode_varint32 s") (simp add: pb_decode_delimited_def pb_make_string_substream_def andthen_def)
  qed
  show "pb_decode_delimited dec s = (Some v, behind (length (varint (length (xs @ ys)) @ xs @ ys)) rest s)"
    if "length (varint (length (xs @ ys)) @ xs @ ys) \<le> unat (bytes_left s)"
  proof -
    have h: "length ?p + n \<le> unat (bytes_left s)" using that by (simp add: n)
    define s1 where "s1 = behind (length ?p) (xs @ ys @ rest) s"
    have left: "n \<le> unat (bytes_left s1)" using h by (simp add: s1_def)
    define sub where "sub = s1\<lparr>bytes_left := word_of_nat n\<rparr>"
    define s2 where "s2 = s1\<lparr>bytes_left := bytes_left s1 - word_of_nat n\<rparr>"
    have mk: "pb_make_string_substream s = (Some sub, s2)"
      using decoder.reads [OF size s] h left
      by (simp add: pb_make_string_substream_def andthen_def s1_def [symmetric] word_less_nat_alt u64 u sub_def s2_def)
    have nsub: "unat (bytes_left sub) = n" using len by (simp add: sub_def)
    have d: "dec sub = (Some v, behind (length xs) (ys @ rest) sub)"
      by (rule decoder.reads [OF dec]) (simp_all add: nsub, simp_all add: sub_def s1_def n_def)
    let ?sub = "behind (length xs) (ys @ rest) sub"
    have lsub: "bytes_left ?sub = word_of_nat (length ys)"
      by (simp add: behind_def sub_def n_def)
    have closed: "(if bytes_left ?sub \<noteq> 0 then pb_read_null (bytes_left ?sub) ?sub else (Some (), ?sub)) =
        (Some (), behind (length ys) rest ?sub)"
    proof (cases "ys = []")
      case True
      then show ?thesis using lsub behind_0 [of ?sub rest] by simp
    next
      case False
      have "pb_read_null (bytes_left ?sub) ?sub = (Some (), behind (length ys) rest ?sub)"
        unfolding lsub by (rule decoder.reads [OF decoder_read_null]) (use len nsub n_def in simp_all)
      moreover have "unat (bytes_left ?sub) = length ys" using nsub n_def by simp
      ultimately show ?thesis using False by (metis length_0_conv unsigned_0)
    qed
    have "pb_close_string_substream ?sub s2 = (Some (), behind (length ?p + n) rest s)"
      unfolding pb_close_string_substream_def closed
      by (simp add: s2_def sub_def s1_def behind_def diff_diff_add)
    then show ?thesis by (simp add: pb_decode_delimited_def andthen_def mk d n)
  qed
qed

section \<open>No reader leaves its buffer\<close>

text \<open>
  Whatever the input is and whether the reader succeeds, it moves forward in the memory by at
  most as many bytes as it takes off the count of the bytes that are left.
\<close>

locale consumer =
  fixes dec :: "('s pb_istream, 'a) op"
  assumes moves: "src s = Memory m \<Longrightarrow>
    \<exists>k. src (snd (dec s)) = Memory (drop k m) \<and> k + unat (bytes_left (snd (dec s))) \<le> unat (bytes_left s)"

lemma consumer_andthen:
  assumes f: "consumer f" and g: "\<And>a. consumer (g a)"
  shows "consumer (andthen f g)"
proof unfold_locales
  fix s :: "'a pb_istream" and m
  assume "src s = Memory m"
  from consumer.moves [OF f this] obtain k where k: "src (snd (f s)) = Memory (drop k m)"
    "k + unat (bytes_left (snd (f s))) \<le> unat (bytes_left s)" by auto
  show "\<exists>k. src (snd (andthen f g s)) = Memory (drop k m)
      \<and> k + unat (bytes_left (snd (andthen f g s))) \<le> unat (bytes_left s)"
  proof (cases "f s")
    case (Pair r s1)
    show ?thesis
    proof (cases r)
      case None
      with k Pair show ?thesis by (auto simp: andthen_def)
    next
      case (Some a)
      from consumer.moves [OF g, of s1 "drop k m" a] k Pair obtain k' where
        "src (snd (g a s1)) = Memory (drop (k' + k) m)" "k' + unat (bytes_left (snd (g a s1))) \<le> unat (bytes_left s1)"
        by auto
      with k Pair Some show ?thesis by (intro exI [of _ "k' + k"]) (simp add: andthen_def)
    qed
  qed
qed

lemma consumer_still:
  assumes "\<And>s. src (snd (f s)) = src s \<and> bytes_left (snd (f s)) = bytes_left s"
  shows "consumer (f :: ('s pb_istream, 'a) op)"
proof unfold_locales
  fix s :: "'s pb_istream" and m
  assume "src s = Memory m"
  then show "\<exists>k. src (snd (f s)) = Memory (drop k m) \<and> k + unat (bytes_left (snd (f s))) \<le> unat (bytes_left s)"
    using assms [of s] by (intro exI [of _ 0]) simp
qed

lemma consumer_error: "consumer (PB_IN_ERROR m)"
  by (rule consumer_still) (simp add: PB_IN_ERROR_def)

lemma consumer_ret: "consumer (ret v)"
  by (rule consumer_still) (simp add: ret_def)

lemma consumer_read_buf: "consumer (pb_read_buf count)"
proof unfold_locales
  fix s :: "'a pb_istream" and m
  assume s: "src s = Memory m"
  show "\<exists>k. src (snd (pb_read_buf count s)) = Memory (drop k m)
      \<and> k + unat (bytes_left (snd (pb_read_buf count s))) \<le> unat (bytes_left s)"
  proof (cases "count = 0 \<or> bytes_left s < count")
    case True
    then show ?thesis using s by (intro exI [of _ 0]) (auto simp: pb_read_buf_def PB_IN_ERROR_def)
  next
    case False
    then show ?thesis using s
      by (intro exI [of _ "unat count"]) (simp add: pb_read_buf_def, simp add: not_less word_le_nat_alt unat_sub)
  qed
qed

lemma consumer_read_null: "consumer (pb_read_null count :: ('s pb_istream, unit) op)"
proof unfold_locales
  fix s :: "'s pb_istream" and m
  have r: "consumer (andthen (pb_read_buf count) (\<lambda>_. ret ()) :: ('s pb_istream, unit) op)"
    by (intro consumer_andthen consumer_read_buf consumer_ret)
  assume s: "src s = Memory m"
  show "\<exists>k. src (snd (pb_read_null count s)) = Memory (drop k m)
      \<and> k + unat (bytes_left (snd (pb_read_null count s))) \<le> unat (bytes_left s)"
  proof (cases "count = 0")
    case True
    then show ?thesis using s by (intro exI [of _ 0]) (simp add: pb_read_null_def)
  next
    case False
    then show ?thesis using consumer.moves [OF r s] s by (simp add: pb_read_null_def)
  qed
qed

lemma pb_readbyte_eq: "src s = Memory m \<Longrightarrow> pb_readbyte s = andthen (pb_read_buf 1) (\<lambda>bs. ret (hd bs)) s"
  by (simp add: pb_readbyte_def pb_read_buf_def andthen_def PB_IN_ERROR_def ret_def word_le_nat_alt word_less_nat_alt bytes_left_pos)

lemma consumer_readbyte: "consumer (pb_readbyte :: ('s pb_istream, byte) op)"
proof unfold_locales
  fix s :: "'s pb_istream" and m
  have r: "consumer (andthen (pb_read_buf 1) (\<lambda>bs. ret (hd bs)) :: ('s pb_istream, byte) op)"
    by (intro consumer_andthen consumer_read_buf consumer_ret)
  assume s: "src s = Memory m"
  show "\<exists>k. src (snd (pb_readbyte s)) = Memory (drop k m)
      \<and> k + unat (bytes_left (snd (pb_readbyte s))) \<le> unat (bytes_left s)"
    using consumer.moves [OF r s] by (simp only: pb_readbyte_eq [OF s])
qed

text \<open>A loop reads a byte, and then ends or goes on with what is left.\<close>

lemma moves_loop:
  assumes read: "consumer rd" and s: "src s = Memory m"
    and none: "\<And>s1. rd s = (None, s1) \<Longrightarrow> snd (f s) = s1"
    and some: "\<And>b s1. rd s = (Some b, s1) \<Longrightarrow>
      src (snd (f s)) = src s1 \<and> bytes_left (snd (f s)) = bytes_left s1 \<or>
      (\<forall>m. src s1 = Memory m \<longrightarrow> (\<exists>k. src (snd (f s)) = Memory (drop k m) \<and> k + unat (bytes_left (snd (f s))) \<le> unat (bytes_left s1)))"
  shows "\<exists>k. src (snd (f s)) = Memory (drop k m) \<and> k + unat (bytes_left (snd (f s))) \<le> unat (bytes_left s)"
proof (cases "rd s")
  case (Pair r s1)
  from consumer.moves [OF read s] Pair obtain k where k: "src s1 = Memory (drop k m)"
    "k + unat (bytes_left s1) \<le> unat (bytes_left s)" by auto
  show ?thesis
  proof (cases r)
    case None
    then show ?thesis using none k Pair by auto
  next
    case (Some b)
    with some [of b s1] Pair k consider "src (snd (f s)) = src s1" "bytes_left (snd (f s)) = bytes_left s1"
      | k' where "src (snd (f s)) = Memory (drop (k' + k) m)" "k' + unat (bytes_left (snd (f s))) \<le> unat (bytes_left s1)"
      by auto
    then show ?thesis
    proof cases
      case 1
      then show ?thesis using k by auto
    next
      case 2
      then show ?thesis using k by (intro exI [of _ "k' + k"]) simp
    qed
  qed
qed

lemma consumer_varint64_loop: "consumer (varint64_loop bitpos r :: ('s pb_istream, u64) op)"
proof unfold_locales
  fix s :: "'s pb_istream" and m
  show "src s = Memory m \<Longrightarrow> \<exists>k. src (snd (varint64_loop bitpos r s)) = Memory (drop k m)
      \<and> k + unat (bytes_left (snd (varint64_loop bitpos r s))) \<le> unat (bytes_left s)"
  proof (induction bitpos r s arbitrary: m rule: varint64_loop.induct)
    case (1 bitpos r s)
    show ?case
    proof (cases "bitpos \<ge> 64")
      case True
      then show ?thesis using "1.prems"
        by (intro exI [of _ 0]) (subst varint64_loop.simps, simp add: PB_IN_ERROR_def)+
    next
      case False
      show ?thesis
      proof (rule moves_loop [OF consumer_readbyte "1.prems"])
        show "snd (varint64_loop bitpos r s) = s1" if "pb_readbyte s = (None, s1)" for s1
          using that False by (subst varint64_loop.simps) simp
        show "src (snd (varint64_loop bitpos r s)) = src s1 \<and> bytes_left (snd (varint64_loop bitpos r s)) = bytes_left s1 \<or>
            (\<forall>m. src s1 = Memory m \<longrightarrow> (\<exists>k. src (snd (varint64_loop bitpos r s)) = Memory (drop k m)
              \<and> k + unat (bytes_left (snd (varint64_loop bitpos r s))) \<le> unat (bytes_left s1)))"
          if h: "pb_readbyte s = (Some b, s1)" for b s1
        proof (cases "b AND 0x80 = 0")
          case True
          then show ?thesis using False h by (subst (1 2) varint64_loop.simps) (simp add: Let_def)
        next
          case f: False
          then have e: "varint64_loop bitpos r s = varint64_loop (bitpos + 7) (r OR push_bit (unat bitpos) (ucast (b AND 0x7f))) s1"
            using False h by (subst varint64_loop.simps) (simp add: Let_def)
          show ?thesis unfolding e using "1.IH" [OF False h [symmetric] refl refl refl f] by blast
        qed
      qed
    qed
  qed
qed

lemma consumer_varint32_loop: "consumer (varint32_loop bitpos r :: ('s pb_istream, byte \<times> u32 \<times> byte) op)"
proof unfold_locales
  fix s :: "'s pb_istream" and m
  show "src s = Memory m \<Longrightarrow> \<exists>k. src (snd (varint32_loop bitpos r s)) = Memory (drop k m)
      \<and> k + unat (bytes_left (snd (varint32_loop bitpos r s))) \<le> unat (bytes_left s)"
  proof (induction bitpos r s arbitrary: m rule: varint32_loop.induct)
    case (1 bitpos r s)
    show ?case
    proof (rule moves_loop [OF consumer_readbyte "1.prems"])
      show "snd (varint32_loop bitpos r s) = s1" if "pb_readbyte s = (None, s1)" for s1
        using that by (subst varint32_loop.simps) simp
      show "src (snd (varint32_loop bitpos r s)) = src s1 \<and> bytes_left (snd (varint32_loop bitpos r s)) = bytes_left s1 \<or>
          (\<forall>m. src s1 = Memory m \<longrightarrow> (\<exists>k. src (snd (varint32_loop bitpos r s)) = Memory (drop k m)
            \<and> k + unat (bytes_left (snd (varint32_loop bitpos r s))) \<le> unat (bytes_left s1)))"
        if h: "pb_readbyte s = (Some b, s1)" for b s1
      proof (cases "b AND 0x80 = 0 \<or> bitpos \<ge> 32 \<and> b AND 0x7f \<noteq> 0 \<and>
          (drop_bit 31 r = 0 \<or> b \<noteq> (if bitpos < 63 then 0xff else 0x01))")
        case True
        then have "src (snd (varint32_loop bitpos r s)) = src s1 \<and> bytes_left (snd (varint32_loop bitpos r s)) = bytes_left s1"
          using h by (subst (1 2) varint32_loop.simps) (auto simp: Let_def PB_IN_ERROR_def)
        then show ?thesis ..
      next
        case f: False
        then have n: "\<not> (bitpos \<ge> 32 \<and> b AND 0x7f \<noteq> 0 \<and>
            (drop_bit 31 r = 0 \<or> b \<noteq> (if bitpos < 63 then 0xff else 0x01)))" and hi: "b AND 0x80 \<noteq> 0" by auto
        have e: "varint32_loop bitpos r s = varint32_loop (bitpos + 7)
            (if bitpos \<ge> 32 then r else r OR push_bit (unat bitpos) (ucast (b AND 0x7f))) s1"
          by (subst varint32_loop.simps) (simp only: h prod.case option.case if_not_P [OF n] Let_def if_P [OF hi])
        show ?thesis unfolding e using "1.IH" [OF h [symmetric] refl n refl refl hi] by blast
      qed
    qed
  qed
qed

lemma consumer_varint32: "consumer (pb_decode_varint32 :: ('s pb_istream, u32) op)"
proof unfold_locales
  fix s :: "'s pb_istream" and m
  assume s: "src s = Memory m"
  show "\<exists>k. src (snd (pb_decode_varint32 s)) = Memory (drop k m)
      \<and> k + unat (bytes_left (snd (pb_decode_varint32 s))) \<le> unat (bytes_left s)"
  proof (rule moves_loop [OF consumer_readbyte s])
    show "snd (pb_decode_varint32 s) = s1" if "pb_readbyte s = (None, s1)" for s1
      using that by (simp add: pb_decode_varint32_def pb_decode_varint32_eof_def)
    show "src (snd (pb_decode_varint32 s)) = src s1 \<and> bytes_left (snd (pb_decode_varint32 s)) = bytes_left s1 \<or>
        (\<forall>m. src s1 = Memory m \<longrightarrow> (\<exists>k. src (snd (pb_decode_varint32 s)) = Memory (drop k m)
          \<and> k + unat (bytes_left (snd (pb_decode_varint32 s))) \<le> unat (bytes_left s1)))"
      if h: "pb_readbyte s = (Some b, s1)" for b s1
    proof (cases "b AND 0x80 = 0")
      case True
      then show ?thesis using h by (simp add: pb_decode_varint32_def pb_decode_varint32_eof_def)
    next
      case False
      have e: "src (snd (pb_decode_varint32 s)) = src (snd (varint32_loop 7 (ucast (b AND 0x7f)) s1))"
        "bytes_left (snd (pb_decode_varint32 s)) = bytes_left (snd (varint32_loop 7 (ucast (b AND 0x7f)) s1))"
        using h False by (auto simp: pb_decode_varint32_def pb_decode_varint32_eof_def PB_IN_ERROR_def
            split: prod.splits option.splits)
      show ?thesis unfolding e using consumer.moves [OF consumer_varint32_loop] by blast
    qed
  qed
qed

lemma consumer_skip_varint: "consumer (pb_skip_varint :: ('s pb_istream, unit) op)"
proof unfold_locales
  fix s :: "'s pb_istream" and m
  show "src s = Memory m \<Longrightarrow> \<exists>k. src (snd (pb_skip_varint s)) = Memory (drop k m)
      \<and> k + unat (bytes_left (snd (pb_skip_varint s))) \<le> unat (bytes_left s)"
  proof (induction s arbitrary: m rule: pb_skip_varint.induct)
    case (1 s)
    show ?case
    proof (rule moves_loop [OF consumer_read_buf [of 1] "1.prems"])
      show "snd (pb_skip_varint s) = s1" if "pb_read_buf 1 s = (None, s1)" for s1
        using that by (subst pb_skip_varint.simps) simp
      show "src (snd (pb_skip_varint s)) = src s1 \<and> bytes_left (snd (pb_skip_varint s)) = bytes_left s1 \<or>
          (\<forall>m. src s1 = Memory m \<longrightarrow> (\<exists>k. src (snd (pb_skip_varint s)) = Memory (drop k m)
            \<and> k + unat (bytes_left (snd (pb_skip_varint s))) \<le> unat (bytes_left s1)))"
        if h: "pb_read_buf 1 s = (Some b, s1)" for b s1
      proof (cases "hd b AND 0x80 = 0")
        case True
        then show ?thesis using h by (subst (1 2) pb_skip_varint.simps) simp
      next
        case f: False
        then have e: "pb_skip_varint s = pb_skip_varint s1" using h by (subst pb_skip_varint.simps) simp
        show ?thesis unfolding e using "1.IH" [OF h [symmetric] refl f] by blast
      qed
    qed
  qed
qed

lemmas consumer_intros = consumer_andthen consumer_error consumer_ret consumer_read_buf consumer_read_null
  consumer_varint64_loop consumer_varint32 consumer_skip_varint

lemma consumer_skip_field: "consumer (pb_skip_field wire_type)"
  unfolding pb_skip_field_def pb_skip_string_def by (simp add: consumer_intros)

lemma consumer_delimited:
  assumes dec: "consumer (dec :: ('s pb_istream, 'a) op)"
  shows "consumer (pb_decode_delimited dec)"
proof unfold_locales
  fix s :: "'s pb_istream" and m
  assume s: "src s = Memory m"
  obtain r s1 where v: "pb_decode_varint32 s = (r, s1)" by fastforce
  from consumer.moves [OF consumer_varint32 s] v obtain k where k: "src s1 = Memory (drop k m)"
    "k + unat (bytes_left s1) \<le> unat (bytes_left s)" by auto
  show "\<exists>k. src (snd (pb_decode_delimited dec s)) = Memory (drop k m)
      \<and> k + unat (bytes_left (snd (pb_decode_delimited dec s))) \<le> unat (bytes_left s)"
  proof (cases "r = None \<or> bytes_left s1 < ucast (the r)")
    case True
    then show ?thesis using k v
      by (intro exI [of _ k], cases r)
        (auto simp: pb_decode_delimited_def pb_make_string_substream_def andthen_def PB_IN_ERROR_def)
  next
    case False
    then obtain sz where r: "r = Some sz" and le: "unat sz \<le> unat (bytes_left s1)"
      by (auto simp: word_less_nat_alt not_less)
    define sub where "sub = s1\<lparr>bytes_left := ucast sz\<rparr>"
    define s2 where "s2 = s1\<lparr>bytes_left := bytes_left s1 - ucast sz\<rparr>"
    have mk: "pb_make_string_substream s = (Some sub, s2)"
      using False r v by (simp add: pb_make_string_substream_def andthen_def sub_def s2_def)
    obtain st sub1 where d: "dec sub = (st, sub1)" by fastforce
    have "src sub = Memory (drop k m)" by (simp add: sub_def k)
    from consumer.moves [OF dec this] d obtain k1 where k1: "src sub1 = Memory (drop (k1 + k) m)"
      "k1 + unat (bytes_left sub1) \<le> unat sz" by (auto simp: sub_def)
    obtain c sub2 where c: "(if bytes_left sub1 \<noteq> 0 then pb_read_null (bytes_left sub1) sub1 else (Some (), sub1)) = (c, sub2)"
      by fastforce
    have "\<exists>k2. src sub2 = Memory (drop (k2 + (k1 + k)) m) \<and> k2 + unat (bytes_left sub2) \<le> unat (bytes_left sub1)"
    proof (cases "bytes_left sub1 = 0")
      case True
      then show ?thesis using c k1 by (intro exI [of _ 0]) simp
    next
      case False
      then show ?thesis using c consumer.moves [OF consumer_read_null k1(1), of "bytes_left sub1"] by simp
    qed
    then obtain k2 where k2: "src sub2 = Memory (drop (k2 + (k1 + k)) m)" "k2 + unat (bytes_left sub2) \<le> unat (bytes_left sub1)"
      by auto
    have left: "unat (bytes_left s1 - ucast sz) = unat (bytes_left s1) - unat sz"
      using le by (simp add: unat_sub word_le_nat_alt)
    show ?thesis
    proof (cases c)
      case None
      then have "snd (pb_decode_delimited dec s) = s2"
        by (simp add: pb_decode_delimited_def andthen_def mk d pb_close_string_substream_def c)
      then show ?thesis using k left by (intro exI [of _ k]) (simp add: s2_def)
    next
      case (Some u)
      then have "snd (pb_decode_delimited dec s) = s2\<lparr>src := src sub2, in_errmsg := in_errmsg sub2\<rparr>"
        by (simp add: pb_decode_delimited_def andthen_def mk d pb_close_string_substream_def c)
      then show ?thesis using k k1 k2 le left by (intro exI [of _ "k2 + (k1 + k)"]) (simp add: s2_def)
    qed
  qed
qed

interpretation skip_field: consumer "pb_skip_field wire_type"
  by (rule consumer_skip_field)

section \<open>Unknown fields and allocations\<close>

text \<open>The bytes that a value of a wire type may have.\<close>

inductive wire_value :: "u32 \<Rightarrow> byte list \<Rightarrow> bool" where
  varint: "is_varint bs \<Longrightarrow> wire_value PB_WT_VARINT bs"
| fixed64: "length bs = 8 \<Longrightarrow> wire_value PB_WT_64BIT bs"
| delimited: "length bs < 2 ^ 32 \<Longrightarrow> wire_value PB_WT_STRING (varint (length bs) @ bs)"
| fixed32: "length bs = 4 \<Longrightarrow> wire_value PB_WT_32BIT bs"

lemmas wire_types = PB_WT_VARINT_def PB_WT_64BIT_def PB_WT_STRING_def PB_WT_32BIT_def

lemma decoder_skip_field: "wire_value wt bs \<Longrightarrow> decoder (pb_skip_field wt) bs ()"
proof (induction rule: wire_value.induct)
  case (fixed64 bs)
  then show ?case using decoder_read_null [of bs] by (simp add: pb_skip_field_def wire_types)
next
  case (fixed32 bs)
  then show ?case using decoder_read_null [of bs] by (simp add: pb_skip_field_def wire_types)
qed (simp_all add: pb_skip_field_def wire_types decoder_skip_varint decoder_skip_string)

lemma wire_value_type: "wire_value wt bs \<Longrightarrow> unat wt < 8"
  by (induction rule: wire_value.induct) (simp_all add: wire_types)

text \<open>A run of \<open>0x80\<close> bytes changes nothing but the position, which wraps at 256.\<close>

lemma varint32_loop_zero:
  assumes "src s = Memory (0x80 # m)" and "1 \<le> unat (bytes_left s)"
  shows "varint32_loop bitpos r s = varint32_loop (bitpos + 7) r (behind 1 m s)"
proof -
  have "pb_readbyte s = (Some 0x80, behind 1 m s)"
    using decoder.reads [OF decoder_readbyte, of s "0x80" m] assms by simp
  then show ?thesis by (subst varint32_loop.simps) (simp add: Let_def)
qed

lemma varint32_loop_zeros:
  "src s = Memory (replicate k 0x80 @ m) \<Longrightarrow> k \<le> unat (bytes_left s) \<Longrightarrow>
   varint32_loop bitpos r s = varint32_loop (bitpos + word_of_nat (7 * k)) r (behind k m s)"
proof (induction k arbitrary: bitpos s)
  case 0
  then show ?case by (simp add: behind_0)
next
  case (Suc k)
  have "varint32_loop bitpos r s = varint32_loop (bitpos + 7) r (behind 1 (replicate k 0x80 @ m) s)"
    by (rule varint32_loop_zero) (use Suc.prems in simp_all)
  also have "\<dots> = varint32_loop (bitpos + 7 + word_of_nat (7 * k)) r (behind k m (behind 1 (replicate k 0x80 @ m) s))"
    by (rule Suc.IH) (use Suc.prems in simp_all)
  finally show ?case by (simp add: algebra_simps)
qed

lemma product_fits:
  fixes a b :: u64
  assumes "b \<noteq> 0"
  shows "(- 1) div b < a \<longleftrightarrow> 2 ^ 64 \<le> unat a * unat b"
proof -
  have "unat ((- 1) div b) = (2 ^ 64 - 1) div unat b" by (simp only: unat_div unat_max_64)
  then have "(- 1) div b < a \<longleftrightarrow> (2 ^ 64 - 1) div unat b < unat a" by (simp only: word_less_nat_alt)
  also have "\<dots> \<longleftrightarrow> 2 ^ 64 - 1 < unat a * unat b"
    using assms by (intro div_less_iff_less_mult) (simp add: unat_pos_iff)
  finally show ?thesis by auto
qed

text \<open>The stream that reads what has been written.\<close>

definition read_back :: "'s pb_ostream \<Rightarrow> byte list \<Rightarrow> 's pb_istream" where
  "read_back s rest = (case sink s of
     Buffer out \<Rightarrow> pb_istream_from_buffer (out @ rest) (bytes_written s + word_of_nat (length rest))
   | _ \<Rightarrow> pb_istream_from_buffer [] 0)"

lemma round_trip:
  assumes enc: "encoder enc bs" and dec: "decoder dec bs x" and room: "length bs \<le> unat n" and len: "length (bs @ rest) < 2 ^ 64"
  shows "dec (read_back (snd (enc (pb_ostream_from_buffer n))) rest) = (Some x, pb_istream_from_buffer rest (word_of_nat (length rest)))"
  using encoder.into_buffer [OF enc room] decoder.from_buffer [OF dec len] by (simp add: read_back_def)

section \<open>Properties\<close>

text \<open>C25 (pb_decode_varint_correct): The 64-bit varint decoder accepts a varint of any 10 bytes at most that is
  not cut off, returns the sum of its groups modulo \<open>2 ^ 64\<close> and stops right behind it; longer
  ones and those that the stream cuts off are errors.\<close>

theorem pb_decode_varint_correct:
  assumes "is_varint bs"
  shows "case pb_decode_varint (pb_istream_from_buffer (bs @ rest) n :: 's pb_istream) of (result, stream) \<Rightarrow>
    if length bs \<le> 10 \<and> length bs \<le> unat n
    then result = Some (word_of_nat (varint_value bs)) \<and> src stream = Memory rest \<and> unat (bytes_left stream) = unat n - length bs
    else result = None"
proof -
  let ?s = "pb_istream_from_buffer (bs @ rest) n :: 's pb_istream"
  have s: "src ?s = Memory (bs @ rest)" "bytes_left ?s = n" by (simp_all add: pb_istream_from_buffer_def)
  show ?thesis
  proof (cases "length bs \<le> 10")
    case True
    note d = decoder_varint [OF assms True]
    show ?thesis using decoder.reads [OF d s(1)] decoder.ends [OF d s(1)] s(2) True
      by (auto simp: not_le split: prod.split)
  next
    case False
    then have "fst (pb_decode_varint ?s) = None"
      using varint64_loop_overlong [OF assms, of 0 ?s rest] s by (simp add: pb_decode_varint_def)
    with False show ?thesis by (auto split: prod.split)
  qed
qed

theorem pb_decode_varint_correct_witness:
  "fst (pb_decode_varint (pb_istream_from_buffer [0xac, 2, 7] 3 :: unit pb_istream)) = Some 300"
  using pb_decode_varint_correct [of "[0xac, 2]" 3 "[7]", where 's = unit] by (auto split: prod.splits)

text \<open>C26 (pb_scalar_roundtrip): What the scalar writers put into a buffer, the scalar readers turn into the same
  value again: varints (in the 10 bytes that \<open>pb_encode_varint\<close> has room for), zigzag varints
  and the fixed-width integers.\<close>

theorem pb_scalar_roundtrip:
  "fst (pb_decode_varint (read_back (snd (pb_encode_varint v (pb_ostream_from_buffer 10))) [])) = Some v
   \<and> fst (pb_decode_svarint (read_back (snd (pb_encode_svarint v (pb_ostream_from_buffer 10))) [])) = Some v
   \<and> fst (pb_decode_fixed32 (read_back (snd (pb_encode_fixed32 w (pb_ostream_from_buffer 4))) [])) = Some w
   \<and> fst (pb_decode_fixed64 (read_back (snd (pb_encode_fixed64 v (pb_ostream_from_buffer 8))) [])) = Some v"
  using length_varint_u64 [of v] length_varint_u64 [of "zigzag v"]
  by (simp add: round_trip [OF encoder_varint varint.decoder_axioms] round_trip [OF svarint.encoder_axioms svarint.decoder_axioms]
      round_trip [OF encoder_fixed32 decoder_fixed32] round_trip [OF encoder_fixed64 decoder_fixed64])

text \<open>C27 (pb_skip_field_exact): After the tag of a field that is not known, skipping its wire type moves the stream
  right behind the value of the field, whatever the value is.\<close>

theorem pb_skip_field_exact:
  assumes "wire_value wt bytes" and "0 < unat n" and "unat n < 2 ^ 29"
    and "length (varint (unat n * 8 + unat wt) @ bytes @ rest) < 2 ^ 64"
  shows "case pb_decode_tag (pb_istream_from_buffer (varint (unat n * 8 + unat wt) @ bytes @ rest)
        (word_of_nat (length (varint (unat n * 8 + unat wt) @ bytes @ rest))) :: 's pb_istream) of
    (found, eof, stream) \<Rightarrow> found = Some (wt, n) \<and> \<not> eof
      \<and> pb_skip_field wt stream = (Some (), pb_istream_from_buffer rest (word_of_nat (length rest)))"
proof -
  let ?t = "varint (unat n * 8 + unat wt)" and ?rest = "bytes @ rest"
  define s where "s = (pb_istream_from_buffer (?t @ ?rest) (word_of_nat (length (?t @ ?rest))) :: 's pb_istream)"
  have src: "src s = Memory (?t @ ?rest)" by (simp add: s_def pb_istream_from_buffer_def)
  have left: "unat (bytes_left s) = length (?t @ ?rest)"
    using assms(4) by (simp add: s_def pb_istream_from_buffer_def del: of_nat_add)
  define s1 where "s1 = behind (length ?t) ?rest s"
  have found: "pb_decode_tag s = (Some (wt, n), False, s1)"
    unfolding s1_def by (rule pb_decode_tag_reads) (use wire_value_type [OF assms(1)] assms src left in simp_all)
  have "pb_skip_field wt s1 = (Some (), behind (length bytes) rest s1)"
    by (rule decoder.reads [OF decoder_skip_field [OF assms(1)]]) (simp_all add: s1_def left)
  moreover have "behind (length bytes) rest s1 = pb_istream_from_buffer rest (word_of_nat (length rest))"
    by (simp add: s1_def s_def behind_def pb_istream_from_buffer_def)
  ultimately show ?thesis unfolding s_def [symmetric] by (simp add: found)
qed

theorem pb_skip_field_exact_witness:
  "snd (pb_skip_field PB_WT_STRING (snd (snd (pb_decode_tag
     (pb_istream_from_buffer [0x7a, 3, 9, 9, 9, 8] 6 :: unit pb_istream))))) = pb_istream_from_buffer [8] 1"
proof -
  have v: "varint 122 = [0x7a]" "varint (Suc (Suc (Suc 0))) = [3]" by (simp_all add: varint.simps)
  have w: "wire_value PB_WT_STRING [3, 9, 9, 9]"
    using wire_value.delimited [of "[9, 9, 9]"] by (simp add: v)
  show ?thesis
    using pb_skip_field_exact [OF w, of 15 "[8]", where 's = unit] by (auto simp: wire_types v split: prod.splits)
qed

text \<open>The position of the 32-bit varint decoder has 8 bits and is not bounded: behind 37
  bytes \<open>0x80\<close> it is back at bit 3, and the next byte is taken as part of the value, although the
  varint is longer than any varint may be and the 64-bit decoder rejects it.\<close>

theorem pb_decode_varint32_wraps:
  assumes "unat b < 128"
  shows "fst (pb_decode_varint32 (pb_istream_from_buffer (replicate 37 0x80 @ [b]) 38 :: 's pb_istream)) = Some (word_of_nat (8 * unat b))
    \<and> fst (pb_decode_varint (pb_istream_from_buffer (replicate 37 0x80 @ [b]) 38 :: 's pb_istream)) = None"
proof -
  let ?bs = "replicate 37 0x80 @ [b]"
  define s where "s = (pb_istream_from_buffer ?bs 38 :: 's pb_istream)"
  have s: "src s = Memory (0x80 # replicate 36 0x80 @ [b])" "unat (bytes_left s) = 38"
    using replicate_Suc [of 36 "0x80 :: byte"] by (simp_all add: s_def pb_istream_from_buffer_def)
  define s1 where "s1 = behind 1 (replicate 36 0x80 @ [b]) s"
  define s2 where "s2 = behind 36 [b] s1"
  have read: "pb_readbyte s = (Some 0x80, s1)"
    using decoder.reads [OF decoder_readbyte, of s "0x80" "replicate 36 0x80 @ [b]"] s by (simp add: s1_def)
  have "varint32_loop 7 0 s1 = varint32_loop (7 + word_of_nat (7 * 36)) 0 s2"
    unfolding s2_def by (rule varint32_loop_zeros) (simp_all add: s1_def s)
  moreover have "(7 + word_of_nat (7 * 36) :: byte) = 3" by simp
  ultimately have loop: "varint32_loop 7 0 s1 = varint32_loop 3 0 s2" by (simp only:)
  have "pb_readbyte s2 = (Some b, behind 1 [] s2)"
    using decoder.reads [OF decoder_readbyte, of s2 b "[]"] s by (simp add: s2_def s1_def)
  moreover have "push_bit 3 (ucast (b AND 0x7f)) = (word_of_nat (8 * unat b) :: u32)"
    using or_group [of "0 :: u32" 3 b] assms by (simp add: mult.commute)
  ultimately have "varint32_loop 3 0 s2 = (Some (10, word_of_nat (8 * unat b), b), behind 1 [] s2)"
    using assms by (subst varint32_loop.simps) (simp add: Let_def high_bit_iff del: of_nat_mult)
  then have "fst (pb_decode_varint32 s) = Some (word_of_nat (8 * unat b))"
    by (simp add: pb_decode_varint32_def pb_decode_varint32_eof_def read loop del: of_nat_mult)
  moreover have "is_varint (replicate k 0x80 @ [b])" for k
    using assms by (induction k) (simp_all add: is_varint_Cons)
  from varint64_loop_overlong [OF this, of 0 37 s "[]"] have "fst (pb_decode_varint s) = None"
    by (simp add: pb_decode_varint_def s_def pb_istream_from_buffer_def)
  ultimately show ?thesis by (simp add: s_def del: of_nat_mult)
qed

theorem pb_decode_varint32_wraps_witness:
  "fst (pb_decode_varint32 (pb_istream_from_buffer (replicate 37 0x80 @ [1]) 38 :: unit pb_istream)) = Some 8"
  using pb_decode_varint32_wraps [of 1, where 's = unit] by simp

text \<open>C29 (allocate_field_no_wrap): The size that \<open>allocate_field\<close> asks the allocator for is the product of the item
  size and the count without wrap-around; the call fails exactly when one of them is 0, the
  product does not fit into \<open>size_t\<close>, or the allocator fails.\<close>

theorem allocate_field_no_wrap:
  "case allocate_field realloc_ok item_size count stream of
     (None, _) \<Rightarrow> item_size = 0 \<or> count = 0 \<or> 2 ^ 64 \<le> unat item_size * unat count \<or> \<not> realloc_ok (count * item_size)
   | (Some requested, stream') \<Rightarrow> unat requested = unat item_size * unat count \<and> 0 < unat requested \<and> realloc_ok requested
       \<and> stream' = stream"
proof -
  let ?p = "unat item_size * unat count"
  consider (zero) "item_size = 0 \<or> count = 0"
    | (big) "item_size \<noteq> 0" "count \<noteq> 0" "2 ^ 64 \<le> ?p"
    | (fits) "item_size \<noteq> 0" "count \<noteq> 0" "?p < 2 ^ 64"
    by linarith
  then show ?thesis
  proof cases
    case zero
    then show ?thesis by (auto simp: allocate_field_def PB_IN_ERROR_def)
  next
    case big
    have limit: "unat (push_bit 32 1 :: u64) = 2 ^ 32" by simp
    have "item_size \<ge> push_bit 32 1 \<or> count \<ge> push_bit 32 1"
    proof (rule ccontr)
      assume "\<not> ?thesis"
      then have "unat item_size < 2 ^ 32" "unat count < 2 ^ 32" by (simp_all add: word_le_nat_alt limit)
      then have "?p < 2 ^ 32 * 2 ^ 32" by (intro mult_strict_mono) simp_all
      with big show False by simp
    qed
    moreover have "(- 1) div count < item_size" using product_fits [OF big(2), of item_size] big(3) by blast
    ultimately have "allocate_field realloc_ok item_size count stream = PB_IN_ERROR ''size too large'' stream"
      by (simp only: allocate_field_def Let_def big(1,2) simp_thms if_True if_False)
    then show ?thesis using big(3) by (simp add: PB_IN_ERROR_def)
  next
    case fits
    have "unat (count * item_size) = ?p" using fits(3) by (subst mult.commute) (simp add: unat_word_ariths)
    moreover have "0 < ?p" using fits(1,2) by (simp add: unat_pos_iff)
    moreover have "\<not> (- 1) div count < item_size" using product_fits [OF fits(2), of item_size] fits(3) by linarith
    then have "allocate_field realloc_ok item_size count stream =
        (if \<not> realloc_ok (count * item_size) then PB_IN_ERROR ''realloc failed'' stream else (Some (count * item_size), stream))"
      by (simp only: allocate_field_def Let_def fits(1,2) simp_thms if_True if_False)
    ultimately show ?thesis using fits(3) by (simp add: PB_IN_ERROR_def)
  qed
qed

theorem allocate_field_no_wrap_witness:
  "case allocate_field (\<lambda>n. n \<le> 100) 3 5 (pb_istream_from_buffer [] 0 :: unit pb_istream) of
     (None, _) \<Rightarrow> False | (Some requested, _) \<Rightarrow> unat requested = 15"
  using allocate_field_no_wrap [of 3 5 "\<lambda>n. n \<le> 100" "pb_istream_from_buffer [] 0 :: unit pb_istream"]
  by (simp split: prod.splits option.splits)

end
