(* ===== verification/PB_Common.thy ===== *)
theory PB_Common
  imports PB_Encode
begin

text \<open>
  The field iterator of nanopb (\<open>pb_common.c\<close>, \<open>pb_common.h\<close>), which the encoder and the decoder use
  to walk over the descriptors of a message and the members of its structure. Pointers are
  64-bit addresses, the null pointer is 0; the descriptors are a list that ends with one of tag 0.
\<close>

section \<open>The iterator\<close>

record pb_field_iter =
  start :: "pb_field list"
  pos :: nat
  required_field_index :: u32
  dest_struct :: u64
  pData :: u64
  pSize :: u64

definition the_field :: "pb_field_iter \<Rightarrow> pb_field" where
  "the_field iter = start iter ! pos iter"

definition pb_field_iter_begin :: "pb_field list \<Rightarrow> u64 \<Rightarrow> bool \<times> pb_field_iter" where
  "pb_field_iter_begin descrs dest =
     (let f = descrs ! 0;
          d = (if dest = 0 then 0 else dest + ucast (data_offset f));
          z = (if dest = 0 then 0 else d + scast (size_offset f))
      in (tag f \<noteq> 0, \<lparr>start = descrs, pos = 0, required_field_index = 0, dest_struct = dest, pData = d, pSize = z\<rparr>))"

definition PB_SIZE_MAX :: u32 where "PB_SIZE_MAX = - 1"

definition pb_field_iter_next :: "pb_field_iter \<Rightarrow> bool \<times> pb_field_iter" where
  "pb_field_iter_next iter =
     (let prev_field = the_field iter in
      if tag prev_field = 0 then (False, iter)
      else
        let iter = iter\<lparr>pos := pos iter + 1\<rparr>; f = the_field iter in
        if tag f = 0 then (False, snd (pb_field_iter_begin (start iter) (dest_struct iter)))
        else if PB_HTYPE (type prev_field) = 0x30 \<and> PB_HTYPE (type f) = 0x30 \<and> data_offset f = PB_SIZE_MAX
        then (True, iter)
        else
          let prev_size =
                (if PB_ATYPE (type prev_field) = 0 \<and> PB_HTYPE (type prev_field) = 0x20
                 then ucast (data_size prev_field) * ucast (array_size prev_field)
                 else if PB_ATYPE (type prev_field) = 0x80 then 8
                 else ucast (data_size prev_field));
              iter = (if PB_HTYPE (type prev_field) = 0
                      then iter\<lparr>required_field_index := required_field_index iter + 1\<rparr> else iter);
              iter = iter\<lparr>pData := pData iter + prev_size + ucast (data_offset f)\<rparr>
          in (True, iter\<lparr>pSize := pData iter + scast (size_offset f)\<rparr>))"

text \<open>The \<open>do\<close> loop, which may run forever on an iterator that never comes back to \<open>first\<close>.\<close>

partial_function (option) find_loop :: "nat \<Rightarrow> u32 \<Rightarrow> pb_field_iter \<Rightarrow> (bool \<times> pb_field_iter) option" where
  "find_loop first wanted iter =
     (if tag (the_field iter) = wanted \<and> PB_LTYPE (type (the_field iter)) \<noteq> 0x09 then Some (True, iter)
      else
        let iter = snd (pb_field_iter_next iter) in
        if pos iter \<noteq> first then find_loop first wanted iter else Some (False, iter))"

definition pb_field_iter_find :: "u32 \<Rightarrow> pb_field_iter \<Rightarrow> (bool \<times> pb_field_iter) option" where
  "pb_field_iter_find wanted iter = find_loop (pos iter) wanted iter"

section \<open>Where the iterator points\<close>

text \<open>
  The members of the structure, as the descriptors lay them out: a member follows the one before
  it at the distance \<open>data_offset\<close>, unless both are alternatives of the same union.
\<close>

definition same_union :: "pb_field \<Rightarrow> pb_field \<Rightarrow> bool" where
  "same_union f g \<longleftrightarrow> PB_HTYPE (type f) = 0x30 \<and> PB_HTYPE (type g) = 0x30 \<and> data_offset g = PB_SIZE_MAX"

definition required :: "pb_field \<Rightarrow> bool" where
  "required f \<longleftrightarrow> PB_HTYPE (type f) = 0"

definition member_size :: "pb_field \<Rightarrow> u64" where
  "member_size f =
     (if PB_ATYPE (type f) = 0 \<and> PB_HTYPE (type f) = 0x20 then ucast (data_size f) * ucast (array_size f)
      else if PB_ATYPE (type f) = 0x80 then 8
      else ucast (data_size f))"

fun data_at :: "pb_field list \<Rightarrow> nat \<Rightarrow> u64" where
  "data_at ds 0 = ucast (data_offset (ds ! 0))"
| "data_at ds (Suc i) =
     (if same_union (ds ! i) (ds ! Suc i) then data_at ds i
      else data_at ds i + member_size (ds ! i) + ucast (data_offset (ds ! Suc i)))"

fun size_at :: "pb_field list \<Rightarrow> nat \<Rightarrow> u64" where
  "size_at ds 0 = data_at ds 0 + scast (size_offset (ds ! 0))"
| "size_at ds (Suc i) =
     (if same_union (ds ! i) (ds ! Suc i) then size_at ds i
      else data_at ds (Suc i) + scast (size_offset (ds ! Suc i)))"

text \<open>
  An iterator over a message with \<open>n\<close> fields: everything in it is determined by its position.
  An empty message has the terminator at position 0.
\<close>

definition message :: "pb_field list \<Rightarrow> nat \<Rightarrow> bool" where
  "message ds n \<longleftrightarrow> n < length ds \<and> (\<forall>i<n. tag (ds ! i) \<noteq> 0) \<and> tag (ds ! n) = 0"

definition iter_ok :: "pb_field list \<Rightarrow> nat \<Rightarrow> u64 \<Rightarrow> pb_field_iter \<Rightarrow> bool" where
  "iter_ok ds n dest iter \<longleftrightarrow>
     start iter = ds \<and> dest_struct iter = dest \<and> pos iter < max 1 n \<and>
     required_field_index iter = word_of_nat (length (filter required (take (pos iter) ds))) \<and>
     pData iter = dest + data_at ds (pos iter) \<and> pSize iter = dest + size_at ds (pos iter)"

lemma iter_begin_ok:
  assumes "message ds n" and "dest \<noteq> 0"
  shows "iter_ok ds n dest (snd (pb_field_iter_begin ds dest)) \<and> (fst (pb_field_iter_begin ds dest) \<longleftrightarrow> n \<noteq> 0)"
  using assms by (cases n) (auto simp: iter_ok_def pb_field_iter_begin_def message_def Let_def add.assoc)

lemma iter_next_ok:
  assumes m: "message ds n" and d: "dest \<noteq> 0" and ok: "iter_ok ds n dest iter"
  shows "iter_ok ds n dest (snd (pb_field_iter_next iter))
    \<and> (if Suc (pos iter) < n then fst (pb_field_iter_next iter) \<and> pos (snd (pb_field_iter_next iter)) = Suc (pos iter)
       else \<not> fst (pb_field_iter_next iter) \<and> pos (snd (pb_field_iter_next iter)) = 0)"
proof (cases "Suc (pos iter) < n")
  case True
  let ?i = "pos iter" and ?f = "ds ! pos iter" and ?g = "ds ! Suc (pos iter)"
  have tags: "tag ?f \<noteq> 0" "tag ?g \<noteq> 0" using m True by (simp_all add: message_def)
  have f: "the_field iter = ?f" "the_field (iter\<lparr>pos := ?i + 1\<rparr>) = ?g" using ok by (simp_all add: iter_ok_def the_field_def)
  have take: "take (Suc ?i) ds = take ?i ds @ [?f]" using m True by (simp add: message_def take_Suc_conv_app_nth)
  show ?thesis
  proof (cases "same_union ?f ?g")
    case u: True
    then have n: "\<not> required ?f" by (simp add: same_union_def required_def)
    have e: "pb_field_iter_next iter = (True, iter\<lparr>pos := Suc ?i\<rparr>)"
      using f tags u by (simp add: pb_field_iter_next_def Let_def same_union_def)
    show ?thesis unfolding e using True ok u n take by (simp add: iter_ok_def)
  next
    case u: False
    define iter' where "iter' = iter\<lparr>pos := Suc ?i,
        required_field_index := required_field_index iter + (if required ?f then 1 else 0),
        pData := pData iter + member_size ?f + ucast (data_offset ?g),
        pSize := pData iter + member_size ?f + ucast (data_offset ?g) + scast (size_offset ?g)\<rparr>"
    have e: "pb_field_iter_next iter = (True, iter')"
      using f tags u by (cases iter)
        (simp add: pb_field_iter_next_def Let_def same_union_def [symmetric] required_def [symmetric]
          member_size_def [symmetric] iter'_def)
    show ?thesis unfolding e using True ok u take by (simp add: iter_ok_def iter'_def add.assoc)
  qed
next
  case False
  show ?thesis
  proof (cases n)
    case 0
    then have "pb_field_iter_next iter = (False, iter)"
      using m ok by (simp add: pb_field_iter_next_def the_field_def message_def iter_ok_def)
    then show ?thesis using ok 0 by (simp add: iter_ok_def)
  next
    case (Suc k)
    then have "pos iter = k" using ok False by (simp add: iter_ok_def)
    then have e: "pb_field_iter_next iter = (False, snd (pb_field_iter_begin ds dest))"
      using m ok Suc by (simp add: pb_field_iter_next_def the_field_def message_def iter_ok_def Let_def)
    show ?thesis unfolding e using iter_begin_ok [OF m d] False
      by (simp add: pb_field_iter_begin_def Let_def)
  qed
qed

definition matches :: "u32 \<Rightarrow> pb_field \<Rightarrow> bool" where
  "matches wanted f \<longleftrightarrow> tag f = wanted \<and> PB_LTYPE (type f) \<noteq> 0x09"

lemma iter_next_pos:
  assumes "message ds n" and "dest \<noteq> 0" and "iter_ok ds n dest iter"
  shows "pos (snd (pb_field_iter_next iter)) = Suc (pos iter) mod max 1 n"
proof -
  have "pos iter < max 1 n" using assms(3) by (simp add: iter_ok_def)
  with iter_next_ok [OF assms] show ?thesis
    by (cases "Suc (pos iter) < n"; cases "Suc (pos iter) = max 1 n") auto
qed

lemma find_loop_ok:
  assumes m: "message ds n" and d: "dest \<noteq> 0"
  shows "iter_ok ds n dest iter \<Longrightarrow> (pos iter + Suc k) mod max 1 n = first \<Longrightarrow> Suc k \<le> max 1 n \<Longrightarrow>
    \<exists>r iter'. find_loop first wanted iter = Some (r, iter') \<and> iter_ok ds n dest iter' \<and>
      (if r then matches wanted (the_field iter')
       else pos iter' = first \<and> (\<forall>j\<le>k. \<not> matches wanted (ds ! ((pos iter + j) mod max 1 n))))"
proof (induction k arbitrary: iter)
  case (0 iter)
  have at: "the_field iter = ds ! (pos iter mod max 1 n)" using 0(1) by (simp add: iter_ok_def the_field_def)
  have p: "pos (snd (pb_field_iter_next iter)) = first" using iter_next_pos [OF m d 0(1)] 0(2) by simp
  show ?case
  proof (cases "matches wanted (the_field iter)")
    case True
    then have "find_loop first wanted iter = Some (True, iter)" by (subst find_loop.simps) (simp add: matches_def)
    with True 0(1) show ?thesis by auto
  next
    case False
    then have "find_loop first wanted iter = Some (False, snd (pb_field_iter_next iter))"
      by (subst find_loop.simps) (simp add: matches_def Let_def p)
    then show ?thesis using iter_next_ok [OF m d 0(1)] p False at by auto
  qed
next
  case (Suc k iter)
  define iter1 where "iter1 = snd (pb_field_iter_next iter)"
  have at: "the_field iter = ds ! (pos iter mod max 1 n)" and lt: "pos iter < max 1 n"
    using Suc.prems(1) by (simp_all add: iter_ok_def the_field_def)
  have p: "pos iter1 = Suc (pos iter) mod max 1 n" using iter_next_pos [OF m d Suc.prems(1)] by (simp add: iter1_def)
  have ok: "iter_ok ds n dest iter1" using iter_next_ok [OF m d Suc.prems(1)] by (simp add: iter1_def)
  have step: "(pos iter1 + j) mod max 1 n = (pos iter + Suc j) mod max 1 n" for j
    by (simp add: p mod_simps)
  show ?case
  proof (cases "matches wanted (the_field iter)")
    case True
    then have "find_loop first wanted iter = Some (True, iter)" by (subst find_loop.simps) (simp add: matches_def)
    with True Suc.prems(1) show ?thesis by auto
  next
    case False
    have "pos iter1 \<noteq> first"
    proof
      assume "pos iter1 = first"
      then have "(pos iter + 1) mod max 1 n = (pos iter + 1 + Suc k) mod max 1 n"
        using Suc.prems(2) by (simp add: p)
      then have "max 1 n dvd Suc k" by (metis add_diff_cancel_left' le_add1 mod_eq_dvd_iff_nat)
      then show False using Suc.prems(3) by (simp add: dvd_imp_le nat_dvd_not_less)
    qed
    then have e: "find_loop first wanted iter = find_loop first wanted iter1"
      using False by (subst find_loop.simps) (auto simp: matches_def Let_def iter1_def)
    have "(pos iter1 + Suc k) mod max 1 n = first" using step [of "Suc k"] Suc.prems(2) by (simp only:)
    from Suc.IH [OF ok this Suc_leD [OF Suc.prems(3)]]
    obtain r iter' where r: "find_loop first wanted iter1 = Some (r, iter')" "iter_ok ds n dest iter'"
      "if r then matches wanted (the_field iter')
       else pos iter' = first \<and> (\<forall>j\<le>k. \<not> matches wanted (ds ! ((pos iter1 + j) mod max 1 n)))"
      by blast
    have "\<not> matches wanted (ds ! ((pos iter + j) mod max 1 n))" if "\<not> r" "j \<le> Suc k" for j
    proof (cases j)
      case 0
      then show ?thesis using False at by simp
    next
      case (Suc i)
      then have "\<not> matches wanted (ds ! ((pos iter1 + i) mod max 1 n))" using r(3) that by simp
      then show ?thesis unfolding Suc by (simp only: step not_False_eq_True)
    qed
    then show ?thesis using e r by auto
  qed
qed

section \<open>Properties\<close>

text \<open>C30 (iter_invariant): The field iterator always points at the member that the descriptors lay out for
  its position, and counts the required fields before it: \<open>pb_field_iter_begin\<close> establishes this,
  \<open>pb_field_iter_next\<close> keeps it, moves to the next field and wraps around to the first one, which
  it reports by returning false.\<close>

theorem iter_invariant:
  assumes "message ds n" and "dest \<noteq> 0"
  shows "iter_ok ds n dest (snd (pb_field_iter_begin ds dest))
    \<and> (\<forall>iter. iter_ok ds n dest iter \<longrightarrow>
        (case pb_field_iter_next iter of (more_fields, iter') \<Rightarrow>
           iter_ok ds n dest iter' \<and> (more_fields \<longleftrightarrow> Suc (pos iter) < n) \<and>
           pos iter' = (if more_fields then Suc (pos iter) else 0)))"
proof (intro conjI allI impI)
  show "iter_ok ds n dest (snd (pb_field_iter_begin ds dest))" using iter_begin_ok [OF assms] ..
  fix iter assume "iter_ok ds n dest iter"
  from iter_next_ok [OF assms this]
  show "case pb_field_iter_next iter of (more_fields, iter') \<Rightarrow>
      iter_ok ds n dest iter' \<and> (more_fields \<longleftrightarrow> Suc (pos iter) < n) \<and> pos iter' = (if more_fields then Suc (pos iter) else 0)"
    by (cases "Suc (pos iter) < n") (auto split: prod.split)
qed

text \<open>C31 (iter_find_correct): Searching for a field always comes to an end, from any position of the iterator, and
  leaves a proper iterator: it points at a field with the wanted tag that is no extension range,
  or there is no such field and it is where it was.\<close>

theorem iter_find_correct:
  assumes "message ds n" and "dest \<noteq> 0" and "iter_ok ds n dest iter"
  shows "\<exists>found iter'. pb_field_iter_find wanted iter = Some (found, iter') \<and> iter_ok ds n dest iter'
    \<and> (if found then matches wanted (the_field iter')
       else pos iter' = pos iter \<and> (\<forall>i<max 1 n. \<not> matches wanted (ds ! i)))"
proof -
  let ?N = "max 1 n"
  have lt: "pos iter < ?N" using assms(3) by (simp add: iter_ok_def)
  have "\<exists>j\<le>?N - 1. (pos iter + j) mod ?N = i" if "i < ?N" for i
    using lt that by (intro exI [of _ "(i + ?N - pos iter) mod ?N"]) (auto simp: mod_simps less_Suc_eq_le [symmetric])
  moreover have "(pos iter + Suc (?N - 1)) mod ?N = pos iter" "Suc (?N - 1) \<le> ?N" using lt by simp_all
  ultimately show ?thesis
    unfolding pb_field_iter_find_def using find_loop_ok [OF assms(1,2,3), of "?N - 1" "pos iter" wanted]
    by (metis (no_types, lifting))
qed

text \<open>A message with a required integer, a static array of four integers and a string pointer.\<close>

definition sample :: "pb_field list" where
  "sample =
    [\<lparr>tag = 1, type = 0x02, data_offset = 0, size_offset = 0, data_size = 4, array_size = 0, ptr = 0\<rparr>,
     \<lparr>tag = 2, type = 0x22, data_offset = 4, size_offset = - 4, data_size = 4, array_size = 4, ptr = 0\<rparr>,
     \<lparr>tag = 5, type = 0x97, data_offset = 0, size_offset = 0, data_size = 0, array_size = 0, ptr = 0\<rparr>,
     \<lparr>tag = 0, type = 0, data_offset = 0, size_offset = 0, data_size = 0, array_size = 0, ptr = 0\<rparr>]"

lemma sample_message: "message sample 3"
  by (auto simp: message_def sample_def less_Suc_eq numeral_3_eq_3)

lemma sample_begin: "iter_ok sample 3 1000 (snd (pb_field_iter_begin sample 1000))"
  using iter_begin_ok [OF sample_message, of 1000] by simp

theorem iter_invariant_witness:
  "iter_ok sample 3 1000 (snd (pb_field_iter_next (snd (pb_field_iter_begin sample 1000))))
   \<and> data_at sample 2 = 24 \<and> fst (pb_field_iter_next (snd (pb_field_iter_begin sample 1000)))"
proof -
  have "data_at sample 2 = 24"
    by code_simp
  moreover have "pos (snd (pb_field_iter_begin sample 1000)) = 0" by (simp add: pb_field_iter_begin_def Let_def)
  ultimately show ?thesis
    using conjunct2 [OF iter_invariant [OF sample_message, of 1000], THEN spec, THEN mp, OF _ sample_begin]
    by (simp split: prod.splits)
qed

theorem iter_find_correct_witness:
  "\<exists>iter. pb_field_iter_find 5 (snd (pb_field_iter_begin sample 1000)) = Some (True, iter) \<and> tag (the_field iter) = 5"
proof -
  have "matches 5 (sample ! 2)" by (simp add: matches_def sample_def PB_LTYPE_def)
  then show ?thesis
    using iter_find_correct [OF sample_message _ sample_begin, of 5] by (auto simp: matches_def split: if_splits)
qed

end
