(* ===== verification/PB_Memory.thy ===== *)
theory PB_Memory
  imports Prelude
begin

unbundle bit_operations_syntax

text \<open>
  The memory that the message level of nanopb works on, and operations on a state that may be
  undefined: \<open>pb_encode\<close> reads the members of a structure, the arrays and strings they point to and
  the descriptors of submessages through pointers.
\<close>

section \<open>Memory\<close>

text \<open>
  Memory is a partial map from addresses to bytes; what is not mapped may not be accessed. The
  target is little-endian with pointers of 8 bytes. The result \<open>None\<close> of a function stands for
  behaviour that C does not define: an access outside the objects, a table without end, a null
  function pointer.
\<close>

type_synonym memory = "u64 \<Rightarrow> byte option"

primrec load :: "memory \<Rightarrow> u64 \<Rightarrow> nat \<Rightarrow> byte list option" where
  "load m a 0 = Some []"
| "load m a (Suc n) =
     (case m a of None \<Rightarrow> None | Some b \<Rightarrow> (case load m (a + 1) n of None \<Rightarrow> None | Some bs \<Rightarrow> Some (b # bs)))"

primrec le_value :: "byte list \<Rightarrow> nat" where
  "le_value [] = 0"
| "le_value (b # bs) = unat b + 256 * le_value bs"

definition load16 :: "memory \<Rightarrow> u64 \<Rightarrow> u16 option" where
  "load16 m a = map_option (\<lambda>bs. word_of_nat (le_value bs)) (load m a 2)"

definition load32 :: "memory \<Rightarrow> u64 \<Rightarrow> u32 option" where
  "load32 m a = map_option (\<lambda>bs. word_of_nat (le_value bs)) (load m a 4)"

definition load64 :: "memory \<Rightarrow> u64 \<Rightarrow> u64 option" where
  "load64 m a = map_option (\<lambda>bs. word_of_nat (le_value bs)) (load m a 8)"

section \<open>Operations that may be undefined\<close>

type_synonym ('s, 'a) mop = "'s \<Rightarrow> ('a option \<times> 's) option"

definition lift :: "('s, 'a) op \<Rightarrow> ('s, 'a) mop" where
  "lift f s = Some (f s)"

definition mthen :: "('s, 'a) mop \<Rightarrow> ('a \<Rightarrow> ('s, 'b) mop) \<Rightarrow> ('s, 'b) mop" where
  "mthen f g s =
     (case f s of None \<Rightarrow> None | Some (None, s) \<Rightarrow> Some (None, s) | Some (Some a, s) \<Rightarrow> g a s)"

text \<open>Reading memory.\<close>

definition mget :: "'v option \<Rightarrow> ('v \<Rightarrow> ('s, 'a) mop) \<Rightarrow> ('s, 'a) mop" where
  "mget r f s = (case r of None \<Rightarrow> None | Some v \<Rightarrow> f v s)"

end
