(* ===== verification/PB_Message.thy ===== *)
theory PB_Message
  imports PB_Memory PB_Common
begin

unbundle bit_operations_syntax

text \<open>
  The message level of the nanopb encoder (\<open>pb_encode.c\<close>): \<open>pb_encode\<close> with the encoders of
  all types of fields, arrays, default values, callbacks and extensions. An operation has the
  result \<open>None\<close> where the C code has no defined behaviour, and where the nesting of submessages
  or the chain of extensions is deeper than \<open>depth\<close>.
\<close>

section \<open>The data of an encoder\<close>

text \<open>
  The descriptor tables by their addresses, and the functions that pointers in the structures
  lead to: the user's callbacks, which get the descriptor and the address of \<open>arg\<close>, and the
  encoders of extensions, which get the address of the extension.
\<close>

record 's enc_env =
  table :: "u64 \<Rightarrow> pb_field list option"
  enc_callback :: "u64 \<Rightarrow> pb_field \<Rightarrow> u64 \<Rightarrow> ('s pb_ostream, unit) op"
  enc_extension :: "u64 \<Rightarrow> u64 \<Rightarrow> ('s pb_ostream, unit) op"

section \<open>Single values\<close>

definition safe_read_bool :: "memory \<Rightarrow> u64 \<Rightarrow> bool option" where
  "safe_read_bool m p = map_option (\<lambda>b. b \<noteq> 0) (m p)"

text \<open>\<open>pb_write\<close> from memory: the bytes are read if the callback of the stream is reached.\<close>

definition pb_write_mem :: "memory \<Rightarrow> u64 \<Rightarrow> u64 \<Rightarrow> ('s pb_ostream, unit) mop" where
  "pb_write_mem m buf count s =
     (if count > 0 \<and> \<not> is_sizing (sink s) \<and>
         \<not> (bytes_written s + count < bytes_written s \<or> bytes_written s + count > max_size s)
      then mget (load m buf (unat count)) (\<lambda>bs. lift (pb_write bs count)) s
      else lift (pb_write [] count) s)"

definition pb_encode_string_mem :: "memory \<Rightarrow> u64 \<Rightarrow> u64 \<Rightarrow> ('s pb_ostream, unit) mop" where
  "pb_encode_string_mem m buffer sz = mthen (lift (pb_encode_varint sz)) (\<lambda>_. pb_write_mem m buffer sz)"

definition pb_enc_bool :: "memory \<Rightarrow> u64 \<Rightarrow> ('s pb_ostream, unit) mop" where
  "pb_enc_bool m src = mget (safe_read_bool m src) (\<lambda>b. lift (pb_encode_varint (if b then 1 else 0)))"

text \<open>The value of a member that has 1, 2, 4 or 8 bytes, extended to 64 bits.\<close>

definition load_int :: "bool \<Rightarrow> memory \<Rightarrow> u32 \<Rightarrow> u64 \<Rightarrow> u64 option" where
  "load_int sx m width src =
     (if width = 1 then map_option (\<lambda>v. if sx then scast v else ucast v) (m src)
      else if width = 2 then map_option (\<lambda>v. if sx then scast v else ucast v) (load16 m src)
      else if width = 4 then map_option (\<lambda>v. if sx then scast v else ucast v) (load32 m src)
      else load64 m src)"

definition int_width :: "u32 \<Rightarrow> bool" where
  "int_width width \<longleftrightarrow> width = 1 \<or> width = 2 \<or> width = 4 \<or> width = 8"

definition pb_enc_varint :: "memory \<Rightarrow> pb_field \<Rightarrow> u64 \<Rightarrow> ('s pb_ostream, unit) mop" where
  "pb_enc_varint m field src =
     (if int_width (data_size field)
      then mget (load_int True m (data_size field) src) (\<lambda>v. lift (pb_encode_varint v))
      else lift (PB_RETURN_ERROR ''invalid data_size''))"

definition pb_enc_uvarint :: "memory \<Rightarrow> pb_field \<Rightarrow> u64 \<Rightarrow> ('s pb_ostream, unit) mop" where
  "pb_enc_uvarint m field src =
     (if int_width (data_size field)
      then mget (load_int False m (data_size field) src) (\<lambda>v. lift (pb_encode_varint v))
      else lift (PB_RETURN_ERROR ''invalid data_size''))"

definition pb_enc_svarint :: "memory \<Rightarrow> pb_field \<Rightarrow> u64 \<Rightarrow> ('s pb_ostream, unit) mop" where
  "pb_enc_svarint m field src =
     (if int_width (data_size field)
      then mget (load_int True m (data_size field) src) (\<lambda>v. lift (pb_encode_svarint v))
      else lift (PB_RETURN_ERROR ''invalid data_size''))"

definition pb_enc_fixed32 :: "memory \<Rightarrow> u64 \<Rightarrow> ('s pb_ostream, unit) mop" where
  "pb_enc_fixed32 m src = mget (load32 m src) (\<lambda>v. lift (pb_encode_fixed32 v))"

definition pb_enc_fixed64 :: "memory \<Rightarrow> u64 \<Rightarrow> ('s pb_ostream, unit) mop" where
  "pb_enc_fixed64 m src = mget (load64 m src) (\<lambda>v. lift (pb_encode_fixed64 v))"

definition pb_enc_bytes :: "memory \<Rightarrow> pb_field \<Rightarrow> u64 \<Rightarrow> ('s pb_ostream, unit) mop" where
  "pb_enc_bytes m field src =
     (if src = 0 then pb_encode_string_mem m 0 0
      else
        mget (load32 m src) (\<lambda>sz.
          if PB_ATYPE (type field) = 0 \<and> ucast sz > ucast (data_size field) - (4 :: u64)
          then lift (PB_RETURN_ERROR ''bytes size exceeded'')
          else pb_encode_string_mem m (src + 4) (ucast sz)))"

function string_size :: "memory \<Rightarrow> u64 \<Rightarrow> u64 \<Rightarrow> u64 \<Rightarrow> u64 option" where
  "string_size m limit sz p =
     (if sz < limit then
        (case m p of
           None \<Rightarrow> None
         | Some b \<Rightarrow> if b \<noteq> 0 then string_size m limit (sz + 1) (p + 1) else Some sz)
      else Some sz)"
  by pat_completeness auto
termination
proof (relation "measure (\<lambda>(m, limit, sz, p). unat limit - unat sz)", goal_cases)
  case (2 m limit sz p b)
  then have "unat sz < unat limit" by (simp add: word_less_nat_alt)
  moreover from this have "unat (sz + 1) = unat sz + 1" using u64_bound [of limit] by (subst unat_word_ariths(1)) simp
  ultimately show ?case by simp
qed simp

declare string_size.simps [simp del]

definition pb_enc_string :: "memory \<Rightarrow> pb_field \<Rightarrow> u64 \<Rightarrow> ('s pb_ostream, unit) mop" where
  "pb_enc_string m field src =
     (let limit = (if PB_ATYPE (type field) = 0x80 then - 1 else ucast (data_size field))
      in mget (if src = 0 then Some 0 else string_size m limit 0 src) (\<lambda>sz. pb_encode_string_mem m src sz))"

definition pb_enc_fixed_length_bytes :: "memory \<Rightarrow> pb_field \<Rightarrow> u64 \<Rightarrow> ('s pb_ostream, unit) mop" where
  "pb_enc_fixed_length_bytes m field src = pb_encode_string_mem m src (ucast (data_size field))"

text \<open>\<open>pb_encode_submessage\<close> for a call of \<open>pb_encode\<close> that may be undefined.\<close>

definition encode_submessage :: "('s pb_ostream, unit) mop \<Rightarrow> ('s pb_ostream, unit) mop" where
  "encode_submessage enc stream =
     (case enc PB_OSTREAM_SIZING of
        None \<Rightarrow> None
      | Some (None, substream) \<Rightarrow> Some (None, stream\<lparr>errmsg := errmsg substream\<rparr>)
      | Some (Some _, substream) \<Rightarrow>
          let sz = bytes_written substream in
          (case pb_encode_varint sz stream of
             (None, stream) \<Rightarrow> Some (None, stream)
           | (Some _, stream) \<Rightarrow>
               if is_sizing (sink stream) then Some (pb_write [] sz stream)
               else if bytes_written stream + sz > max_size stream then
                 Some (PB_RETURN_ERROR ''stream full'' stream)
               else
                 (case enc \<lparr>sink = sink stream, max_size = sz, bytes_written = 0, errmsg = None\<rparr> of
                    None \<Rightarrow> None
                  | Some (status, substream) \<Rightarrow>
                      let stream = stream\<lparr>bytes_written := bytes_written stream + bytes_written substream,
                                          sink := sink substream, errmsg := errmsg substream\<rparr> in
                      Some (if bytes_written substream \<noteq> sz then
                              PB_RETURN_ERROR ''submsg size changed'' stream
                            else (status, stream)))))"

definition pb_enc_submessage ::
  "'s enc_env \<Rightarrow> (pb_field list \<Rightarrow> u64 \<Rightarrow> ('s pb_ostream, unit) mop) \<Rightarrow> pb_field \<Rightarrow> u64 \<Rightarrow> ('s pb_ostream, unit) mop" where
  "pb_enc_submessage env encode field src =
     (if ptr field = 0 then lift (PB_RETURN_ERROR ''invalid field descriptor'')
      else mget (table env (ptr field)) (\<lambda>descrs. encode_submessage (encode descrs src)))"

text \<open>The table of the encoders; \<open>encode\<close> is \<open>pb_encode\<close>. An extension has none.\<close>

definition PB_ENCODERS ::
  "'s enc_env \<Rightarrow> memory \<Rightarrow> (pb_field list \<Rightarrow> u64 \<Rightarrow> ('s pb_ostream, unit) mop) \<Rightarrow> byte \<Rightarrow> pb_field \<Rightarrow> u64 \<Rightarrow> ('s pb_ostream, unit) mop" where
  "PB_ENCODERS env m encode ltype field src =
     (if ltype = 0x00 then pb_enc_bool m src
      else if ltype = 0x01 then pb_enc_varint m field src
      else if ltype = 0x02 then pb_enc_uvarint m field src
      else if ltype = 0x03 then pb_enc_svarint m field src
      else if ltype = 0x04 then pb_enc_fixed32 m src
      else if ltype = 0x05 then pb_enc_fixed64 m src
      else if ltype = 0x06 then pb_enc_bytes m field src
      else if ltype = 0x07 then pb_enc_string m field src
      else if ltype = 0x08 then pb_enc_submessage env encode field src
      else if ltype = 0x0a then pb_enc_fixed_length_bytes m field src
      else (\<lambda>_. None))"

section \<open>Arrays\<close>

text \<open>The loops over the \<open>count\<close> entries of an array, \<open>step\<close> bytes apart.\<close>

primrec encode_items :: "(u64 \<Rightarrow> ('s pb_ostream, unit) mop) \<Rightarrow> u64 \<Rightarrow> nat \<Rightarrow> u64 \<Rightarrow> ('s pb_ostream, unit) mop" where
  "encode_items func step 0 p = lift (ret ())"
| "encode_items func step (Suc n) p = mthen (func p) (\<lambda>_. encode_items func step n (p + step))"

definition packable :: "pb_field \<Rightarrow> bool" where
  "packable field \<longleftrightarrow> PB_LTYPE (type field) \<le> 0x05"

text \<open>The size of a packed array; the entries are written to a sizing stream unless their size is fixed.\<close>

definition packed_size :: "pb_field \<Rightarrow> u64 \<Rightarrow> u64 \<Rightarrow> (u64 \<Rightarrow> ('s pb_ostream, unit) mop) \<Rightarrow> ('s pb_ostream, u64) mop" where
  "packed_size field p_data count func stream =
     (if PB_LTYPE (type field) = 0x04 then Some (Some (4 * count), stream)
      else if PB_LTYPE (type field) = 0x05 then Some (Some (8 * count), stream)
      else
        (case encode_items func (ucast (data_size field)) (unat count) p_data PB_OSTREAM_SIZING of
           None \<Rightarrow> None
         | Some (None, _) \<Rightarrow> Some (None, stream)
         | Some (Some _, sizestream) \<Rightarrow> Some (Some (bytes_written sizestream), stream)))"

definition encode_array ::
  "memory \<Rightarrow> pb_field \<Rightarrow> u64 \<Rightarrow> u64 \<Rightarrow> (u64 \<Rightarrow> ('s pb_ostream, unit) mop) \<Rightarrow> ('s pb_ostream, unit) mop" where
  "encode_array m field p_data count func =
     (if count = 0 then lift (ret ())
      else if PB_ATYPE (type field) \<noteq> 0x80 \<and> count > ucast (array_size field) then
        lift (PB_RETURN_ERROR ''array max size exceeded'')
      else if packable field then
        mthen (lift (pb_encode_tag PB_WT_STRING (tag field))) (\<lambda>_.
          mthen (packed_size field p_data count func) (\<lambda>sz.
            mthen (lift (pb_encode_varint sz)) (\<lambda>_ stream.
              if is_sizing (sink stream) then lift (pb_write [] sz) stream
              else encode_items func (ucast (data_size field)) (unat count) p_data stream)))
      else
        encode_items
          (\<lambda>p. mthen (lift (pb_encode_tag_for_field field)) (\<lambda>_.
             if PB_ATYPE (type field) = 0x80 \<and> (PB_LTYPE (type field) = 0x07 \<or> PB_LTYPE (type field) = 0x06)
             then mget (load64 m p) func
             else func p))
          (ucast (data_size field)) (unat count) p_data)"

section \<open>Default values\<close>

primrec all_zero :: "memory \<Rightarrow> nat \<Rightarrow> u64 \<Rightarrow> bool option" where
  "all_zero m 0 p = Some True"
| "all_zero m (Suc n) p =
     (case m p of None \<Rightarrow> None | Some b \<Rightarrow> if b \<noteq> 0 then Some False else all_zero m n (p + 1))"

text \<open>
  The loop over the fields of a submessage, where \<open>check\<close> is the test of a field. The iterator
  must not leave the table of the descriptors, which has \<open>k\<close> of them from here on.
\<close>

primrec all_default :: "nat \<Rightarrow> (pb_field \<Rightarrow> u64 \<Rightarrow> bool option) \<Rightarrow> pb_field_iter \<Rightarrow> bool option" where
  "all_default 0 check iter = None"
| "all_default (Suc k) check iter =
     (case check (the_field iter) (pData iter) of
        None \<Rightarrow> None
      | Some False \<Rightarrow> Some False
      | Some True \<Rightarrow>
          if pos iter + 1 \<ge> length (start iter) then None
          else (case pb_field_iter_next iter of (again, iter) \<Rightarrow> if again then all_default k check iter else Some True))"

definition fields_default :: "pb_field list \<Rightarrow> (pb_field \<Rightarrow> u64 \<Rightarrow> bool option) \<Rightarrow> u64 \<Rightarrow> bool option" where
  "fields_default descrs check p =
     (if descrs = [] then None
      else (case pb_field_iter_begin descrs p of
              (nonempty, iter) \<Rightarrow> if nonempty then all_default (length descrs) check iter else Some True))"

text \<open>\<open>depth\<close> bounds the nesting of submessages.\<close>

primrec pb_check_proto3_default_value ::
  "nat \<Rightarrow> (u64 \<Rightarrow> pb_field list option) \<Rightarrow> memory \<Rightarrow> pb_field \<Rightarrow> u64 \<Rightarrow> bool option" where
  "pb_check_proto3_default_value 0 tab m field p_data = None"
| "pb_check_proto3_default_value (Suc depth) tab m field p_data =
     (let htype = PB_HTYPE (type field); atype = PB_ATYPE (type field); ltype = PB_LTYPE (type field);
          p_size = p_data + scast (size_offset field) in
      if htype = 0x00 then Some False
      else if htype = 0x20 \<and> size_offset field \<noteq> 0 then map_option (\<lambda>n. n = 0) (load32 m p_size)
      else if htype = 0x20 \<and> atype = 0x00 then Some False
      else if htype = 0x30 then map_option (\<lambda>n. n = 0) (load32 m p_size)
      else if htype = 0x10 \<and> size_offset field \<noteq> 0 then map_option (\<lambda>b. b = False) (safe_read_bool m p_size)
      else if atype = 0x00 \<and> ltype = 0x06 then map_option (\<lambda>n. n = 0) (load32 m p_data)
      else if atype = 0x00 \<and> ltype = 0x07 then map_option (\<lambda>b. b = 0) (m p_data)
      else if atype = 0x00 \<and> ltype = 0x0a then Some (data_size field = 0)
      else if atype = 0x00 \<and> ltype = 0x08 then
        (case tab (ptr field) of
           None \<Rightarrow> None
         | Some descrs \<Rightarrow> fields_default descrs (pb_check_proto3_default_value depth tab m) p_data)
      else if atype = 0x80 \<and> ltype > 0x05 then map_option (\<lambda>p. p = 0) (load64 m p_data)
      else all_zero m (unat (data_size field)) p_data)"

section \<open>Fields\<close>

text \<open>What \<open>pSize\<close> points to: a member of the structure or the local variable \<open>implicit_has\<close>.\<close>

datatype has = Member u64 | Implicit bool

fun read_has :: "memory \<Rightarrow> has \<Rightarrow> bool option" where
  "read_has m (Member p) = safe_read_bool m p"
| "read_has m (Implicit b) = Some b"

fun read_size :: "memory \<Rightarrow> has \<Rightarrow> u32 option" where
  "read_size m (Member p) = load32 m p"
| "read_size m (Implicit b) = None"

definition encode_basic_field ::
  "'s enc_env \<Rightarrow> nat \<Rightarrow> memory \<Rightarrow> (pb_field list \<Rightarrow> u64 \<Rightarrow> ('s pb_ostream, unit) mop) \<Rightarrow> pb_field \<Rightarrow> u64 \<Rightarrow>
   ('s pb_ostream, unit) mop" where
  "encode_basic_field env depth m encode field p_data =
     (let func = PB_ENCODERS env m encode (PB_LTYPE (type field)) field;
          htype = PB_HTYPE (type field) in
      mget (if size_offset field \<noteq> 0 then Some (Member (p_data + scast (size_offset field)))
            else if htype = 0x10 then
              map_option (\<lambda>b. Implicit (\<not> b)) (pb_check_proto3_default_value depth (table env) m field p_data)
            else Some (Implicit True)) (\<lambda>has.
      mget (if PB_ATYPE (type field) = 0x80 then load64 m p_data else Some p_data) (\<lambda>data.
      let has = (if PB_ATYPE (type field) = 0x80
                 then (case has of Member p \<Rightarrow> Member p | Implicit _ \<Rightarrow> Implicit (data \<noteq> 0)) else has) in
      if htype = 0x00 then
        if data = 0 then lift (PB_RETURN_ERROR ''missing required field'')
        else mthen (lift (pb_encode_tag_for_field field)) (\<lambda>_. func data)
      else if htype = 0x10 then
        mget (read_has m has) (\<lambda>present.
          if present then mthen (lift (pb_encode_tag_for_field field)) (\<lambda>_. func data) else lift (ret ()))
      else if htype = 0x20 then
        mget (if size_offset field \<noteq> 0 then read_size m has else Some (array_size field)) (\<lambda>count.
          encode_array m field data (ucast count) func)
      else
        mget (read_size m has) (\<lambda>which.
          if which = tag field then mthen (lift (pb_encode_tag_for_field field)) (\<lambda>_. func data) else lift (ret ())))))"

definition encode_callback_field :: "'s enc_env \<Rightarrow> memory \<Rightarrow> pb_field \<Rightarrow> u64 \<Rightarrow> ('s pb_ostream, unit) mop" where
  "encode_callback_field env m field p_data =
     mget (load64 m p_data) (\<lambda>encode stream.
       if encode \<noteq> 0 then
         (case enc_callback env encode field (p_data + 8) stream of
            (None, stream) \<Rightarrow> lift (PB_RETURN_ERROR ''callback error'') stream
          | (Some _, stream) \<Rightarrow> Some (Some (), stream))
       else Some (Some (), stream))"

definition encode_field ::
  "'s enc_env \<Rightarrow> nat \<Rightarrow> memory \<Rightarrow> (pb_field list \<Rightarrow> u64 \<Rightarrow> ('s pb_ostream, unit) mop) \<Rightarrow> pb_field \<Rightarrow> u64 \<Rightarrow>
   ('s pb_ostream, unit) mop" where
  "encode_field env depth m encode field p_data =
     (let atype = PB_ATYPE (type field) in
      if atype = 0x00 \<or> atype = 0x80 then encode_basic_field env depth m encode field p_data
      else if atype = 0x40 then encode_callback_field env m field p_data
      else lift (PB_RETURN_ERROR ''invalid field type''))"

text \<open>
  An extension: \<open>type\<close>, \<open>dest\<close>, \<open>next\<close> and \<open>found\<close> at 0, 8, 16 and 24; its type: \<open>decode\<close>, \<open>encode\<close>
  and \<open>arg\<close> at 0, 8 and 16.
\<close>

definition default_extension_encoder ::
  "'s enc_env \<Rightarrow> nat \<Rightarrow> memory \<Rightarrow> (pb_field list \<Rightarrow> u64 \<Rightarrow> ('s pb_ostream, unit) mop) \<Rightarrow> u64 \<Rightarrow> ('s pb_ostream, unit) mop" where
  "default_extension_encoder env depth m encode extension =
     mget (load64 m extension) (\<lambda>t.
     mget (load64 m (t + 16)) (\<lambda>arg.
     mget (table env arg) (\<lambda>descrs.
       if descrs = [] then (\<lambda>_. None)
       else if PB_ATYPE (type (hd descrs)) = 0x80 then encode_field env depth m encode (hd descrs) (extension + 8)
       else mget (load64 m (extension + 8)) (\<lambda>dest. encode_field env depth m encode (hd descrs) dest))))"

text \<open>The loop over the list of extensions, at most \<open>k\<close> of them.\<close>

primrec encode_extensions ::
  "nat \<Rightarrow> 's enc_env \<Rightarrow> nat \<Rightarrow> memory \<Rightarrow> (pb_field list \<Rightarrow> u64 \<Rightarrow> ('s pb_ostream, unit) mop) \<Rightarrow> u64 \<Rightarrow> ('s pb_ostream, unit) mop" where
  "encode_extensions 0 env depth m encode extension = (if extension = 0 then lift (ret ()) else (\<lambda>_. None))"
| "encode_extensions (Suc k) env depth m encode extension =
     (if extension = 0 then lift (ret ())
      else
        mget (load64 m extension) (\<lambda>t.
        mget (load64 m (t + 8)) (\<lambda>fn.
          mthen (if fn \<noteq> 0 then lift (enc_extension env fn extension)
                 else default_extension_encoder env depth m encode extension) (\<lambda>_.
            mget (load64 m (extension + 16)) (\<lambda>next. encode_extensions k env depth m encode next)))))"

definition encode_extension_field ::
  "'s enc_env \<Rightarrow> nat \<Rightarrow> memory \<Rightarrow> (pb_field list \<Rightarrow> u64 \<Rightarrow> ('s pb_ostream, unit) mop) \<Rightarrow> u64 \<Rightarrow> ('s pb_ostream, unit) mop" where
  "encode_extension_field env depth m encode p_data =
     mget (load64 m p_data) (\<lambda>extension. encode_extensions depth env depth m encode extension)"

section \<open>Messages\<close>

primrec for_fields :: "nat \<Rightarrow> (pb_field \<Rightarrow> u64 \<Rightarrow> ('s, unit) mop) \<Rightarrow> pb_field_iter \<Rightarrow> ('s, unit) mop" where
  "for_fields 0 body iter = (\<lambda>_. None)"
| "for_fields (Suc k) body iter =
     mthen (body (the_field iter) (pData iter)) (\<lambda>_.
       if pos iter + 1 \<ge> length (start iter) then (\<lambda>_. None)
       else (case pb_field_iter_next iter of (again, iter) \<Rightarrow> if again then for_fields k body iter else lift (ret ())))"

primrec pb_encode :: "nat \<Rightarrow> 's enc_env \<Rightarrow> memory \<Rightarrow> pb_field list \<Rightarrow> u64 \<Rightarrow> ('s pb_ostream, unit) mop" where
  "pb_encode 0 env m descrs src_struct = (\<lambda>_. None)"
| "pb_encode (Suc depth) env m descrs src_struct =
     (if descrs = [] then (\<lambda>_. None)
      else
        (case pb_field_iter_begin descrs src_struct of (nonempty, iter) \<Rightarrow>
           if \<not> nonempty then lift (ret ())
           else
             for_fields (length descrs)
               (\<lambda>field p_data.
                  if PB_LTYPE (type field) = 0x09
                  then encode_extension_field env depth m (pb_encode depth env m) p_data
                  else encode_field env depth m (pb_encode depth env m) field p_data)
               iter))"

end
