(* ===== verification/PB_Wire.thy ===== *)
theory PB_Wire
  imports PB_Message PB_Decode
begin

unbundle bit_operations_syntax

text \<open>
  What \<open>pb_encode\<close> promises: the records that a structure in memory stands for
  (\<open>message_records\<close>), a specification that knows nothing of streams and of the two passes over a
  submessage, and the proof that the encoder writes exactly these records.
\<close>

section \<open>The wire format of a structure\<close>

text \<open>
  What a structure in memory means as a protocol buffer message, without streams: the list of its
  records, each with the tag, the wire type and the bytes of the value. The address of a member
  comes from the layout that the descriptors define (\<open>data_at\<close>). Structures with callbacks that are
  set or with extensions are left out.
\<close>

type_synonym wire_record = "u32 \<times> u32 \<times> byte list"

definition record_bytes :: "wire_record \<Rightarrow> byte list" where
  "record_bytes r = (case r of (n, wt, value) \<Rightarrow> varint (unat n * 8 + unat wt) @ value)"

definition records_bytes :: "wire_record list \<Rightarrow> byte list" where
  "records_bytes rs = concat (map record_bytes rs)"

lemma records_bytes_simps [simp]:
  "records_bytes [] = []" "records_bytes (r # rs) = record_bytes r @ records_bytes rs"
  "records_bytes (rs @ ss) = records_bytes rs @ records_bytes ss"
  by (simp_all add: records_bytes_def)

lemma records_bytes_concat: "records_bytes (concat rss) = concat (map records_bytes rss)"
  by (induction rss) simp_all

definition delimited :: "byte list \<Rightarrow> byte list" where
  "delimited bs = varint (length bs) @ bs"

definition wire_type_of :: "byte \<Rightarrow> u32 option" where
  "wire_type_of ltype =
     (if ltype \<le> 0x03 then Some PB_WT_VARINT
      else if ltype = 0x04 then Some PB_WT_32BIT
      else if ltype = 0x05 then Some PB_WT_64BIT
      else if ltype = 0x06 \<or> ltype = 0x07 \<or> ltype = 0x08 \<or> ltype = 0x0a then Some PB_WT_STRING
      else None)"

definition int_wire :: "(u64 \<Rightarrow> u64) \<Rightarrow> bool \<Rightarrow> memory \<Rightarrow> pb_field \<Rightarrow> u64 \<Rightarrow> byte list option" where
  "int_wire f sx m field a =
     (if int_width (data_size field) then map_option (\<lambda>v. varint (unat (f v))) (load_int sx m (data_size field) a) else None)"

definition value_wire ::
  "(u64 \<Rightarrow> pb_field list option) \<Rightarrow> memory \<Rightarrow> (pb_field list \<Rightarrow> u64 \<Rightarrow> wire_record list option) \<Rightarrow> pb_field \<Rightarrow> u64 \<Rightarrow> byte list option" where
  "value_wire tab m sub field a =
     (let ltype = PB_LTYPE (type field) in
      if ltype = 0x00 then map_option (\<lambda>b. varint (if b then 1 else 0)) (safe_read_bool m a)
      else if ltype = 0x01 then int_wire id True m field a
      else if ltype = 0x02 then int_wire id False m field a
      else if ltype = 0x03 then int_wire zigzag True m field a
      else if ltype = 0x04 then load m a 4
      else if ltype = 0x05 then load m a 8
      else if ltype = 0x06 then
        if a = 0 then Some (delimited [])
        else
          (case load32 m a of
             None \<Rightarrow> None
           | Some sz \<Rightarrow>
               if PB_ATYPE (type field) = 0 \<and> ucast sz > ucast (data_size field) - (4 :: u64) then None
               else map_option delimited (load m (a + 4) (unat sz)))
      else if ltype = 0x07 then
        if a = 0 then Some (delimited [])
        else
          (case string_size m (if PB_ATYPE (type field) = 0x80 then - 1 else ucast (data_size field)) 0 a of
             None \<Rightarrow> None
           | Some sz \<Rightarrow> map_option delimited (load m a (unat sz)))
      else if ltype = 0x08 then
        if ptr field = 0 then None
        else
          (case tab (ptr field) of
             None \<Rightarrow> None
           | Some descrs \<Rightarrow> map_option (\<lambda>rs. delimited (records_bytes rs)) (sub descrs a))
      else if ltype = 0x0a then map_option delimited (load m a (unat (data_size field)))
      else None)"

primrec sequence :: "'a option list \<Rightarrow> 'a list option" where
  "sequence [] = Some []"
| "sequence (x # xs) =
     (case x of None \<Rightarrow> None | Some y \<Rightarrow> (case sequence xs of None \<Rightarrow> None | Some ys \<Rightarrow> Some (y # ys)))"

definition one_record :: "pb_field \<Rightarrow> byte list option \<Rightarrow> wire_record option" where
  "one_record field value =
     (case (wire_type_of (PB_LTYPE (type field)), value) of (Some wt, Some bs) \<Rightarrow> Some (tag field, wt, bs) | _ \<Rightarrow> None)"

text \<open>The addresses of the entries of an array.\<close>

definition entries :: "pb_field \<Rightarrow> nat \<Rightarrow> u64 \<Rightarrow> u64 list" where
  "entries field n a = map (\<lambda>i. a + word_of_nat i * ucast (data_size field)) [0..<n]"

definition array_records ::
  "memory \<Rightarrow> (u64 \<Rightarrow> byte list option) \<Rightarrow> pb_field \<Rightarrow> nat \<Rightarrow> u64 \<Rightarrow> wire_record list option" where
  "array_records m value field n a =
     (if n = 0 then Some []
      else if PB_ATYPE (type field) \<noteq> 0x80 \<and> unat (array_size field) < n then None
      else if packable field then
        map_option (\<lambda>bss. [(tag field, PB_WT_STRING, delimited (concat bss))]) (sequence (map value (entries field n a)))
      else if PB_ATYPE (type field) = 0x80 \<and> (PB_LTYPE (type field) = 0x07 \<or> PB_LTYPE (type field) = 0x06) then
        sequence (map (\<lambda>p. one_record field (case load64 m p of None \<Rightarrow> None | Some q \<Rightarrow> value q)) (entries field n a))
      else sequence (map (\<lambda>p. one_record field (value p)) (entries field n a)))"

definition basic_records ::
  "(u64 \<Rightarrow> pb_field list option) \<Rightarrow> nat \<Rightarrow> memory \<Rightarrow> (pb_field list \<Rightarrow> u64 \<Rightarrow> wire_record list option) \<Rightarrow> pb_field \<Rightarrow> u64 \<Rightarrow>
   wire_record list option" where
  "basic_records tab depth m sub field a =
     (let htype = PB_HTYPE (type field); pointer = (PB_ATYPE (type field) = 0x80);
          size_member = a + scast (size_offset field); value = value_wire tab m sub field;
          present = (\<lambda>data. map_option (\<lambda>r. [r]) (one_record field (value data))) in
      case (if pointer then load64 m a else Some a) of
        None \<Rightarrow> None
      | Some data \<Rightarrow>
          if htype = 0x00 then if data = 0 then None else present data
          else if htype = 0x10 then
            (case (if size_offset field \<noteq> 0 then safe_read_bool m size_member
                   else
                     (case pb_check_proto3_default_value depth tab m field a of
                        None \<Rightarrow> None | Some d \<Rightarrow> Some (if pointer then data \<noteq> 0 else \<not> d))) of
               None \<Rightarrow> None
             | Some b \<Rightarrow> if b then present data else Some [])
          else if htype = 0x20 then
            (case (if size_offset field \<noteq> 0 then load32 m size_member else Some (array_size field)) of
               None \<Rightarrow> None
             | Some n \<Rightarrow> array_records m value field (unat n) data)
          else if size_offset field = 0 then None
          else (case load32 m size_member of None \<Rightarrow> None | Some which \<Rightarrow> if which = tag field then present data else Some []))"

text \<open>
  The tables, and what the functions that pointers lead to stand for: the records that a callback
  writes for a field, and those of an extension that has an encoder of its own.
\<close>

record wire_env =
  tables :: "u64 \<Rightarrow> pb_field list option"
  callback_records :: "u64 \<Rightarrow> pb_field \<Rightarrow> u64 \<Rightarrow> wire_record list option"
  extension_records :: "u64 \<Rightarrow> u64 \<Rightarrow> wire_record list option"

definition plain_records ::
  "wire_env \<Rightarrow> nat \<Rightarrow> memory \<Rightarrow> (pb_field list \<Rightarrow> u64 \<Rightarrow> wire_record list option) \<Rightarrow> pb_field \<Rightarrow> u64 \<Rightarrow>
   wire_record list option" where
  "plain_records w depth m sub field a =
     (if PB_ATYPE (type field) = 0x40 then
        (case load64 m a of None \<Rightarrow> None | Some p \<Rightarrow> if p = 0 then Some [] else callback_records w p field (a + 8))
      else if PB_ATYPE (type field) = 0xc0 then None
      else basic_records (tables w) depth m sub field a)"

text \<open>The chain of extensions from \<open>x\<close> on, at most \<open>k\<close> of them.\<close>

definition default_extension_records ::
  "wire_env \<Rightarrow> nat \<Rightarrow> memory \<Rightarrow> (pb_field list \<Rightarrow> u64 \<Rightarrow> wire_record list option) \<Rightarrow> u64 \<Rightarrow> u64 \<Rightarrow> wire_record list option" where
  "default_extension_records w depth m sub t x =
     (case load64 m (t + 16) of
        None \<Rightarrow> None
      | Some arg \<Rightarrow>
          (case tables w arg of
             Some (field # _) \<Rightarrow>
               (case (if PB_ATYPE (type field) = 0x80 then Some (x + 8) else load64 m (x + 8)) of
                  None \<Rightarrow> None
                | Some dest \<Rightarrow> plain_records w depth m sub field dest)
           | _ \<Rightarrow> None))"

primrec chain_records ::
  "nat \<Rightarrow> wire_env \<Rightarrow> nat \<Rightarrow> memory \<Rightarrow> (pb_field list \<Rightarrow> u64 \<Rightarrow> wire_record list option) \<Rightarrow> u64 \<Rightarrow> wire_record list option" where
  "chain_records 0 w depth m sub x = (if x = 0 then Some [] else None)"
| "chain_records (Suc k) w depth m sub x =
     (if x = 0 then Some []
      else
        (case load64 m x of
           None \<Rightarrow> None
         | Some t \<Rightarrow>
             (case load64 m (t + 8) of
                None \<Rightarrow> None
              | Some fn \<Rightarrow>
                  (case (if fn \<noteq> 0 then extension_records w fn x else default_extension_records w depth m sub t x) of
                     None \<Rightarrow> None
                   | Some rs \<Rightarrow>
                       (case load64 m (x + 16) of
                          None \<Rightarrow> None
                        | Some y \<Rightarrow> map_option (\<lambda>ss. rs @ ss) (chain_records k w depth m sub y))))))"

definition field_records ::
  "wire_env \<Rightarrow> nat \<Rightarrow> memory \<Rightarrow> (pb_field list \<Rightarrow> u64 \<Rightarrow> wire_record list option) \<Rightarrow> pb_field \<Rightarrow> u64 \<Rightarrow>
   wire_record list option" where
  "field_records w depth m sub field a =
     (if PB_LTYPE (type field) = 0x09 then
        (case load64 m a of None \<Rightarrow> None | Some x \<Rightarrow> chain_records depth w depth m sub x)
      else plain_records w depth m sub field a)"

definition field_count :: "pb_field list \<Rightarrow> nat" where
  "field_count descrs = length (takeWhile (\<lambda>f. tag f \<noteq> 0) descrs)"

primrec message_records ::
  "nat \<Rightarrow> wire_env \<Rightarrow> memory \<Rightarrow> pb_field list \<Rightarrow> u64 \<Rightarrow> wire_record list option" where
  "message_records 0 w m descrs a = None"
| "message_records (Suc depth) w m descrs a =
     (if a = 0 \<or> field_count descrs = length descrs then None
      else
        map_option concat (sequence
          (map (\<lambda>i. field_records w depth m (message_records depth w m) (descrs ! i) (a + data_at descrs i))
             [0..<field_count descrs])))"

section \<open>Operations that stand for bytes\<close>

text \<open>
  An operation is exact for some bytes if it is always defined, is an \<open>encoder\<close> of them and keeps
  to the buffer of the stream.
\<close>

definition keeps :: "('s pb_ostream, unit) op \<Rightarrow> nat \<Rightarrow> bool" where
  "keeps enc n \<longleftrightarrow>
     (\<forall>base s. is_buffer (sink s) \<longrightarrow> unat (max_size s) + n < 2 ^ 64 \<longrightarrow> in_bounds base s \<longrightarrow>
        is_buffer (sink (snd (enc s))) \<and> max_size (snd (enc s)) = max_size s \<and> in_bounds base (snd (enc s)))"

lemma keepsD:
  assumes "keeps enc n" and "enc s = (r, s')" and "is_buffer (sink s)" and "unat (max_size s) + n < 2 ^ 64" and "in_bounds base s"
  shows "is_buffer (sink s')" and "max_size s' = max_size s" and "in_bounds base s'"
  using assms(1) [unfolded keeps_def, rule_format, OF assms(3,4,5)] by (simp_all add: assms(2))

definition exact :: "('s pb_ostream, unit) mop \<Rightarrow> byte list \<Rightarrow> bool" where
  "exact M bytes \<longleftrightarrow> (\<exists>enc. M = lift enc \<and> encoder enc bytes \<and> keeps enc (length bytes))"

lemma exactI: "encoder enc bytes \<Longrightarrow> writer enc \<Longrightarrow> exact (lift enc) bytes"
  unfolding exact_def keeps_def writer_def by blast

lemma mthen_lift: "mthen (lift f) (\<lambda>a. lift (g a)) = lift (andthen f g)"
  by (rule ext) (simp add: mthen_def lift_def andthen_def split: option.split prod.split)

lemma keeps_andthen:
  assumes f: "keeps f k" and g: "keeps g n"
  shows "keeps (andthen f (\<lambda>_. g)) (k + n)"
  unfolding keeps_def
proof (intro allI impI)
  fix s :: "'a pb_ostream" and base
  assume s: "is_buffer (sink s)" "unat (max_size s) + (k + n) < 2 ^ 64" "in_bounds base s"
  obtain r s1 where fs: "f s = (r, s1)" by fastforce
  have k: "unat (max_size s) + k < 2 ^ 64" using s(2) by linarith
  note 1 = keepsD [OF f fs s(1) k s(3)]
  have n: "unat (max_size s1) + n < 2 ^ 64" unfolding 1(2) using s(2) by linarith
  obtain r' s2 where gs: "g s1 = (r', s2)" by fastforce
  note 2 = keepsD [OF g gs 1(1) n 1(3)]
  show "is_buffer (sink (snd (andthen f (\<lambda>_. g) s))) \<and> max_size (snd (andthen f (\<lambda>_. g) s)) = max_size s \<and>
      in_bounds base (snd (andthen f (\<lambda>_. g) s))"
    using 1 2 by (cases r) (simp_all add: andthen_def fs gs)
qed

named_theorems exact_intros

lemma exact_then [exact_intros]:
  assumes "exact M xs" and "exact N ys"
  shows "exact (mthen M (\<lambda>_. N)) (xs @ ys)"
proof -
  obtain f g where f: "M = lift f" "encoder f xs" "keeps f (length xs)" and g: "N = lift g" "encoder g ys" "keeps g (length ys)"
    using assms unfolding exact_def by blast
  have "mthen M (\<lambda>_. N) = lift (andthen f (\<lambda>_. g))" unfolding f g mthen_lift ..
  then show ?thesis
    using encoder_andthen [OF f(2) g(2)] keeps_andthen [OF f(3) g(3)] unfolding exact_def by auto
qed

lemma exact_ret [exact_intros]: "exact (lift (ret ())) []"
  by (rule exactI; unfold_locales) (auto simp: ret_def)

lemma exact_done: "exact (\<lambda>s. Some (Some (), s)) []"
proof -
  have eq: "(\<lambda>s. Some (Some (), s)) = lift (ret ())" by (rule ext) (simp add: lift_def ret_def)
  show ?thesis unfolding eq by (rule exact_ret)
qed

lemma exact_get [exact_intros]: "r = Some v \<Longrightarrow> exact (f v) bytes \<Longrightarrow> exact (mget r f) bytes"
proof -
  assume r: "r = Some v" and e: "exact (f v) bytes"
  have "mget r f = f v" by (rule ext) (simp add: mget_def r)
  then show ?thesis using e by simp
qed

lemma exact_varint [exact_intros]: "exact (lift (pb_encode_varint v)) (varint (unat v))"
  by (rule exactI [OF encoder_varint writer_varint])

lemma exact_svarint [exact_intros]: "exact (lift (pb_encode_svarint v)) (varint (unat (zigzag v)))"
  unfolding pb_encode_svarint_def by (rule exact_varint)

lemma load_length: "load m a n = Some bs \<Longrightarrow> length bs = n"
  by (induction n arbitrary: a bs) (auto split: option.splits)

lemma exact_write:
  assumes "length bs < 2 ^ 64" and "count = word_of_nat (length bs)"
  shows "exact (lift (pb_write bs count)) bs"
  using encoder_write [OF assms(1)] writer_write [of "word_of_nat (length bs)" bs] assms by (intro exactI) simp_all

lemma pb_write_mem_eq:
  assumes "load m a (unat count) = Some bs"
  shows "pb_write_mem m a count s = Some (pb_write bs count s)"
proof (cases "count > 0 \<and> \<not> is_sizing (sink s) \<and>
    \<not> (bytes_written s + count < bytes_written s \<or> bytes_written s + count > max_size s)")
  case True
  then show ?thesis unfolding pb_write_mem_def mget_def assms lift_def if_P [OF True] by simp
next
  case False
  then have "pb_write [] count s = pb_write bs count s" by (auto simp: pb_write_def)
  then show ?thesis unfolding pb_write_mem_def lift_def if_not_P [OF False] by simp
qed

lemma exact_write_mem [exact_intros]:
  assumes l: "load m a (unat count) = Some bs"
  shows "exact (pb_write_mem m a count) bs"
proof -
  have eq: "pb_write_mem m a count = lift (pb_write bs count)"
    by (rule ext) (simp add: pb_write_mem_eq [OF l] lift_def)
  show ?thesis unfolding eq
    by (rule exact_write) (use load_length [OF l] u64_bound [of count] in simp_all)
qed

lemma exact_string [exact_intros]:
  assumes "load m a (unat sz) = Some bs"
  shows "exact (pb_encode_string_mem m a sz) (delimited bs)"
  unfolding pb_encode_string_mem_def delimited_def load_length [OF assms]
  by (intro exact_intros assms)

lemma le_value_bound: "le_value bs < 256 ^ length bs"
proof (induction bs)
  case (Cons b bs)
  then have "le_value bs + 1 \<le> 256 ^ length bs" by simp
  then have "256 * (le_value bs + 1) \<le> 256 * 256 ^ length bs" by (rule mult_le_mono2)
  moreover have "x + 256 * y < 256 * (y + 1)" if "x < 256" for x y :: nat using that by simp
  from this [OF byte_less [of b]] have "unat b + 256 * le_value bs < 256 * (le_value bs + 1)" .
  ultimately show ?case unfolding le_value.simps length_Cons power_Suc by (rule order.strict_trans2 [rotated])
qed simp

lemma le_bytes_Suc: "le_bytes (Suc n) v = word_of_nat v # le_bytes n (v div 256)"
  by (simp add: le_bytes_def upt_conv_Cons map_Suc_upt [symmetric] div_mult2_eq del: upt_Suc)

lemma le_bytes_value: "le_bytes (length bs) (le_value bs) = bs"
proof (induction bs)
  case (Cons b bs)
  have "word_of_nat (unat b + 256 * le_value bs) = b" by (simp add: word_eq_iff_unat del: of_nat_add)
  moreover have "(unat b + 256 * le_value bs) div 256 = le_value bs" using byte_less [of b] by simp
  ultimately show ?case using Cons by (simp add: le_bytes_Suc del: of_nat_add of_nat_mult)
qed (simp add: le_bytes_def)

lemma exact_fixed32:
  assumes "load m a 4 = Some bs"
  shows "exact (pb_enc_fixed32 m a) bs"
proof -
  have len: "length bs = 4" using load_length [OF assms] .
  have "unat (word_of_nat (le_value bs) :: u32) = le_value bs" using le_value_bound [of bs] by (simp add: len)
  then have "le_bytes 4 (unat (word_of_nat (le_value bs) :: u32)) = bs" using le_bytes_value [of bs] by (simp add: len)
  then have "exact (lift (pb_encode_fixed32 (word_of_nat (le_value bs)))) bs"
    using exactI [OF encoder_fixed32, of "word_of_nat (le_value bs)"] by (simp add: pb_encode_fixed32_def writer_write)
  then show ?thesis
    unfolding pb_enc_fixed32_def load32_def assms by (intro exact_get [of _ "word_of_nat (le_value bs)"]) simp_all
qed

lemma exact_fixed64:
  assumes "load m a 8 = Some bs"
  shows "exact (pb_enc_fixed64 m a) bs"
proof -
  have len: "length bs = 8" using load_length [OF assms] .
  have "unat (word_of_nat (le_value bs) :: u64) = le_value bs" using le_value_bound [of bs] by (simp add: len)
  then have "le_bytes 8 (unat (word_of_nat (le_value bs) :: u64)) = bs" using le_bytes_value [of bs] by (simp add: len)
  then have "exact (lift (pb_encode_fixed64 (word_of_nat (le_value bs)))) bs"
    using exactI [OF encoder_fixed64, of "word_of_nat (le_value bs)"] by (simp add: pb_encode_fixed64_def writer_write)
  then show ?thesis
    unfolding pb_enc_fixed64_def load64_def assms by (intro exact_get [of _ "word_of_nat (le_value bs)"]) simp_all
qed

lemma exact_fun: "(\<And>s. M s = N s) \<Longrightarrow> exact N bytes \<Longrightarrow> exact M bytes"
  by (simp add: ext [of M N])

section \<open>Tags\<close>

lemma byte_le_3: "l \<le> 3 \<longleftrightarrow> l = 0 \<or> l = 1 \<or> l = 2 \<or> l = (3 :: byte)"
proof -
  have "x \<le> 3 \<longleftrightarrow> x = 0 \<or> x = 1 \<or> x = 2 \<or> x = 3" for x :: nat by arith
  from this [of "unat l"] show ?thesis by (simp add: word_le_nat_alt word_eq_iff_unat)
qed

lemma PB_ATYPE_cases: "PB_ATYPE t = 0 \<or> PB_ATYPE t = 0x40 \<or> PB_ATYPE t = 0x80 \<or> PB_ATYPE t = 0xc0"
proof -
  have "PB_ATYPE t = (if bit t 7 then if bit t 6 then 0xc0 else 0x80 else if bit t 6 then 0x40 else 0)"
    unfolding PB_ATYPE_def by (rule byte_bits_eqI) (auto simp: bit_simps)
  then show ?thesis by (auto split: if_splits)
qed

lemma exact_tag:
  assumes "unat wt < 8"
  shows "exact (lift (pb_encode_tag wt n)) (varint (unat n * 8 + unat wt))"
  by (rule exactI [OF encoder_tag [OF assms]]) (simp add: pb_encode_tag_def Let_def writer_varint)

lemma wire_type_of_less: "wire_type_of l = Some wt \<Longrightarrow> unat wt < 8"
  by (auto simp: wire_type_of_def PB_WT_VARINT_def PB_WT_32BIT_def PB_WT_64BIT_def PB_WT_STRING_def split: if_splits)

lemma exact_tag_for_field:
  assumes "wire_type_of (PB_LTYPE (type field)) = Some wt"
  shows "exact (lift (pb_encode_tag_for_field field)) (varint (unat (tag field) * 8 + unat wt))"
proof -
  have eq: "pb_encode_tag_for_field field = pb_encode_tag wt (tag field)"
    using assms by (auto simp: wire_type_of_def byte_le_3 pb_encode_tag_for_field_def Let_def split: if_splits)
  show ?thesis unfolding eq by (rule exact_tag [OF wire_type_of_less [OF assms]])
qed

lemma exact_record:
  assumes "one_record field value = Some r" and "\<And>bs. value = Some bs \<Longrightarrow> length bs \<le> length (record_bytes r) \<Longrightarrow> exact M bs"
  shows "exact (mthen (lift (pb_encode_tag_for_field field)) (\<lambda>_. M)) (record_bytes r)"
proof -
  obtain wt bs where r: "wire_type_of (PB_LTYPE (type field)) = Some wt" "value = Some bs" "r = (tag field, wt, bs)"
    using assms(1) by (auto simp: one_record_def split: option.splits)
  from exact_then [OF exact_tag_for_field [OF r(1)], OF assms(2) [OF r(2)]] show ?thesis
    by (simp add: record_bytes_def r)
qed

section \<open>Submessages\<close>

lemma encode_submessage_lift: "encode_submessage (lift enc) = lift (pb_encode_submessage enc)"
  by (rule ext) (simp add: encode_submessage_def pb_encode_submessage_def lift_def Let_def split: prod.split option.split)

lemma keeps_submessage:
  assumes enc: "encoder enc bytes" and len: "length bytes < 2 ^ 64"
  shows "keeps (pb_encode_submessage enc) (length (delimited bytes))"
  unfolding keeps_def
proof (intro allI impI)
  fix s :: "'a pb_ostream" and base
  let ?sz = "word_of_nat (length bytes) :: u64"
  assume s: "is_buffer (sink s)" "unat (max_size s) + length (delimited bytes) < 2 ^ 64" "in_bounds base s"
  have sz: "unat ?sz = length bytes" using len by simp
  have sizing: "enc PB_OSTREAM_SIZING = (Some (), PB_OSTREAM_SIZING\<lparr>bytes_written := ?sz\<rparr>)"
    using encoder.sizing [OF enc, of PB_OSTREAM_SIZING] by (simp add: PB_OSTREAM_SIZING_def)
  obtain r s1 where v: "pb_encode_varint ?sz s = (r, s1)" by fastforce
  have s1: "is_buffer (sink s1)" "max_size s1 = max_size s" "in_bounds base s1"
    using varint_writer.stays [OF s(3), of ?sz] varint_writer.keeps_max [of ?sz s] varint_writer.keeps_kind [of ?sz s] s v by simp_all
  then obtain out where out: "sink s1 = Buffer out" by (cases "sink s1") simp_all
  have room: "unat (max_size s) + length bytes < 2 ^ 64" using s(2) by (simp add: delimited_def)
  have w: "unat (bytes_written s1) \<le> unat (max_size s)" "length out = base + unat (bytes_written s1)"
    using s1 by (simp_all add: in_bounds_def out)
  have sum: "unat (bytes_written s1 + ?sz) = unat (bytes_written s1) + length bytes"
    using room w(1) sz by (subst unat_word_ariths(1)) simp
  have run: "enc \<lparr>sink = Buffer out, max_size = ?sz, bytes_written = 0, errmsg = None\<rparr> =
      (Some (), \<lparr>sink = Buffer (out @ bytes), max_size = ?sz, bytes_written = ?sz, errmsg = None\<rparr>)"
    by (subst encoder.fits [OF enc, of _ out]) (simp_all add: sz)
  let ?t = "snd (pb_encode_submessage enc s)"
  consider "r = None" | "r = Some ()" "bytes_written s1 + ?sz > max_size s1" | "r = Some ()" "\<not> bytes_written s1 + ?sz > max_size s1"
    by (cases r) auto
  then show "is_buffer (sink ?t) \<and> max_size ?t = max_size s \<and> in_bounds base ?t"
  proof cases
    case 1
    then show ?thesis using s1 by (simp add: pb_encode_submessage_def sizing v)
  next
    case 2
    then show ?thesis using s1 by (simp add: pb_encode_submessage_def sizing v out)
  next
    case 3
    then have "unat (bytes_written s1) + length bytes \<le> unat (max_size s)"
      by (simp add: not_less word_le_nat_alt sum s1)
    with 3 s1 w show ?thesis
      by (simp add: pb_encode_submessage_def sizing v out run Let_def in_bounds_def sum)
  qed
qed

lemma exact_submessage:
  assumes "exact M bytes" and "length bytes < 2 ^ 64"
  shows "exact (encode_submessage M) (delimited bytes)"
proof -
  obtain enc where enc: "M = lift enc" "encoder enc bytes" using assms(1) by (auto simp: exact_def)
  show ?thesis
    unfolding enc(1) encode_submessage_lift exact_def
    using encoder_submessage [OF enc(2) assms(2)] keeps_submessage [OF enc(2) assms(2)]
    by (auto simp: delimited_def)
qed

section \<open>Arrays\<close>

lemma sequence_map:
  "sequence (map f xs) = Some ys \<longleftrightarrow> list_all2 (\<lambda>x y. f x = Some y) xs ys"
proof (induction xs arbitrary: ys)
  case (Cons x xs)
  show ?case
    by (cases ys; cases "f x"; cases "sequence (map f xs)") (auto simp: Cons.IH [symmetric])
qed auto

lemma list_all2_concat_length:
  "list_all2 P xs yss \<Longrightarrow> (\<And>x ys. P x ys \<Longrightarrow> length ys = k) \<Longrightarrow> length (concat yss) = k * length xs"
  by (induction xs yss rule: list_all2_induct) simp_all

lemma entries_0 [simp]: "entries field 0 a = []"
  by (simp add: entries_def)

lemma entries_Suc [simp]: "entries field (Suc n) a = a # entries field n (a + ucast (data_size field))"
  by (simp add: entries_def upt_conv_Cons map_Suc_upt [symmetric] algebra_simps del: upt_Suc)

lemma exact_items:
  assumes "list_all2 (\<lambda>p bs. exact (func p) bs) (entries field n a) bss"
  shows "exact (encode_items func (ucast (data_size field)) n a) (concat bss)"
  using assms
proof (induction n arbitrary: a bss)
  case (Suc n)
  then show ?case by (auto simp: list_all2_Cons1 intro!: exact_then)
qed (simp add: exact_ret)

text \<open>A sizing stream may be told the size instead.\<close>

lemma exact_or_size:
  assumes "exact M bytes"
  shows "exact (\<lambda>s. if is_sizing (sink s) then lift (pb_write [] (word_of_nat (length bytes))) s else M s) bytes"
proof -
  obtain enc where enc: "M = lift enc" "encoder enc bytes" "keeps enc (length bytes)" using assms by (auto simp: exact_def)
  let ?e = "\<lambda>s. if is_sizing (sink s) then pb_write [] (word_of_nat (length bytes)) s else enc s"
  have "encoder ?e bytes"
  proof unfold_locales
    fix s :: "'a pb_ostream" and out
    show "sink s = Sizing \<Longrightarrow> ?e s = (Some (), s\<lparr>bytes_written := bytes_written s + word_of_nat (length bytes)\<rparr>)"
      by (simp add: pb_write_def)
  qed (simp_all add: encoder.fits [OF enc(2)] encoder.full [OF enc(2)])
  moreover have "keeps ?e (length bytes)"
  proof -
    have "is_buffer (sink s) \<Longrightarrow> ?e s = enc s" for s by (cases "sink s") simp_all
    then show ?thesis using enc(3) by (simp add: keeps_def)
  qed
  moreover have "(\<lambda>s. if is_sizing (sink s) then lift (pb_write [] (word_of_nat (length bytes))) s else M s) = lift ?e"
    by (rule ext) (simp add: lift_def enc(1))
  ultimately show ?thesis unfolding exact_def by blast
qed

lemma exact_on_sizing: "exact M bytes \<Longrightarrow> M PB_OSTREAM_SIZING = Some (Some (), PB_OSTREAM_SIZING\<lparr>bytes_written := word_of_nat (length bytes)\<rparr>)"
  using encoder.sizing [of _ bytes PB_OSTREAM_SIZING] by (auto simp: exact_def lift_def PB_OSTREAM_SIZING_def)

lemma exact_packed:
  fixes func :: "u64 \<Rightarrow> ('s pb_ostream, unit) mop"
  assumes p: "packable field"
    and items: "exact (encode_items func (ucast (data_size field)) (unat count) a) bs"
    and f32: "PB_LTYPE (type field) = 4 \<Longrightarrow> length bs = 4 * unat count"
    and f64: "PB_LTYPE (type field) = 5 \<Longrightarrow> length bs = 8 * unat count"
    and len: "length bs < 2 ^ 64"
  shows "exact (mthen (lift (pb_encode_tag PB_WT_STRING (tag field))) (\<lambda>_.
      mthen (packed_size field a count func) (\<lambda>sz.
        mthen (lift (pb_encode_varint sz)) (\<lambda>_ stream.
          if is_sizing (sink stream) then lift (pb_write [] sz) stream
          else encode_items func (ucast (data_size field)) (unat count) a stream))))
    (record_bytes (tag field, PB_WT_STRING, delimited bs))"
proof -
  let ?sz = "word_of_nat (length bs) :: u64"
  have "packed_size field a count func s = Some (Some ?sz, s)" for s
    using exact_on_sizing [OF items] by (simp add: packed_size_def f32 f64 PB_OSTREAM_SIZING_def)
  then have eq: "mthen (packed_size field a count func) g = g ?sz" for g :: "u64 \<Rightarrow> ('s pb_ostream, unit) mop"
    by (intro ext) (simp add: mthen_def)
  have body: "exact (mthen (lift (pb_encode_varint ?sz)) (\<lambda>_ stream.
          if is_sizing (sink stream) then lift (pb_write [] ?sz) stream
          else encode_items func (ucast (data_size field)) (unat count) a stream)) (delimited bs)"
    using exact_then [OF exact_varint [of ?sz] exact_or_size [OF items]] len by (simp add: delimited_def)
  have "exact (lift (pb_encode_tag PB_WT_STRING (tag field))) (varint (unat (tag field) * 8 + unat PB_WT_STRING))"
    by (rule exact_tag) (simp add: PB_WT_STRING_def)
  from exact_then [OF this body] show ?thesis unfolding record_bytes_def prod.case eq .
qed

section \<open>What a field needs of the encoder of submessages\<close>

definition describes :: "wire_env \<Rightarrow> 's enc_env \<Rightarrow> bool" where
  "describes w env \<longleftrightarrow> table env = tables w \<and>
     (\<forall>fn field arg rs. callback_records w fn field arg = Some rs \<longrightarrow> exact (lift (enc_callback env fn field arg)) (records_bytes rs)) \<and>
     (\<forall>fn x rs. extension_records w fn x = Some rs \<longrightarrow> exact (lift (enc_extension env fn x)) (records_bytes rs))"

lemma exact_error:
  assumes "exact (lift f) bytes"
  shows "exact (\<lambda>s. case f s of (None, s) \<Rightarrow> lift (PB_RETURN_ERROR msg) s | (Some _, s) \<Rightarrow> Some (Some (), s)) bytes"
proof -
  obtain enc where "lift f = lift enc" and enc: "encoder enc bytes" "keeps enc (length bytes)" using assms by (auto simp: exact_def)
  then have f: "f s = enc s" for s by (metis lift_def option.inject)
  let ?e = "\<lambda>s. case enc s of (None, s) \<Rightarrow> PB_RETURN_ERROR msg s | (Some _, s) \<Rightarrow> (Some (), s)"
  have "encoder ?e bytes"
  proof unfold_locales
    fix s :: "'a pb_ostream" and out
    show "fst (?e s) = None" if "sink s = Buffer out" "errmsg s = None" "unat (bytes_written s) \<le> unat (max_size s)"
        "unat (max_size s) < unat (bytes_written s) + length bytes" "unat (max_size s) + length bytes < 2 ^ 64"
      using encoder.full [OF enc(1) that] by (cases "enc s") (simp add: PB_RETURN_ERROR_def)
  qed (simp_all add: encoder.sizing [OF enc(1)] encoder.fits [OF enc(1)])
  moreover have "keeps ?e (length bytes)"
    unfolding keeps_def
  proof (intro allI impI)
    fix s :: "'a pb_ostream" and base
    assume s: "is_buffer (sink s)" "unat (max_size s) + length bytes < 2 ^ 64" "in_bounds base s"
    obtain r s1 where e: "enc s = (r, s1)" by fastforce
    show "is_buffer (sink (snd (?e s))) \<and> max_size (snd (?e s)) = max_size s \<and> in_bounds base (snd (?e s))"
      using keepsD [OF enc(2) e s] by (cases r) (simp_all add: e)
  qed
  moreover have "(\<lambda>s. case f s of (None, s) \<Rightarrow> lift (PB_RETURN_ERROR msg) s | (Some _, s) \<Rightarrow> Some (Some (), s)) = lift ?e"
    by (rule ext) (simp add: f lift_def split: prod.split option.split)
  ultimately show ?thesis unfolding exact_def by blast
qed

locale sub_encoder =
  fixes encode :: "pb_field list \<Rightarrow> u64 \<Rightarrow> ('s pb_ostream, unit) mop"
    and sub :: "pb_field list \<Rightarrow> u64 \<Rightarrow> wire_record list option"
  assumes sub: "sub descrs a = Some rs \<Longrightarrow> length (records_bytes rs) < 2 ^ 64 \<Longrightarrow> exact (encode descrs a) (records_bytes rs)"
begin

lemma int_values:
  "int_wire id True m field a = Some bs \<Longrightarrow> exact (pb_enc_varint m field a) bs"
  "int_wire id False m field a = Some bs \<Longrightarrow> exact (pb_enc_uvarint m field a) bs"
  "int_wire zigzag True m field a = Some bs \<Longrightarrow> exact (pb_enc_svarint m field a) bs"
  by (auto simp: int_wire_def pb_enc_varint_def pb_enc_uvarint_def pb_enc_svarint_def split: if_splits
      intro!: exact_get exact_varint exact_svarint)

lemma bytes_value:
  assumes "a \<noteq> 0" and "load32 m a = Some sz"
    and "\<not> (PB_ATYPE (type field) = 0 \<and> ucast sz > ucast (data_size field) - (4 :: u64))"
    and "load m (a + 4) (unat sz) = Some bs"
  shows "exact (pb_enc_bytes m field a) (delimited bs)"
proof -
  have "exact (pb_encode_string_mem m (a + 4) (ucast sz)) (delimited bs)" by (rule exact_string) (simp add: assms(4))
  then show ?thesis
    unfolding pb_enc_bytes_def if_not_P [OF assms(1)] by (intro exact_get [OF assms(2)]) (simp only: if_not_P [OF assms(3)])
qed

lemma string_value:
  assumes "a \<noteq> 0" and "string_size m (if PB_ATYPE (type field) = 0x80 then - 1 else ucast (data_size field)) 0 a = Some sz"
    and "load m a (unat sz) = Some bs"
  shows "exact (pb_enc_string m field a) (delimited bs)"
  unfolding pb_enc_string_def Let_def if_not_P [OF assms(1)] by (intro exact_get [OF assms(2)] exact_string assms(3))

lemma empty_value: "exact (pb_encode_string_mem m 0 0) (delimited [])"
  by (rule exact_string) simp

lemma empty_string: "exact (pb_enc_string m field 0) (delimited [])"
  by (rule exact_fun [OF _ empty_value]) (simp add: pb_enc_string_def mget_def)

lemma value_exact:
  assumes v: "value_wire (table env) m sub field a = Some bs" and len: "length bs < 2 ^ 64"
  shows "exact (PB_ENCODERS env m encode (PB_LTYPE (type field)) field a) bs"
proof -
  let ?l = "PB_LTYPE (type field)"
  note defs = value_wire_def Let_def
  consider (bool) "?l = 0" | (int) "?l = 1" | (uint) "?l = 2" | (sint) "?l = 3" | (f32) "?l = 4" | (f64) "?l = 5"
    | (bytes) "?l = 6" | (string) "?l = 7" | (msg) "?l = 8" | (fixed) "?l = 0x0a"
    using v by (auto simp: defs split: if_splits)
  then show ?thesis
  proof cases
    case bool
    then obtain b where "safe_read_bool m a = Some b" "bs = varint (if b then 1 else 0)" using v by (auto simp: defs)
    moreover have "exact (lift (pb_encode_varint (if b then 1 else 0))) (varint (if b then 1 else 0))"
      using exact_varint [of "if b then 1 else 0"] by (cases b) simp_all
    ultimately show ?thesis unfolding PB_ENCODERS_def bool pb_enc_bool_def by (auto intro!: exact_get)
  next
    case int
    show ?thesis unfolding PB_ENCODERS_def int using v int int_values [of m field a bs] by (simp add: defs)
  next
    case uint
    show ?thesis unfolding PB_ENCODERS_def uint using v uint int_values [of m field a bs] by (simp add: defs)
  next
    case sint
    show ?thesis unfolding PB_ENCODERS_def sint using v sint int_values [of m field a bs] by (simp add: defs)
  next
    case f32
    then show ?thesis unfolding PB_ENCODERS_def f32 using v f32 exact_fixed32 [of m a bs] by (simp add: defs)
  next
    case f64
    then show ?thesis unfolding PB_ENCODERS_def f64 using v f64 exact_fixed64 [of m a bs] by (simp add: defs)
  next
    case bytes
    show ?thesis
    proof (cases "a = 0")
      case True
      then have "bs = delimited []" using v bytes by (simp add: defs)
      then show ?thesis unfolding PB_ENCODERS_def bytes pb_enc_bytes_def using True empty_value by simp
    next
      case False
      then obtain sz b where b: "load32 m a = Some sz" "\<not> (PB_ATYPE (type field) = 0 \<and> ucast sz > ucast (data_size field) - (4 :: u64))"
        "load m (a + 4) (unat sz) = Some b" "bs = delimited b"
        using v bytes by (auto simp: defs split: option.splits if_splits)
      show ?thesis unfolding PB_ENCODERS_def bytes b(4) using bytes_value [OF False b(1,2,3)] by simp
    qed
  next
    case string
    show ?thesis
    proof (cases "a = 0")
      case True
      then have "bs = delimited []" using v string by (simp add: defs)
      then show ?thesis unfolding PB_ENCODERS_def string using True empty_string by simp
    next
      case False
      then obtain sz b where b: "string_size m (if PB_ATYPE (type field) = 0x80 then - 1 else ucast (data_size field)) 0 a = Some sz"
        "load m a (unat sz) = Some b" "bs = delimited b"
        using v string by (auto simp: defs split: option.splits)
      show ?thesis unfolding PB_ENCODERS_def string b(3) using string_value [OF False b(1,2)] by simp
    qed
  next
    case msg
    then obtain descrs rs where d: "ptr field \<noteq> 0" "table env (ptr field) = Some descrs" "sub descrs a = Some rs"
      "bs = delimited (records_bytes rs)"
      using v by (auto simp: defs split: option.splits if_splits)
    have l: "length (records_bytes rs) < 2 ^ 64" using len by (simp add: d delimited_def)
    have "exact (mget (table env (ptr field)) (\<lambda>descrs. encode_submessage (encode descrs a))) bs"
      unfolding d(4) by (intro exact_get [OF d(2)] exact_submessage [OF sub [OF d(3) l] l])
    then show ?thesis unfolding PB_ENCODERS_def msg pb_enc_submessage_def using d(1) by simp
  next
    case fixed
    then obtain b where "load m a (unat (data_size field)) = Some b" "bs = delimited b" using v by (auto simp: defs)
    then have "exact (pb_enc_fixed_length_bytes m field a) bs"
      unfolding pb_enc_fixed_length_bytes_def by (auto intro: exact_string)
    then show ?thesis unfolding PB_ENCODERS_def fixed by simp
  qed
qed

lemma array_exact:
  assumes r: "array_records m (value_wire (table env) m sub field) field (unat count) a = Some rs"
    and len: "length (records_bytes rs) < 2 ^ 64"
  shows "exact (encode_array m field a count (PB_ENCODERS env m encode (PB_LTYPE (type field)) field)) (records_bytes rs)"
proof (cases "count = 0")
  case True
  then have "rs = []" using r by (simp add: array_records_def)
  with True show ?thesis by (simp add: encode_array_def exact_ret)
next
  case False
  let ?func = "PB_ENCODERS env m encode (PB_LTYPE (type field)) field"
  let ?val = "value_wire (table env) m sub field"
  let ?es = "entries field (unat count) a"
  let ?deref = "PB_ATYPE (type field) = 0x80 \<and> (PB_LTYPE (type field) = 0x07 \<or> PB_LTYPE (type field) = 0x06)"
  have n: "unat count \<noteq> 0" using False by (simp add: unsigned_eq_0_iff)
  have fits: "\<not> (PB_ATYPE (type field) \<noteq> 0x80 \<and> count > ucast (array_size field))"
    using r n by (auto simp: array_records_def word_less_nat_alt split: if_splits)
  show ?thesis
  proof (cases "packable field")
    case True
    then obtain bss where bss: "list_all2 (\<lambda>p bs. ?val p = Some bs) ?es bss"
      "rs = [(tag field, PB_WT_STRING, delimited (concat bss))]"
      using r n by (auto simp: array_records_def sequence_map split: if_splits)
    have l: "length (concat bss) < 2 ^ 64" using len by (simp add: bss(2) record_bytes_def delimited_def)
    have each: "length bs \<le> length (concat bss)" if "bs \<in> set bss" for bs
      using that by (simp add: length_concat member_le_sum_list)
    have "list_all2 (\<lambda>p bs. exact (?func p) bs) ?es bss"
    proof (rule list.rel_mono_strong [OF bss(1)])
      fix p bs assume "bs \<in> set bss" "?val p = Some bs"
      then show "exact (?func p) bs" using each [of bs] l by (intro value_exact) simp_all
    qed
    note items = exact_items [OF this]
    have fixed: "length (concat bss) = k * unat count" if "\<And>p bs. ?val p = Some bs \<Longrightarrow> length bs = k" for k
      using list_all2_concat_length [OF bss(1) that] by (simp add: entries_def)
    have f32: "length (concat bss) = 4 * unat count" if "PB_LTYPE (type field) = 4"
      by (rule fixed) (simp add: value_wire_def that load_length)
    have f64: "length (concat bss) = 8 * unat count" if "PB_LTYPE (type field) = 5"
      by (rule fixed) (simp add: value_wire_def that load_length)
    show ?thesis
      unfolding encode_array_def if_not_P [OF False] if_not_P [OF fits] if_P [OF True]
      using exact_packed [OF True items f32 f64 l] by (simp add: bss(2))
  next
    case unpacked: False
    let ?item = "\<lambda>p. if ?deref then mget (load64 m p) ?func else ?func p"
    let ?v = "\<lambda>p. if ?deref then (case load64 m p of None \<Rightarrow> None | Some q \<Rightarrow> ?val q) else ?val p"
    have rs: "list_all2 (\<lambda>p r. one_record field (?v p) = Some r) ?es rs"
      using r n fits unpacked by (auto simp: array_records_def sequence_map word_less_nat_alt split: if_splits)
    have "list_all2 (\<lambda>p r. exact (mthen (lift (pb_encode_tag_for_field field)) (\<lambda>_. ?item p)) (record_bytes r)) ?es rs"
    proof (rule list.rel_mono_strong [OF rs])
      fix p r assume "r \<in> set rs" and one: "one_record field (?v p) = Some r"
      then have l: "length (record_bytes r) < 2 ^ 64"
        using len member_le_sum_list [of "length (record_bytes r)" "map (\<lambda>r. length (record_bytes r)) rs"]
        by (simp add: records_bytes_def length_concat comp_def)
      show "exact (mthen (lift (pb_encode_tag_for_field field)) (\<lambda>_. ?item p)) (record_bytes r)"
      proof (rule exact_record [OF one])
        fix bs assume v: "?v p = Some bs" and "length bs \<le> length (record_bytes r)"
        then have "length bs < 2 ^ 64" using l by simp
        then show "exact (?item p) bs"
          using v by (cases ?deref) (auto split: option.splits intro!: exact_get value_exact)
      qed
    qed
    then have "list_all2 (\<lambda>p bs. exact (mthen (lift (pb_encode_tag_for_field field)) (\<lambda>_. ?item p)) bs) ?es (map record_bytes rs)"
      by (simp add: list.rel_map)
    from exact_items [OF this] show ?thesis
      unfolding encode_array_def if_not_P [OF False] if_not_P [OF fits] if_not_P [OF unpacked] records_bytes_def .
  qed
qed

lemma basic_exact:
  assumes r: "basic_records (table env) depth m sub field a = Some rs"
    and len: "length (records_bytes rs) < 2 ^ 64"
  shows "exact (encode_basic_field env depth m encode field a) (records_bytes rs)"
proof -
  let ?func = "PB_ENCODERS env m encode (PB_LTYPE (type field)) field"
  let ?val = "value_wire (table env) m sub field"
  let ?pointer = "PB_ATYPE (type field) = 0x80"
  let ?h = "PB_HTYPE (type field)"
  let ?has = "if size_offset field \<noteq> 0 then Some (Member (a + scast (size_offset field)))
            else if ?h = 0x10 then
              map_option (\<lambda>b. Implicit (\<not> b)) (pb_check_proto3_default_value depth (table env) m field a)
            else Some (Implicit True)"
  let ?present = "\<lambda>data. mthen (lift (pb_encode_tag_for_field field)) (\<lambda>_. ?func data)"
  obtain data where data: "(if ?pointer then load64 m a else Some a) = Some data"
    using r by (auto simp: basic_records_def Let_def split: option.splits)
  have present: "exact (?present data) (records_bytes rs)"
    if one: "map_option (\<lambda>r. [r]) (one_record field (?val data)) = Some rs"
  proof -
    obtain x where x: "one_record field (?val data) = Some x" "rs = [x]"
      using one by auto
    have "exact (?present data) (record_bytes x)"
      using x len by (intro exact_record [OF x(1)] value_exact) auto
    then show ?thesis by (simp add: x)
  qed
  have body: "basic_records (table env) depth m sub field a =
      (if ?h = 0x00 then if data = 0 then None else map_option (\<lambda>r. [r]) (one_record field (?val data))
       else if ?h = 0x10 then
         (case (if size_offset field \<noteq> 0 then safe_read_bool m (a + scast (size_offset field))
                else
                  (case pb_check_proto3_default_value depth (table env) m field a of
                     None \<Rightarrow> None | Some d \<Rightarrow> Some (if ?pointer then data \<noteq> 0 else \<not> d))) of
            None \<Rightarrow> None
          | Some b \<Rightarrow> if b then map_option (\<lambda>r. [r]) (one_record field (?val data)) else Some [])
       else if ?h = 0x20 then
         (case (if size_offset field \<noteq> 0 then load32 m (a + scast (size_offset field)) else Some (array_size field)) of
            None \<Rightarrow> None
          | Some n \<Rightarrow> array_records m ?val field (unat n) data)
       else if size_offset field = 0 then None
       else (case load32 m (a + scast (size_offset field)) of None \<Rightarrow> None
             | Some which \<Rightarrow> if which = tag field then map_option (\<lambda>r. [r]) (one_record field (?val data)) else Some []))"
    by (simp only: basic_records_def Let_def data option.case)
  have start: "exact (encode_basic_field env depth m encode field a) (records_bytes rs)"
    if "?has = Some h" and "exact (let has = (if ?pointer then (case h of Member p \<Rightarrow> Member p | Implicit _ \<Rightarrow> Implicit (data \<noteq> 0)) else h) in
      if ?h = 0x00 then
        if data = 0 then lift (PB_RETURN_ERROR ''missing required field'') else ?present data
      else if ?h = 0x10 then mget (read_has m has) (\<lambda>present. if present then ?present data else lift (ret ()))
      else if ?h = 0x20 then
        mget (if size_offset field \<noteq> 0 then read_size m has else Some (array_size field)) (\<lambda>count.
          encode_array m field data (ucast count) ?func)
      else mget (read_size m has) (\<lambda>which. if which = tag field then ?present data else lift (ret ()))) (records_bytes rs)" for h
    unfolding encode_basic_field_def Let_def
    by (intro exact_get [OF that(1)] exact_get [OF data]) (rule that(2) [unfolded Let_def])
  consider (required) "?h = 0" | (optional) "?h = 0x10" | (repeated) "?h = 0x20" | (oneof) "?h \<noteq> 0" "?h \<noteq> 0x10" "?h \<noteq> 0x20"
    by auto
  then show ?thesis
  proof cases
    case required
    then obtain h where h: "?has = Some h" by (cases "size_offset field = 0") auto
    show ?thesis
      using r required present by (intro start [OF h]) (simp add: body split: if_splits)
  next
    case optional
    show ?thesis
    proof (cases "size_offset field = 0")
      case True
      then obtain d where d: "pb_check_proto3_default_value depth (table env) m field a = Some d"
        using r optional by (auto simp: body split: option.splits)
      have h: "?has = Some (Implicit (\<not> d))" using True optional d by simp
      show ?thesis
        using r optional present True d
        by (intro start [OF h]) (auto simp: body mget_def split: if_splits intro!: exact_get exact_ret)
    next
      case False
      then have h: "?has = Some (Member (a + scast (size_offset field)))" by simp
      show ?thesis
        using r optional present False
        by (intro start [OF h]) (auto simp: body split: if_splits option.splits intro!: exact_get exact_ret)
    qed
  next
    case repeated
    show ?thesis
    proof (cases "size_offset field = 0")
      case True
      then have h: "?has = Some (Implicit True)" using repeated by simp
      have "exact (encode_array m field data (ucast (array_size field)) ?func) (records_bytes rs)"
        using r repeated True len by (intro array_exact) (simp_all add: body)
      then show ?thesis using repeated True by (intro start [OF h]) (auto intro!: exact_get)
    next
      case False
      then have h: "?has = Some (Member (a + scast (size_offset field)))" by simp
      obtain n where n: "load32 m (a + scast (size_offset field)) = Some n" using r repeated False by (auto simp: body split: option.splits)
      have "exact (encode_array m field data (ucast n) ?func) (records_bytes rs)"
        using r repeated False len n by (intro array_exact) (simp_all add: body)
      then show ?thesis using repeated False n by (intro start [OF h]) (auto intro!: exact_get)
    qed
  next
    case oneof
    then have "size_offset field \<noteq> 0" using r by (auto simp: body)
    then have h: "?has = Some (Member (a + scast (size_offset field)))" by simp
    show ?thesis
      using r oneof present \<open>size_offset field \<noteq> 0\<close>
      by (intro start [OF h]) (auto simp: body split: if_splits option.splits intro!: exact_get exact_ret)
  qed
qed

lemma plain_exact:
  assumes env: "describes w env" and r: "plain_records w depth m sub field a = Some rs"
    and len: "length (records_bytes rs) < 2 ^ 64"
  shows "exact (encode_field env depth m encode field a) (records_bytes rs)"
proof (cases "PB_ATYPE (type field) = 0x40")
  case True
  then obtain p where p: "load64 m a = Some p" "if p = 0 then rs = [] else callback_records w p field (a + 8) = Some rs"
    using r by (auto simp: plain_records_def split: option.splits if_splits)
  have "exact (\<lambda>stream. if p \<noteq> 0 then
        (case enc_callback env p field (a + 8) stream of
            (None, stream) \<Rightarrow> lift (PB_RETURN_ERROR ''callback error'') stream
          | (Some _, stream) \<Rightarrow> Some (Some (), stream))
       else Some (Some (), stream)) (records_bytes rs)"
  proof (cases "p = 0")
    case True
    then show ?thesis using True p(2) by (simp add: exact_done)
  next
    case False
    then have "exact (lift (enc_callback env p field (a + 8))) (records_bytes rs)"
      using env p(2) by (simp add: describes_def)
    from exact_error [OF this] False show ?thesis by simp
  qed
  then show ?thesis using True p(1) by (auto simp: encode_field_def encode_callback_field_def intro: exact_get)
next
  case False
  then have "PB_ATYPE (type field) = 0 \<or> PB_ATYPE (type field) = 0x80" "basic_records (table env) depth m sub field a = Some rs"
    using r PB_ATYPE_cases [of "type field"] env by (auto simp: plain_records_def describes_def split: if_splits)
  with basic_exact [OF this(2) len] show ?thesis by (auto simp: encode_field_def Let_def)
qed

lemma default_extension_exact:
  assumes env: "describes w env" and t: "load64 m x = Some t"
    and r: "default_extension_records w depth m sub t x = Some rs" and len: "length (records_bytes rs) < 2 ^ 64"
  shows "exact (default_extension_encoder env depth m encode x) (records_bytes rs)"
proof -
  obtain arg field fs dest where e: "load64 m (t + 16) = Some arg" "table env arg = Some (field # fs)"
    "(if PB_ATYPE (type field) = 0x80 then Some (x + 8) else load64 m (x + 8)) = Some dest"
    "plain_records w depth m sub field dest = Some rs"
    using r env by (auto simp: default_extension_records_def describes_def split: option.splits list.splits)
  have "exact (if field # fs = [] then (\<lambda>_. None)
       else if PB_ATYPE (type (hd (field # fs))) = 0x80 then encode_field env depth m encode (hd (field # fs)) (x + 8)
       else mget (load64 m (x + 8)) (\<lambda>dest. encode_field env depth m encode (hd (field # fs)) dest)) (records_bytes rs)"
    using e(3) plain_exact [OF env e(4) len] by (auto intro: exact_get split: if_splits)
  then show ?thesis
    unfolding default_extension_encoder_def by (intro exact_get [OF t] exact_get [OF e(1)] exact_get [OF e(2)])
qed

lemma extensions_exact:
  assumes env: "describes w env"
  shows "chain_records k w depth m sub x = Some rs \<Longrightarrow> length (records_bytes rs) < 2 ^ 64 \<Longrightarrow>
    exact (encode_extensions k env depth m encode x) (records_bytes rs)"
proof (induction k arbitrary: x rs)
  case 0
  then show ?case by (auto simp: exact_ret split: if_splits)
next
  case (Suc k)
  show ?case
  proof (cases "x = 0")
    case True
    then show ?thesis using Suc.prems by (simp add: exact_ret)
  next
    case False
    then obtain t fn rs1 y rs2 where e: "load64 m x = Some t" "load64 m (t + 8) = Some fn"
      "(if fn \<noteq> 0 then extension_records w fn x else default_extension_records w depth m sub t x) = Some rs1"
      "load64 m (x + 16) = Some y" "chain_records k w depth m sub y = Some rs2" "rs = rs1 @ rs2"
      using Suc.prems(1) by (auto split: option.splits)
    have l: "length (records_bytes rs1) < 2 ^ 64" "length (records_bytes rs2) < 2 ^ 64" using Suc.prems(2) e(6) by simp_all
    have first: "exact (if fn \<noteq> 0 then lift (enc_extension env fn x) else default_extension_encoder env depth m encode x) (records_bytes rs1)"
      using e(3) env default_extension_exact [OF env e(1) _ l(1)] by (auto simp: describes_def split: if_splits)
    have rest: "exact (mget (load64 m (x + 16)) (\<lambda>next. encode_extensions k env depth m encode next)) (records_bytes rs2)"
      by (rule exact_get [OF e(4)] Suc.IH [OF e(5) l(2)])+
    show ?thesis
      unfolding encode_extensions.simps if_not_P [OF False] e(6) records_bytes_simps
      by (intro exact_get [OF e(1)] exact_get [OF e(2)] exact_then [OF first rest])
  qed
qed

lemma field_exact:
  assumes env: "describes w env" and r: "field_records w depth m sub field a = Some rs"
    and len: "length (records_bytes rs) < 2 ^ 64"
  shows "exact (if PB_LTYPE (type field) = 0x09 then encode_extension_field env depth m encode a
      else encode_field env depth m encode field a) (records_bytes rs)"
proof (cases "PB_LTYPE (type field) = 9")
  case True
  then obtain x where "load64 m a = Some x" "chain_records depth w depth m sub x = Some rs"
    using r by (auto simp: field_records_def split: option.splits)
  with True extensions_exact [OF env _ len] show ?thesis by (auto simp: encode_extension_field_def intro: exact_get)
next
  case False
  with r plain_exact [OF env _ len] show ?thesis by (simp add: field_records_def)
qed

end

section \<open>The loop over the fields\<close>

lemma for_fields_exact:
  assumes m: "message ds n" and d: "dest \<noteq> 0" and "iter_ok ds n dest iter" and "n - pos iter \<le> k" and "pos iter < n"
    and "\<And>i. pos iter \<le> i \<Longrightarrow> i < n \<Longrightarrow> exact (body (ds ! i) (dest + data_at ds i)) (bss ! i)" and "length bss = n"
  shows "exact (for_fields k body iter) (concat (drop (pos iter) bss))"
  using assms(3-)
proof (induction k arbitrary: iter)
  case 0
  then show ?case by simp
next
  case (Suc k)
  let ?i = "pos iter"
  have at: "the_field iter = ds ! ?i" "pData iter = dest + data_at ds ?i" "start iter = ds"
    using Suc.prems(1) by (simp_all add: iter_ok_def the_field_def)
  obtain again iter' where nx: "pb_field_iter_next iter = (again, iter')" by fastforce
  have inside: "\<not> ?i + 1 \<ge> length ds" using Suc.prems(3) m by (simp add: message_def)
  have drop: "drop ?i bss = bss ! ?i # drop (Suc ?i) bss" using Suc.prems(3,5) by (simp add: Cons_nth_drop_Suc)
  have rest: "exact (if again then for_fields k body iter' else lift (ret ())) (concat (drop (Suc ?i) bss))"
  proof (cases "Suc ?i < n")
    case True
    then have n: "again" "pos iter' = Suc ?i" "iter_ok ds n dest iter'"
      using iter_next_ok [OF m d Suc.prems(1)] by (simp_all add: nx)
    have "exact (for_fields k body iter') (concat (drop (pos iter') bss))"
      by (rule Suc.IH [OF n(3)]) (use Suc.prems n True in auto)
    then show ?thesis by (simp add: n)
  next
    case False
    then have "\<not> again" using iter_next_ok [OF m d Suc.prems(1)] by (simp add: nx)
    then show ?thesis using False Suc.prems(5) by (simp add: exact_ret)
  qed
  have "exact (mthen (body (ds ! ?i) (dest + data_at ds ?i))
      (\<lambda>_. if again then for_fields k body iter' else lift (ret ()))) (bss ! ?i @ concat (drop (Suc ?i) bss))"
    using Suc.prems(3,4) rest by (intro exact_then) simp_all
  then show ?case by (simp only: for_fields.simps at nx prod.case if_not_P [OF inside] drop concat.simps)
qed

lemma field_count_message: "field_count ds < length ds \<Longrightarrow> message ds (field_count ds)"
proof -
  assume less: "field_count ds < length ds"
  have "tag (ds ! i) \<noteq> 0" if "i < field_count ds" for i
    using that nth_mem [of i "takeWhile (\<lambda>f. tag f \<noteq> 0) ds"] set_takeWhileD [of "ds ! i"]
    by (auto simp: field_count_def takeWhile_nth)
  then show ?thesis
    using less nth_length_takeWhile [of "\<lambda>f. tag f \<noteq> 0" ds] by (simp add: message_def field_count_def)
qed

section \<open>The encoder of messages\<close>

lemma pb_encode_exact:
  assumes env: "describes w env"
  shows "message_records depth w m ds a = Some rs \<Longrightarrow> length (records_bytes rs) < 2 ^ 64 \<Longrightarrow>
    exact (pb_encode depth env m ds a) (records_bytes rs)"
proof (induction depth arbitrary: ds a rs)
  case (Suc depth)
  have sub: "sub_encoder (pb_encode depth env m) (message_records depth w m)"
    by unfold_locales (rule Suc.IH)
  let ?n = "field_count ds"
  let ?body = "\<lambda>field p_data. if PB_LTYPE (type field) = 0x09 then encode_extension_field env depth m (pb_encode depth env m) p_data
                  else encode_field env depth m (pb_encode depth env m) field p_data"
  have "?n \<le> length ds" by (simp add: field_count_def length_takeWhile_le)
  with Suc.prems(1) have a: "a \<noteq> 0" and less: "?n < length ds" by (auto split: if_splits)
  note msg = field_count_message [OF less]
  obtain rss where rss: "rs = concat rss" "list_all2 (\<lambda>i fs. field_records w depth m (message_records depth w m)
      (ds ! i) (a + data_at ds i) = Some fs) [0..<?n] rss"
    using Suc.prems(1) a less by (auto simp: sequence_map)
  let ?bss = "map records_bytes rss"
  have len: "length rss = ?n" using list_all2_lengthD [OF rss(2)] by simp
  have bytes: "records_bytes rs = concat ?bss" by (simp add: rss(1) records_bytes_concat)
  have fields: "exact (?body (ds ! i) (a + data_at ds i)) (?bss ! i)" if "i < ?n" for i
  proof -
    have "field_records w depth m (message_records depth w m) (ds ! i) (a + data_at ds i) = Some (rss ! i)"
      using list_all2_nthD [OF rss(2), of i] that len by simp
    moreover have "length (records_bytes (rss ! i)) < 2 ^ 64"
    proof -
      have "length (records_bytes (rss ! i)) \<in> set (map length ?bss)" using that len by (auto simp: comp_def)
      then have "length (records_bytes (rss ! i)) \<le> sum_list (map length ?bss)" by (rule member_le_sum_list) simp
      then show ?thesis using Suc.prems(2) by (simp only: bytes length_concat)
    qed
    ultimately show ?thesis using sub_encoder.field_exact [OF sub env] that len by simp
  qed
  obtain nonempty iter where first: "pb_field_iter_begin ds a = (nonempty, iter)" by fastforce
  have start: "iter_ok ds ?n a iter" "nonempty \<longleftrightarrow> ?n \<noteq> 0" "pos iter = 0"
    using iter_begin_ok [OF msg a] first by (auto simp: pb_field_iter_begin_def Let_def)
  have "exact (if \<not> nonempty then lift (ret ()) else for_fields (length ds) ?body iter) (concat ?bss)"
  proof (cases "?n = 0")
    case True
    then show ?thesis using start len by (simp add: exact_ret)
  next
    case False
    have "exact (for_fields (length ds) ?body iter) (concat (drop (pos iter) ?bss))"
      by (rule for_fields_exact [OF msg a start(1)]) (use False less start(3) len fields in auto)
    then show ?thesis using start False by simp
  qed
  moreover have "ds \<noteq> []" using less by auto
  ultimately show ?case by (simp only: pb_encode.simps first prod.case if_False bytes)
qed simp

section \<open>Properties\<close>

text \<open>A required 32-bit number and a required submessage with an array of two flags, of which one is used.\<close>

definition outer_fields :: "pb_field list" where
  "outer_fields =
    [\<lparr>tag = 1, type = 0x02, data_offset = 0, size_offset = 0, data_size = 4, array_size = 0, ptr = 0\<rparr>,
     \<lparr>tag = 2, type = 0x08, data_offset = 0, size_offset = 0, data_size = 6, array_size = 0, ptr = 77\<rparr>,
     \<lparr>tag = 0, type = 0, data_offset = 0, size_offset = 0, data_size = 0, array_size = 0, ptr = 0\<rparr>]"

definition inner_fields :: "pb_field list" where
  "inner_fields =
    [\<lparr>tag = 3, type = 0x20, data_offset = 4, size_offset = - 4, data_size = 1, array_size = 2, ptr = 0\<rparr>,
     \<lparr>tag = 0, type = 0, data_offset = 0, size_offset = 0, data_size = 0, array_size = 0, ptr = 0\<rparr>]"

primrec bytes_at :: "u64 \<Rightarrow> byte list \<Rightarrow> memory" where
  "bytes_at a [] = Map.empty"
| "bytes_at a (b # bs) = (bytes_at (a + 1) bs)(a \<mapsto> b)"

lemma load_numeral:
  "load m a (numeral k) = (case m a of None \<Rightarrow> None | Some b \<Rightarrow>
     (case load m (a + 1) (pred_numeral k) of None \<Rightarrow> None | Some bs \<Rightarrow> Some (b # bs)))"
  by (simp add: numeral_eq_Suc)

definition quiet_env :: "wire_env" where
  "quiet_env = \<lparr>tables = (\<lambda>p. if p = 77 then Some inner_fields else None), callback_records = (\<lambda>_ _ _. None), extension_records = (\<lambda>_ _. None)\<rparr>"

definition quiet_enc_env :: "unit enc_env" where
  "quiet_enc_env = \<lparr>table = tables quiet_env, enc_callback = (\<lambda>_ _ _. fail), enc_extension = (\<lambda>_ _. fail)\<rparr>"

lemma quiet_describes: "describes quiet_env quiet_enc_env"
  by (simp add: describes_def quiet_enc_env_def quiet_env_def)

lemmas record_simps = field_count_def field_records_def plain_records_def basic_records_def array_records_def
  one_record_def value_wire_def int_wire_def int_width_def load_int_def packable_def entries_def wire_type_of_def
  safe_read_bool_def load32_def delimited_def PB_LTYPE_def PB_ATYPE_def PB_HTYPE_def same_union_def member_size_def
  wire_types

lemma quiet_tables: "tables quiet_env 77 = Some inner_fields"
  by (simp add: quiet_env_def)

definition sample_memory :: memory where
  "sample_memory = bytes_at 1000 [44, 1, 0, 0, 1, 0, 0, 0, 1, 9]"

lemma sample_loads:
  "load sample_memory 1000 4 = Some [44, 1, 0, 0]" "load sample_memory 1004 4 = Some [1, 0, 0, 0]"
  "sample_memory 1008 = Some 1"
  by (simp_all add: sample_memory_def load_numeral)

lemma inner_records: "message_records (Suc 0) quiet_env sample_memory inner_fields 1004 = Some [(3, 2, [1, 1])]"
  by (simp add: record_simps sample_loads inner_fields_def varint.simps)

lemma inner_bytes: "delimited (records_bytes [(3, 2, [1, 1])]) = [3, 0x1a, 1, 1]"
  by (simp add: delimited_def record_bytes_def varint.simps)

lemma outer_records: "message_records 2 quiet_env sample_memory outer_fields 1000 = Some [(1, 0, [0xac, 2]), (2, 2, [3, 0x1a, 1, 1])]"
proof -
  note d = record_simps(1-13)
  have "field_records quiet_env (Suc 0) sample_memory (message_records (Suc 0) quiet_env sample_memory)
      (outer_fields ! 0) (1000 + data_at outer_fields 0) = Some [(1, 0, [0xac, 2])]"
    by (simp add: record_simps sample_loads outer_fields_def varint.simps del: message_records.simps)
  moreover have "field_records quiet_env (Suc 0) sample_memory (message_records (Suc 0) quiet_env sample_memory)
      (outer_fields ! 1) (1000 + data_at outer_fields 1) = Some [(2, 2, [3, 0x1a, 1, 1])]"
    using inner_records inner_bytes
    by (simp add: record_simps(1-9,11,12,13) record_simps(15-) sample_loads outer_fields_def quiet_tables del: message_records.simps)
  moreover have "field_count outer_fields = 2" "length outer_fields = 3" by (simp_all add: field_count_def outer_fields_def)
  moreover have "[0..<2] = [0, Suc 0]" by (simp add: upt_rec)
  ultimately have "message_records (Suc (Suc 0)) quiet_env sample_memory outer_fields 1000 =
      Some [(1, 0, [0xac, 2]), (2, 2, [3, 0x1a, 1, 1])]"
    unfolding message_records.simps(2) [of "Suc 0"] by (simp del: message_records.simps data_at.simps)
  then show ?thesis by (simp only: numeral_2_eq_2)
qed

text \<open>
  An environment that is not described by \<open>w\<close> has no records, so the contract holds for every
  environment.
\<close>

definition described_records ::
  "wire_env \<Rightarrow> 's enc_env \<Rightarrow> nat \<Rightarrow> memory \<Rightarrow> pb_field list \<Rightarrow> u64 \<Rightarrow> wire_record list option" where
  "described_records w env depth m descrs a = (if describes w env then message_records depth w m descrs a else None)"

interpretation message_encoder: sub_encoder "pb_encode depth env m" "described_records w env depth m"
  by unfold_locales (auto simp: described_records_def split: if_splits intro: pb_encode_exact)

text \<open>C1 (pb_encode_wire): \<open>pb_encode\<close> writes exactly the records that the structure in memory stands for: its fields in the
  order of the descriptors, optional ones if they are present, the alternative of a union that is
  set, arrays packed or entry by entry, submessages with their length, and what callbacks and
  extensions add. A sizing stream finds the number of bytes, a buffer with room for them gets
  them, a smaller one is an error, and no byte is written behind its end. The call is defined:
  nothing outside the objects is read.\<close>

theorem pb_encode_wire:
  fixes env :: "'s enc_env"
  assumes "describes w env" and "message_records depth w m descrs src_struct = Some rs"
    and room: "unat n + length (records_bytes rs) < 2 ^ 64"
  shows "\<exists>size_stream result stream.
      pb_encode depth env m descrs src_struct PB_OSTREAM_SIZING = Some (Some (), size_stream)
    \<and> bytes_written size_stream = word_of_nat (length (records_bytes rs))
    \<and> pb_encode depth env m descrs src_struct (pb_ostream_from_buffer n) = Some (result, stream)
    \<and> in_bounds 0 stream
    \<and> (if length (records_bytes rs) \<le> unat n
       then result = Some () \<and> sink stream = Buffer (records_bytes rs) \<and> unat (bytes_written stream) = length (records_bytes rs)
       else result = None)"
proof -
  let ?b = "records_bytes rs"
  have len: "length ?b < 2 ^ 64" using room by linarith
  obtain enc where enc: "pb_encode depth env m descrs src_struct = lift enc" "encoder enc ?b" "keeps enc (length ?b)"
    using message_encoder.sub [of w env depth m descrs src_struct rs] assms(1,2) len
    by (auto simp: exact_def described_records_def)
  let ?s = "pb_ostream_from_buffer n :: 's pb_ostream"
  obtain result stream where run: "enc ?s = (result, stream)" by fastforce
  have "in_bounds 0 stream"
    using keepsD(3) [OF enc(3) run] room by (simp add: pb_ostream_from_buffer_def in_bounds_def)
  moreover have "if length ?b \<le> unat n
       then result = Some () \<and> sink stream = Buffer ?b \<and> unat (bytes_written stream) = length ?b else result = None"
    using encoder.into_buffer [OF enc(2), of n] encoder.buffer_too_small [OF enc(2), of n] run room len by auto
  ultimately show ?thesis
    using encoder.sizing [OF enc(2), of PB_OSTREAM_SIZING] run by (simp add: enc(1) lift_def PB_OSTREAM_SIZING_def)
qed

theorem pb_encode_wire_witness:
  "\<exists>stream. pb_encode 2 quiet_enc_env sample_memory outer_fields 1000 (pb_ostream_from_buffer 9) = Some (Some (), stream)
     \<and> sink stream = Buffer [8, 0xac, 2, 0x12, 3, 0x1a, 1, 1]"
  using pb_encode_wire [OF quiet_describes outer_records, of 9] by (auto simp: varint.simps record_bytes_def)

end
