(* ===== verification/PB_Message_Decode.thy ===== *)
theory PB_Message_Decode
  imports PB_Memory PB_Common PB_Decode
begin

unbundle bit_operations_syntax

text \<open>
  The message level of the decoder of nanopb (\<open>pb_decode.c\<close>): \<open>pb_decode\<close> fills a structure in memory
  along the descriptors of its fields, static, with pointers to the heap or with callbacks, and
  the extensions; default values and the release of what was allocated. The result \<open>None\<close> stands
  for behaviour that C does not define. Recursion over submessages is bounded by \<open>depth\<close>.
\<close>

section \<open>The state of the decoder\<close>

text \<open>
  The memory, the blocks on the heap with their sizes, the stream that is read, and the counter
  of the field with a fixed count, a local variable of \<open>pb_decode_noinit\<close> that \<open>pSize\<close> may point to.
\<close>

record 's pb_state =
  mem :: memory
  blocks :: "u64 \<Rightarrow> nat option"
  input :: "'s pb_istream"
  fixed_count_size :: u32

text \<open>
  The descriptor tables and the code outside: the user's callbacks and decoders of extensions, and
  the choices of the allocator, which are the address of a new block, if there is one, and what
  its bytes are before they are written.
\<close>

record 's dec_env =
  descriptors :: "u64 \<Rightarrow> pb_field list option"
  dec_callback :: "u64 \<Rightarrow> pb_field \<Rightarrow> u64 \<Rightarrow> ('s pb_state, unit) mop"
  dec_extension :: "u64 \<Rightarrow> u64 \<Rightarrow> u32 \<Rightarrow> u32 \<Rightarrow> ('s pb_state, unit) mop"
  new_block :: "'s pb_state \<Rightarrow> nat \<Rightarrow> u64 option"
  new_byte :: "'s pb_state \<Rightarrow> u64 \<Rightarrow> byte"

definition on_stream :: "('s pb_istream, 'a) op \<Rightarrow> ('s pb_state, 'a) mop" where
  "on_stream f s = (case f (input s) of (r, stream) \<Rightarrow> Some (r, s\<lparr>input := stream\<rparr>))"

definition mread :: "(memory \<Rightarrow> 'v option) \<Rightarrow> ('v \<Rightarrow> ('s pb_state, 'a) mop) \<Rightarrow> ('s pb_state, 'a) mop" where
  "mread f g s = (case f (mem s) of None \<Rightarrow> None | Some v \<Rightarrow> g v s)"

primrec store :: "memory \<Rightarrow> u64 \<Rightarrow> byte list \<Rightarrow> memory option" where
  "store m a [] = Some m"
| "store m a (b # bs) = (if m a = None then None else store (m(a \<mapsto> b)) (a + 1) bs)"

definition mwrite :: "u64 \<Rightarrow> byte list \<Rightarrow> ('s pb_state, unit) mop" where
  "mwrite a bs s = map_option (\<lambda>m. (Some (), s\<lparr>mem := m\<rparr>)) (store (mem s) a bs)"

definition pb_error :: "string \<Rightarrow> ('s pb_state, 'a) mop" where
  "pb_error msg = on_stream (PB_IN_ERROR msg)"

text \<open>\<open>pb_read\<close> into memory. A callback that fails leaves the buffer as it was.\<close>

definition pb_read_mem :: "u64 \<Rightarrow> u64 \<Rightarrow> ('s pb_state, unit) mop" where
  "pb_read_mem buf count =
     (if buf = 0 then on_stream (pb_read_null count)
      else mthen (on_stream (pb_read_buf count)) (\<lambda>bs. mwrite buf bs))"

section \<open>The heap\<close>

primrec unmap :: "memory \<Rightarrow> u64 \<Rightarrow> nat \<Rightarrow> memory" where
  "unmap m a 0 = m"
| "unmap m a (Suc n) = unmap (m(a := None)) (a + 1) n"

primrec map_bytes :: "memory \<Rightarrow> u64 \<Rightarrow> byte list \<Rightarrow> memory" where
  "map_bytes m a [] = m"
| "map_bytes m a (b # bs) = map_bytes (m(a \<mapsto> b)) (a + 1) bs"

definition pb_free :: "u64 \<Rightarrow> ('s pb_state, unit) mop" where
  "pb_free p s =
     (if p = 0 then Some (Some (), s)
      else
        (case blocks s p of
           None \<Rightarrow> None
         | Some n \<Rightarrow> Some (Some (), s\<lparr>blocks := (blocks s)(p := None), mem := unmap (mem s) p n\<rparr>)))"

text \<open>\<open>realloc\<close> for a size that is not 0: the address of the new block, 0 if there is none.\<close>

definition pb_realloc :: "'s dec_env \<Rightarrow> u64 \<Rightarrow> u64 \<Rightarrow> ('s pb_state, u64) mop" where
  "pb_realloc env p sz s =
     (if p \<noteq> 0 \<and> blocks s p = None then None
      else
        let old = (if p = 0 then 0 else the (blocks s p)) in
        (case new_block env s (unat sz) of
           None \<Rightarrow> Some (Some 0, s)
         | Some q \<Rightarrow>
             (case load (mem s) p (min old (unat sz)) of
                None \<Rightarrow> None
              | Some bs \<Rightarrow>
                  let content = bs @ map (\<lambda>i. new_byte env s (q + word_of_nat i)) [old..<unat sz] in
                  Some (Some q, s\<lparr>blocks := (blocks s)(p := None, q := Some (unat sz)),
                                  mem := map_bytes (unmap (mem s) p old) q content\<rparr>))))"

definition allocate_field_mem :: "'s dec_env \<Rightarrow> u64 \<Rightarrow> u64 \<Rightarrow> u64 \<Rightarrow> ('s pb_state, unit) mop" where
  "allocate_field_mem env p_data item_size count =
     mread (\<lambda>m. load64 m p_data) (\<lambda>p.
       if item_size = 0 \<or> count = 0 then pb_error ''invalid size''
       else
         let check_limit = push_bit 32 1 in
         if (item_size \<ge> check_limit \<or> count \<ge> check_limit) \<and> (- 1) div count < item_size then
           pb_error ''size too large''
         else
           mthen (pb_realloc env p (count * item_size)) (\<lambda>q.
             if q = 0 then pb_error ''realloc failed'' else mwrite p_data (le_bytes 8 (unat q))))"

section \<open>Single values\<close>

definition dec_bool :: "u64 \<Rightarrow> ('s pb_state, unit) mop" where
  "dec_bool dest = mthen (on_stream pb_decode_varint32) (\<lambda>value. mwrite dest [if value \<noteq> 0 then 1 else 0])"

text \<open>The value is stored in the width of the field before the check for an overflow.\<close>

definition store_checked :: "pb_field \<Rightarrow> u64 option \<Rightarrow> u64 \<Rightarrow> u64 \<Rightarrow> ('s pb_state, unit) mop" where
  "store_checked field clamped value dest =
     (case clamped of
        None \<Rightarrow> pb_error ''invalid data_size''
      | Some c \<Rightarrow>
          mthen (mwrite dest (le_bytes (unat (data_size field)) (unat c))) (\<lambda>_.
            if c \<noteq> value then pb_error ''integer too large'' else lift (ret ())))"

definition dec_varint :: "pb_field \<Rightarrow> u64 \<Rightarrow> ('s pb_state, unit) mop" where
  "dec_varint field dest =
     mthen (on_stream pb_decode_varint) (\<lambda>value.
       let svalue = (if data_size field = 8 then value else scast (ucast value :: u32))
       in store_checked field (store_signed (data_size field) svalue) svalue dest)"

definition dec_uvarint :: "pb_field \<Rightarrow> u64 \<Rightarrow> ('s pb_state, unit) mop" where
  "dec_uvarint field dest =
     mthen (on_stream pb_decode_varint) (\<lambda>value. store_checked field (store_unsigned (data_size field) value) value dest)"

definition dec_svarint :: "pb_field \<Rightarrow> u64 \<Rightarrow> ('s pb_state, unit) mop" where
  "dec_svarint field dest =
     mthen (on_stream pb_decode_svarint) (\<lambda>value. store_checked field (store_signed (data_size field) value) value dest)"

definition dec_fixed32 :: "u64 \<Rightarrow> ('s pb_state, unit) mop" where
  "dec_fixed32 dest = mthen (on_stream pb_decode_fixed32) (\<lambda>v. mwrite dest (le_bytes 4 (unat v)))"

definition dec_fixed64 :: "u64 \<Rightarrow> ('s pb_state, unit) mop" where
  "dec_fixed64 dest = mthen (on_stream pb_decode_fixed64) (\<lambda>v. mwrite dest (le_bytes 8 (unat v)))"

definition check_left :: "u32 \<Rightarrow> ('s pb_state, unit) mop" where
  "check_left n s = (if bytes_left (input s) < ucast n then pb_error ''end-of-stream'' s else Some (Some (), s))"

definition dec_bytes :: "'s dec_env \<Rightarrow> pb_field \<Rightarrow> u64 \<Rightarrow> ('s pb_state, unit) mop" where
  "dec_bytes env field dest =
     mthen (on_stream pb_decode_varint32) (\<lambda>size.
       let alloc_size = ucast size + 4 in
       if ucast size > alloc_size then pb_error ''size too large''
       else if PB_ATYPE (type field) = 0x80 then
         mthen (check_left size) (\<lambda>_.
         mthen (allocate_field_mem env dest alloc_size 1) (\<lambda>_.
           mread (\<lambda>m. load64 m dest) (\<lambda>bdest.
             mthen (mwrite bdest (le_bytes 4 (unat size))) (\<lambda>_. pb_read_mem (bdest + 4) (ucast size)))))
       else if alloc_size > ucast (data_size field) then pb_error ''bytes overflow''
       else mthen (mwrite dest (le_bytes 4 (unat size))) (\<lambda>_. pb_read_mem (dest + 4) (ucast size)))"

text \<open>The null byte is stored whether the read succeeds or not.\<close>

definition read_string :: "u64 \<Rightarrow> u32 \<Rightarrow> ('s pb_state, unit) mop" where
  "read_string dest n s =
     (case pb_read_mem dest (ucast n) s of
        None \<Rightarrow> None
      | Some (status, s) \<Rightarrow> mthen (mwrite (dest + ucast n) [0]) (\<lambda>_ s. Some (status, s)) s)"

definition dec_string :: "'s dec_env \<Rightarrow> pb_field \<Rightarrow> u64 \<Rightarrow> ('s pb_state, unit) mop" where
  "dec_string env field dest =
     mthen (on_stream pb_decode_varint32) (\<lambda>size.
       let alloc_size = ucast (size + 1) in
       if alloc_size < ucast size then pb_error ''size too large''
       else if PB_ATYPE (type field) = 0x80 then
         mthen (check_left size) (\<lambda>_.
         mthen (allocate_field_mem env dest alloc_size 1) (\<lambda>_.
           mread (\<lambda>m. load64 m dest) (\<lambda>dest. read_string dest size)))
       else if alloc_size > ucast (data_size field) then pb_error ''string overflow''
       else read_string dest size)"

definition dec_fixed_length_bytes :: "pb_field \<Rightarrow> u64 \<Rightarrow> ('s pb_state, unit) mop" where
  "dec_fixed_length_bytes field dest =
     mthen (on_stream pb_decode_varint32) (\<lambda>size.
       if size = 0 then mwrite dest (replicate (unat (data_size field)) 0)
       else if size \<noteq> data_size field then pb_error ''incorrect fixed length bytes size''
       else pb_read_mem dest (ucast (data_size field)))"

section \<open>Submessages\<close>

text \<open>
  The calls of \<open>pb_decode\<close> and \<open>pb_decode_noinit\<close> for the submessages, on descriptors and an address.
\<close>

type_synonym 's sub_decode = "pb_field list \<Rightarrow> u64 \<Rightarrow> ('s pb_state, unit) mop"

text \<open>What runs on the substream, until the end of the substream is skipped and it is closed.\<close>

definition close_substream :: "'s pb_istream \<Rightarrow> unit option \<Rightarrow> ('s pb_state, unit) mop" where
  "close_substream stream status s =
     (case pb_close_string_substream (input s) stream of
        (None, stream) \<Rightarrow> Some (None, s\<lparr>input := stream\<rparr>)
      | (Some _, stream) \<Rightarrow> Some (status, s\<lparr>input := stream\<rparr>))"

definition in_substream :: "('s pb_state, unit) mop \<Rightarrow> ('s pb_state, unit) mop" where
  "in_substream body =
     mthen (on_stream pb_make_string_substream) (\<lambda>substream s.
       (case body (s\<lparr>input := substream\<rparr>) of
          None \<Rightarrow> None
        | Some (status, s') \<Rightarrow> close_substream (input s) status s'))"

definition dec_submessage :: "'s dec_env \<Rightarrow> 's sub_decode \<Rightarrow> 's sub_decode \<Rightarrow> pb_field \<Rightarrow> u64 \<Rightarrow> ('s pb_state, unit) mop" where
  "dec_submessage env decode decode_noinit field dest =
     (if ptr field = 0 then mthen (on_stream pb_make_string_substream) (\<lambda>_. pb_error ''invalid field descriptor'')
      else
        in_substream (\<lambda>s.
          (case descriptors env (ptr field) of
             None \<Rightarrow> None
           | Some descrs \<Rightarrow> (if PB_HTYPE (type field) = 0x20 then decode descrs dest else decode_noinit descrs dest) s)))"

text \<open>The table of the decoders. An extension has none.\<close>

definition PB_DECODERS ::
  "'s dec_env \<Rightarrow> 's sub_decode \<Rightarrow> 's sub_decode \<Rightarrow> pb_field \<Rightarrow> u64 \<Rightarrow> ('s pb_state, unit) mop" where
  "PB_DECODERS env decode decode_noinit field dest =
     (let ltype = PB_LTYPE (type field) in
      if ltype = 0x00 then dec_bool dest
      else if ltype = 0x01 then dec_varint field dest
      else if ltype = 0x02 then dec_uvarint field dest
      else if ltype = 0x03 then dec_svarint field dest
      else if ltype = 0x04 then dec_fixed32 dest
      else if ltype = 0x05 then dec_fixed64 dest
      else if ltype = 0x06 then dec_bytes env field dest
      else if ltype = 0x07 then dec_string env field dest
      else if ltype = 0x08 then dec_submessage env decode decode_noinit field dest
      else if ltype = 0x0a then dec_fixed_length_bytes field dest
      else (\<lambda>_. None))"

section \<open>Iterators and chains\<close>

text \<open>The loop over the fields of a message.\<close>

primrec for_iter :: "nat \<Rightarrow> (pb_field_iter \<Rightarrow> ('s, unit) mop) \<Rightarrow> pb_field_iter \<Rightarrow> ('s, unit) mop" where
  "for_iter 0 body iter = (\<lambda>_. None)"
| "for_iter (Suc k) body iter =
     mthen (body iter) (\<lambda>_.
       if pos iter + 1 \<ge> length (start iter) then (\<lambda>_. None)
       else (case pb_field_iter_next iter of (again, iter) \<Rightarrow> if again then for_iter k body iter else lift (ret ())))"

definition for_message :: "(pb_field_iter \<Rightarrow> ('s, unit) mop) \<Rightarrow> pb_field list \<Rightarrow> u64 \<Rightarrow> ('s, unit) mop" where
  "for_message body descrs dest =
     (if descrs = [] then (\<lambda>_. None)
      else
        (case pb_field_iter_begin descrs dest of (nonempty, iter) \<Rightarrow>
           if nonempty then for_iter (length descrs) body iter else lift (ret ())))"

text \<open>The loop over a list of extensions.\<close>

partial_function (option) for_chain :: "(u64 \<Rightarrow> ('s pb_state, unit) mop) \<Rightarrow> u64 \<Rightarrow> ('s pb_state, unit) mop" where
  "for_chain f ext s =
     (if ext = 0 then Some (Some (), s)
      else
        (case f ext s of
           None \<Rightarrow> None
         | Some (r, s) \<Rightarrow>
             if r = None then Some (None, s)
             else (case load64 (mem s) (ext + 16) of None \<Rightarrow> None | Some next \<Rightarrow> for_chain f next s)))"

definition extension_field :: "'s dec_env \<Rightarrow> memory \<Rightarrow> u64 \<Rightarrow> pb_field list option" where
  "extension_field env m ext =
     (case load64 m ext of
        None \<Rightarrow> None
      | Some t \<Rightarrow>
          (case load64 m (t + 16) of
             None \<Rightarrow> None
           | Some arg \<Rightarrow> (case descriptors env arg of Some (f # fs) \<Rightarrow> Some (f # fs) | _ \<Rightarrow> None)))"

definition iter_from_extension :: "'s dec_env \<Rightarrow> memory \<Rightarrow> u64 \<Rightarrow> pb_field_iter option" where
  "iter_from_extension env m ext =
     (case extension_field env m ext of
        None \<Rightarrow> None
      | Some field \<Rightarrow>
          (case load64 m (ext + 8) of
             None \<Rightarrow> None
           | Some dest \<Rightarrow>
               let iter = snd (pb_field_iter_begin field dest) in
               Some (iter\<lparr>pData := (if PB_ATYPE (type (hd field)) = 0x80 then ext + 8 else dest), pSize := ext + 24\<rparr>)))"

section \<open>Default values\<close>

text \<open>\<open>depth\<close> bounds the nesting of submessages and extensions.\<close>

definition init_data :: "'s dec_env \<Rightarrow> (pb_field_iter \<Rightarrow> ('s pb_state, unit) mop) \<Rightarrow> pb_field_iter \<Rightarrow> ('s pb_state, unit) mop" where
  "init_data env set_default iter =
     (let f = the_field iter in
      if PB_LTYPE (type f) = 0x08 then
        (case descriptors env (ptr f) of
           None \<Rightarrow> (\<lambda>_. None)
         | Some descrs \<Rightarrow> for_message set_default descrs (pData iter))
      else if ptr f \<noteq> 0 then mread (\<lambda>m. load m (ptr f) (unat (data_size f))) (\<lambda>bs. mwrite (pData iter) bs)
      else mwrite (pData iter) (replicate (unat (data_size f)) 0))"

primrec pb_field_set_to_default :: "nat \<Rightarrow> 's dec_env \<Rightarrow> pb_field_iter \<Rightarrow> ('s pb_state, unit) mop" where
  "pb_field_set_to_default 0 env iter = (\<lambda>_. None)"
| "pb_field_set_to_default (Suc depth) env iter =
     (let type = type (the_field iter) in
      if PB_LTYPE type = 0x09 then
        mread (\<lambda>m. load64 m (pData iter)) (\<lambda>ext.
          for_chain (\<lambda>ext.
            mthen (mwrite (ext + 24) [0]) (\<lambda>_.
              mread (\<lambda>m. iter_from_extension env m ext) (\<lambda>ext_iter. pb_field_set_to_default depth env ext_iter))) ext)
      else if PB_ATYPE type = 0x00 then
        if PB_HTYPE type = 0x10 \<and> pSize iter \<noteq> pData iter then
          mthen (mwrite (pSize iter) [0]) (\<lambda>_. init_data env (pb_field_set_to_default depth env) iter)
        else if PB_HTYPE type = 0x20 \<or> PB_HTYPE type = 0x30 then mwrite (pSize iter) (le_bytes 4 0)
        else init_data env (pb_field_set_to_default depth env) iter
      else if PB_ATYPE type = 0x80 then
        mthen (mwrite (pData iter) (le_bytes 8 0)) (\<lambda>_.
          if PB_HTYPE type = 0x20 \<or> PB_HTYPE type = 0x30 then mwrite (pSize iter) (le_bytes 4 0) else lift (ret ()))
      else lift (ret ()))"

definition pb_message_set_to_defaults :: "nat \<Rightarrow> 's dec_env \<Rightarrow> pb_field list \<Rightarrow> u64 \<Rightarrow> ('s pb_state, unit) mop" where
  "pb_message_set_to_defaults depth env descrs dest = for_message (pb_field_set_to_default depth env) descrs dest"

section \<open>Releasing\<close>

definition release_message :: "(pb_field_iter \<Rightarrow> ('s pb_state, unit) mop) \<Rightarrow> pb_field list \<Rightarrow> u64 \<Rightarrow> ('s pb_state, unit) mop" where
  "release_message release_single descrs dest =
     (if dest = 0 then lift (ret ()) else for_message release_single descrs dest)"

text \<open>The loops over the submessages of an array and over the strings of an array.\<close>

primrec release_items :: "(u64 \<Rightarrow> ('s pb_state, unit) mop) \<Rightarrow> u64 \<Rightarrow> nat \<Rightarrow> u64 \<Rightarrow> ('s pb_state, unit) mop" where
  "release_items release step 0 p = lift (ret ())"
| "release_items release step (Suc n) p = mthen (release p) (\<lambda>_. release_items release step n (p + step))"

primrec free_items :: "nat \<Rightarrow> u64 \<Rightarrow> ('s pb_state, unit) mop" where
  "free_items 0 p = lift (ret ())"
| "free_items (Suc n) p =
     mread (\<lambda>m. load64 m p) (\<lambda>q.
       mthen (pb_free q) (\<lambda>_. mthen (mwrite p (le_bytes 8 0)) (\<lambda>_. free_items n (p + 8))))"

definition release_submessages ::
  "'s dec_env \<Rightarrow> (pb_field_iter \<Rightarrow> ('s pb_state, unit) mop) \<Rightarrow> pb_field_iter \<Rightarrow> ('s pb_state, unit) mop" where
  "release_submessages env release_single iter =
     (let f = the_field iter; atype = PB_ATYPE (type f) in
      mread (\<lambda>m. if atype = 0x80 then load64 m (pData iter) else Some (pData iter)) (\<lambda>item.
      mread (\<lambda>m.
          if PB_HTYPE (type f) = 0x20 then
            map_option (\<lambda>n. if atype = 0x00 \<and> n > array_size f then array_size f else n)
              (if atype = 0x00 \<and> pSize iter = pData iter then Some (array_size f) else load32 m (pSize iter))
          else Some 1) (\<lambda>count.
        if item \<noteq> 0 \<and> count \<noteq> 0 then
          (case descriptors env (ptr f) of
             None \<Rightarrow> (\<lambda>_. None)
           | Some descrs \<Rightarrow> release_items (release_message release_single descrs) (ucast (data_size f)) (unat count) item)
        else lift (ret ()))))"

definition release_pointer :: "pb_field_iter \<Rightarrow> ('s pb_state, unit) mop" where
  "release_pointer iter =
     (let f = the_field iter; repeated = (PB_HTYPE (type f) = 0x20) in
      mthen
        (if repeated \<and> (PB_LTYPE (type f) = 0x07 \<or> PB_LTYPE (type f) = 0x06) then
           mread (\<lambda>m. load64 m (pData iter)) (\<lambda>item.
             mread (\<lambda>m. load32 m (pSize iter)) (\<lambda>count. free_items (unat count) item))
         else lift (ret ())) (\<lambda>_.
      mthen (if repeated then mwrite (pSize iter) (le_bytes 4 0) else lift (ret ())) (\<lambda>_.
        mread (\<lambda>m. load64 m (pData iter)) (\<lambda>p.
          mthen (pb_free p) (\<lambda>_. mwrite (pData iter) (le_bytes 8 0))))))"

primrec pb_release_single_field :: "nat \<Rightarrow> 's dec_env \<Rightarrow> pb_field_iter \<Rightarrow> ('s pb_state, unit) mop" where
  "pb_release_single_field 0 env iter = (\<lambda>_. None)"
| "pb_release_single_field (Suc depth) env iter =
     (let f = the_field iter in
      mread (\<lambda>m. if PB_HTYPE (type f) = 0x30 then map_option (\<lambda>which. which \<noteq> tag f) (load32 m (pSize iter))
                   else Some False) (\<lambda>other.
        if other then lift (ret ())
        else
          mthen
            (if PB_LTYPE (type f) = 0x09 then
               mread (\<lambda>m. load64 m (pData iter)) (\<lambda>ext.
                 for_chain (\<lambda>ext.
                   mread (\<lambda>m. iter_from_extension env m ext) (\<lambda>ext_iter. pb_release_single_field depth env ext_iter)) ext)
             else if PB_LTYPE (type f) = 0x08 \<and> PB_ATYPE (type f) \<noteq> 0x40 then
               release_submessages env (pb_release_single_field depth env) iter
             else lift (ret ())) (\<lambda>_.
          if PB_ATYPE (type f) = 0x80 then release_pointer iter else lift (ret ()))))"

definition pb_release :: "nat \<Rightarrow> 's dec_env \<Rightarrow> pb_field list \<Rightarrow> u64 \<Rightarrow> ('s pb_state, unit) mop" where
  "pb_release depth env descrs dest = release_message (pb_release_single_field depth env) descrs dest"

text \<open>
  Releases the old alternative of a union; the result is the iterator, which went to the old
  alternative and back.
\<close>

definition pb_release_union_field :: "nat \<Rightarrow> 's dec_env \<Rightarrow> pb_field_iter \<Rightarrow> ('s pb_state, pb_field_iter) mop" where
  "pb_release_union_field depth env iter =
     mread (\<lambda>m. load32 m (pSize iter)) (\<lambda>old_tag.
       let new_tag = tag (the_field iter) in
       if old_tag = 0 \<or> old_tag = new_tag then lift (ret iter)
       else
         (case pb_field_iter_find old_tag iter of
            None \<Rightarrow> (\<lambda>_. None)
          | Some (found, iter) \<Rightarrow>
              if \<not> found then pb_error ''invalid union tag''
              else
                mthen (pb_release_single_field depth env iter) (\<lambda>_.
                  (case pb_field_iter_find new_tag iter of
                     None \<Rightarrow> (\<lambda>_. None)
                   | Some (found, iter) \<Rightarrow>
                       if \<not> found then pb_error ''iterator error''
                       else if PB_ATYPE (type (the_field iter)) = 0x80 then
                         mthen (mwrite (pData iter) (le_bytes 8 0)) (\<lambda>_. lift (ret iter))
                       else lift (ret iter)))))"

section \<open>Static fields\<close>

text \<open>What \<open>pSize\<close> points to: a member of the structure or the local counter of \<open>pb_decode_noinit\<close>.\<close>

datatype size_ref = At u64 | Local

fun get_size :: "size_ref \<Rightarrow> 's pb_state \<Rightarrow> u32 option" where
  "get_size (At p) s = load32 (mem s) p"
| "get_size Local s = Some (fixed_count_size s)"

fun set_size :: "size_ref \<Rightarrow> u32 \<Rightarrow> ('s pb_state, unit) mop" where
  "set_size (At p) n s = mwrite p (le_bytes 4 (unat n)) s"
| "set_size Local n s = Some (Some (), s\<lparr>fixed_count_size := n\<rparr>)"

definition with_size :: "size_ref \<Rightarrow> (u32 \<Rightarrow> ('s pb_state, 'a) mop) \<Rightarrow> ('s pb_state, 'a) mop" where
  "with_size r g s = (case get_size r s of None \<Rightarrow> None | Some n \<Rightarrow> g n s)"

text \<open>The address of an entry; the product has 32 bits.\<close>

definition entry :: "pb_field \<Rightarrow> u64 \<Rightarrow> u32 \<Rightarrow> u64" where
  "entry field p n = p + ucast (data_size field * n)"

partial_function (option) packed_static ::
  "(u64 \<Rightarrow> ('s pb_state, unit) mop) \<Rightarrow> pb_field \<Rightarrow> u64 \<Rightarrow> size_ref \<Rightarrow> ('s pb_state, unit) mop" where
  "packed_static func field p_data r s =
     (case get_size r s of
        None \<Rightarrow> None
      | Some n \<Rightarrow>
          if bytes_left (input s) > 0 \<and> n < array_size field then
            (case mthen (func (entry field p_data n)) (\<lambda>_. with_size r (\<lambda>n. set_size r (n + 1))) s of
               None \<Rightarrow> None
             | Some (status, s) \<Rightarrow> if status = None then Some (None, s) else packed_static func field p_data r s)
          else Some (Some (), s))"

text \<open>The case of a packed array.\<close>

definition decode_packed :: "(u64 \<Rightarrow> ('s pb_state, unit) mop) \<Rightarrow> pb_field \<Rightarrow> u64 \<Rightarrow> size_ref \<Rightarrow> ('s pb_state, unit) mop" where
  "decode_packed func field p_data r =
     mthen (on_stream pb_make_string_substream) (\<lambda>substream s.
       (case packed_static func field p_data r (s\<lparr>input := substream\<rparr>) of
          None \<Rightarrow> None
        | Some (status, s') \<Rightarrow>
            if bytes_left (input s') \<noteq> 0 then pb_error ''array overflow'' (s'\<lparr>input := input s\<rparr>)
            else close_substream (input s) status s'))"

text \<open>\<open>func\<close> is the decoder of the field, \<open>set_defaults\<close> initializes a message.\<close>

definition decode_static_field ::
  "'s dec_env \<Rightarrow> (u64 \<Rightarrow> ('s pb_state, unit) mop) \<Rightarrow> 's sub_decode \<Rightarrow> u32 \<Rightarrow> pb_field_iter \<Rightarrow> size_ref \<Rightarrow> ('s pb_state, unit) mop" where
  "decode_static_field env func set_defaults wire_type iter r =
     (let f = the_field iter; htype = PB_HTYPE (type f) in
      if htype = 0x00 then func (pData iter)
      else if htype = 0x10 then
        mthen (if pSize iter \<noteq> pData iter then mwrite (pSize iter) [1] else lift (ret ())) (\<lambda>_. func (pData iter))
      else if htype = 0x20 then
        if wire_type = PB_WT_STRING \<and> PB_LTYPE (type f) \<le> 0x05 then decode_packed func f (pData iter) r
        else
          with_size r (\<lambda>n.
            mthen (set_size r (n + 1)) (\<lambda>_.
              if n \<ge> array_size f then pb_error ''array overflow'' else func (entry f (pData iter) n)))
      else
        mthen
          (if PB_LTYPE (type f) = 0x08 then
             mread (\<lambda>m. load32 m (pSize iter)) (\<lambda>which.
               if which = tag f then lift (ret ())
               else
                 mthen (mwrite (pData iter) (replicate (unat (data_size f)) 0)) (\<lambda>_.
                   (case descriptors env (ptr f) of
                      None \<Rightarrow> (\<lambda>_. None) | Some descrs \<Rightarrow> set_defaults descrs (pData iter))))
           else lift (ret ())) (\<lambda>_.
          mthen (mwrite (pSize iter) (le_bytes 4 (unat (tag f)))) (\<lambda>_. func (pData iter))))"

section \<open>Pointer fields\<close>

definition initialize_pointer_field :: "'s dec_env \<Rightarrow> 's sub_decode \<Rightarrow> pb_field \<Rightarrow> u64 \<Rightarrow> ('s pb_state, unit) mop" where
  "initialize_pointer_field env set_defaults f item =
     (if PB_LTYPE (type f) = 0x07 \<or> PB_LTYPE (type f) = 0x06 then mwrite item (le_bytes 8 0)
      else if PB_LTYPE (type f) = 0x08 then
        mthen (mwrite item (replicate (unat (data_size f)) 0)) (\<lambda>_.
          (case descriptors env (ptr f) of None \<Rightarrow> (\<lambda>_. None) | Some descrs \<Rightarrow> set_defaults descrs item))
      else lift (ret ()))"

text \<open>The storage for at least one more entry of the array, and its address.\<close>

definition grow_array :: "'s dec_env \<Rightarrow> pb_field_iter \<Rightarrow> u32 \<Rightarrow> u64 \<Rightarrow> ('s pb_state, u64) mop" where
  "grow_array env iter n allocated_size s =
     (let f = the_field iter in
      if ucast n + 1 > allocated_size then
        if data_size f = 0 then None
        else
          let remain = (bytes_left (input s) - 1) div ucast (data_size f) + 1;
              allocated_size = (if remain < 0xffffffff - allocated_size then allocated_size + remain else allocated_size + 1) in
          mthen (allocate_field_mem env (pData iter) (ucast (data_size f)) allocated_size) (\<lambda>_. lift (ret allocated_size)) s
      else Some (Some allocated_size, s))"

text \<open>The status, and whether the loop ended because of too many entries.\<close>

partial_function (option) packed_pointer ::
  "'s dec_env \<Rightarrow> (u64 \<Rightarrow> ('s pb_state, unit) mop) \<Rightarrow> pb_field_iter \<Rightarrow> size_ref \<Rightarrow> u64 \<Rightarrow> 's pb_state \<Rightarrow> ((bool \<times> bool) \<times> 's pb_state) option" where
  "packed_pointer env func iter r allocated_size s =
     (if bytes_left (input s) = 0 then Some ((True, False), s)
      else
        (case get_size r s of
           None \<Rightarrow> None
         | Some n \<Rightarrow>
             if n = PB_SIZE_MAX then Some ((False, True), s)
             else
               (case grow_array env iter n allocated_size s of
                  None \<Rightarrow> None
                | Some (None, s) \<Rightarrow> Some ((False, False), s)
                | Some (Some allocated_size, s) \<Rightarrow>
                    (case load64 (mem s) (pData iter) of
                       None \<Rightarrow> None
                     | Some p \<Rightarrow>
                         if entry (the_field iter) p n = 0 then Some ((False, False), s)
                         else
                           (case mthen (func (entry (the_field iter) p n)) (\<lambda>_.
                                   with_size r (\<lambda>n. set_size r (n + 1))) s of
                              None \<Rightarrow> None
                            | Some (status, s) \<Rightarrow>
                                if status = None then Some ((False, False), s)
                                else packed_pointer env func iter r allocated_size s)))))"

text \<open>The entries of a packed array need no initialization.\<close>

definition decode_packed_pointer :: "'s dec_env \<Rightarrow> (u64 \<Rightarrow> ('s pb_state, unit) mop) \<Rightarrow> pb_field_iter \<Rightarrow> size_ref \<Rightarrow> ('s pb_state, unit) mop" where
  "decode_packed_pointer env func iter r =
     with_size r (\<lambda>n.
       mthen (on_stream pb_make_string_substream) (\<lambda>substream s.
         (case packed_pointer env func iter r (ucast n) (s\<lparr>input := substream\<rparr>) of
            None \<Rightarrow> None
          | Some ((ok, too_many), s') \<Rightarrow>
              let stream = (if too_many then (input s)\<lparr>in_errmsg := Some ''too many array entries''\<rparr> else input s) in
              close_substream stream (if ok then Some () else None) s')))"

definition decode_pointer_field ::
  "nat \<Rightarrow> 's dec_env \<Rightarrow> (u64 \<Rightarrow> ('s pb_state, unit) mop) \<Rightarrow> 's sub_decode \<Rightarrow> u32 \<Rightarrow> pb_field_iter \<Rightarrow> size_ref \<Rightarrow> ('s pb_state, unit) mop" where
  "decode_pointer_field depth env func set_defaults wire_type iter r =
     (let f = the_field iter; htype = PB_HTYPE (type f); ltype = PB_LTYPE (type f) in
      if htype \<noteq> 0x20 then
        mthen
          (mread (\<lambda>m. if ltype = 0x08 then load64 m (pData iter) else Some 0) (\<lambda>p.
             if p \<noteq> 0 then pb_release_single_field depth env iter else lift (ret ()))) (\<lambda>_.
        mthen (if htype = 0x30 then mwrite (pSize iter) (le_bytes 4 (unat (tag f))) else lift (ret ())) (\<lambda>_.
          if ltype = 0x07 \<or> ltype = 0x06 then func (pData iter)
          else
            mthen (allocate_field_mem env (pData iter) (ucast (data_size f)) 1) (\<lambda>_.
            mthen (mread (\<lambda>m. load64 m (pData iter)) (\<lambda>p. initialize_pointer_field env set_defaults f p)) (\<lambda>_.
              mread (\<lambda>m. load64 m (pData iter)) (\<lambda>p. func p)))))
      else if wire_type = PB_WT_STRING \<and> ltype \<le> 0x05 then decode_packed_pointer env func iter r
      else
        with_size r (\<lambda>n.
          if n = PB_SIZE_MAX then pb_error ''too many array entries''
          else
            mthen (allocate_field_mem env (pData iter) (ucast (data_size f)) (ucast (n + 1))) (\<lambda>_.
            mread (\<lambda>m. load64 m (pData iter)) (\<lambda>p.
              let item = entry f p n in
              mthen (with_size r (\<lambda>n. set_size r (n + 1))) (\<lambda>_.
              mthen (initialize_pointer_field env set_defaults f item) (\<lambda>_. func item))))))"

section \<open>Callback fields\<close>

text \<open>The pointer to the callback is read at every call.\<close>

partial_function (option) callback_loop :: "('s pb_state, unit) mop \<Rightarrow> ('s pb_state, unit) mop" where
  "callback_loop f s =
     (case f s of
        None \<Rightarrow> None
      | Some (status, s) \<Rightarrow>
          if status = None then Some (None, s)
          else if bytes_left (input s) \<noteq> 0 then callback_loop f s
          else Some (Some (), s))"

definition decode_callback_field :: "'s dec_env \<Rightarrow> u32 \<Rightarrow> pb_field_iter \<Rightarrow> ('s pb_state, unit) mop" where
  "decode_callback_field env wire_type iter =
     mread (\<lambda>m. if pData iter = 0 then Some 0 else load64 m (pData iter)) (\<lambda>decode.
       if decode = 0 then on_stream (pb_skip_field wire_type)
       else
         let callback = mread (\<lambda>m. load64 m (pData iter)) (\<lambda>decode.
           if decode = 0 then (\<lambda>_. None) else dec_callback env decode (the_field iter) (pData iter + 8)) in
         if wire_type = PB_WT_STRING then
           mthen (on_stream pb_make_string_substream) (\<lambda>substream s.
             (case callback_loop callback (s\<lparr>input := substream\<rparr>) of
                None \<Rightarrow> None
              | Some (None, s') \<Rightarrow> pb_error ''callback failed'' (s'\<lparr>input := input s\<rparr>)
              | Some (Some _, s') \<Rightarrow> close_substream (input s) (Some ()) s'))
         else
           mthen (on_stream (read_raw_value wire_type 10)) (\<lambda>buffer s.
             (case callback (s\<lparr>input := pb_istream_from_buffer buffer (word_of_nat (length buffer))\<rparr>) of
                None \<Rightarrow> None
              | Some (status, s') \<Rightarrow> Some (status, s'\<lparr>input := input s\<rparr>))))"

section \<open>Fields\<close>

text \<open>
  The result is the iterator, which \<open>pb_release_union_field\<close> may have moved. \<open>decode\<close> and
  \<open>decode_noinit\<close> are the calls for submessages.
\<close>

definition decode_field ::
  "nat \<Rightarrow> 's dec_env \<Rightarrow> 's sub_decode \<Rightarrow> 's sub_decode \<Rightarrow> u32 \<Rightarrow> pb_field_iter \<Rightarrow> size_ref \<Rightarrow> ('s pb_state, pb_field_iter) mop" where
  "decode_field depth env decode decode_noinit wire_type iter r =
     mthen (if PB_HTYPE (type (the_field iter)) = 0x30 then pb_release_union_field depth env iter else lift (ret iter)) (\<lambda>iter.
       let atype = PB_ATYPE (type (the_field iter));
           func = PB_DECODERS env decode decode_noinit (the_field iter);
           set_defaults = pb_message_set_to_defaults depth env in
       mthen
         (if atype = 0x00 then decode_static_field env func set_defaults wire_type iter r
          else if atype = 0x80 then decode_pointer_field depth env func set_defaults wire_type iter r
          else if atype = 0x40 then decode_callback_field env wire_type iter
          else pb_error ''invalid field type'') (\<lambda>_. lift (ret iter)))"

section \<open>Extensions\<close>

definition default_extension_decoder ::
  "nat \<Rightarrow> 's dec_env \<Rightarrow> 's sub_decode \<Rightarrow> 's sub_decode \<Rightarrow> u64 \<Rightarrow> u32 \<Rightarrow> u32 \<Rightarrow> ('s pb_state, unit) mop" where
  "default_extension_decoder depth env decode decode_noinit ext wanted wire_type =
     mread (\<lambda>m. extension_field env m ext) (\<lambda>field.
       if tag (hd field) \<noteq> wanted then lift (ret ())
       else
         mread (\<lambda>m. iter_from_extension env m ext) (\<lambda>iter.
           mthen (mwrite (ext + 24) [1]) (\<lambda>_.
             mthen (decode_field depth env decode decode_noinit wire_type iter (At (pSize iter))) (\<lambda>_. lift (ret ())))))"

partial_function (option) extension_loop ::
  "(u64 \<Rightarrow> ('s pb_state, unit) mop) \<Rightarrow> u64 \<Rightarrow> u64 \<Rightarrow> ('s pb_state, unit) mop" where
  "extension_loop f left ext s =
     (if ext \<noteq> 0 \<and> left = bytes_left (input s) then
        (case f ext s of
           None \<Rightarrow> None
         | Some (status, s) \<Rightarrow>
             if status = None then Some (None, s)
             else (case load64 (mem s) (ext + 16) of None \<Rightarrow> None | Some next \<Rightarrow> extension_loop f left next s))
      else Some (Some (), s))"

definition decode_extension ::
  "nat \<Rightarrow> 's dec_env \<Rightarrow> 's sub_decode \<Rightarrow> 's sub_decode \<Rightarrow> u32 \<Rightarrow> u32 \<Rightarrow> pb_field_iter \<Rightarrow> ('s pb_state, unit) mop" where
  "decode_extension depth env decode decode_noinit wanted wire_type iter =
     mread (\<lambda>m. load64 m (pData iter)) (\<lambda>ext s.
       extension_loop (\<lambda>ext.
         mread (\<lambda>m. case load64 m ext of None \<Rightarrow> None | Some t \<Rightarrow> load64 m t) (\<lambda>fn.
           if fn \<noteq> 0 then dec_extension env fn ext wanted wire_type
           else default_extension_decoder depth env decode decode_noinit ext wanted wire_type))
         (bytes_left (input s)) ext s)"

partial_function (option) find_extension_loop :: "nat \<Rightarrow> pb_field_iter \<Rightarrow> (bool \<times> pb_field_iter) option" where
  "find_extension_loop first iter =
     (if PB_LTYPE (type (the_field iter)) = 0x09 then Some (True, iter)
      else
        let iter = snd (pb_field_iter_next iter) in
        if pos iter \<noteq> first then find_extension_loop first iter else Some (False, iter))"

definition find_extension_field :: "pb_field_iter \<Rightarrow> (bool \<times> pb_field_iter) option" where
  "find_extension_field iter = find_extension_loop (pos iter) iter"

section \<open>Required fields\<close>

definition PB_MAX_REQUIRED_FIELDS :: u32 where "PB_MAX_REQUIRED_FIELDS = 64"

text \<open>The bits of the required fields that were seen, in two words.\<close>

definition mark_seen :: "u32 \<Rightarrow> u32 list \<Rightarrow> u32 list" where
  "mark_seen index fields_seen =
     (let i = unat (drop_bit 5 index) in
      fields_seen[i := fields_seen ! i OR push_bit (unat (index AND 31)) 1])"

text \<open>Whether the first \<open>count\<close> bits are set: first the whole words, then the rest.\<close>

definition all_seen :: "u32 \<Rightarrow> u32 list \<Rightarrow> bool" where
  "all_seen count fields_seen \<longleftrightarrow>
     count = 0 \<or>
     (\<forall>i \<in> set [0..<unat (drop_bit 5 count)]. fields_seen ! i = - 1) \<and>
     (count AND 31 \<noteq> 0 \<longrightarrow>
        fields_seen ! unat (drop_bit 5 count) = drop_bit (32 - unat (count AND 31)) (- 1))"

text \<open>The loop to the end of the descriptors: the number of required fields before the last one, and its type.\<close>

partial_function (option) last_field :: "pb_field_iter \<Rightarrow> (u32 \<times> byte \<times> pb_field_iter) option" where
  "last_field iter =
     (case pb_field_iter_next iter of
        (again, iter') \<Rightarrow>
          if again then last_field iter' else Some (required_field_index iter, type (the_field iter), iter'))"

definition check_required :: "pb_field_iter \<Rightarrow> u32 list \<Rightarrow> ('s pb_state, unit) mop" where
  "check_required iter fields_seen =
     (case last_field iter of
        None \<Rightarrow> (\<lambda>_. None)
      | Some (count, last_type, iter) \<Rightarrow>
          let count = (if PB_HTYPE last_type = 0x00 \<and> tag (the_field iter) \<noteq> 0 then count + 1 else count);
              count = (if count > PB_MAX_REQUIRED_FIELDS then PB_MAX_REQUIRED_FIELDS else count)
          in if all_seen count fields_seen then lift (ret ()) else pb_error ''missing required field'')"

section \<open>All fields\<close>

text \<open>
  The variables of the loop: the iterator, the bits of the required fields, the start of the
  extension range and the position of the field with a fixed count that was found last.
\<close>

record loop_vars =
  iterator :: pb_field_iter
  fields_seen :: "u32 list"
  extension_range_start :: u32
  fixed_count_field :: "nat option"

text \<open>A field that is not in the table: an extension takes it or it is skipped.\<close>

definition unknown_field ::
  "nat \<Rightarrow> 's dec_env \<Rightarrow> 's sub_decode \<Rightarrow> 's sub_decode \<Rightarrow> u32 \<Rightarrow> u32 \<Rightarrow> loop_vars \<Rightarrow> ('s pb_state, loop_vars) mop" where
  "unknown_field depth env decode decode_noinit wanted wire_type v s =
     (let skip = (\<lambda>v. mthen (on_stream (pb_skip_field wire_type)) (\<lambda>_. lift (ret v))) in
      if wanted \<ge> extension_range_start v then
        (case find_extension_field (iterator v) of
           None \<Rightarrow> None
         | Some (found, iter) \<Rightarrow>
             let v = v\<lparr>iterator := iter, extension_range_start := (if found then tag (the_field iter) else - 1)\<rparr> in
             if wanted \<ge> extension_range_start v then
               mthen (decode_extension depth env decode decode_noinit wanted wire_type iter) (\<lambda>_ s'.
                 if bytes_left (input s) \<noteq> bytes_left (input s') then Some (Some v, s') else skip v s') s
             else skip v s)
      else skip v s)"

text \<open>A field with a fixed count has its counter in the local variable; it must be complete before the next one.\<close>

definition fixed_count_complete :: "loop_vars \<Rightarrow> 's pb_state \<Rightarrow> bool" where
  "fixed_count_complete v s \<longleftrightarrow>
     (case fixed_count_field v of
        None \<Rightarrow> True
      | Some p \<Rightarrow> fixed_count_size s = array_size (start (iterator v) ! p))"

definition known_field ::
  "nat \<Rightarrow> 's dec_env \<Rightarrow> 's sub_decode \<Rightarrow> 's sub_decode \<Rightarrow> u32 \<Rightarrow> loop_vars \<Rightarrow> ('s pb_state, loop_vars) mop" where
  "known_field depth env decode decode_noinit wire_type v s =
     (let iter = iterator v; f = the_field iter;
          fixed = (PB_HTYPE (type f) = 0x20 \<and> pSize iter = pData iter);
          fresh = (fixed \<and> fixed_count_field v \<noteq> Some (pos iter)) in
      if fresh \<and> \<not> fixed_count_complete v s then pb_error ''wrong size for fixed count field'' s
      else
        let v = (if fresh then v\<lparr>fixed_count_field := Some (pos iter)\<rparr> else v);
            s = (if fresh then s\<lparr>fixed_count_size := 0\<rparr> else s);
            r = (if fixed then Local else At (pSize iter));
            v = (if PB_HTYPE (type f) = 0x00 \<and> required_field_index iter < PB_MAX_REQUIRED_FIELDS
                 then v\<lparr>fields_seen := mark_seen (required_field_index iter) (fields_seen v)\<rparr> else v)
        in mthen (decode_field depth env decode decode_noinit wire_type iter r) (\<lambda>iter. lift (ret (v\<lparr>iterator := iter\<rparr>))) s)"

text \<open>The body of the loop; \<open>None\<close> in the place of the variables is the \<open>break\<close>.\<close>

definition decode_step ::
  "nat \<Rightarrow> 's dec_env \<Rightarrow> 's sub_decode \<Rightarrow> 's sub_decode \<Rightarrow> loop_vars \<Rightarrow> ('s pb_state, loop_vars option) mop" where
  "decode_step depth env decode decode_noinit v s =
     (case pb_decode_tag (input s) of
        (None, eof, stream) \<Rightarrow> Some (if eof then Some None else None, s\<lparr>input := stream\<rparr>)
      | (Some (wire_type, wanted), _, stream) \<Rightarrow>
          (case pb_field_iter_find wanted (iterator v) of
             None \<Rightarrow> None
           | Some (found, iter) \<Rightarrow>
               let v = v\<lparr>iterator := iter\<rparr> in
               mthen (if found then known_field depth env decode decode_noinit wire_type v
                      else unknown_field depth env decode decode_noinit wanted wire_type v)
                 (\<lambda>v. lift (ret (Some v))) (s\<lparr>input := stream\<rparr>)))"

partial_function (option) message_loop ::
  "(loop_vars \<Rightarrow> ('s pb_state, loop_vars option) mop) \<Rightarrow> loop_vars \<Rightarrow> ('s pb_state, loop_vars) mop" where
  "message_loop step v s =
     (if bytes_left (input s) = 0 then Some (Some v, s)
      else
        (case step v s of
           None \<Rightarrow> None
         | Some (None, s) \<Rightarrow> Some (None, s)
         | Some (Some None, s) \<Rightarrow> Some (Some v, s)
         | Some (Some (Some v), s) \<Rightarrow> message_loop step v s))"

definition noinit ::
  "nat \<Rightarrow> 's dec_env \<Rightarrow> 's sub_decode \<Rightarrow> 's sub_decode \<Rightarrow> pb_field list \<Rightarrow> u64 \<Rightarrow> ('s pb_state, unit) mop" where
  "noinit depth env decode decode_noinit descrs dest s =
     (if descrs = [] then None
      else
        let v = \<lparr>iterator = snd (pb_field_iter_begin descrs dest), fields_seen = [0, 0],
                 extension_range_start = 0, fixed_count_field = None\<rparr> in
        (case
           mthen (message_loop (decode_step depth env decode decode_noinit) v) (\<lambda>v s.
             if \<not> fixed_count_complete v s then pb_error ''wrong size for fixed count field'' s
             else check_required (iterator v) (fields_seen v) s)
             (s\<lparr>fixed_count_size := 0\<rparr>) of
           None \<Rightarrow> None
         | Some (status, s') \<Rightarrow> Some (status, s'\<lparr>fixed_count_size := fixed_count_size s\<rparr>)))"

text \<open>\<open>pb_decode\<close> around a call of \<open>pb_decode_noinit\<close>.\<close>

definition init_and_decode :: "nat \<Rightarrow> 's dec_env \<Rightarrow> 's sub_decode \<Rightarrow> 's sub_decode" where
  "init_and_decode depth env decode_noinit descrs dest =
     mthen (pb_message_set_to_defaults depth env descrs dest) (\<lambda>_ s.
       (case decode_noinit descrs dest s of
          None \<Rightarrow> None
        | Some (Some _, s) \<Rightarrow> Some (Some (), s)
        | Some (None, s) \<Rightarrow> mthen (pb_release depth env descrs dest) (\<lambda>_ s. Some (None, s)) s))"

text \<open>\<open>depth\<close> bounds the nesting of submessages.\<close>

primrec pb_decode_noinit :: "nat \<Rightarrow> 's dec_env \<Rightarrow> 's sub_decode" where
  "pb_decode_noinit 0 env descrs dest = (\<lambda>_. None)"
| "pb_decode_noinit (Suc depth) env descrs dest =
     noinit (Suc depth) env (init_and_decode depth env (pb_decode_noinit depth env)) (pb_decode_noinit depth env) descrs dest"

definition pb_decode :: "nat \<Rightarrow> 's dec_env \<Rightarrow> 's sub_decode" where
  "pb_decode depth env = init_and_decode depth env (pb_decode_noinit depth env)"

definition pb_decode_delimited_noinit :: "nat \<Rightarrow> 's dec_env \<Rightarrow> 's sub_decode" where
  "pb_decode_delimited_noinit depth env descrs dest = in_substream (pb_decode_noinit depth env descrs dest)"

definition pb_decode_delimited_message :: "nat \<Rightarrow> 's dec_env \<Rightarrow> 's sub_decode" where
  "pb_decode_delimited_message depth env descrs dest = in_substream (pb_decode depth env descrs dest)"

definition pb_decode_nullterminated :: "nat \<Rightarrow> 's dec_env \<Rightarrow> 's sub_decode" where
  "pb_decode_nullterminated depth env = pb_decode depth env"

end
