(* ===== verification/PB_Decode_Safe.thy ===== *)
theory PB_Decode_Safe
  imports PB_Message_Decode PB_Wire
begin

unbundle bit_operations_syntax

text \<open>
  For messages of static fields, with arrays, unions and submessages: whatever the input and its
  source are, \<open>pb_decode\<close> is defined, comes to an end and writes nowhere but in the structure
  (\<open>pb_decode_static_safe\<close>). \<open>safe\<close> is the contract of every operation, \<open>static_layout\<close> says where
  the members of a structure lie.
\<close>

section \<open>Streams only get shorter\<close>

text \<open>A reader that succeeds has taken at least one byte.\<close>

definition shrinks :: "bool \<Rightarrow> ('s pb_istream, 'a) op \<Rightarrow> bool" where
  "shrinks strict f \<longleftrightarrow>
     (\<forall>s. unat (bytes_left (snd (f s))) \<le> unat (bytes_left s) \<and>
          (strict \<longrightarrow> fst (f s) \<noteq> None \<longrightarrow> unat (bytes_left (snd (f s))) < unat (bytes_left s)))"

lemma shrinksD:
  assumes "shrinks strict f" and "f s = (r, s')"
  shows "unat (bytes_left s') \<le> unat (bytes_left s)" and "strict \<Longrightarrow> r \<noteq> None \<Longrightarrow> unat (bytes_left s') < unat (bytes_left s)"
  using assms(1) [unfolded shrinks_def, rule_format, of s] assms(2) by auto

lemma shrinks_le: "shrinks strict f \<Longrightarrow> unat (bytes_left (snd (f s))) \<le> unat (bytes_left s)"
  by (simp add: shrinks_def)

lemma shrinks_weaken: "shrinks strict f \<Longrightarrow> shrinks False f"
  by (simp add: shrinks_def)

lemma shrinks_andthen:
  assumes "shrinks p f" and "\<And>a. shrinks q (g a)"
  shows "shrinks (p \<or> q) (andthen f g)"
  unfolding shrinks_def
proof
  fix s
  obtain r s1 where f: "f s = (r, s1)" by fastforce
  note 1 = shrinksD [OF assms(1) f]
  show "unat (bytes_left (snd (andthen f g s))) \<le> unat (bytes_left s) \<and>
      (p \<or> q \<longrightarrow> fst (andthen f g s) \<noteq> None \<longrightarrow> unat (bytes_left (snd (andthen f g s))) < unat (bytes_left s))"
  proof (cases r)
    case (Some a)
    obtain r' s2 where g: "g a s1 = (r', s2)" by fastforce
    note 2 = shrinksD [OF assms(2) g]
    show ?thesis using 1 2 by (auto simp: andthen_def f g Some)
  qed (use 1 in \<open>simp add: andthen_def f\<close>)
qed

lemma shrinks_still:
  "(\<And>s. bytes_left (snd (f s)) = bytes_left s) \<Longrightarrow> shrinks False f"
  by (simp add: shrinks_def)

lemma shrinks_ret: "shrinks False (ret v)"
  by (rule shrinks_still) (simp add: ret_def)

lemma shrinks_error: "shrinks strict (PB_IN_ERROR m)"
  by (simp add: shrinks_def PB_IN_ERROR_def)

lemma shrinks_map: "shrinks p f \<Longrightarrow> shrinks p (andthen f (\<lambda>a. ret (g a)))"
  using shrinks_andthen [of p f False "\<lambda>a. ret (g a)", OF _ shrinks_ret] by simp

lemma shrinks_read_buf: "shrinks (count \<noteq> 0) (pb_read_buf count)"
  unfolding shrinks_def
proof
  fix s :: "'a pb_istream"
  show "unat (bytes_left (snd (pb_read_buf count s))) \<le> unat (bytes_left s) \<and>
      (count \<noteq> 0 \<longrightarrow> fst (pb_read_buf count s) \<noteq> None \<longrightarrow>
        unat (bytes_left (snd (pb_read_buf count s))) < unat (bytes_left s))"
  proof (cases "count = 0 \<or> bytes_left s < count")
    case True
    then show ?thesis by (auto simp: pb_read_buf_def PB_IN_ERROR_def)
  next
    case False
    then have "unat (bytes_left s - count) = unat (bytes_left s) - unat count" "0 < unat count" "unat count \<le> unat (bytes_left s)"
      by (simp_all add: unat_sub not_less word_le_nat_alt unat_pos_iff)
    then show ?thesis using False
      by (auto simp: pb_read_buf_def PB_IN_ERROR_def split: prod.splits sum.splits)
  qed
qed

lemma shrinks_readbyte: "shrinks True pb_readbyte"
  unfolding shrinks_def
proof
  fix s :: "'a pb_istream"
  show "unat (bytes_left (snd (pb_readbyte s))) \<le> unat (bytes_left s) \<and>
      (True \<longrightarrow> fst (pb_readbyte s) \<noteq> None \<longrightarrow> unat (bytes_left (snd (pb_readbyte s))) < unat (bytes_left s))"
  proof (cases "pb_readbyte s")
    case (Pair r s')
    show ?thesis
    proof (cases r)
      case (Some b)
      then show ?thesis using Pair pb_readbyte_shrinks [of s b s'] by simp
    next
      case None
      then show ?thesis using Pair
        by (auto simp: pb_readbyte_def PB_IN_ERROR_def split: if_splits prod.splits sum.splits)
    qed
  qed
qed

lemma shrinks_read_skip: "shrinks False (pb_read_skip count)"
proof -
  have "unat (bytes_left (snd (pb_read_skip count s))) \<le> unat (bytes_left s)" for s :: "'a pb_istream"
  proof (induction count s rule: pb_read_skip.induct)
    case (1 count s)
    show ?case
    proof (cases "count > 16")
      case True
      obtain r s1 where r: "pb_read_buf 16 s = (r, s1)" by fastforce
      note 2 = shrinksD(1) [OF shrinks_read_buf r]
      show ?thesis
      proof (cases r)
        case None
        then show ?thesis using True 2 by (subst pb_read_skip.simps) (simp add: r)
      next
        case (Some bs)
        then have "unat (bytes_left (snd (pb_read_skip (count - 16) s1))) \<le> unat (bytes_left s1)"
          using "1.IH" [OF True] r by simp
        then show ?thesis using True 2 Some by (subst pb_read_skip.simps) (simp add: r)
      qed
    next
      case False
      then have "pb_read_skip count s = andthen (pb_read_buf count) (\<lambda>_. ret ()) s" by (subst pb_read_skip.simps) simp
      then show ?thesis by (simp only:) (rule shrinks_le [OF shrinks_map [OF shrinks_read_buf]])
    qed
  qed
  then show ?thesis by (simp add: shrinks_def)
qed

lemma shrinks_read_null: "shrinks False (pb_read_null count)"
proof (unfold shrinks_def, intro allI conjI impI)
  fix s :: "'a pb_istream"
  have "pb_read_null count s = (Some (), s) \<or> pb_read_null count s = pb_read_skip count s \<or>
      pb_read_null count s = andthen (pb_read_buf count) (\<lambda>_. ret ()) s"
    by (simp add: pb_read_null_def)
  then show "unat (bytes_left (snd (pb_read_null count s))) \<le> unat (bytes_left s)"
    using shrinks_le [OF shrinks_read_skip, of count s] shrinks_le [OF shrinks_map [OF shrinks_read_buf], of count "\<lambda>_. ()" s]
    by auto
qed simp

section \<open>Varints, tags and skipping\<close>

lemma shrinks_varint64_loop: "unat (bytes_left (snd (varint64_loop bitpos r s))) \<le> unat (bytes_left s) \<and>
   (fst (varint64_loop bitpos r s) \<noteq> None \<longrightarrow> unat (bytes_left (snd (varint64_loop bitpos r s))) < unat (bytes_left s))"
proof (induction bitpos r s rule: varint64_loop.induct)
  case (1 bitpos r s)
  obtain b s1 where b: "pb_readbyte s = (b, s1)" by fastforce
  note 2 = shrinksD [OF shrinks_readbyte b]
  show ?case
  proof (cases "bitpos \<ge> 64 \<or> b = None")
    case True
    then show ?thesis using 2 by (subst varint64_loop.simps) (auto simp: b PB_IN_ERROR_def varint64_loop.simps [of bitpos])
  next
    case False
    then obtain c where c: "b = Some c" by auto
    show ?thesis
      using 2 False "1.IH" [OF _ b [symmetric] c refl refl] b c
      by (subst (1 2 3) varint64_loop.simps) (fastforce simp: Let_def)
  qed
qed

lemma shrinks_decode_varint: "shrinks True pb_decode_varint"
  by (simp add: shrinks_def pb_decode_varint_def shrinks_varint64_loop)

lemma shrinks_varint32_loop: "unat (bytes_left (snd (varint32_loop bitpos r s))) \<le> unat (bytes_left s)"
proof (induction bitpos r s rule: varint32_loop.induct)
  case (1 bitpos r s)
  obtain b s1 where b: "pb_readbyte s = (b, s1)" by fastforce
  note 2 = shrinksD(1) [OF shrinks_readbyte b]
  show ?case
  proof (cases b)
    case None
    then show ?thesis using 2 by (subst varint32_loop.simps) (simp add: b)
  next
    case (Some c)
    let ?err = "32 \<le> bitpos \<and> c AND 127 \<noteq> 0 \<and> (drop_bit 31 r = 0 \<or> c \<noteq> (if bitpos < 63 then 255 else 1))"
    let ?r = "if 32 \<le> bitpos then r else r OR push_bit (unat bitpos) (ucast (c AND 127))"
    have e: "varint32_loop bitpos r s =
        (if ?err then PB_IN_ERROR ''varint overflow'' s1
         else if c AND 0x80 \<noteq> 0 then varint32_loop (bitpos + 7) ?r s1 else (Some (bitpos + 7, ?r, c), s1))"
      by (subst varint32_loop.simps) (simp only: b Some prod.case option.case Let_def)
    show ?thesis
    proof (cases "\<not> ?err \<and> c AND 0x80 \<noteq> 0")
      case True
      then have "unat (bytes_left (snd (varint32_loop (bitpos + 7) ?r s1))) \<le> unat (bytes_left s1)"
        by (intro "1.IH" [OF b [symmetric] Some _ refl refl]) simp_all
      moreover have "varint32_loop bitpos r s = varint32_loop (bitpos + 7) ?r s1"
        using True by (simp only: e if_False if_True simp_thms)
      ultimately show ?thesis using 2 by simp
    next
      case False
      then have "bytes_left (snd (varint32_loop bitpos r s)) = bytes_left s1"
        unfolding e by (auto simp: PB_IN_ERROR_def)
      then show ?thesis using 2 by simp
    qed
  qed
qed

lemma shrinks_varint32_eof:
  assumes "pb_decode_varint32_eof s = (r, eof, s')"
  shows "unat (bytes_left s') \<le> unat (bytes_left s) \<and> (r \<noteq> None \<longrightarrow> unat (bytes_left s') < unat (bytes_left s))"
proof -
  obtain b s1 where b: "pb_readbyte s = (b, s1)" by fastforce
  note 1 = shrinksD [OF shrinks_readbyte b]
  show ?thesis
  proof (cases "\<exists>c. b = Some c \<and> c AND 0x80 \<noteq> 0")
    case True
    then obtain c where c: "b = Some c" "c AND 0x80 \<noteq> 0" by auto
    obtain q s2 where q: "varint32_loop 7 (ucast (c AND 0x7f)) s1 = (q, s2)" by fastforce
    have "unat (bytes_left s2) \<le> unat (bytes_left s1)" using shrinks_varint32_loop [of 7 "ucast (c AND 0x7f)" s1] q by simp
    moreover have "bytes_left s' = bytes_left s2"
      using assms by (auto simp: pb_decode_varint32_eof_def b c q PB_IN_ERROR_def split: option.splits prod.splits if_splits)
    ultimately show ?thesis using 1 c by simp
  next
    case False
    then have "bytes_left s' = bytes_left s1" using assms by (auto simp: pb_decode_varint32_eof_def b split: option.splits if_splits)
    moreover have "r \<noteq> None \<longrightarrow> b \<noteq> None" using assms by (cases b) (auto simp: pb_decode_varint32_eof_def b)
    ultimately show ?thesis using 1 by simp
  qed
qed

lemma shrinks_decode_varint32: "shrinks True pb_decode_varint32"
  unfolding shrinks_def
proof
  fix s :: "'a pb_istream"
  obtain r eof s' where e: "pb_decode_varint32_eof s = (r, eof, s')" by (metis prod_cases3)
  show "unat (bytes_left (snd (pb_decode_varint32 s))) \<le> unat (bytes_left s) \<and>
      (True \<longrightarrow> fst (pb_decode_varint32 s) \<noteq> None \<longrightarrow> unat (bytes_left (snd (pb_decode_varint32 s))) < unat (bytes_left s))"
    using shrinks_varint32_eof [OF e] by (simp add: pb_decode_varint32_def e)
qed

lemma shrinks_decode_tag:
  assumes "pb_decode_tag s = (r, eof, s')"
  shows "unat (bytes_left s') \<le> unat (bytes_left s) \<and> (r \<noteq> None \<longrightarrow> unat (bytes_left s') < unat (bytes_left s))"
proof -
  obtain q eof1 s1 where e: "pb_decode_varint32_eof s = (q, eof1, s1)" by (metis prod_cases3)
  have "s' = s1" "r \<noteq> None \<longrightarrow> q \<noteq> None" using assms by (auto simp: pb_decode_tag_def e split: option.splits if_splits)
  then show ?thesis using shrinks_varint32_eof [OF e] by simp
qed

lemma shrinks_skip_varint: "unat (bytes_left (snd (pb_skip_varint s))) \<le> unat (bytes_left s)"
proof (induction s rule: pb_skip_varint.induct)
  case (1 s)
  obtain r s1 where r: "pb_read_buf 1 s = (r, s1)" by fastforce
  note 2 = shrinksD(1) [OF shrinks_read_buf r]
  show ?case
  proof (cases r)
    case None
    then show ?thesis using 2 by (subst pb_skip_varint.simps) (simp add: r)
  next
    case (Some b)
    show ?thesis using 2 "1.IH" [of r s1 b] r Some by (subst pb_skip_varint.simps) auto
  qed
qed

lemma shrinks_skip_string: "shrinks False pb_skip_string"
  unfolding pb_skip_string_def by (rule shrinks_weaken [OF shrinks_andthen [OF shrinks_decode_varint32 shrinks_read_null]])

lemma shrinks_skip_varint': "shrinks False pb_skip_varint"
  unfolding shrinks_def by (simp add: shrinks_skip_varint)

lemma shrinks_skip_field: "shrinks False (pb_skip_field wt)"
  by (simp add: pb_skip_field_def shrinks_read_null shrinks_error shrinks_skip_string shrinks_skip_varint')

lemma shrinks_svarint: "shrinks True pb_decode_svarint"
  unfolding pb_decode_svarint_def by (rule shrinks_map [OF shrinks_decode_varint])

lemma shrinks_fixed32: "shrinks True pb_decode_fixed32"
  unfolding pb_decode_fixed32_def using shrinks_map [OF shrinks_read_buf [of 4]] by simp

lemma shrinks_fixed64: "shrinks True pb_decode_fixed64"
  unfolding pb_decode_fixed64_def using shrinks_map [OF shrinks_read_buf [of 8]] by simp

lemma shrinks_make_substream: "shrinks True pb_make_string_substream"
proof -
  have "shrinks False (\<lambda>stream. if bytes_left stream < ucast sz then PB_IN_ERROR ''parent stream too short'' stream
       else (Some (stream\<lparr>bytes_left := ucast sz\<rparr>), stream\<lparr>bytes_left := bytes_left stream - ucast sz\<rparr>))" for sz :: u32
    by (auto simp: shrinks_def PB_IN_ERROR_def not_less word_le_nat_alt unat_sub)
  from shrinks_andthen [OF shrinks_decode_varint32 this] show ?thesis by (simp add: pb_make_string_substream_def)
qed

section \<open>Readers\<close>

text \<open>
  A reader takes bytes off the stream, at least one when it is strict and succeeds, and moves
  forward in a memory buffer by no more than it takes off \<open>bytes_left\<close> (\<open>consumer\<close>).
\<close>

definition moved :: "'s pb_istream \<Rightarrow> 's pb_istream \<Rightarrow> bool" where
  "moved s s' \<longleftrightarrow>
     (\<forall>m. src s = Memory m \<longrightarrow> (\<exists>k. src s' = Memory (drop k m) \<and> k + unat (bytes_left s') \<le> unat (bytes_left s)))"

lemma moved_refl: "moved s s"
  unfolding moved_def by (intro allI impI exI [of _ 0]) simp

lemma moved_trans: "moved s t \<Longrightarrow> moved t u \<Longrightarrow> moved s u"
  unfolding moved_def
proof (intro allI impI)
  fix m
  assume 1: "\<forall>m. src s = Memory m \<longrightarrow> (\<exists>k. src t = Memory (drop k m) \<and> k + unat (bytes_left t) \<le> unat (bytes_left s))"
    and 2: "\<forall>m. src t = Memory m \<longrightarrow> (\<exists>k. src u = Memory (drop k m) \<and> k + unat (bytes_left u) \<le> unat (bytes_left t))"
    and m: "src s = Memory m"
  from 1 m obtain k where k: "src t = Memory (drop k m)" "k + unat (bytes_left t) \<le> unat (bytes_left s)" by blast
  from 2 k(1) obtain j where "src u = Memory (drop (j + k) m)" "j + unat (bytes_left u) \<le> unat (bytes_left t)" by auto
  with k(2) show "\<exists>k. src u = Memory (drop k m) \<and> k + unat (bytes_left u) \<le> unat (bytes_left s)"
    by (intro exI [of _ "j + k"]) simp
qed

lemma moved_error: "moved s (s\<lparr>in_errmsg := e\<rparr>)"
  unfolding moved_def by (intro allI impI exI [of _ 0]) simp

lemma consumer_moved: "consumer f \<longleftrightarrow> (\<forall>s. moved s (snd (f s)))"
  by (auto simp: consumer_def moved_def)

definition reader :: "bool \<Rightarrow> ('s pb_istream, 'a) op \<Rightarrow> bool" where
  "reader strict f \<longleftrightarrow> shrinks strict f \<and> consumer f"

lemma readerD: "reader strict f \<Longrightarrow> shrinks strict f" "reader strict f \<Longrightarrow> f s = (r, s') \<Longrightarrow> moved s s'"
  using consumer_moved [of f] by (simp_all add: reader_def) (metis snd_conv)

lemma reader_weaken: "reader strict f \<Longrightarrow> reader False f"
  unfolding reader_def using shrinks_weaken by blast

lemma consumer_varint: "consumer pb_decode_varint"
  unfolding pb_decode_varint_def by (rule consumer_varint64_loop)

lemma consumer_map: "consumer f \<Longrightarrow> consumer (andthen f (\<lambda>a. ret (g a)))"
  by (rule consumer_andthen [OF _ consumer_ret])

lemma consumer_numbers: "consumer pb_decode_svarint" "consumer pb_decode_fixed32" "consumer pb_decode_fixed64"
  unfolding pb_decode_svarint_def pb_decode_fixed32_def pb_decode_fixed64_def
  by (intro consumer_map consumer_varint consumer_read_buf)+

lemma consumer_make_substream: "consumer pb_make_string_substream"
proof -
  have "consumer (\<lambda>stream. if bytes_left stream < ucast sz then PB_IN_ERROR ''parent stream too short'' stream
       else (Some (stream\<lparr>bytes_left := ucast sz\<rparr>), stream\<lparr>bytes_left := bytes_left stream - ucast sz\<rparr>))" for sz :: u32
    unfolding consumer_moved moved_def
    by (intro allI impI exI [of _ 0]) (auto simp: PB_IN_ERROR_def not_less word_le_nat_alt unat_sub)
  from consumer_andthen [OF consumer_varint32 this] show ?thesis by (simp add: pb_make_string_substream_def)
qed

lemma reader_read_buf: "reader (count \<noteq> 0) (pb_read_buf count)"
  and reader_read_null: "reader False (pb_read_null count)"
  and reader_decode_varint: "reader True pb_decode_varint"
  and reader_decode_varint32: "reader True pb_decode_varint32"
  and reader_svarint: "reader True pb_decode_svarint"
  and reader_fixed32: "reader True pb_decode_fixed32"
  and reader_fixed64: "reader True pb_decode_fixed64"
  and reader_skip_field: "reader False (pb_skip_field wt)"
  and reader_make_substream: "reader True pb_make_string_substream"
  by (simp_all add: reader_def shrinks_read_buf shrinks_read_null shrinks_decode_varint shrinks_decode_varint32 shrinks_svarint
      shrinks_fixed32 shrinks_fixed64 shrinks_skip_field shrinks_make_substream consumer_read_buf consumer_read_null
      consumer_varint consumer_varint32 consumer_numbers consumer_skip_field consumer_make_substream)

text \<open>The tag is read by the loop of \<open>pb_decode_varint32\<close>, which also says whether the stream was at its end.\<close>

lemma moved_varint32_eof:
  assumes "pb_decode_varint32_eof s = (r, eof, s')"
  shows "moved s s'"
proof -
  have "snd (pb_decode_varint32 s) = s'" using assms by (simp add: pb_decode_varint32_def)
  then show ?thesis using consumer_varint32 unfolding consumer_moved by metis
qed

lemma moved_decode_tag:
  assumes "pb_decode_tag s = (r, eof, s')"
  shows "moved s s'"
proof -
  obtain q eof1 s1 where e: "pb_decode_varint32_eof s = (q, eof1, s1)" by (metis prod_cases3)
  have "s' = s1" using assms by (auto simp: pb_decode_tag_def e split: option.splits if_splits)
  then show ?thesis using moved_varint32_eof [OF e] by simp
qed

text \<open>The substream shares the source of its parent, which gives it a part of its bytes.\<close>

lemma make_substream_moves:
  assumes "pb_make_string_substream s = (Some sub, s')" and "src s = Memory m"
  shows "\<exists>k. src s' = Memory (drop k m) \<and> src sub = Memory (drop k m) \<and>
    k + unat (bytes_left sub) + unat (bytes_left s') \<le> unat (bytes_left s)"
proof -
  obtain r s1 where v: "pb_decode_varint32 s = (r, s1)" by fastforce
  from consumer.moves [OF consumer_varint32 assms(2)] v obtain k where k: "src s1 = Memory (drop k m)"
    "k + unat (bytes_left s1) \<le> unat (bytes_left s)" by auto
  obtain sz where "r = Some sz" "\<not> bytes_left s1 < ucast sz" "sub = s1\<lparr>bytes_left := ucast sz\<rparr>"
    "s' = s1\<lparr>bytes_left := bytes_left s1 - ucast sz\<rparr>"
    using assms(1) v by (auto simp: pb_make_string_substream_def andthen_def PB_IN_ERROR_def split: option.splits if_splits)
  then show ?thesis using k by (intro exI [of _ k]) (simp add: not_less word_le_nat_alt unat_sub)
qed

section \<open>Safe operations\<close>

text \<open>
  \<open>D\<close> are the addresses that are mapped, \<open>W\<close> those that may be written. A safe operation is
  always defined, changes nothing outside of \<open>W\<close>, neither allocates nor frees, and does not give
  bytes back to the stream; if it is strict, its success takes a byte.
\<close>

definition region :: "u64 \<Rightarrow> nat \<Rightarrow> u64 set" where
  "region a n = set (map (\<lambda>i. a + word_of_nat i) [0..<n])"

lemma region_0 [simp]: "region a 0 = {}"
  by (simp add: region_def)

lemma region_Suc: "region a (Suc n) = insert a (region (a + 1) n)"
  by (simp add: region_def upt_conv_Cons map_Suc_upt [symmetric] ac_simps image_image del: upt_Suc)

lemma region_mono: "k \<le> n \<Longrightarrow> region a k \<subseteq> region a n"
  by (auto simp: region_def)

lemma region_add: "region a (k + n) = region a k \<union> region (a + word_of_nat k) n"
proof (induction k arbitrary: a)
  case (Suc k)
  have "a + 1 + word_of_nat k = a + word_of_nat (Suc k)" by simp
  then show ?case using Suc [of "a + 1"] by (simp add: region_Suc add.assoc)
qed simp

definition within :: "u64 set \<Rightarrow> u64 set \<Rightarrow> 's pb_state \<Rightarrow> 's pb_state \<Rightarrow> bool" where
  "within D W s s' \<longleftrightarrow> dom (mem s') = D \<and> (\<forall>x. x \<notin> W \<longrightarrow> mem s' x = mem s x) \<and> blocks s' = blocks s \<and>
     unat (bytes_left (input s')) \<le> unat (bytes_left (input s)) \<and> moved (input s) (input s')"

definition safe :: "u64 set \<Rightarrow> u64 set \<Rightarrow> bool \<Rightarrow> ('s pb_state, 'a) mop \<Rightarrow> ('a \<Rightarrow> bool) \<Rightarrow> bool" where
  "safe D W strict M Q \<longleftrightarrow>
     (\<forall>s. W \<subseteq> D \<longrightarrow> dom (mem s) = D \<longrightarrow>
        (\<exists>r s'. M s = Some (r, s') \<and> within D W s s' \<and>
           (\<forall>a. r = Some a \<longrightarrow> Q a \<and> (strict \<longrightarrow> unat (bytes_left (input s')) < unat (bytes_left (input s))))))"

lemma safeE:
  assumes "safe D W strict M Q" and "W \<subseteq> D" and "dom (mem s) = D"
  obtains r s' where "M s = Some (r, s')" and "within D W s s'" and "\<And>a. r = Some a \<Longrightarrow> Q a"
    and "\<And>a. r = Some a \<Longrightarrow> strict \<Longrightarrow> unat (bytes_left (input s')) < unat (bytes_left (input s))"
  using assms(1) [unfolded safe_def, rule_format, OF assms(2,3)] by blast

lemma within_trans: "within D W s t \<Longrightarrow> within D W t u \<Longrightarrow> within D W s u"
  unfolding within_def by (intro conjI) (auto elim: moved_trans)

lemma within_refl: "dom (mem s) = D \<Longrightarrow> within D W s s"
  by (simp add: within_def moved_refl)

lemma safe_then:
  assumes M: "safe D W p M P" and N: "\<And>a. P a \<Longrightarrow> safe D W q (N a) Q"
  shows "safe D W (p \<or> q) (mthen M N) Q"
  unfolding safe_def
proof (intro allI impI)
  fix s :: "'a pb_state"
  assume D: "W \<subseteq> D" "dom (mem s) = D"
  from M D obtain r s1 where 1: "M s = Some (r, s1)" "within D W s s1" "\<And>a. r = Some a \<Longrightarrow> P a"
    "\<And>a. r = Some a \<Longrightarrow> p \<Longrightarrow> unat (bytes_left (input s1)) < unat (bytes_left (input s))" by (rule safeE) blast
  show "\<exists>r s'. mthen M N s = Some (r, s') \<and> within D W s s' \<and>
      (\<forall>a. r = Some a \<longrightarrow> Q a \<and> (p \<or> q \<longrightarrow> unat (bytes_left (input s')) < unat (bytes_left (input s))))"
  proof (cases r)
    case None
    then show ?thesis using 1 by (simp add: mthen_def)
  next
    case (Some a)
    have "dom (mem s1) = D" using 1(2) by (simp add: within_def)
    from N [OF 1(3) [OF Some]] D(1) this obtain r' s2 where 2: "N a s1 = Some (r', s2)" "within D W s1 s2"
      "\<And>b. r' = Some b \<Longrightarrow> Q b" "\<And>b. r' = Some b \<Longrightarrow> q \<Longrightarrow> unat (bytes_left (input s2)) < unat (bytes_left (input s1))"
      by (rule safeE) blast
    have le: "unat (bytes_left (input s1)) \<le> unat (bytes_left (input s))" "unat (bytes_left (input s2)) \<le> unat (bytes_left (input s1))"
      using 1(2) 2(2) by (simp_all add: within_def)
    have "unat (bytes_left (input s2)) < unat (bytes_left (input s))" if "r' = Some b" "p \<or> q" for b
      using that(2)
    proof
      assume p
      then show ?thesis using 1(4) [OF Some] le by linarith
    next
      assume q
      then show ?thesis using 2(4) [OF that(1)] le by linarith
    qed
    then show ?thesis using 1 2 Some within_trans [OF 1(2) 2(2)] by (auto simp: mthen_def)
  qed
qed

lemma safe_weaken: "safe D W p M P \<Longrightarrow> (\<And>a. P a \<Longrightarrow> Q a) \<Longrightarrow> safe D W False M Q"
  unfolding safe_def by blast

lemma safe_ret: "Q a \<Longrightarrow> safe D W False (lift (ret a)) Q"
  by (simp add: safe_def lift_def ret_def within_refl)

lemma safe_stream':
  "reader p f \<Longrightarrow> (\<And>s a s'. f s = (Some a, s') \<Longrightarrow> Q a) \<Longrightarrow> safe D W p (on_stream f) Q"
  unfolding safe_def
proof (intro allI impI)
  fix s :: "'a pb_state"
  assume f: "reader p f" and Q: "\<And>s a s'. f s = (Some a, s') \<Longrightarrow> Q a" and D: "dom (mem s) = D"
  obtain r i where i: "f (input s) = (r, i)" by fastforce
  show "\<exists>r s'. on_stream f s = Some (r, s') \<and> within D W s s' \<and>
      (\<forall>a. r = Some a \<longrightarrow> Q a \<and> (p \<longrightarrow> unat (bytes_left (input s')) < unat (bytes_left (input s))))"
    using shrinksD [OF readerD(1) [OF f] i] readerD(2) [OF f i] Q [of "input s" _ i] i D by (simp add: on_stream_def within_def)
qed

lemma safe_stream: "reader p f \<Longrightarrow> safe D W p (on_stream f) (\<lambda>_. True)"
  by (erule safe_stream') simp

lemma safe_error: "safe D W p (pb_error msg) Q"
  by (auto simp: safe_def pb_error_def on_stream_def PB_IN_ERROR_def within_def moved_error)

lemma safe_read:
  assumes "\<And>m. dom m = D \<Longrightarrow> \<exists>v. f m = Some v \<and> R v" and "\<And>v. R v \<Longrightarrow> safe D W p (g v) Q"
  shows "safe D W p (mread f g) Q"
  unfolding safe_def
proof (intro allI impI)
  fix s :: "'b pb_state"
  assume D: "W \<subseteq> D" "dom (mem s) = D"
  from assms(1) [OF D(2)] obtain v where v: "f (mem s) = Some v" "R v" by blast
  from assms(2) [OF v(2)] D show "\<exists>r s'. mread f g s = Some (r, s') \<and> within D W s s' \<and>
      (\<forall>a. r = Some a \<longrightarrow> Q a \<and> (p \<longrightarrow> unat (bytes_left (input s')) < unat (bytes_left (input s))))"
    unfolding mread_def v option.case by (rule safeE) blast
qed

section \<open>Memory\<close>

lemma load_defined: "region a n \<subseteq> dom m \<Longrightarrow> \<exists>bs. load m a n = Some bs \<and> length bs = n"
proof (induction n arbitrary: a)
  case (Suc n)
  then obtain b bs where "m a = Some b" "load m (a + 1) n = Some bs" "length bs = n" by (fastforce simp: region_Suc)
  then show ?case by simp
qed simp

lemma load32_defined: "region a 4 \<subseteq> dom m \<Longrightarrow> \<exists>v. load32 m a = Some v"
  using load_defined [of a 4 m] by (auto simp: load32_def)

lemma store_defined:
  "region a (length bs) \<subseteq> dom m \<Longrightarrow>
   \<exists>m'. store m a bs = Some m' \<and> dom m' = dom m \<and> (\<forall>x. x \<notin> region a (length bs) \<longrightarrow> m' x = m x)"
proof (induction bs arbitrary: m a)
  case (Cons b bs)
  have a: "a \<in> dom m" "region (a + 1) (length bs) \<subseteq> dom m" using Cons.prems by (simp_all add: region_Suc)
  then have dom: "dom (m(a \<mapsto> b)) = dom m" by auto
  from Cons.IH [of "a + 1" "m(a \<mapsto> b)", unfolded dom, OF a(2)]
  obtain m' where m': "store (m(a \<mapsto> b)) (a + 1) bs = Some m'" "dom m' = dom m"
    "\<forall>x. x \<notin> region (a + 1) (length bs) \<longrightarrow> m' x = (m(a \<mapsto> b)) x" by blast
  show ?case using a(1) m' by (auto simp: region_Suc)
qed simp

lemma safe_write:
  assumes "region a (length bs) \<subseteq> W"
  shows "safe D W False (mwrite a bs) (\<lambda>_. True)"
  unfolding safe_def
proof (intro allI impI)
  fix s :: "'a pb_state"
  assume D: "W \<subseteq> D" "dom (mem s) = D"
  then have "region a (length bs) \<subseteq> dom (mem s)" using assms by blast
  from store_defined [OF this] obtain m' where "store (mem s) a bs = Some m'" "dom m' = dom (mem s)"
    "\<forall>x. x \<notin> region a (length bs) \<longrightarrow> m' x = mem s x" by blast
  then show "\<exists>r s'. mwrite a bs s = Some (r, s') \<and> within D W s s' \<and>
      (\<forall>a. r = Some a \<longrightarrow> True \<and> (False \<longrightarrow> unat (bytes_left (input s')) < unat (bytes_left (input s))))"
    using D assms by (auto simp: mwrite_def within_def moved_refl)
qed

lemma read_buf_length: "pb_read_buf count s = (Some bs, s') \<Longrightarrow> length bs \<le> unat count"
  by (cases "src s") (auto simp: pb_read_buf_def PB_IN_ERROR_def split: if_splits prod.splits sum.splits)

lemma safe_read_mem:
  assumes "region a (unat count) \<subseteq> W"
  shows "safe D W False (pb_read_mem a count) (\<lambda>_. True)"
proof (cases "a = 0")
  case True
  then show ?thesis by (simp add: pb_read_mem_def safe_stream reader_read_null)
next
  case False
  have "safe D W (False \<or> False) (mthen (on_stream (pb_read_buf count)) (\<lambda>bs. mwrite a bs)) (\<lambda>_. True)"
  proof (rule safe_then)
    show "safe D W False (on_stream (pb_read_buf count)) (\<lambda>bs. length bs \<le> unat count)"
      by (rule safe_stream' [OF reader_weaken [OF reader_read_buf]]) (rule read_buf_length)
    show "safe D W False (mwrite a bs) (\<lambda>_. True)" if "length bs \<le> unat count" for bs
      using region_mono [OF that, of a] assms by (intro safe_write) blast
  qed
  then show ?thesis using False by (simp add: pb_read_mem_def)
qed

section \<open>Layouts\<close>

text \<open>
  A member at \<open>p\<close> for a value of the field \<open>f\<close>; \<open>sub\<close> says that a message has its structure at
  an address.
\<close>

definition value_layout ::
  "(u64 \<Rightarrow> pb_field list option) \<Rightarrow> u64 set \<Rightarrow> (pb_field list \<Rightarrow> u64 \<Rightarrow> bool) \<Rightarrow> pb_field \<Rightarrow> u64 \<Rightarrow> bool" where
  "value_layout tab W sub f p \<longleftrightarrow>
     (let ltype = PB_LTYPE (type f) in
      region p (unat (data_size f)) \<subseteq> W \<and>
      (ltype = 0x00 \<longrightarrow> p \<in> W) \<and>
      (ltype = 0x04 \<longrightarrow> region p 4 \<subseteq> W) \<and>
      (ltype = 0x05 \<longrightarrow> region p 8 \<subseteq> W) \<and>
      (ltype = 0x08 \<longrightarrow> ptr f \<noteq> 0 \<and> (case tab (ptr f) of None \<Rightarrow> False | Some descrs \<Rightarrow> sub descrs p)))"

text \<open>
  A static field at \<open>p\<close> with its size or presence member at \<open>z\<close>, and what its default value is
  copied from.
\<close>

definition field_layout ::
  "(u64 \<Rightarrow> pb_field list option) \<Rightarrow> u64 set \<Rightarrow> u64 set \<Rightarrow> (pb_field list \<Rightarrow> u64 \<Rightarrow> bool) \<Rightarrow> pb_field \<Rightarrow> u64 \<Rightarrow> u64 \<Rightarrow> bool" where
  "field_layout tab D W sub f p z \<longleftrightarrow>
     (let htype = PB_HTYPE (type f); ltype = PB_LTYPE (type f) in
      PB_ATYPE (type f) = 0x00 \<and> ltype \<noteq> 0x09 \<and> ltype \<le> 0x0a \<and>
      (ltype \<noteq> 0x08 \<and> ptr f \<noteq> 0 \<longrightarrow> region (ptr f) (unat (data_size f)) \<subseteq> D) \<and>
      (htype \<noteq> 0x20 \<longrightarrow> value_layout tab W sub f p) \<and>
      (htype = 0x10 \<longrightarrow> z \<in> W) \<and>
      (htype = 0x20 \<or> htype = 0x30 \<longrightarrow> region z 4 \<subseteq> W) \<and>
      (htype = 0x20 \<longrightarrow>
         unat (data_size f) * unat (array_size f) < 2 ^ 32 \<and>
         (\<forall>k \<in> set [0..<unat (array_size f)]. value_layout tab W sub f (p + word_of_nat (unat (data_size f) * k)))))"

text \<open>
  A message of static fields whose structure is at \<open>a\<close>, with submessages to the \<open>depth\<close>. The
  terminator of a message without fields is taken for a field with the number 0.
\<close>

primrec static_layout ::
  "nat \<Rightarrow> (u64 \<Rightarrow> pb_field list option) \<Rightarrow> u64 set \<Rightarrow> u64 set \<Rightarrow> pb_field list \<Rightarrow> u64 \<Rightarrow> bool" where
  "static_layout 0 tab D W descrs a = False"
| "static_layout (Suc depth) tab D W descrs a \<longleftrightarrow>
     a \<noteq> 0 \<and> field_count descrs < length descrs \<and>
     (\<forall>i \<in> set [0..<max 1 (field_count descrs)].
        field_layout tab D W (static_layout depth tab D W) (descrs ! i) (a + data_at descrs i) (a + size_at descrs i))"

section \<open>Single values\<close>

lemma safe_then_strict: "safe D W True M P \<Longrightarrow> (\<And>a. P a \<Longrightarrow> safe D W False (N a) Q) \<Longrightarrow> safe D W True (mthen M N) Q"
  using safe_then [of D W True M P False N Q] by simp

lemma safe_then_lax: "safe D W False M P \<Longrightarrow> (\<And>a. P a \<Longrightarrow> safe D W False (N a) Q) \<Longrightarrow> safe D W False (mthen M N) Q"
  using safe_then [of D W False M P False N Q] by simp

lemma length_replicate_region: "region a n \<subseteq> W \<Longrightarrow> region a (length (replicate n x)) \<subseteq> W"
  by simp

lemma safe_store_checked:
  assumes "region p (unat (data_size f)) \<subseteq> W"
  shows "safe D W False (store_checked f c v p) (\<lambda>_. True)"
proof (cases c)
  case (Some x)
  have "safe D W False (mthen (mwrite p (le_bytes (unat (data_size f)) (unat x))) (\<lambda>_.
            if x \<noteq> v then pb_error ''integer too large'' else lift (ret ()))) (\<lambda>_. True)"
  proof (rule safe_then_lax)
    show "safe D W False (mwrite p (le_bytes (unat (data_size f)) (unat x))) (\<lambda>_. True)"
      by (rule safe_write) (use assms in simp)
    show "safe D W False (if x \<noteq> v then pb_error ''integer too large'' else lift (ret ())) (\<lambda>_. True)"
      by (simp add: safe_error safe_ret)
  qed
  then show ?thesis by (simp add: store_checked_def Some)
qed (simp add: store_checked_def safe_error)

lemma safe_ints:
  assumes "region p (unat (data_size f)) \<subseteq> W"
  shows "safe D W True (dec_varint f p) (\<lambda>_. True)"
    and "safe D W True (dec_uvarint f p) (\<lambda>_. True)"
    and "safe D W True (dec_svarint f p) (\<lambda>_. True)"
  unfolding dec_varint_def dec_uvarint_def dec_svarint_def Let_def
  by (rule safe_then_strict [OF safe_stream]; simp add: reader_decode_varint reader_svarint safe_store_checked [OF assms])+

lemma safe_bool: "p \<in> W \<Longrightarrow> safe D W True (dec_bool p) (\<lambda>_. True)"
  unfolding dec_bool_def
  by (rule safe_then_strict [OF safe_stream [OF reader_decode_varint32]]) (rule safe_write, simp add: region_Suc)

lemma safe_fixed32: "region p 4 \<subseteq> W \<Longrightarrow> safe D W True (dec_fixed32 p) (\<lambda>_. True)"
  unfolding dec_fixed32_def
  by (rule safe_then_strict [OF safe_stream [OF reader_fixed32]]) (rule safe_write, simp)

lemma safe_fixed64: "region p 8 \<subseteq> W \<Longrightarrow> safe D W True (dec_fixed64 p) (\<lambda>_. True)"
  unfolding dec_fixed64_def
  by (rule safe_then_strict [OF safe_stream [OF reader_fixed64]]) (rule safe_write, simp)

lemma safe_bytes:
  assumes "PB_ATYPE (type f) = 0" and w: "region p (unat (data_size f)) \<subseteq> W"
  shows "safe D W False (dec_bytes env f p) (\<lambda>_. True)"
  unfolding dec_bytes_def
proof (rule safe_weaken [OF safe_then_strict [OF safe_stream [OF reader_decode_varint32]]])
  fix sz :: u32
  have b: "region p 4 \<subseteq> W" "region (p + 4) (unat sz) \<subseteq> W" if "\<not> ucast sz + 4 > (ucast (data_size f) :: u64)"
  proof -
    have "unat (ucast sz + 4 :: u64) = unat sz + 4"
      using u32_bound [of sz] by (subst unat_word_ariths(1)) simp
    then have "4 + unat sz \<le> unat (data_size f)" using that by (simp add: not_less word_le_nat_alt)
    then have "region p (4 + unat sz) \<subseteq> W" using region_mono w by blast
    then show "region p 4 \<subseteq> W" "region (p + 4) (unat sz) \<subseteq> W" by (simp_all add: region_add)
  qed
  have main: "safe D W False (mthen (mwrite p (le_bytes 4 (unat sz))) (\<lambda>_. pb_read_mem (p + 4) (ucast sz))) (\<lambda>_. True)"
    if "\<not> ucast sz + 4 > (ucast (data_size f) :: u64)"
    by (rule safe_then_lax [OF safe_write safe_read_mem]) (use b [OF that] in simp_all)
  show "safe D W False (let alloc_size = ucast sz + 4 in
       if ucast sz > alloc_size then pb_error ''size too large''
       else if PB_ATYPE (type f) = 0x80 then
         mthen (check_left sz) (\<lambda>_.
         mthen (allocate_field_mem env p alloc_size 1) (\<lambda>_.
           mread (\<lambda>m. load64 m p) (\<lambda>bdest.
             mthen (mwrite bdest (le_bytes 4 (unat sz))) (\<lambda>_. pb_read_mem (bdest + 4) (ucast sz)))))
       else if alloc_size > ucast (data_size f) then pb_error ''bytes overflow''
       else mthen (mwrite p (le_bytes 4 (unat sz))) (\<lambda>_. pb_read_mem (p + 4) (ucast sz))) (\<lambda>_. True)"
    by (auto simp: Let_def assms(1) intro: safe_error main)
qed simp

lemma nat_ucast: "word_of_nat (unat (sz :: u32)) = (ucast sz :: u64)"
proof -
  have "unat sz < 2 ^ 64" using u32_bound [of sz] by simp
  then show ?thesis by (simp only: word_eq_iff_unat unat_word_of_nat_64) simp
qed

lemma safe_read_string:
  assumes "region p (unat sz + 1) \<subseteq> W"
  shows "safe D W False (read_string p sz) (\<lambda>_. True)"
  unfolding safe_def
proof (intro allI impI)
  fix s :: "'a pb_state"
  assume D: "W \<subseteq> D" "dom (mem s) = D"
  have p: "region p (unat sz) \<subseteq> W" "region (p + ucast sz) 1 \<subseteq> W"
    using assms unfolding region_add nat_ucast by simp_all
  have "safe D W False (pb_read_mem p (ucast sz)) (\<lambda>_. True)" by (rule safe_read_mem) (use p in simp)
  from this D obtain r s1 where 1: "pb_read_mem p (ucast sz) s = Some (r, s1)" "within D W s s1" by (rule safeE) blast
  have w: "safe D W False (mwrite (p + ucast sz) [0]) (\<lambda>_. True)" by (rule safe_write) (use p(2) in simp)
  have "dom (mem s1) = D" using 1(2) by (simp add: within_def)
  from w D(1) this obtain q s2 where 2: "mwrite (p + ucast sz) [0] s1 = Some (q, s2)" "within D W s1 s2" by (rule safeE) blast
  then have "q = Some ()" by (auto simp: mwrite_def)
  then show "\<exists>r s'. read_string p sz s = Some (r, s') \<and> within D W s s' \<and>
      (\<forall>a. r = Some a \<longrightarrow> True \<and> (False \<longrightarrow> unat (bytes_left (input s')) < unat (bytes_left (input s))))"
    using 1 2 within_trans [OF 1(2) 2(2)] by (simp add: read_string_def mthen_def)
qed

lemma safe_string:
  assumes "PB_ATYPE (type f) = 0" and w: "region p (unat (data_size f)) \<subseteq> W"
  shows "safe D W False (dec_string env f p) (\<lambda>_. True)"
  unfolding dec_string_def
proof (rule safe_weaken [OF safe_then_strict [OF safe_stream [OF reader_decode_varint32]]])
  fix sz :: u32
  have main: "safe D W False (read_string p sz) (\<lambda>_. True)"
    if "\<not> ucast (sz + 1) < (ucast sz :: u64)" "\<not> ucast (sz + 1) > (ucast (data_size f) :: u64)"
  proof (rule safe_read_string)
    have "unat sz \<le> unat (sz + 1)" "unat (sz + 1) \<le> unat (data_size f)"
      using that by (simp_all add: not_less word_le_nat_alt)
    moreover from this have "unat (sz + 1) = unat sz + 1" using u32_bound [of sz]
      by (cases "unat sz + 1 = 2 ^ 32") (simp_all add: unat_word_ariths(1) [of sz 1])
    ultimately show "region p (unat sz + 1) \<subseteq> W" using w region_mono by fastforce
  qed
  show "safe D W False (let alloc_size = ucast (sz + 1) in
       if alloc_size < ucast sz then pb_error ''size too large''
       else if PB_ATYPE (type f) = 0x80 then
         mthen (check_left sz) (\<lambda>_.
         mthen (allocate_field_mem env p alloc_size 1) (\<lambda>_.
           mread (\<lambda>m. load64 m p) (\<lambda>dest. read_string dest sz)))
       else if alloc_size > ucast (data_size f) then pb_error ''string overflow''
       else read_string p sz) (\<lambda>_. True)"
    by (auto simp: Let_def assms(1) intro: safe_error main)
qed simp

lemma safe_fixed_length_bytes:
  assumes w: "region p (unat (data_size f)) \<subseteq> W"
  shows "safe D W False (dec_fixed_length_bytes f p) (\<lambda>_. True)"
  unfolding dec_fixed_length_bytes_def
proof (rule safe_weaken [OF safe_then_strict [OF safe_stream [OF reader_decode_varint32]]])
  show "safe D W False (if sz = 0 then mwrite p (replicate (unat (data_size f)) 0)
       else if sz \<noteq> data_size f then pb_error ''incorrect fixed length bytes size''
       else pb_read_mem p (ucast (data_size f))) (\<lambda>_. True)" for sz
    using w by (auto intro!: safe_error safe_write safe_read_mem)
qed simp

section \<open>Substreams\<close>

text \<open>
  Closing gives the parent the source of the substream, moved over what the substream had left;
  a failure to read that leaves the parent as it is.
\<close>

definition closed_over :: "'s pb_istream \<Rightarrow> 's pb_istream \<Rightarrow> 's pb_istream \<Rightarrow> bool" where
  "closed_over stream sub y \<longleftrightarrow> bytes_left y = bytes_left stream \<and>
     (src y = src stream \<or> (\<exists>sub'. moved sub sub' \<and> src y = src sub'))"

lemma close_substream_cases:
  "\<exists>r y. close_substream stream status s = Some (r, s\<lparr>input := y\<rparr>) \<and> closed_over stream (input s) y"
proof -
  obtain c sub' where c: "(if bytes_left (input s) \<noteq> 0 then pb_read_null (bytes_left (input s)) (input s) else (Some (), input s)) = (c, sub')"
    by fastforce
  have mv: "moved (input s) sub'" using c readerD(2) [OF reader_read_null] by (auto simp: moved_refl split: if_splits)
  show ?thesis
  proof (cases c)
    case None
    then have "close_substream stream status s = Some (None, s\<lparr>input := stream\<rparr>)"
      by (simp add: close_substream_def pb_close_string_substream_def c)
    then show ?thesis by (intro exI conjI) (assumption, simp add: closed_over_def)
  next
    case (Some u)
    then have "close_substream stream status s = Some (status, s\<lparr>input := stream\<lparr>src := src sub', in_errmsg := in_errmsg sub'\<rparr>\<rparr>)"
      by (simp add: close_substream_def pb_close_string_substream_def c)
    then show ?thesis using mv by (intro exI conjI) (assumption, auto simp: closed_over_def)
  qed
qed

lemma closed_over_moved:
  assumes mk: "pb_make_string_substream s = (Some sub, stream)" and sub: "moved sub sub1" and y: "closed_over stream sub1 y"
  shows "moved s y"
  unfolding moved_def
proof (intro allI impI)
  fix m assume "src s = Memory m"
  from make_substream_moves [OF mk this] obtain k where k: "src stream = Memory (drop k m)" "src sub = Memory (drop k m)"
    "k + unat (bytes_left sub) + unat (bytes_left stream) \<le> unat (bytes_left s)" by blast
  have left: "bytes_left y = bytes_left stream" using y by (simp add: closed_over_def)
  from y consider "src y = src stream" | sub' where "moved sub1 sub'" "src y = src sub'" by (auto simp: closed_over_def)
  then show "\<exists>k. src y = Memory (drop k m) \<and> k + unat (bytes_left y) \<le> unat (bytes_left s)"
  proof cases
    case 1
    then show ?thesis using k left by (intro exI [of _ k]) simp
  next
    case 2
    have "moved sub sub'" using moved_trans [OF sub 2(1)] .
    then obtain j where "src sub' = Memory (drop (j + k) m)" "j + unat (bytes_left sub') \<le> unat (bytes_left sub)"
      using k(2) unfolding moved_def by auto
    then show ?thesis using 2 k left by (intro exI [of _ "j + k"]) simp
  qed
qed

text \<open>An operation that gets a substream and goes on with the rest of the stream.\<close>

lemma safe_on_substream:
  assumes "\<And>sub s. W \<subseteq> D \<Longrightarrow> dom (mem s) = D \<Longrightarrow> \<exists>r s' y. body sub s = Some (r, s'\<lparr>input := y\<rparr>) \<and>
      within D W (s\<lparr>input := sub\<rparr>) s' \<and> closed_over (input s) (input s') y"
  shows "safe D W True (mthen (on_stream pb_make_string_substream) body) (\<lambda>_ :: unit. True)"
  unfolding safe_def
proof (intro allI impI)
  fix s :: "'a pb_state"
  assume D: "W \<subseteq> D" "dom (mem s) = D"
  obtain q stream where mk: "pb_make_string_substream (input s) = (q, stream)" by fastforce
  note left = shrinksD [OF readerD(1) [OF reader_make_substream] mk] and mv = readerD(2) [OF reader_make_substream mk]
  show "\<exists>r s'. mthen (on_stream pb_make_string_substream) body s = Some (r, s') \<and> within D W s s' \<and>
      (\<forall>a. r = Some a \<longrightarrow> True \<and> (True \<longrightarrow> unat (bytes_left (input s')) < unat (bytes_left (input s))))"
  proof (cases q)
    case None
    then show ?thesis using mk left mv D by (simp add: mthen_def on_stream_def within_def)
  next
    case (Some sub)
    have "dom (mem (s\<lparr>input := stream\<rparr>)) = D" using D by simp
    from assms [OF D(1) this, of sub] obtain r s' y where 1: "body sub (s\<lparr>input := stream\<rparr>) = Some (r, s'\<lparr>input := y\<rparr>)"
      "within D W (s\<lparr>input := sub\<rparr>) s'" "closed_over stream (input s') y" by auto
    have "moved sub (input s')" using 1(2) by (simp add: within_def)
    then have "moved (input s) y" using closed_over_moved [OF mk [unfolded Some]] 1(3) by blast
    moreover have "bytes_left y = bytes_left stream" using 1(3) by (simp add: closed_over_def)
    ultimately show ?thesis using 1 mk Some left by (simp add: mthen_def on_stream_def within_def)
  qed
qed

lemma safe_in_substream:
  assumes body: "safe D W False body (\<lambda>_. True)"
  shows "safe D W True (in_substream body) (\<lambda>_. True)"
  unfolding in_substream_def
proof (rule safe_on_substream)
  fix sub and s :: "'a pb_state"
  assume "W \<subseteq> D" "dom (mem s) = D"
  then have D: "W \<subseteq> D" "dom (mem (s\<lparr>input := sub\<rparr>)) = D" by simp_all
  from body D obtain status s' where 1: "body (s\<lparr>input := sub\<rparr>) = Some (status, s')" "within D W (s\<lparr>input := sub\<rparr>) s'"
    by (rule safeE) blast
  show "\<exists>r s' y. (case body (s\<lparr>input := sub\<rparr>) of None \<Rightarrow> None | Some (status, s') \<Rightarrow> close_substream (input s) status s') =
        Some (r, s'\<lparr>input := y\<rparr>) \<and> within D W (s\<lparr>input := sub\<rparr>) s' \<and> closed_over (input s) (input s') y"
    using close_substream_cases [of "input s" status s'] 1 by auto
qed

section \<open>The loop over packed entries\<close>

definition size_ok :: "u64 set \<Rightarrow> size_ref \<Rightarrow> bool" where
  "size_ok W r \<longleftrightarrow> (case r of At p \<Rightarrow> region p 4 \<subseteq> W | Local \<Rightarrow> True)"

lemma get_size_defined: "size_ok W r \<Longrightarrow> W \<subseteq> D \<Longrightarrow> dom (mem s) = D \<Longrightarrow> \<exists>n. get_size r s = Some n"
  by (cases r) (auto simp: size_ok_def intro!: load32_defined)

lemma safe_set_size: "size_ok W r \<Longrightarrow> safe D W False (set_size r n) (\<lambda>_. True)"
proof (cases r)
  case (At p)
  assume "size_ok W r"
  then have w: "region p (length (le_bytes 4 (unat n))) \<subseteq> W" by (simp add: size_ok_def At)
  have eq: "set_size r n = mwrite p (le_bytes 4 (unat n))" by (rule ext) (simp add: At)
  show ?thesis unfolding eq by (rule safe_write [OF w])
next
  case Local
  then show ?thesis by (simp add: safe_def within_def moved_refl)
qed

lemma safe_with_size:
  assumes "size_ok W r" and "\<And>n. safe D W p (g n) Q"
  shows "safe D W p (with_size r g) Q"
  unfolding safe_def
proof (intro allI impI)
  fix s :: "'a pb_state"
  assume D: "W \<subseteq> D" "dom (mem s) = D"
  from get_size_defined [OF assms(1) D] obtain n where n: "get_size r s = Some n" by blast
  from assms(2) [of n] D show "\<exists>q s'. with_size r g s = Some (q, s') \<and> within D W s s' \<and>
      (\<forall>a. q = Some a \<longrightarrow> Q a \<and> (p \<longrightarrow> unat (bytes_left (input s')) < unat (bytes_left (input s))))"
    unfolding with_size_def n option.case by (rule safeE) blast
qed

lemma packed_static_safe:
  assumes r: "size_ok W r" and func: "\<And>n. n < array_size field \<Longrightarrow> safe D W True (func (entry field p n)) (\<lambda>_. True)"
    and W: "W \<subseteq> D"
  shows "dom (mem s) = D \<Longrightarrow> \<exists>status s'. packed_static func field p r s = Some (status, s') \<and> within D W s s'"
proof (induction "unat (bytes_left (input s))" arbitrary: s rule: less_induct)
  case less
  from get_size_defined [OF r W less.prems] obtain n where n: "get_size r s = Some n" by blast
  show ?case
  proof (cases "bytes_left (input s) > 0 \<and> n < array_size field")
    case False
    then show ?thesis using n less.prems by (subst packed_static.simps) (auto simp: within_refl)
  next
    case True
    have "safe D W True (mthen (func (entry field p n)) (\<lambda>_. with_size r (\<lambda>n. set_size r (n + 1)))) (\<lambda>_. True)"
      using True func [of n] by (intro safe_then_strict safe_with_size [OF r] safe_set_size [OF r]) simp_all
    from this W less.prems obtain q s1 where 1: "mthen (func (entry field p n)) (\<lambda>_. with_size r (\<lambda>n. set_size r (n + 1))) s = Some (q, s1)"
      "within D W s s1" "\<And>a. q = Some a \<Longrightarrow> unat (bytes_left (input s1)) < unat (bytes_left (input s))"
      by (rule safeE) blast
    show ?thesis
    proof (cases q)
      case None
      then show ?thesis using True n 1 by (subst packed_static.simps) simp
    next
      case (Some a)
      have "dom (mem s1) = D" using 1(2) by (simp add: within_def)
      from less.hyps [OF 1(3) [OF Some] this] obtain status s' where
        "packed_static func field p r s1 = Some (status, s')" "within D W s1 s'" by blast
      then show ?thesis using True n 1 Some within_trans [OF 1(2)] by (subst packed_static.simps) auto
    qed
  qed
qed

lemma safe_decode_packed:
  assumes r: "size_ok W r" and func: "\<And>n. n < array_size field \<Longrightarrow> safe D W True (func (entry field p n)) (\<lambda>_. True)"
  shows "safe D W False (decode_packed func field p r) (\<lambda>_. True)"
  unfolding decode_packed_def
proof (rule safe_weaken [OF safe_on_substream])
  fix sub and s :: "'a pb_state"
  assume W: "W \<subseteq> D" and D: "dom (mem s) = D"
  have "dom (mem (s\<lparr>input := sub\<rparr>)) = D" using D by simp
  from packed_static_safe [where func = func and field = field and p = p, OF r func W this] obtain status s' where
    1: "packed_static func field p r (s\<lparr>input := sub\<rparr>) = Some (status, s')" "within D W (s\<lparr>input := sub\<rparr>) s'" by blast
  show "\<exists>q s' y. (case packed_static func field p r (s\<lparr>input := sub\<rparr>) of
          None \<Rightarrow> None
        | Some (status, s') \<Rightarrow>
            if bytes_left (input s') \<noteq> 0 then pb_error ''array overflow'' (s'\<lparr>input := input s\<rparr>)
            else close_substream (input s) status s') = Some (q, s'\<lparr>input := y\<rparr>) \<and>
      within D W (s\<lparr>input := sub\<rparr>) s' \<and> closed_over (input s) (input s') y"
  proof (cases "bytes_left (input s') = 0")
    case True
    then show ?thesis using close_substream_cases [of "input s" status s'] 1 by auto
  next
    case False
    then show ?thesis using 1 by (auto simp: pb_error_def on_stream_def PB_IN_ERROR_def closed_over_def intro!: exI [of _ s'])
  qed
qed simp

section \<open>The members that an iterator points to\<close>

lemma layout_message:
  assumes "static_layout d tab D W ds a"
  shows "message ds (field_count ds)" and "a \<noteq> 0"
  using assms field_count_message by (cases d; simp)+

lemma layout_field:
  assumes "static_layout (Suc d) tab D W ds a" and "iter_ok ds (field_count ds) a it"
  shows "field_layout tab D W (static_layout d tab D W) (the_field it) (pData it) (pSize it)"
  using assms by (simp add: iter_ok_def the_field_def)

lemma for_iter_safe:
  assumes m: "message ds n" and a: "a \<noteq> 0"
    and body: "\<And>it. iter_ok ds n a it \<Longrightarrow> safe D W False (body it) (\<lambda>_. True)"
  shows "iter_ok ds n a it \<Longrightarrow> pos it < n \<Longrightarrow> n - pos it \<le> k \<Longrightarrow> safe D W False (for_iter k body it) (\<lambda>_. True)"
proof (induction k arbitrary: it)
  case 0
  then show ?case by simp
next
  case (Suc k)
  obtain again it' where nx: "pb_field_iter_next it = (again, it')" by fastforce
  have inside: "\<not> pos it + 1 \<ge> length (start it)" using Suc.prems m by (simp add: message_def iter_ok_def)
  have "safe D W False (if again then for_iter k body it' else lift (ret ())) (\<lambda>_. True)"
  proof (cases "Suc (pos it) < n")
    case True
    then have n: "again" "pos it' = Suc (pos it)" "iter_ok ds n a it'"
      using iter_next_ok [OF m a Suc.prems(1)] by (simp_all add: nx)
    then show ?thesis using Suc.IH [OF n(3)] True Suc.prems by simp
  next
    case False
    then have "\<not> again" using iter_next_ok [OF m a Suc.prems(1)] by (simp add: nx)
    then show ?thesis by (simp add: safe_ret)
  qed
  from safe_then_lax [OF body [OF Suc.prems(1)] this]
  show ?case by (simp only: for_iter.simps nx prod.case if_not_P [OF inside])
qed

lemma for_message_safe:
  assumes m: "message ds n" and a: "a \<noteq> 0"
    and body: "\<And>it. iter_ok ds n a it \<Longrightarrow> safe D W False (body it) (\<lambda>_. True)"
  shows "safe D W False (for_message body ds a) (\<lambda>_. True)"
proof -
  obtain nonempty it where f: "pb_field_iter_begin ds a = (nonempty, it)" by fastforce
  have s: "iter_ok ds n a it" "nonempty \<longleftrightarrow> n \<noteq> 0" "pos it = 0"
    using iter_begin_ok [OF m a] f by (auto simp: pb_field_iter_begin_def Let_def)
  have "ds \<noteq> []" "n < length ds" using m by (auto simp: message_def)
  moreover have "safe D W False (if nonempty then for_iter (length ds) body it else lift (ret ())) (\<lambda>_. True)"
    using for_iter_safe [where k = "length ds", OF m a body s(1)] s(2,3) \<open>n < length ds\<close> by (simp add: safe_ret)
  ultimately show ?thesis by (simp add: for_message_def f)
qed

section \<open>Default values\<close>

lemma init_data_safe:
  assumes v: "value_layout (descriptors env) W sub (the_field it) (pData it)"
    and dflt: "PB_LTYPE (type (the_field it)) \<noteq> 8 \<and> ptr (the_field it) \<noteq> 0 \<longrightarrow>
      region (ptr (the_field it)) (unat (data_size (the_field it))) \<subseteq> D"
    and sub: "\<And>ds a. sub ds a \<Longrightarrow> safe D W False (for_message f ds a) (\<lambda>_. True)"
  shows "safe D W False (init_data env f it) (\<lambda>_. True)"
proof -
  let ?f = "the_field it"
  consider (msg) "PB_LTYPE (type ?f) = 8" | (dflt) "PB_LTYPE (type ?f) \<noteq> 8" "ptr ?f \<noteq> 0" | (zero) "PB_LTYPE (type ?f) \<noteq> 8" "ptr ?f = 0"
    by blast
  then show ?thesis
  proof cases
    case msg
    then obtain ds where "descriptors env (ptr ?f) = Some ds" "sub ds (pData it)"
      using v by (auto simp: value_layout_def Let_def split: option.splits)
    then show ?thesis using msg sub by (simp add: init_data_def Let_def)
  next
    case dflt
    have "safe D W False (mread (\<lambda>m. load m (ptr ?f) (unat (data_size ?f))) (\<lambda>bs. mwrite (pData it) bs)) (\<lambda>_. True)"
    proof (rule safe_read)
      show "\<exists>bs. load m (ptr ?f) (unat (data_size ?f)) = Some bs \<and> length bs = unat (data_size ?f)" if "dom m = D" for m
        using load_defined assms(2) dflt that by blast
      show "safe D W False (mwrite (pData it) bs) (\<lambda>_. True)" if "length bs = unat (data_size ?f)" for bs
        using v that by (intro safe_write) (simp add: value_layout_def Let_def)
    qed
    then show ?thesis using dflt by (simp add: init_data_def Let_def)
  next
    case zero
    have "safe D W False (mwrite (pData it) (replicate (unat (data_size ?f)) 0)) (\<lambda>_. True)"
      using v by (intro safe_write) (simp add: value_layout_def Let_def)
    then show ?thesis using zero by (simp add: init_data_def Let_def)
  qed
qed

lemma PB_HTYPE_cases: "PB_HTYPE t = 0 \<or> PB_HTYPE t = 0x10 \<or> PB_HTYPE t = 0x20 \<or> PB_HTYPE t = 0x30"
proof -
  have "PB_HTYPE t = (if bit t 5 then if bit t 4 then 0x30 else 0x20 else if bit t 4 then 0x10 else 0)"
    unfolding PB_HTYPE_def by (rule byte_bits_eqI) (auto simp: bit_simps)
  then show ?thesis by (auto split: if_splits)
qed

lemma field_layoutD:
  assumes "field_layout tab D W sub f p z"
  shows "PB_ATYPE (type f) = 0" and "PB_LTYPE (type f) \<noteq> 9" and "PB_LTYPE (type f) \<le> 0x0a"
    and "PB_LTYPE (type f) \<noteq> 8 \<and> ptr f \<noteq> 0 \<longrightarrow> region (ptr f) (unat (data_size f)) \<subseteq> D"
    and "PB_HTYPE (type f) \<noteq> 0x20 \<Longrightarrow> value_layout tab W sub f p"
    and "PB_HTYPE (type f) = 0x10 \<Longrightarrow> z \<in> W"
    and "PB_HTYPE (type f) = 0x20 \<or> PB_HTYPE (type f) = 0x30 \<Longrightarrow> region z 4 \<subseteq> W"
    and "PB_HTYPE (type f) = 0x20 \<Longrightarrow> unat (data_size f) * unat (array_size f) < 2 ^ 32"
    and "PB_HTYPE (type f) = 0x20 \<Longrightarrow> k < unat (array_size f) \<Longrightarrow>
      value_layout tab W sub f (p + word_of_nat (unat (data_size f) * k))"
  using assms unfolding field_layout_def Let_def by (auto simp del: of_nat_mult)

lemma set_to_default_field_safe:
  assumes l: "field_layout (descriptors env) D W sub (the_field it) (pData it) (pSize it)"
    and sub: "\<And>ds a. sub ds a \<Longrightarrow> safe D W False (for_message (pb_field_set_to_default k env) ds a) (\<lambda>_. True)"
  shows "safe D W False (pb_field_set_to_default (Suc k) env it) (\<lambda>_. True)"
proof -
  note d = field_layoutD [OF l]
  have init: "safe D W False (init_data env (pb_field_set_to_default k env) it) (\<lambda>_. True)" if "PB_HTYPE (type (the_field it)) \<noteq> 0x20"
    using init_data_safe [OF d(5) [OF that] d(4) sub] .
  have wr: "safe D W False (mwrite (pSize it) (le_bytes 4 0)) (\<lambda>_. True)"
    if "PB_HTYPE (type (the_field it)) = 0x20 \<or> PB_HTYPE (type (the_field it)) = 0x30"
    using d(7) [OF that] by (intro safe_write) simp
  have "safe D W False (mwrite (pSize it) [0]) (\<lambda>_. True)" if "PB_HTYPE (type (the_field it)) = 0x10"
    using d(6) [OF that] by (intro safe_write) (simp add: region_Suc)
  then have opt: "safe D W False (mthen (mwrite (pSize it) [0]) (\<lambda>_. init_data env (pb_field_set_to_default k env) it)) (\<lambda>_. True)"
    if "PB_HTYPE (type (the_field it)) = 0x10"
    using that init by (intro safe_then_lax) simp_all
  show ?thesis
    unfolding pb_field_set_to_default.simps Let_def if_not_P [OF d(2)] if_P [OF d(1)]
    using init wr opt by auto
qed

lemma set_to_defaults_safe:
  "static_layout d (descriptors env) D W ds a \<Longrightarrow> d \<le> k \<Longrightarrow> safe D W False (pb_message_set_to_defaults k env ds a) (\<lambda>_. True)"
proof (induction d arbitrary: k ds a)
  case (Suc d)
  obtain k' where k: "k = Suc k'" "d \<le> k'" using Suc.prems(2) by (cases k) auto
  show ?case
    unfolding pb_message_set_to_defaults_def k(1)
  proof (rule for_message_safe [OF layout_message [OF Suc.prems(1)]])
    show "safe D W False (pb_field_set_to_default (Suc k') env it) (\<lambda>_. True)" if "iter_ok ds (field_count ds) a it" for it
      using Suc.IH k(2)
      by (intro set_to_default_field_safe [OF layout_field [OF Suc.prems(1) that]])
        (simp add: pb_message_set_to_defaults_def)
  qed
qed simp

section \<open>Releasing\<close>

lemma release_items_safe:
  "(\<And>i. i < n \<Longrightarrow> safe D W False (release (p + word_of_nat i * step)) (\<lambda>_. True)) \<Longrightarrow>
   safe D W False (release_items release step n p) (\<lambda>_. True)"
proof (induction n arbitrary: p)
  case (Suc n)
  have "safe D W False (release_items release step n (p + step)) (\<lambda>_. True)"
  proof (rule Suc.IH)
    fix i assume "i < n"
    then have "Suc i < Suc n" by simp
    from Suc.prems [OF this] show "safe D W False (release (p + step + word_of_nat i * step)) (\<lambda>_. True)"
      by (simp add: algebra_simps)
  qed
  with Suc.prems [of 0] show ?case by (simp add: safe_then_lax)
qed (simp add: safe_ret)

lemma entry_step: "word_of_nat i * ucast w = (word_of_nat (unat (w :: u32) * i) :: u64)"
  by (simp add: nat_ucast mult.commute)

lemma map_option_bound: "x \<noteq> None \<Longrightarrow> (\<And>n. unat (g n) \<le> b) \<Longrightarrow> \<exists>v. map_option g x = Some v \<and> unat v \<le> b"
  by auto

lemma release_submessages_safe:
  assumes l: "field_layout (descriptors env) D W sub (the_field it) (pData it) (pSize it)" and W: "W \<subseteq> D"
    and ltype: "PB_LTYPE (type (the_field it)) = 8"
    and sub: "\<And>ds a. sub ds a \<Longrightarrow> safe D W False (release_message f ds a) (\<lambda>_. True)"
  shows "safe D W False (release_submessages env f it) (\<lambda>_. True)"
proof -
  let ?f = "the_field it"
  note d = field_layoutD [OF l]
  define many where "many = (if PB_HTYPE (type ?f) = 0x20 then unat (array_size ?f) else 1)"
  have items: "value_layout (descriptors env) W sub ?f (pData it + word_of_nat i * ucast (data_size ?f))" if "i < many" for i
    using that d(5) d(9) [of i] by (auto simp: many_def entry_step simp del: of_nat_mult split: if_splits)
  have body: "safe D W False (case descriptors env (ptr ?f) of
             None \<Rightarrow> (\<lambda>_. None)
           | Some descrs \<Rightarrow> release_items (release_message f descrs) (ucast (data_size ?f)) n (pData it)) (\<lambda>_. True)"
    if "n \<le> many" "n \<noteq> 0" for n
  proof -
    have "0 < many" using that by simp
    then obtain ds where ds: "descriptors env (ptr ?f) = Some ds"
      using items [of 0] ltype by (auto simp: value_layout_def Let_def split: option.splits)
    have "sub ds (pData it + word_of_nat i * ucast (data_size ?f))" if "i < n" for i
      using items [of i] that \<open>n \<le> many\<close> ltype ds by (simp add: value_layout_def Let_def)
    then show ?thesis by (simp add: ds release_items_safe sub)
  qed
  have "safe D W False (mread (\<lambda>m. Some (pData it)) (\<lambda>item.
      mread (\<lambda>m.
          if PB_HTYPE (type ?f) = 0x20 then
            map_option (\<lambda>n. if n > array_size ?f then array_size ?f else n)
              (if pSize it = pData it then Some (array_size ?f) else load32 m (pSize it))
          else Some 1) (\<lambda>count.
        if item \<noteq> 0 \<and> count \<noteq> 0 then
          (case descriptors env (ptr ?f) of
             None \<Rightarrow> (\<lambda>_. None)
           | Some descrs \<Rightarrow> release_items (release_message f descrs) (ucast (data_size ?f)) (unat count) item)
        else lift (ret ())))) (\<lambda>_. True)"
  proof (rule safe_read [where R = "\<lambda>v. v = pData it"], simp, rule safe_read [where R = "\<lambda>n. unat n \<le> many"])
    fix m :: memory assume m: "dom m = D"
    show "\<exists>v. (if PB_HTYPE (type ?f) = 0x20 then
            map_option (\<lambda>n. if n > array_size ?f then array_size ?f else n)
              (if pSize it = pData it then Some (array_size ?f) else load32 m (pSize it))
          else Some 1) = Some v \<and> unat v \<le> many"
    proof (cases "PB_HTYPE (type ?f) = 0x20")
      case True
      then have "\<exists>v. load32 m (pSize it) = Some v" using d(7) W m by (intro load32_defined) auto
      then have some: "(if pSize it = pData it then Some (array_size ?f) else load32 m (pSize it)) \<noteq> None" by auto
      have le: "unat (if n > array_size ?f then array_size ?f else n) \<le> many" for n
        using True by (simp add: many_def not_less word_le_nat_alt)
      show ?thesis unfolding if_P [OF True] by (rule map_option_bound [OF some le])
    qed (simp add: many_def)
  next
    fix item and count :: u32
    assume item: "item = pData it" and count: "unat count \<le> many"
    show "safe D W False (if item \<noteq> 0 \<and> count \<noteq> 0 then
          (case descriptors env (ptr ?f) of
             None \<Rightarrow> (\<lambda>_. None)
           | Some descrs \<Rightarrow> release_items (release_message f descrs) (ucast (data_size ?f)) (unat count) item)
        else lift (ret ())) (\<lambda>_. True)"
      unfolding item using body [OF count] by (auto simp: safe_ret unsigned_eq_0_iff)
  qed
  then show ?thesis by (simp add: release_submessages_def Let_def d(1) cong: if_cong)
qed

lemma release_single_safe:
  assumes l: "field_layout (descriptors env) D W sub (the_field it) (pData it) (pSize it)" and W: "W \<subseteq> D"
    and sub: "\<And>ds a. sub ds a \<Longrightarrow> safe D W False (release_message (pb_release_single_field k env) ds a) (\<lambda>_. True)"
  shows "safe D W False (pb_release_single_field (Suc k) env it) (\<lambda>_. True)"
proof -
  let ?f = "the_field it"
  note d = field_layoutD [OF l]
  have inner: "safe D W False (if PB_LTYPE (type ?f) = 8 \<and> PB_ATYPE (type ?f) \<noteq> 0x40 then
               release_submessages env (pb_release_single_field k env) it else lift (ret ())) (\<lambda>_. True)"
    using release_submessages_safe [OF l W _ sub] by (simp add: safe_ret)
  have "safe D W False (mthen (if PB_LTYPE (type ?f) = 8 \<and> PB_ATYPE (type ?f) \<noteq> 0x40 then
               release_submessages env (pb_release_single_field k env) it else lift (ret ())) (\<lambda>_.
          if PB_ATYPE (type ?f) = 0x80 then release_pointer it else lift (ret ()))) (\<lambda>_. True)"
    by (rule safe_then_lax [OF inner]) (simp add: d(1) safe_ret)
  then have main: "safe D W False (if other then lift (ret ()) else
      mthen (if PB_LTYPE (type ?f) = 8 \<and> PB_ATYPE (type ?f) \<noteq> 0x40 then
               release_submessages env (pb_release_single_field k env) it else lift (ret ())) (\<lambda>_.
          if PB_ATYPE (type ?f) = 0x80 then release_pointer it else lift (ret ()))) (\<lambda>_. True)" for other
    by (simp add: safe_ret)
  have which: "\<exists>v. (if PB_HTYPE (type ?f) = 0x30 then map_option (\<lambda>which. which \<noteq> tag ?f) (load32 m (pSize it)) else Some False) = Some v \<and> True"
    if "dom m = D" for m
  proof (cases "PB_HTYPE (type ?f) = 0x30")
    case True
    then have "\<exists>v. load32 m (pSize it) = Some v" using d(7) W that by (intro load32_defined) auto
    then show ?thesis using True by auto
  qed auto
  show ?thesis
    unfolding pb_release_single_field.simps Let_def if_not_P [OF d(2)] by (rule safe_read [OF which main])
qed

lemma release_safe:
  "static_layout d (descriptors env) D W ds a \<Longrightarrow> W \<subseteq> D \<Longrightarrow> d \<le> k \<Longrightarrow> safe D W False (pb_release k env ds a) (\<lambda>_. True)"
proof (induction d arbitrary: k ds a)
  case (Suc d)
  obtain k' where k: "k = Suc k'" "d \<le> k'" using Suc.prems(3) by (cases k) auto
  have "safe D W False (for_message (pb_release_single_field (Suc k') env) ds a) (\<lambda>_. True)"
  proof (rule for_message_safe [OF layout_message [OF Suc.prems(1)]])
    show "safe D W False (pb_release_single_field (Suc k') env it) (\<lambda>_. True)" if "iter_ok ds (field_count ds) a it" for it
      using Suc.IH k(2) Suc.prems(2)
      by (intro release_single_safe [OF layout_field [OF Suc.prems(1) that] Suc.prems(2)])
        (simp add: pb_release_def)
  qed
  then show ?case by (simp add: pb_release_def release_message_def k(1) safe_ret)
qed simp

section \<open>Unions\<close>

lemma find_ok:
  assumes "message ds n" and "a \<noteq> 0" and "iter_ok ds n a it"
  shows "\<exists>found it'. pb_field_iter_find wanted it = Some (found, it') \<and> iter_ok ds n a it'"
proof -
  let ?N = "max 1 n"
  have "(pos it + Suc (?N - 1)) mod ?N = pos it" using assms(3) by (simp add: iter_ok_def)
  with find_loop_ok [OF assms, of "?N - 1" "pos it" wanted] show ?thesis
    by (auto simp: pb_field_iter_find_def)
qed

lemma release_union_safe:
  assumes l: "static_layout (Suc d) (descriptors env) D W ds a" and W: "W \<subseteq> D" and k: "Suc d \<le> k"
    and it: "iter_ok ds (field_count ds) a it" and h: "PB_HTYPE (type (the_field it)) = 0x30"
  shows "safe D W False (pb_release_union_field k env it) (\<lambda>it. iter_ok ds (field_count ds) a it)"
proof -
  note m = layout_message [OF l]
  obtain k' where k': "k = Suc k'" "d \<le> k'" using k by (cases k) auto
  have single: "safe D W False (pb_release_single_field k env it) (\<lambda>_. True)" if "iter_ok ds (field_count ds) a it" for it
    unfolding k'(1) using release_safe [OF _ W k'(2)]
    by (intro release_single_safe [OF layout_field [OF l that] W]) (simp add: pb_release_def)
  have pointer: "safe D W False (if PB_ATYPE (type (the_field it)) = 0x80 then
        mthen (mwrite (pData it) (le_bytes 8 0)) (\<lambda>_. lift (ret it)) else lift (ret it)) (\<lambda>it. iter_ok ds (field_count ds) a it)"
    if "iter_ok ds (field_count ds) a it" for it
    using that field_layoutD(1) [OF layout_field [OF l that]] by (simp add: safe_ret)
  have restore: "safe D W False (case pb_field_iter_find new_tag it of
                     None \<Rightarrow> (\<lambda>_. None)
                   | Some (found, iter) \<Rightarrow>
                       if \<not> found then pb_error ''iterator error''
                       else if PB_ATYPE (type (the_field iter)) = 0x80 then
                         mthen (mwrite (pData iter) (le_bytes 8 0)) (\<lambda>_. lift (ret iter))
                       else lift (ret iter)) (\<lambda>it. iter_ok ds (field_count ds) a it)"
    if ok: "iter_ok ds (field_count ds) a it" for it new_tag
  proof -
    obtain found it' where e: "pb_field_iter_find new_tag it = Some (found, it')" "iter_ok ds (field_count ds) a it'"
      using find_ok [OF m ok] by blast
    show ?thesis
      unfolding e(1) option.case prod.case by (cases found) (simp_all only: if_True if_False simp_thms safe_error pointer [OF e(2)])
  qed
  obtain found it' where old: "pb_field_iter_find old it = Some (found old, it' old)" "iter_ok ds (field_count ds) a (it' old)" for old
    using find_ok [OF m it] by metis
  show ?thesis
    unfolding pb_release_union_field_def
  proof (rule safe_read [where R = "\<lambda>_. True"])
    show "\<exists>v. load32 m (pSize it) = Some v \<and> True" if "dom m = D" for m
      using load32_defined [of "pSize it" m] field_layoutD(7) [OF layout_field [OF l it]] h W that by auto
    fix old :: u32
    have "safe D W False (mthen (pb_release_single_field k env (it' old)) (\<lambda>_.
                  (case pb_field_iter_find (tag (the_field it)) (it' old) of
                     None \<Rightarrow> (\<lambda>_. None)
                   | Some (found, iter) \<Rightarrow>
                       if \<not> found then pb_error ''iterator error''
                       else if PB_ATYPE (type (the_field iter)) = 0x80 then
                         mthen (mwrite (pData iter) (le_bytes 8 0)) (\<lambda>_. lift (ret iter))
                       else lift (ret iter)))) (\<lambda>it. iter_ok ds (field_count ds) a it)"
      by (rule safe_then_lax [OF single [OF old(2)] restore [OF old(2)]])
    then show "safe D W False (let new_tag = tag (the_field it) in
       if old = 0 \<or> old = new_tag then lift (ret it)
       else
         (case pb_field_iter_find old it of
            None \<Rightarrow> (\<lambda>_. None)
          | Some (found, iter) \<Rightarrow>
              if \<not> found then pb_error ''invalid union tag''
              else
                mthen (pb_release_single_field k env iter) (\<lambda>_.
                  (case pb_field_iter_find new_tag iter of
                     None \<Rightarrow> (\<lambda>_. None)
                   | Some (found, iter) \<Rightarrow>
                       if \<not> found then pb_error ''iterator error''
                       else if PB_ATYPE (type (the_field iter)) = 0x80 then
                         mthen (mwrite (pData iter) (le_bytes 8 0)) (\<lambda>_. lift (ret iter))
                       else lift (ret iter))))) (\<lambda>it. iter_ok ds (field_count ds) a it)"
      using it by (simp add: Let_def old(1) safe_ret safe_error)
  qed
qed

lemma byte_le_5: "l \<le> 5 \<longleftrightarrow> l = 0 \<or> l = 1 \<or> l = 2 \<or> l = 3 \<or> l = 4 \<or> l = (5 :: byte)"
proof -
  have "x \<le> 5 \<longleftrightarrow> x = 0 \<or> x = 1 \<or> x = 2 \<or> x = 3 \<or> x = 4 \<or> x = 5" for x :: nat by arith
  from this [of "unat l"] show ?thesis by (simp add: word_le_nat_alt word_eq_iff_unat)
qed

lemma byte_le_10:
  assumes "l \<le> 10" and "l \<noteq> 9" and "\<not> l \<le> (5 :: byte)"
  shows "l = 6 \<or> l = 7 \<or> l = 8 \<or> l = 10"
proof -
  have "x = 6 \<or> x = 7 \<or> x = 8 \<or> x = 10" if "x \<le> 10" "x \<noteq> 9" "\<not> x \<le> 5" for x :: nat using that by arith
  from this [of "unat l"] assms show ?thesis by (simp add: word_le_nat_alt word_eq_iff_unat)
qed

section \<open>What a field needs of the decoders of submessages\<close>

locale sub_decoder =
  fixes D W :: "u64 set" and decode decode_noinit :: "'s sub_decode" and sub :: "pb_field list \<Rightarrow> u64 \<Rightarrow> bool"
  assumes decode: "sub ds a \<Longrightarrow> safe D W False (decode ds a) (\<lambda>_. True)"
    and noinit: "sub ds a \<Longrightarrow> safe D W False (decode_noinit ds a) (\<lambda>_. True)"
begin

lemma submessage_safe:
  assumes v: "value_layout (descriptors env) W sub f p" and l: "PB_LTYPE (type f) = 8"
  shows "safe D W False (dec_submessage env decode decode_noinit f p) (\<lambda>_. True)"
proof -
  obtain ds where ds: "ptr f \<noteq> 0" "descriptors env (ptr f) = Some ds" "sub ds p"
    using v l by (auto simp: value_layout_def Let_def split: option.splits)
  have "safe D W False (if PB_HTYPE (type f) = 0x20 then decode ds p else decode_noinit ds p) (\<lambda>_. True)"
    using decode [OF ds(3)] noinit [OF ds(3)] by simp
  from safe_in_substream [OF this] show ?thesis
    by (simp add: dec_submessage_def ds(1,2) safe_weaken)
qed

lemma decoders:
  "PB_LTYPE (type f) = 0 \<Longrightarrow> PB_DECODERS env decode decode_noinit f = dec_bool"
  "PB_LTYPE (type f) = 1 \<Longrightarrow> PB_DECODERS env decode decode_noinit f = dec_varint f"
  "PB_LTYPE (type f) = 2 \<Longrightarrow> PB_DECODERS env decode decode_noinit f = dec_uvarint f"
  "PB_LTYPE (type f) = 3 \<Longrightarrow> PB_DECODERS env decode decode_noinit f = dec_svarint f"
  "PB_LTYPE (type f) = 4 \<Longrightarrow> PB_DECODERS env decode decode_noinit f = dec_fixed32"
  "PB_LTYPE (type f) = 5 \<Longrightarrow> PB_DECODERS env decode decode_noinit f = dec_fixed64"
  "PB_LTYPE (type f) = 6 \<Longrightarrow> PB_DECODERS env decode decode_noinit f = dec_bytes env f"
  "PB_LTYPE (type f) = 7 \<Longrightarrow> PB_DECODERS env decode decode_noinit f = dec_string env f"
  "PB_LTYPE (type f) = 8 \<Longrightarrow> PB_DECODERS env decode decode_noinit f = dec_submessage env decode decode_noinit f"
  "PB_LTYPE (type f) = 10 \<Longrightarrow> PB_DECODERS env decode decode_noinit f = dec_fixed_length_bytes f"
  by (rule ext, simp add: PB_DECODERS_def)+

lemma packable_safe:
  assumes "value_layout (descriptors env) W sub f p" and "PB_LTYPE (type f) \<le> 5"
  shows "safe D W True (PB_DECODERS env decode decode_noinit f p) (\<lambda>_. True)"
proof -
  have r: "region p (unat (data_size f)) \<subseteq> W" using assms(1) by (simp add: value_layout_def Let_def)
  consider "PB_LTYPE (type f) = 0" | "PB_LTYPE (type f) = 1" | "PB_LTYPE (type f) = 2" | "PB_LTYPE (type f) = 3"
    | "PB_LTYPE (type f) = 4" | "PB_LTYPE (type f) = 5" using byte_le_5 assms(2) by blast
  then show ?thesis
  proof cases
    case 1
    then show ?thesis using assms(1) safe_bool [of p W D] by (simp add: decoders value_layout_def)
  next
    case 5
    then show ?thesis using assms(1) safe_fixed32 [of p W D] by (simp add: decoders value_layout_def)
  next
    case 6
    then show ?thesis using assms(1) safe_fixed64 [of p W D] by (simp add: decoders value_layout_def)
  qed (simp_all add: decoders safe_ints [OF r])
qed

lemma value_safe:
  assumes v: "value_layout (descriptors env) W sub f p" and a: "PB_ATYPE (type f) = 0"
    and l: "PB_LTYPE (type f) \<noteq> 9" "PB_LTYPE (type f) \<le> 0x0a"
  shows "safe D W False (PB_DECODERS env decode decode_noinit f p) (\<lambda>_. True)"
proof (cases "PB_LTYPE (type f) \<le> 5")
  case True
  then show ?thesis using packable_safe [OF v] by (auto intro: safe_weaken)
next
  case False
  have r: "region p (unat (data_size f)) \<subseteq> W" using v by (simp add: value_layout_def Let_def)
  consider "PB_LTYPE (type f) = 6" | "PB_LTYPE (type f) = 7" | "PB_LTYPE (type f) = 8" | "PB_LTYPE (type f) = 10"
    using byte_le_10 [OF l(2,1) False] by blast
  then show ?thesis
    by cases (simp_all add: decoders submessage_safe [OF v] safe_bytes [OF a r] safe_string [OF a r] safe_fixed_length_bytes [OF r])
qed

lemma entry_layout:
  assumes l: "field_layout tab X W sub f p z" and h: "PB_HTYPE (type f) = 0x20" and n: "n < array_size f"
  shows "value_layout tab W sub f (entry f p n)"
proof -
  have k: "unat n < unat (array_size f)" using n by (simp add: word_less_nat_alt)
  then have "unat (data_size f) * unat n \<le> unat (data_size f) * unat (array_size f)" by (intro mult_le_mono2) simp
  then have "unat (data_size f) * unat n < 2 ^ 32" using field_layoutD(8) [OF l h] by (rule order.strict_trans1)
  then have "unat (data_size f * n) = unat (data_size f) * unat n" by (subst unat_word_ariths(2)) simp
  then have "ucast (data_size f * n) = (word_of_nat (unat (data_size f) * unat n) :: u64)"
    using nat_ucast [of "data_size f * n"] by simp
  then show ?thesis using field_layoutD(9) [OF l h k] by (simp add: entry_def)
qed

lemma static_field_safe:
  assumes l: "field_layout (descriptors env) D W sub (the_field it) (pData it) (pSize it)" and W: "W \<subseteq> D"
    and r: "PB_HTYPE (type (the_field it)) = 0x20 \<Longrightarrow> size_ok W r"
    and dflt: "\<And>ds a. sub ds a \<Longrightarrow> safe D W False (set_defaults ds a) (\<lambda>_. True)"
  shows "safe D W False (decode_static_field env (PB_DECODERS env decode decode_noinit (the_field it)) set_defaults wt it r) (\<lambda>_. True)"
proof -
  let ?f = "the_field it"
  let ?func = "PB_DECODERS env decode decode_noinit ?f"
  note d = field_layoutD [OF l]
  have single: "safe D W False (?func (pData it)) (\<lambda>_. True)" if "PB_HTYPE (type ?f) \<noteq> 0x20"
    using value_safe [OF d(5) [OF that] d(1-3)] .
  consider (req) "PB_HTYPE (type ?f) = 0" | (opt) "PB_HTYPE (type ?f) = 0x10" | (rep) "PB_HTYPE (type ?f) = 0x20"
    | (union) "PB_HTYPE (type ?f) = 0x30" using PB_HTYPE_cases by blast
  then show ?thesis
  proof cases
    case req
    then show ?thesis using single by (simp add: decode_static_field_def Let_def)
  next
    case opt
    have "safe D W False (if pSize it \<noteq> pData it then mwrite (pSize it) [1] else lift (ret ())) (\<lambda>_. True)"
      using d(6) [OF opt] by (auto simp: region_Suc intro!: safe_write safe_ret)
    from safe_then_lax [OF this, of "\<lambda>_. ?func (pData it)"] single opt show ?thesis
      by (simp add: decode_static_field_def Let_def)
  next
    case rep
    have "safe D W True (?func (entry ?f (pData it) n)) (\<lambda>_. True)" if "n < array_size ?f" "PB_LTYPE (type ?f) \<le> 5" for n
      using packable_safe [OF entry_layout [OF l rep that(1)] that(2)] .
    then have packed: "safe D W False (decode_packed ?func ?f (pData it) r) (\<lambda>_. True)" if "PB_LTYPE (type ?f) \<le> 5"
      using that by (intro safe_decode_packed [OF r [OF rep]])
    have body: "safe D W False (if n \<ge> array_size ?f then pb_error ''array overflow'' else ?func (entry ?f (pData it) n)) (\<lambda>_. True)" for n
      using value_safe [OF entry_layout [OF l rep] d(1-3)] by (simp add: safe_error not_le)
    have "safe D W False (with_size r (\<lambda>n. mthen (set_size r (n + 1)) (\<lambda>_.
          if n \<ge> array_size ?f then pb_error ''array overflow'' else ?func (entry ?f (pData it) n)))) (\<lambda>_. True)"
      by (intro safe_with_size [OF r [OF rep]] safe_then_lax [OF safe_set_size [OF r [OF rep]] body])
    with packed show ?thesis using rep by (simp add: decode_static_field_def Let_def)
  next
    case union
    have w: "safe D W False (mwrite (pSize it) (le_bytes 4 (unat (tag ?f)))) (\<lambda>_. True)"
      using d(7) union by (intro safe_write) simp
    have v: "value_layout (descriptors env) W sub ?f (pData it)" using d(5) union by simp
    have clear: "safe D W False (mthen (mwrite (pData it) (replicate (unat (data_size ?f)) 0)) (\<lambda>_.
                   (case descriptors env (ptr ?f) of
                      None \<Rightarrow> (\<lambda>_. None) | Some descrs \<Rightarrow> set_defaults descrs (pData it)))) (\<lambda>_. True)"
      if l8: "PB_LTYPE (type ?f) = 8"
    proof -
      obtain ds where ds: "descriptors env (ptr ?f) = Some ds" "sub ds (pData it)"
        using v l8 by (auto simp: value_layout_def Let_def split: option.splits)
      have "safe D W False (mwrite (pData it) (replicate (unat (data_size ?f)) 0)) (\<lambda>_. True)"
        using v by (intro safe_write) (simp add: value_layout_def Let_def)
      from safe_then_lax [OF this dflt [OF ds(2)]] show ?thesis by (simp add: ds(1))
    qed
    have init: "safe D W False (mread (\<lambda>m. load32 m (pSize it)) (\<lambda>which.
               if which = tag ?f then lift (ret ())
               else mthen (mwrite (pData it) (replicate (unat (data_size ?f)) 0)) (\<lambda>_.
                   (case descriptors env (ptr ?f) of
                      None \<Rightarrow> (\<lambda>_. None) | Some descrs \<Rightarrow> set_defaults descrs (pData it))))) (\<lambda>_. True)"
      if "PB_LTYPE (type ?f) = 8"
    proof (rule safe_read [where R = "\<lambda>_. True"])
      show "\<exists>v. load32 m (pSize it) = Some v \<and> True" if "dom m = D" for m
        using load32_defined [of "pSize it" m] d(7) union W that by auto
    qed (use clear [OF that] in \<open>simp add: safe_ret\<close>)
    have "safe D W False (if PB_LTYPE (type ?f) = 0x08 then mread (\<lambda>m. load32 m (pSize it)) (\<lambda>which.
               if which = tag ?f then lift (ret ())
               else mthen (mwrite (pData it) (replicate (unat (data_size ?f)) 0)) (\<lambda>_.
                   (case descriptors env (ptr ?f) of
                      None \<Rightarrow> (\<lambda>_. None) | Some descrs \<Rightarrow> set_defaults descrs (pData it)))) else lift (ret ())) (\<lambda>_. True)"
      using init by (simp add: safe_ret)
    from safe_then_lax [OF this safe_then_lax [OF w single]] union show ?thesis
      by (simp add: decode_static_field_def Let_def)
  qed
qed

end

section \<open>Fields\<close>

lemma decode_field_safe:
  assumes l: "static_layout (Suc d) (descriptors env) D W ds a" and W: "W \<subseteq> D" and k: "Suc d \<le> k"
    and it: "iter_ok ds (field_count ds) a it" and r: "PB_HTYPE (type (the_field it)) = 0x20 \<or> PB_HTYPE (type (the_field it)) = 0x30 \<Longrightarrow> size_ok W r"
    and sub: "sub_decoder D W decode decode_noinit (static_layout d (descriptors env) D W)"
  shows "safe D W False (decode_field k env decode decode_noinit wt it r) (\<lambda>it. iter_ok ds (field_count ds) a it)"
  unfolding decode_field_def
proof (rule safe_then_lax)
  let ?P = "\<lambda>it. iter_ok ds (field_count ds) a it \<and> (PB_HTYPE (type (the_field it)) = 0x20 \<longrightarrow> size_ok W r)"
  show "safe D W False (if PB_HTYPE (type (the_field it)) = 0x30 then pb_release_union_field k env it else lift (ret it)) ?P"
  proof (cases "PB_HTYPE (type (the_field it)) = 0x30")
    case True
    then show ?thesis using safe_weaken [OF release_union_safe [OF l W k it True], of ?P] r by simp
  qed (use it r in \<open>simp add: safe_ret\<close>)
  fix it assume "?P it"
  then have it: "iter_ok ds (field_count ds) a it" and r: "PB_HTYPE (type (the_field it)) = 0x20 \<Longrightarrow> size_ok W r" by simp_all
  note layout = layout_field [OF l it]
  have "d \<le> k" using k by simp
  note dflt = set_to_defaults_safe [OF _ this]
  have "safe D W False (decode_static_field env (PB_DECODERS env decode decode_noinit (the_field it))
      (pb_message_set_to_defaults k env) wt it r) (\<lambda>_. True)"
    by (rule sub_decoder.static_field_safe [OF sub layout W r dflt])
  from safe_then_lax [OF this, of "\<lambda>_. lift (ret it)"] it
  show "safe D W False (let atype = PB_ATYPE (type (the_field it));
           func = PB_DECODERS env decode decode_noinit (the_field it);
           set_defaults = pb_message_set_to_defaults k env in
       mthen
         (if atype = 0x00 then decode_static_field env func set_defaults wt it r
          else if atype = 0x80 then decode_pointer_field k env func set_defaults wt it r
          else if atype = 0x40 then decode_callback_field env wt it
          else pb_error ''invalid field type'') (\<lambda>_. lift (ret it))) (\<lambda>it. iter_ok ds (field_count ds) a it)"
    by (simp add: Let_def field_layoutD(1) [OF layout] safe_ret)
qed

section \<open>Ends of loops over the descriptors\<close>

lemma find_extension_loop_none:
  assumes m: "message ds n" and a: "a \<noteq> 0" and none: "\<And>i. i < max 1 n \<Longrightarrow> PB_LTYPE (type (ds ! i)) \<noteq> 9"
  shows "iter_ok ds n a it \<Longrightarrow> (pos it + Suc k) mod max 1 n = first \<Longrightarrow> Suc k \<le> max 1 n \<Longrightarrow>
    \<exists>it'. find_extension_loop first it = Some (False, it') \<and> iter_ok ds n a it'"
proof (induction k arbitrary: it)
  case (0 it)
  have at: "the_field it = ds ! pos it" "pos it < max 1 n" using 0(1) by (simp_all add: iter_ok_def the_field_def)
  have "pos (snd (pb_field_iter_next it)) = first" using iter_next_pos [OF m a 0(1)] 0(2) by simp
  then show ?case using iter_next_ok [OF m a 0(1)] none [OF at(2)]
    by (subst find_extension_loop.simps) (simp add: at Let_def)
next
  case (Suc k it)
  define it1 where "it1 = snd (pb_field_iter_next it)"
  have at: "the_field it = ds ! pos it" "pos it < max 1 n" using Suc.prems(1) by (simp_all add: iter_ok_def the_field_def)
  have p: "pos it1 = Suc (pos it) mod max 1 n" using iter_next_pos [OF m a Suc.prems(1)] by (simp add: it1_def)
  have ok: "iter_ok ds n a it1" using iter_next_ok [OF m a Suc.prems(1)] by (simp add: it1_def)
  have "pos it1 \<noteq> first"
  proof
    assume "pos it1 = first"
    then have "(pos it + 1) mod max 1 n = (pos it + 1 + Suc k) mod max 1 n"
      using Suc.prems(2) by (simp add: p)
    then have "max 1 n dvd Suc k" by (metis add_diff_cancel_left' le_add1 mod_eq_dvd_iff_nat)
    then show False using Suc.prems(3) by (simp add: dvd_imp_le nat_dvd_not_less)
  qed
  then have e: "find_extension_loop first it = find_extension_loop first it1"
    using none [OF at(2)] by (subst find_extension_loop.simps) (simp add: at Let_def it1_def)
  have "(pos it1 + j) mod max 1 n = (pos it + Suc j) mod max 1 n" for j by (simp add: p mod_simps)
  then have "(pos it1 + Suc k) mod max 1 n = first" using Suc.prems(2) by (simp only:)
  from Suc.IH [OF ok this Suc_leD [OF Suc.prems(3)]] show ?case unfolding e .
qed

lemma find_extension_none:
  assumes "message ds n" and "a \<noteq> 0" and "\<And>i. i < max 1 n \<Longrightarrow> PB_LTYPE (type (ds ! i)) \<noteq> 9" and "iter_ok ds n a it"
  shows "\<exists>it'. find_extension_field it = Some (False, it') \<and> iter_ok ds n a it'"
proof -
  let ?N = "max 1 n"
  have "(pos it + Suc (?N - 1)) mod ?N = pos it" using assms(4) by (simp add: iter_ok_def)
  with find_extension_loop_none [OF assms(1-3) assms(4), of "?N - 1" "pos it"] show ?thesis
    by (simp add: find_extension_field_def)
qed

lemma last_field_ok:
  assumes m: "message ds n" and a: "a \<noteq> 0" and "iter_ok ds n a it"
  shows "\<exists>it'. last_field it = Some (word_of_nat (length (filter required (take (n - 1) ds))), type (ds ! (n - 1)), it') \<and>
    iter_ok ds n a it' \<and> pos it' = 0"
  using assms(3)
proof (induction "n - pos it" arbitrary: it)
  case 0
  then have n: "n = 0" "pos it = 0" by (auto simp: iter_ok_def)
  then show ?case using iter_next_ok [OF m a 0(2)] 0(2)
    by (subst last_field.simps) (auto simp: iter_ok_def the_field_def split: prod.split)
next
  case (Suc k)
  obtain again it1 where nx: "pb_field_iter_next it = (again, it1)" by fastforce
  show ?case
  proof (cases "Suc (pos it) < n")
    case True
    then have 1: "again" "pos it1 = Suc (pos it)" "iter_ok ds n a it1" using iter_next_ok [OF m a Suc.prems] nx by simp_all
    then have "last_field it = last_field it1" by (subst last_field.simps) (simp add: nx)
    moreover have "k = n - pos it1" using Suc.hyps(2) 1 by simp
    ultimately show ?thesis using Suc.hyps(1) [OF _ 1(3)] by simp
  next
    case False
    then have 1: "\<not> again" "pos it1 = 0" "iter_ok ds n a it1" using iter_next_ok [OF m a Suc.prems] nx by simp_all
    have p: "pos it = n - 1" using False Suc.hyps(2) Suc.prems by (simp add: iter_ok_def)
    then show ?thesis using 1 Suc.prems by (subst last_field.simps) (simp add: nx iter_ok_def the_field_def)
  qed
qed

lemma check_required_safe:
  assumes "message ds n" and "a \<noteq> 0" and "iter_ok ds n a it"
  shows "safe D W False (check_required it seen) (\<lambda>_. True)"
proof -
  obtain c t it' where "last_field it = Some (c, t, it')" using last_field_ok [OF assms] by blast
  then show ?thesis by (simp add: check_required_def Let_def safe_ret safe_error)
qed

section \<open>The loop\<close>

lemma known_field_safe:
  assumes l: "static_layout (Suc d) (descriptors env) D W ds a" and W: "W \<subseteq> D" and k: "Suc d \<le> k"
    and it: "iter_ok ds (field_count ds) a (iterator v)"
    and sub: "sub_decoder D W decode decode_noinit (static_layout d (descriptors env) D W)"
  shows "safe D W False (known_field k env decode decode_noinit wt v) (\<lambda>v. iter_ok ds (field_count ds) a (iterator v))"
  unfolding safe_def
proof (intro allI impI)
  fix s :: "'a pb_state"
  assume D: "dom (mem s) = D"
  let ?it = "iterator v"
  let ?fixed = "PB_HTYPE (type (the_field ?it)) = 0x20 \<and> pSize ?it = pData ?it"
  let ?fresh = "?fixed \<and> fixed_count_field v \<noteq> Some (pos ?it)"
  let ?r = "if ?fixed then Local else At (pSize ?it)"
  let ?s = "if ?fresh then s\<lparr>fixed_count_size := 0\<rparr> else s"
  let ?P = "\<lambda>v. iter_ok ds (field_count ds) a (iterator v)"
  let ?goal = "\<lambda>x. \<exists>r s'. x = Some (r, s') \<and> within D W s s' \<and>
      (\<forall>a. r = Some a \<longrightarrow> ?P a \<and> (False \<longrightarrow> unat (bytes_left (input s')) < unat (bytes_left (input s))))"
  have run: "?goal (mthen (decode_field k env decode decode_noinit wt ?it ?r) (\<lambda>iter. lift (ret (v'\<lparr>iterator := iter\<rparr>))) ?s)"
    for v' :: loop_vars
  proof -
    have r: "size_ok W ?r" if "PB_HTYPE (type (the_field ?it)) = 0x20 \<or> PB_HTYPE (type (the_field ?it)) = 0x30"
      using field_layoutD(7) [OF layout_field [OF l it] that] by (simp add: size_ok_def)
    have M: "safe D W False (mthen (decode_field k env decode decode_noinit wt ?it ?r) (\<lambda>iter. lift (ret (v'\<lparr>iterator := iter\<rparr>)))) ?P"
      by (rule safe_then_lax [OF decode_field_safe [OF l W k it r sub]]) (simp_all add: safe_ret)
    have "dom (mem ?s) = D" using D by simp
    from M W this obtain q s' where 1: "mthen (decode_field k env decode decode_noinit wt ?it ?r) (\<lambda>iter. lift (ret (v'\<lparr>iterator := iter\<rparr>))) ?s = Some (q, s')"
      "within D W ?s s'" "\<And>a. q = Some a \<Longrightarrow> ?P a" by (rule safeE) blast
    have "within D W s s'" using 1(2) by (simp add: within_def split: if_splits)
    with 1 show ?thesis by auto
  qed
  show "?goal (known_field k env decode decode_noinit wt v s)"
  proof (cases "?fresh \<and> \<not> fixed_count_complete v s")
    case True
    then show ?thesis
      using D by (simp add: known_field_def Let_def pb_error_def on_stream_def PB_IN_ERROR_def within_def moved_error)
  next
    case False
    define v1 where "v1 = (if ?fresh then v\<lparr>fixed_count_field := Some (pos ?it)\<rparr> else v)"
    define v2 where "v2 = (if PB_HTYPE (type (the_field ?it)) = 0x00 \<and> required_field_index ?it < PB_MAX_REQUIRED_FIELDS
                 then v1\<lparr>fields_seen := mark_seen (required_field_index ?it) (fields_seen v1)\<rparr> else v1)"
    have "known_field k env decode decode_noinit wt v s =
        mthen (decode_field k env decode decode_noinit wt ?it ?r) (\<lambda>iter. lift (ret (v2\<lparr>iterator := iter\<rparr>))) ?s"
      unfolding known_field_def Let_def if_not_P [OF False] v2_def v1_def ..
    then show ?thesis using run [of v2] by (simp only:)
  qed
qed

lemma static_no_extension:
  assumes "static_layout (Suc d) tab D W ds a" and "i < max 1 (field_count ds)"
  shows "PB_LTYPE (type (ds ! i)) \<noteq> 9"
  using assms by (auto simp: field_layout_def Let_def)

lemma unknown_field_safe:
  assumes l: "static_layout (Suc d) (descriptors env) D W ds a" and wanted: "unat wanted < 2 ^ 32 - 1"
    and it: "iter_ok ds (field_count ds) a (iterator v)"
  shows "safe D W False (unknown_field k env decode decode_noinit wanted wt v) (\<lambda>v. iter_ok ds (field_count ds) a (iterator v))"
proof -
  let ?P = "\<lambda>v. iter_ok ds (field_count ds) a (iterator v)"
  have skip: "safe D W False (mthen (on_stream (pb_skip_field wt)) (\<lambda>_. lift (ret v'))) ?P" if "?P v'" for v' :: loop_vars
    using that by (intro safe_then_lax [OF safe_stream [OF reader_skip_field]]) (simp add: safe_ret)
  obtain it' where f: "find_extension_field (iterator v) = Some (False, it')" "iter_ok ds (field_count ds) a it'"
    using find_extension_none [OF layout_message [OF l] static_no_extension [OF l] it] by blast
  have "\<not> wanted \<ge> - 1" using wanted by (simp add: word_le_nat_alt unsigned_minus_1_eq_mask mask_eq_exp_minus_1)
  then have eq: "unknown_field k env decode decode_noinit wanted wt v =
      mthen (on_stream (pb_skip_field wt)) (\<lambda>_. lift (ret
        (if wanted \<ge> extension_range_start v then v\<lparr>iterator := it', extension_range_start := - 1\<rparr> else v)))"
    by (intro ext) (simp add: unknown_field_def Let_def f(1))
  show ?thesis unfolding eq by (rule skip) (use it f(2) in simp)
qed

lemma decode_step_safe:
  assumes l: "static_layout (Suc d) (descriptors env) D W ds a" and W: "W \<subseteq> D" and k: "Suc d \<le> k"
    and sub: "sub_decoder D W decode decode_noinit (static_layout d (descriptors env) D W)"
    and it: "iter_ok ds (field_count ds) a (iterator v)" and D: "dom (mem s) = D"
  shows "\<exists>r s'. decode_step k env decode decode_noinit v s = Some (r, s') \<and> within D W s s' \<and>
    (\<forall>v'. r = Some (Some v') \<longrightarrow> iter_ok ds (field_count ds) a (iterator v') \<and>
       unat (bytes_left (input s')) < unat (bytes_left (input s)))"
proof -
  let ?P = "\<lambda>v. iter_ok ds (field_count ds) a (iterator v)"
  obtain q eof stream where t: "pb_decode_tag (input s) = (q, eof, stream)" by (metis prod_cases3)
  note left = shrinks_decode_tag [OF t]
  show ?thesis
  proof (cases q)
    case None
    then show ?thesis using t left moved_decode_tag [OF t] D by (simp add: decode_step_def within_def)
  next
    case (Some x)
    obtain wt wanted where x: "x = (wt, wanted)" by fastforce
    obtain found it' where f: "pb_field_iter_find wanted (iterator v) = Some (found, it')" "iter_ok ds (field_count ds) a it'"
      using find_ok [OF layout_message [OF l] it] by blast
    let ?v = "v\<lparr>iterator := it'\<rparr>"
    have it': "?P ?v" using f(2) by simp
    have "unat wanted < 2 ^ 32 - 1"
    proof -
      obtain temp where "wanted = drop_bit 3 (temp :: u32)"
        using t Some x by (auto simp: pb_decode_tag_def split: prod.splits option.splits if_splits)
      then have "unat wanted = unat temp div 8" by (simp add: unat_drop_bit)
      then show ?thesis using u32_bound [of temp] by simp
    qed
    note unknown = unknown_field_safe [OF l this it']
    have "safe D W False (if found then known_field k env decode decode_noinit wt ?v
                      else unknown_field k env decode decode_noinit wanted wt ?v) ?P"
      using known_field_safe [OF l W k it' sub] unknown by simp
    then have M: "safe D W False (mthen (if found then known_field k env decode decode_noinit wt ?v
                      else unknown_field k env decode decode_noinit wanted wt ?v) (\<lambda>v. lift (ret (Some v)))) (\<lambda>r. \<forall>v. r = Some v \<longrightarrow> ?P v)"
      by (rule safe_then_lax) (simp add: safe_ret)
    have "dom (mem (s\<lparr>input := stream\<rparr>)) = D" using D by simp
    from M W this obtain r s' where 1: "mthen (if found then known_field k env decode decode_noinit wt ?v
                      else unknown_field k env decode decode_noinit wanted wt ?v) (\<lambda>v. lift (ret (Some v))) (s\<lparr>input := stream\<rparr>) = Some (r, s')"
      "within D W (s\<lparr>input := stream\<rparr>) s'" "\<And>b. r = Some b \<Longrightarrow> \<forall>v. b = Some v \<longrightarrow> ?P v" by (rule safeE) blast
    have "decode_step k env decode decode_noinit v s = Some (r, s')"
      by (simp only: decode_step_def t Some x prod.case option.case f(1) Let_def 1(1))
    moreover have "within D W s s' \<and> unat (bytes_left (input s')) < unat (bytes_left (input s))"
      using 1(2) left Some moved_trans [OF moved_decode_tag [OF t]] by (simp add: within_def)
    ultimately show ?thesis using 1(3) by auto
  qed
qed

lemma message_loop_safe:
  assumes step: "\<And>v s. P v \<Longrightarrow> dom (mem s) = D \<Longrightarrow> \<exists>r s'. step v s = Some (r, s') \<and> within D W s s' \<and>
      (\<forall>v'. r = Some (Some v') \<longrightarrow> P v' \<and> unat (bytes_left (input s')) < unat (bytes_left (input s)))"
  shows "P v \<Longrightarrow> dom (mem s) = D \<Longrightarrow> \<exists>r s'. message_loop step v s = Some (r, s') \<and> within D W s s' \<and> (\<forall>v'. r = Some v' \<longrightarrow> P v')"
proof (induction "unat (bytes_left (input s))" arbitrary: s v rule: less_induct)
  case less
  show ?case
  proof (cases "bytes_left (input s) = 0")
    case True
    then show ?thesis using less.prems by (subst message_loop.simps) (simp add: within_refl)
  next
    case False
    from step [OF less.prems] obtain r s1 where 1: "step v s = Some (r, s1)" "within D W s s1"
      "\<And>v'. r = Some (Some v') \<Longrightarrow> P v' \<and> unat (bytes_left (input s1)) < unat (bytes_left (input s))" by blast
    consider "r = None" | "r = Some None" | v' where "r = Some (Some v')" by (cases r) auto
    then show ?thesis
    proof cases
      case 3
      have "dom (mem s1) = D" using 1(2) by (simp add: within_def)
      from less.hyps [OF conjunct2 [OF 1(3) [OF 3]] conjunct1 [OF 1(3) [OF 3]] this]
      obtain r' s2 where 2: "message_loop step v' s1 = Some (r', s2)" "within D W s1 s2" "\<forall>v'. r' = Some v' \<longrightarrow> P v'" by blast
      have "message_loop step v s = Some (r', s2)" using False 1(1) 2(1) 3 by (subst message_loop.simps) simp
      then show ?thesis using 2 within_trans [OF 1(2) 2(2)] by blast
    qed (use False 1 less.prems in \<open>subst message_loop.simps; simp\<close>)+
  qed
qed

lemma safe_if: "safe D W p M Q \<Longrightarrow> safe D W p N Q \<Longrightarrow> safe D W p (\<lambda>s. if c s then M s else N s) Q"
  unfolding safe_def by metis

lemma noinit_safe:
  assumes l: "static_layout (Suc d) (descriptors env) D W ds a" and W: "W \<subseteq> D" and k: "Suc d \<le> k"
    and sub: "sub_decoder D W decode decode_noinit (static_layout d (descriptors env) D W)"
  shows "safe D W False (noinit k env decode decode_noinit ds a) (\<lambda>_. True)"
  unfolding safe_def
proof (intro allI impI)
  fix s :: "'a pb_state"
  assume D: "dom (mem s) = D"
  note m = layout_message [OF l]
  have "ds \<noteq> []" using m by (auto simp: message_def)
  define v where "v = \<lparr>iterator = snd (pb_field_iter_begin ds a), fields_seen = [0, 0],
                 extension_range_start = 0, fixed_count_field = None\<rparr>"
  let ?P = "\<lambda>v. iter_ok ds (field_count ds) a (iterator v)"
  let ?s = "s\<lparr>fixed_count_size := 0\<rparr>"
  have v: "?P v" using iter_begin_ok [OF m] by (simp add: v_def)
  have loop: "safe D W False (message_loop (decode_step k env decode decode_noinit) v) ?P"
    unfolding safe_def
  proof (intro allI impI)
    fix s :: "'a pb_state"
    assume D: "dom (mem s) = D"
    have step: "\<exists>r s'. decode_step k env decode decode_noinit v s = Some (r, s') \<and> within D W s s' \<and>
        (\<forall>v'. r = Some (Some v') \<longrightarrow> ?P v' \<and> unat (bytes_left (input s')) < unat (bytes_left (input s)))"
      if "?P v" "dom (mem s) = D" for v s
      using decode_step_safe [OF l W k sub that] .
    from message_loop_safe [where P = ?P and step = "decode_step k env decode decode_noinit", OF step v D]
    show "\<exists>r s'. message_loop (decode_step k env decode decode_noinit) v s = Some (r, s') \<and> within D W s s' \<and>
        (\<forall>a. r = Some a \<longrightarrow> ?P a \<and> (False \<longrightarrow> unat (bytes_left (input s')) < unat (bytes_left (input s))))" by blast
  qed
  have final: "safe D W False (\<lambda>s. if \<not> fixed_count_complete v s then pb_error ''wrong size for fixed count field'' s
             else check_required (iterator v) (fields_seen v) s) (\<lambda>_. True)" if "?P v" for v
    using safe_if [OF safe_error check_required_safe [OF m that]] .
  have main: "safe D W False (mthen (message_loop (decode_step k env decode decode_noinit) v) (\<lambda>v s.
             if \<not> fixed_count_complete v s then pb_error ''wrong size for fixed count field'' s
             else check_required (iterator v) (fields_seen v) s)) (\<lambda>_. True)"
    by (rule safe_then_lax [OF loop final])
  have "dom (mem ?s) = D" using D by simp
  from main W this obtain r s' where 1: "mthen (message_loop (decode_step k env decode decode_noinit) v) (\<lambda>v s.
             if \<not> fixed_count_complete v s then pb_error ''wrong size for fixed count field'' s
             else check_required (iterator v) (fields_seen v) s) ?s = Some (r, s')" "within D W ?s s'" by (rule safeE) blast
  have "noinit k env decode decode_noinit ds a s = Some (r, s'\<lparr>fixed_count_size := fixed_count_size s\<rparr>)"
    using 1(1) \<open>ds \<noteq> []\<close> by (simp only: noinit_def Let_def v_def if_False option.case prod.case)
  moreover have "within D W s (s'\<lparr>fixed_count_size := fixed_count_size s\<rparr>)" using 1(2) by (simp add: within_def)
  ultimately show "\<exists>r s'. noinit k env decode decode_noinit ds a s = Some (r, s') \<and> within D W s s' \<and>
      (\<forall>a. r = Some a \<longrightarrow> True \<and> (False \<longrightarrow> unat (bytes_left (input s')) < unat (bytes_left (input s))))" by auto
qed

section \<open>Messages\<close>

lemma init_and_decode_safe:
  assumes l: "static_layout d (descriptors env) D W ds a" and W: "W \<subseteq> D" and k: "d \<le> k"
    and dec: "safe D W False (decode_noinit ds a) (\<lambda>_. True)"
  shows "safe D W False (init_and_decode k env decode_noinit ds a) (\<lambda>_. True)"
  unfolding init_and_decode_def
proof (rule safe_then_lax [OF set_to_defaults_safe [OF l k]])
  show "safe D W False (\<lambda>s. case decode_noinit ds a s of
          None \<Rightarrow> None
        | Some (Some _, s) \<Rightarrow> Some (Some (), s)
        | Some (None, s) \<Rightarrow> mthen (pb_release k env ds a) (\<lambda>_ s. Some (None, s)) s) (\<lambda>_. True)"
    unfolding safe_def
  proof (intro allI impI)
    fix s :: "'a pb_state"
    assume D: "dom (mem s) = D"
    from dec W D obtain r s1 where 1: "decode_noinit ds a s = Some (r, s1)" "within D W s s1" by (rule safeE) blast
    have "dom (mem s1) = D" using 1(2) by (simp add: within_def)
    from release_safe [OF l W k] W this obtain q s2 where 2: "pb_release k env ds a s1 = Some (q, s2)" "within D W s1 s2"
      by (rule safeE) blast
    show "\<exists>r s'. (case decode_noinit ds a s of
          None \<Rightarrow> None
        | Some (Some _, s) \<Rightarrow> Some (Some (), s)
        | Some (None, s) \<Rightarrow> mthen (pb_release k env ds a) (\<lambda>_ s. Some (None, s)) s) = Some (r, s') \<and> within D W s s' \<and>
      (\<forall>a. r = Some a \<longrightarrow> True \<and> (False \<longrightarrow> unat (bytes_left (input s')) < unat (bytes_left (input s))))"
      using 1 2 within_trans [OF 1(2) 2(2)] by (cases r; cases q) (auto simp: mthen_def)
  qed
qed

lemma pb_decode_noinit_safe:
  "W \<subseteq> D \<Longrightarrow> static_layout d (descriptors env) D W ds a \<Longrightarrow> safe D W False (pb_decode_noinit d env ds a) (\<lambda>_. True)"
proof (induction d arbitrary: ds a)
  case (Suc d)
  have "sub_decoder D W (init_and_decode d env (pb_decode_noinit d env)) (pb_decode_noinit d env) (static_layout d (descriptors env) D W)"
    using Suc.IH [OF Suc.prems(1)] init_and_decode_safe [OF _ Suc.prems(1)] by unfold_locales blast+
  from noinit_safe [OF Suc.prems(2,1) order.refl this] show ?case by simp
qed simp

lemma pb_decode_safe:
  assumes W: "W \<subseteq> D" and l: "static_layout d (descriptors env) D W ds a"
  shows "safe D W False (pb_decode d env ds a) (\<lambda>_. True)"
  unfolding pb_decode_def by (rule init_and_decode_safe [OF l W order.refl, where decode_noinit = "pb_decode_noinit d env"], rule pb_decode_noinit_safe [OF W l])

section \<open>Decoding any input\<close>

interpretation message_decoder:
  sub_decoder "dom m" W "init_and_decode depth env (pb_decode_noinit depth env)" "pb_decode_noinit depth env"
    "\<lambda>descrs a. W \<subseteq> dom m \<and> static_layout depth (descriptors env) (dom m) W descrs a"
  by unfold_locales
    (auto intro: init_and_decode_safe [where decode_noinit = "pb_decode_noinit depth env"] pb_decode_noinit_safe)

text \<open>C2 (pb_decode_static_safe): decoding a message of static fields is memory safe whatever the input is:
  for a structure, its submessages and its default values at mapped addresses, \<open>pb_decode\<close> is
  defined and comes to an end for every sequence of bytes and every callback that the stream
  reads from, changes no byte outside of the structure, allocates and frees nothing, and does not
  give bytes back to the stream.\<close>

theorem pb_decode_static_safe:
  assumes layout: "static_layout depth (descriptors env) (dom (mem s)) W descrs dest" and mapped: "W \<subseteq> dom (mem s)"
  shows "\<exists>result s'. pb_decode depth env descrs dest s = Some (result, s')
    \<and> dom (mem s') = dom (mem s) \<and> (\<forall>x. x \<notin> W \<longrightarrow> mem s' x = mem s x)
    \<and> blocks s' = blocks s \<and> unat (bytes_left (input s')) \<le> unat (bytes_left (input s))"
  using safeE [OF pb_decode_safe [OF mapped layout] mapped refl] unfolding within_def by metis

definition sample_dec_env :: "unit dec_env" where
  "sample_dec_env = \<lparr>descriptors = tables quiet_env, dec_callback = (\<lambda>_ _ _. lift fail), dec_extension = (\<lambda>_ _ _ _. lift fail),
     new_block = (\<lambda>_ _. None), new_byte = (\<lambda>_ _. 0)\<rparr>"

definition sample_state :: "byte list \<Rightarrow> unit pb_state" where
  "sample_state bytes = \<lparr>mem = bytes_at 1000 (replicate 10 0), blocks = Map.empty,
     input = pb_istream_from_buffer bytes (word_of_nat (length bytes)), fixed_count_size = 0\<rparr>"

lemma dom_bytes_at: "dom (bytes_at a bs) = region a (length bs)"
  by (induction bs arbitrary: a) (auto simp: region_Suc)

lemma region_in: "k + n \<le> m \<Longrightarrow> region (b + word_of_nat k) n \<subseteq> region b m"
proof
  fix x
  assume km: "k + n \<le> m" and "x \<in> region (b + word_of_nat k) n"
  then obtain i where "i < n" "x = b + word_of_nat (k + i)" by (auto simp: region_def add.assoc)
  then show "x \<in> region b m" using km unfolding region_def by (auto intro!: image_eqI [where x = "k + i"])
qed

lemmas layout_simps = field_layout_def value_layout_def field_count_def data_at.simps size_at.simps
  PB_LTYPE_def PB_ATYPE_def PB_HTYPE_def Let_def member_size_def same_union_def

lemma sample_regions:
  "region 1000 4 \<subseteq> region 1000 10" "region 1004 4 \<subseteq> region 1000 10" "region 1004 6 \<subseteq> region 1000 10"
  "region 1008 (Suc 0) \<subseteq> region 1000 10" "region 1009 (Suc 0) \<subseteq> region 1000 10"
  using region_in [of 0 4 10 1000] region_in [of 4 4 10 1000] region_in [of 4 6 10 1000]
    region_in [of 8 1 10 1000] region_in [of 9 1 10 1000] by simp_all

lemma two: "[0..<2] = [0, Suc 0]"
  by (simp add: upt_rec)

lemma inner_layout: "static_layout (Suc 0) (descriptors sample_dec_env) (region 1000 10) (region 1000 10) inner_fields 1004"
proof -
  have "1008 \<in> region 1000 10" "1009 \<in> region 1000 10" using sample_regions(4,5) by (simp_all add: region_Suc)
  then show ?thesis using sample_regions by (simp add: layout_simps inner_fields_def two del: set_upt)
qed

lemma outer_layout: "static_layout 2 (descriptors sample_dec_env) (region 1000 10) (region 1000 10) outer_fields 1000"
proof -
  have t: "descriptors sample_dec_env 77 = Some inner_fields" by (simp add: sample_dec_env_def quiet_tables)
  have "static_layout (Suc (Suc 0)) (descriptors sample_dec_env) (region 1000 10) (region 1000 10) outer_fields 1000"
    unfolding static_layout.simps(2) [of "Suc 0"] using inner_layout sample_regions
    by (simp add: layout_simps outer_fields_def t two del: static_layout.simps set_upt)
  then show ?thesis by (simp only: numeral_2_eq_2)
qed

text \<open>The input is the message that \<open>pb_encode\<close> writes for \<open>sample_memory\<close>, cut after five bytes.\<close>

theorem pb_decode_static_safe_witness:
  "\<exists>result s'. pb_decode 2 sample_dec_env outer_fields 1000 (sample_state [8, 0xac, 2, 0x12, 3]) = Some (result, s')
    \<and> (\<forall>x. x \<notin> region 1000 10 \<longrightarrow> mem s' x = None)"
proof -
  have d: "dom (mem (sample_state bs)) = region 1000 10" for bs by (simp add: sample_state_def dom_bytes_at)
  have none: "mem (sample_state bs) x = None" if "x \<notin> region 1000 10" for bs x using that d [of bs] by blast
  show ?thesis
    using pb_decode_static_safe [where depth = 2 and env = sample_dec_env and descrs = outer_fields and dest = 1000
      and W = "region 1000 10", of "sample_state [8, 0xac, 2, 0x12, 3]", unfolded d, OF outer_layout order.refl] none by metis
qed

text \<open>C28 (pb_decode_stays_in_buffer): no input makes the decoder of a message of static fields, with whatever
  unknown fields and submessages, leave the buffer that the stream was made for: if the memory
  holds the bytes that are left, then after the call, whether it succeeds or not, the stream has
  moved forward by at most the bytes that it has counted, and the memory still holds the bytes that
  are left. This is proved of \<open>pb_decode\<close>, of \<open>pb_decode_noinit\<close> and of \<open>pb_decode_delimited\<close> with
  \<open>pb_decode\<close> inside, and of every value that \<open>pb_skip_field\<close> skips.\<close>

theorem pb_decode_stays_in_buffer:
  assumes layout: "static_layout depth (descriptors env) (dom (mem s)) W descrs dest" and mapped: "W \<subseteq> dom (mem s)"
    and buffer: "src (input s) = Memory m" "unat (bytes_left (input s)) \<le> length m"
  shows "(\<exists>result s' k. pb_decode depth env descrs dest s = Some (result, s') \<and>
      src (input s') = Memory (drop k m) \<and> unat (bytes_left (input s')) + k \<le> unat (bytes_left (input s)) \<and>
      unat (bytes_left (input s')) \<le> length (drop k m))
    \<and> (\<exists>result s' k. pb_decode_noinit depth env descrs dest s = Some (result, s') \<and>
      src (input s') = Memory (drop k m) \<and> unat (bytes_left (input s')) + k \<le> unat (bytes_left (input s)) \<and>
      unat (bytes_left (input s')) \<le> length (drop k m))
    \<and> (\<exists>result s' k. pb_decode_delimited_message depth env descrs dest s = Some (result, s') \<and>
      src (input s') = Memory (drop k m) \<and> unat (bytes_left (input s')) + k \<le> unat (bytes_left (input s)) \<and>
      unat (bytes_left (input s')) \<le> length (drop k m))
    \<and> (\<exists>result stream k. pb_skip_field wire_type (input s) = (result, stream) \<and>
      src stream = Memory (drop k m) \<and> unat (bytes_left stream) + k \<le> unat (bytes_left (input s)) \<and>
      unat (bytes_left stream) \<le> length (drop k m))"
proof (intro conjI)
  have stays: "\<exists>result s' k. M s = Some (result, s') \<and> src (input s') = Memory (drop k m) \<and>
      unat (bytes_left (input s')) + k \<le> unat (bytes_left (input s)) \<and> unat (bytes_left (input s')) \<le> length (drop k m)"
    if "safe (dom (mem s)) W p M (\<lambda>_. True)" for p and M :: "('a pb_state, unit) mop"
  proof -
    from that mapped obtain r s' where 1: "M s = Some (r, s')" "within (dom (mem s)) W s s'" by (rule safeE [OF _ _ refl])
    then obtain k where "src (input s') = Memory (drop k m)" "k + unat (bytes_left (input s')) \<le> unat (bytes_left (input s))"
      using buffer(1) unfolding within_def moved_def by blast
    then show ?thesis using 1(1) buffer(2) by (intro exI conjI) (assumption | simp)+
  qed
  have dec: "safe (dom (mem s)) W False (pb_decode depth env descrs dest) (\<lambda>_. True)"
    by (rule pb_decode_safe [OF mapped layout])
  show "\<exists>result s' k. pb_decode depth env descrs dest s = Some (result, s') \<and>
      src (input s') = Memory (drop k m) \<and> unat (bytes_left (input s')) + k \<le> unat (bytes_left (input s)) \<and>
      unat (bytes_left (input s')) \<le> length (drop k m)" by (rule stays [OF dec])
  show "\<exists>result s' k. pb_decode_noinit depth env descrs dest s = Some (result, s') \<and>
      src (input s') = Memory (drop k m) \<and> unat (bytes_left (input s')) + k \<le> unat (bytes_left (input s)) \<and>
      unat (bytes_left (input s')) \<le> length (drop k m)" by (rule stays [OF pb_decode_noinit_safe [OF mapped layout]])
  show "\<exists>result s' k. pb_decode_delimited_message depth env descrs dest s = Some (result, s') \<and>
      src (input s') = Memory (drop k m) \<and> unat (bytes_left (input s')) + k \<le> unat (bytes_left (input s)) \<and>
      unat (bytes_left (input s')) \<le> length (drop k m)"
    unfolding pb_decode_delimited_message_def by (rule stays [OF safe_in_substream [OF dec]])
  obtain result stream where sk: "pb_skip_field wire_type (input s) = (result, stream)" by fastforce
  obtain k where "src stream = Memory (drop k m)" "k + unat (bytes_left stream) \<le> unat (bytes_left (input s))"
    using readerD(2) [OF reader_skip_field sk] buffer(1) unfolding moved_def by blast
  then show "\<exists>result stream k. pb_skip_field wire_type (input s) = (result, stream) \<and>
      src stream = Memory (drop k m) \<and> unat (bytes_left stream) + k \<le> unat (bytes_left (input s)) \<and>
      unat (bytes_left stream) \<le> length (drop k m)"
    using sk buffer(2) by (intro exI conjI) (assumption | simp)+
qed

text \<open>A delimited message whose length, of a nested value, is more than what is there.\<close>

theorem pb_decode_stays_in_buffer_witness:
  "\<exists>result s' k. pb_decode_delimited_message 2 sample_dec_env outer_fields 1000 (sample_state [4, 0x12, 0x7f, 3, 1, 9]) = Some (result, s') \<and>
     src (input s') = Memory (drop k [4, 0x12, 0x7f, 3, 1, 9]) \<and> unat (bytes_left (input s')) + k \<le> 6 \<and>
     unat (bytes_left (input s')) \<le> length (drop k [4, 0x12, 0x7f, 3, 1, 9 :: byte])"
proof -
  have d: "dom (mem (sample_state bs)) = region 1000 10" for bs by (simp add: sample_state_def dom_bytes_at)
  have i: "src (input (sample_state bs)) = Memory bs" "bytes_left (input (sample_state bs)) = word_of_nat (length bs)" for bs
    by (simp_all add: sample_state_def pb_istream_from_buffer_def)
  from pb_decode_stays_in_buffer [where depth = 2 and env = sample_dec_env and descrs = outer_fields and dest = 1000
      and W = "region 1000 10" and wire_type = 0, of "sample_state [4, 0x12, 0x7f, 3, 1, 9]", unfolded d i, OF outer_layout order.refl refl]
  show ?thesis by simp
qed

section \<open>Arrays with a fixed count\<close>

lemma store_undefined: "k < length bs \<Longrightarrow> m (a + word_of_nat k) = None \<Longrightarrow> store m a bs = None"
proof (induction bs arbitrary: m a k)
  case (Cons b bs)
  show ?case
  proof (cases k)
    case (Suc j)
    have eq: "a + word_of_nat k = a + 1 + word_of_nat j" by (simp add: Suc)
    have "store (m(a \<mapsto> b)) (a + 1) bs = None" if "m a \<noteq> None"
    proof (rule Cons.IH [of j])
      have "m (a + 1 + word_of_nat j) = None" using Cons.prems(2) unfolding eq .
      then show "(m(a \<mapsto> b)) (a + 1 + word_of_nat j) = None" using that by (cases "a + 1 + word_of_nat j = a") simp_all
    qed (use Cons.prems Suc in simp)
    then show ?thesis by simp
  qed (use Cons.prems in simp)
qed simp

text \<open>Setting defaults changes bytes but never which addresses are mapped, when it returns at all.\<close>

definition keeps_dom :: "('s pb_state, 'a) mop \<Rightarrow> bool" where
  "keeps_dom f \<longleftrightarrow> (\<forall>s r s'. f s = Some (r, s') \<longrightarrow> r \<noteq> None \<and> dom (mem s') = dom (mem s))"

lemma keeps_domD: "keeps_dom f \<Longrightarrow> f s = Some (r, s') \<Longrightarrow> r \<noteq> None \<and> dom (mem s') = dom (mem s)"
  by (simp add: keeps_dom_def)

lemma keeps_undefined: "keeps_dom (\<lambda>_. None)"
  by (simp add: keeps_dom_def)

lemma keeps_ret: "keeps_dom (lift (ret v))"
  by (simp add: keeps_dom_def lift_def ret_def)

lemma store_dom: "store m a bs = Some m' \<Longrightarrow> dom m' = dom m"
proof (induction bs arbitrary: m a)
  case (Cons b bs)
  then have "m a \<noteq> None" "dom m' = dom (m(a \<mapsto> b))" by (auto split: if_splits)
  then show ?case by auto
qed simp

lemma keeps_write: "keeps_dom (mwrite a bs)"
  unfolding keeps_dom_def
proof (intro allI impI)
  fix s s' :: "'a pb_state" and r assume "mwrite a bs s = Some (r, s')"
  then obtain m where "store (mem s) a bs = Some m" "r = Some ()" "s' = s\<lparr>mem := m\<rparr>"
    by (auto simp: mwrite_def split: option.splits)
  then show "r \<noteq> None \<and> dom (mem s') = dom (mem s)" using store_dom [of "mem s" a bs m] by simp
qed

lemma keeps_then:
  assumes "keeps_dom f" "\<And>v. keeps_dom (g v)"
  shows "keeps_dom (mthen f g)"
  unfolding keeps_dom_def
proof (intro allI impI)
  fix s r s' assume run: "mthen f g s = Some (r, s')"
  then obtain r1 s1 where f: "f s = Some (r1, s1)" by (auto simp: mthen_def split: option.splits)
  then obtain v where "r1 = Some v" using keeps_domD [OF assms(1) f] by auto
  then have "g v s1 = Some (r, s')" using run f by (simp add: mthen_def)
  then show "r \<noteq> None \<and> dom (mem s') = dom (mem s)"
    using keeps_domD [OF assms(1) f] keeps_domD [OF assms(2)] by blast
qed

lemma keeps_read: "(\<And>v. keeps_dom (g v)) \<Longrightarrow> keeps_dom (mread f g)"
  by (auto simp: keeps_dom_def mread_def split: option.splits)

lemma keeps_if: "(b \<Longrightarrow> keeps_dom f) \<Longrightarrow> (\<not> b \<Longrightarrow> keeps_dom g) \<Longrightarrow> keeps_dom (if b then f else g)"
  by simp

lemma keeps_for_iter: "(\<And>it. keeps_dom (body it)) \<Longrightarrow> keeps_dom (for_iter k body it)"
proof (induction k arbitrary: it)
  case (Suc k)
  have "keeps_dom (if pos it + 1 \<ge> length (start it) then (\<lambda>_. None)
       else (case pb_field_iter_next it of (again, iter) \<Rightarrow> if again then for_iter k body iter else lift (ret ())))"
    using Suc by (auto simp: keeps_undefined keeps_ret split: prod.splits)
  then show ?case using Suc.prems by (simp only: for_iter.simps) (rule keeps_then)
qed (simp add: keeps_undefined)

lemma keeps_for_message: "(\<And>it. keeps_dom (body it)) \<Longrightarrow> keeps_dom (for_message body ds a)"
  unfolding for_message_def
  by (auto simp: keeps_undefined keeps_ret intro: keeps_for_iter split: prod.splits)

lemma keeps_for_chain:
  assumes f: "\<And>x. keeps_dom (f x)"
  shows "keeps_dom (for_chain f ext)"
  unfolding keeps_dom_def
proof (intro allI impI)
  fix s r s' assume run: "for_chain f ext s = Some (r, s')"
  have "f = f \<longrightarrow> fst (r, s') \<noteq> None \<and> dom (mem (snd (r, s'))) = dom (mem s)"
  proof (rule for_chain.raw_induct [where P = "\<lambda>g ext s p. g = f \<longrightarrow> fst p \<noteq> None \<and> dom (mem (snd p)) = dom (mem s)",
        OF _ run], goal_cases)
    case (1 R g ext s p)
    show ?case
    proof
      assume "g = f"
      with 1(2) have body: "(if ext = 0 then Some (Some (), s)
        else (case f ext s of None \<Rightarrow> None
          | Some (r, s) \<Rightarrow> if r = None then Some (None, s)
              else (case load64 (mem s) (ext + 16) of None \<Rightarrow> None | Some next \<Rightarrow> R f next s))) = Some p" by (simp only:)
      show "fst p \<noteq> None \<and> dom (mem (snd p)) = dom (mem s)"
      proof (cases "ext = 0")
        case True
        with body show ?thesis by auto
      next
        case False
        with body obtain r1 s1 where 2: "f ext s = Some (r1, s1)" by (auto split: option.splits)
        note k = keeps_domD [OF f 2]
        with body False 2 obtain nx where "R f nx s1 = Some p" by (auto split: option.splits)
        from 1(1) [OF this] k show ?thesis by simp
      qed
    qed
  qed
  then show "r \<noteq> None \<and> dom (mem s') = dom (mem s)" by simp
qed

lemma keeps_init_data:
  assumes "\<And>it. keeps_dom (f it)"
  shows "keeps_dom (init_data env f it)"
  unfolding init_data_def Let_def
  by (auto intro: keeps_for_message keeps_read keeps_write assms simp: keeps_undefined split: option.splits)

lemma keeps_default: "keeps_dom (pb_field_set_to_default depth env it)"
proof (induction depth arbitrary: it)
  case (Suc depth)
  show ?case unfolding pb_field_set_to_default.simps Let_def
    by (intro keeps_if keeps_read keeps_for_chain keeps_then keeps_write keeps_init_data keeps_ret Suc.IH)
qed (simp add: keeps_undefined)

text \<open>A field whose default values cannot be stored stops the loop wherever it stands.\<close>

lemma for_iter_stuck:
  assumes m: "message ds n" and a: "a \<noteq> 0" and keeps: "\<And>it. keeps_dom (body it)" and i: "i < n"
    and stuck: "\<And>it s. iter_ok ds n a it \<Longrightarrow> pos it = i \<Longrightarrow> dom (mem s) = D \<Longrightarrow> body it s = None"
  shows "iter_ok ds n a it \<Longrightarrow> pos it \<le> i \<Longrightarrow> dom (mem s) = D \<Longrightarrow> for_iter k body it s = None"
proof (induction k arbitrary: it s)
  case (Suc k)
  obtain again it' where nx: "pb_field_iter_next it = (again, it')" by fastforce
  have inside: "\<not> pos it + 1 \<ge> length (start it)" using Suc.prems m i by (simp add: message_def iter_ok_def)
  show ?case
  proof (cases "pos it = i \<or> body it s = None")
    case True
    then have "body it s = None" using stuck Suc.prems by blast
    then show ?thesis by (simp add: mthen_def)
  next
    case False
    then obtain r s1 where b: "body it s = Some (r, s1)" by auto
    note k = keeps_domD [OF keeps b]
    have nxt: "again" "pos it' = Suc (pos it)" "iter_ok ds n a it'"
      using iter_next_ok [OF m a Suc.prems(1)] False Suc.prems(2) i by (simp_all add: nx)
    have "for_iter k body it' s1 = None"
      by (rule Suc.IH [OF nxt(3)]) (use nxt False Suc.prems k in auto)
    then show ?thesis using b k inside nxt(1) by (auto simp: mthen_def nx)
  qed
qed simp

text \<open>C40 (fixed_count_overrun): an array with a fixed count has no member for its size, and its \<open>pSize\<close> is the
  address of its data. The default values store a \<open>pb_size_t\<close> of four bytes there: if one of the
  four bytes at the array's address is not mapped (an array of fewer than four bytes at the
  end of the structure), \<open>pb_decode\<close> accesses memory outside of the structure, whatever the
  input is, whatever fields the message has and at whatever place among them the array stands.\<close>

theorem fixed_count_overrun:
  assumes "message ds n" and "dest \<noteq> 0" and "i < n"
    and "PB_ATYPE (type (ds ! i)) = 0x00" and "PB_HTYPE (type (ds ! i)) = 0x20" and "PB_LTYPE (type (ds ! i)) \<noteq> 0x09"
    and "size_at ds i = data_at ds i" and "k < 4" and "mem s (dest + data_at ds i + word_of_nat k) = None"
  shows "pb_decode (Suc depth) env ds dest s = None"
proof -
  obtain nonempty it where f: "pb_field_iter_begin ds dest = (nonempty, it)" by fastforce
  have it: "iter_ok ds n dest it" "nonempty" "pos it = 0"
    using iter_begin_ok [OF assms(1,2)] f assms(3) by (auto simp: pb_field_iter_begin_def Let_def)
  have "for_iter (length ds) (pb_field_set_to_default (Suc depth) env) it s = None"
  proof (rule for_iter_stuck [OF assms(1,2) keeps_default assms(3) _ it(1) _ refl])
    fix it' and s' :: "'a pb_state"
    assume it': "iter_ok ds n dest it'" "pos it' = i" and D: "dom (mem s') = dom (mem s)"
    then have at: "the_field it' = ds ! i" "pSize it' = dest + data_at ds i"
      using assms(7) by (simp_all add: iter_ok_def the_field_def)
    have "mem s' (dest + data_at ds i + word_of_nat k) = None" using assms(9) D by blast
    then have "store (mem s') (pSize it') (le_bytes 4 0) = None"
      unfolding at(2) by (intro store_undefined [of k]) (use assms(8) in simp_all)
    then show "pb_field_set_to_default (Suc depth) env it' s' = None"
      using assms(4-6) by (simp add: Let_def at(1) mwrite_def)
  qed (simp add: it(3))
  moreover have "ds \<noteq> []" using assms(1) by (auto simp: message_def)
  ultimately show ?thesis
    by (simp add: pb_decode_def init_and_decode_def pb_message_set_to_defaults_def for_message_def f it(2) mthen_def)
qed

text \<open>A 32-bit integer and two bools at the end of the mapped memory; the bools are at 1008.\<close>

definition overrun_fields :: "pb_field list" where
  "overrun_fields =
     [\<lparr>tag = 1, type = 0x01, data_offset = 4, size_offset = 0, data_size = 4, array_size = 0, ptr = 0\<rparr>,
      \<lparr>tag = 2, type = 0x20, data_offset = 0, size_offset = 0, data_size = 1, array_size = 2, ptr = 0\<rparr>,
      \<lparr>tag = 0, type = 0, data_offset = 0, size_offset = 0, data_size = 0, array_size = 0, ptr = 0\<rparr>]"

lemma sample_end: "mem (sample_state bs) 1010 = None"
proof -
  have "1010 \<notin> region 1000 10" by (auto simp: region_def word_eq_iff_unat unat_word_ariths(1))
  then show ?thesis using dom_bytes_at [of 1000 "replicate 10 0"] by (auto simp: sample_state_def)
qed

theorem fixed_count_overrun_witness:
  "pb_decode (Suc 0) sample_dec_env overrun_fields 1000 (sample_state [8, 1]) = None"
proof (rule fixed_count_overrun [where n = "Suc (Suc 0)" and i = "Suc 0" and k = "Suc (Suc 0)"])
  have "tag (overrun_fields ! i) \<noteq> 0" if "i < Suc (Suc 0)" for i
    using that by (auto simp: overrun_fields_def less_Suc_eq)
  then show "message overrun_fields (Suc (Suc 0))" by (simp add: message_def overrun_fields_def)
  have at: "data_at overrun_fields (Suc 0) = 8"
    by (simp add: overrun_fields_def same_union_def member_size_def PB_ATYPE_def PB_HTYPE_def)
  then show "size_at overrun_fields (Suc 0) = data_at overrun_fields (Suc 0)"
    by (simp add: overrun_fields_def same_union_def PB_HTYPE_def)
  show "mem (sample_state [8, 1]) (1000 + data_at overrun_fields (Suc 0) + word_of_nat (Suc (Suc 0))) = None"
    unfolding at by (simp add: sample_end)
qed (simp_all add: overrun_fields_def PB_ATYPE_def PB_HTYPE_def PB_LTYPE_def)

end
