(* ===== verification/UV_Heap.thy ===== *)
theory UV_Heap
  imports Prelude "HOL-Library.Tree" "HOL-Library.Multiset" "HOL-Library.Tree_Multiset"
begin

unbundle bit_operations_syntax

text \<open>
  The binary min heap of libuv (\<open>heap-inl.h\<close>), in which the event loop keeps its timers. The nodes
  are linked by pointers into the user's objects; the model has an explicit store from addresses
  to nodes, with 0 for the null pointer, and the code's updates of it one by one.
\<close>

section \<open>Nodes and the store\<close>

type_synonym addr = nat

record heap_node =
  left :: addr
  right :: addr
  parent :: addr

record heap =
  hmin :: addr
  nelts :: u32
  nodes :: "addr \<Rightarrow> heap_node"

definition set_node :: "addr \<Rightarrow> (heap_node \<Rightarrow> heap_node) \<Rightarrow> heap \<Rightarrow> heap" where
  "set_node x f h = h\<lparr>nodes := (nodes h)(x := f (nodes h x))\<rparr>"

definition set_left :: "addr \<Rightarrow> addr \<Rightarrow> heap \<Rightarrow> heap" where
  "set_left x v = set_node x (\<lambda>n. n\<lparr>left := v\<rparr>)"

definition set_right :: "addr \<Rightarrow> addr \<Rightarrow> heap \<Rightarrow> heap" where
  "set_right x v = set_node x (\<lambda>n. n\<lparr>right := v\<rparr>)"

definition set_parent :: "addr \<Rightarrow> addr \<Rightarrow> heap \<Rightarrow> heap" where
  "set_parent x v = set_node x (\<lambda>n. n\<lparr>parent := v\<rparr>)"

text \<open>A pointer to a pointer: to \<open>heap->min\<close> or to a child of a node.\<close>

datatype place = Root | LeftOf addr | RightOf addr

fun read_place :: "place \<Rightarrow> heap \<Rightarrow> addr" where
  "read_place Root h = hmin h"
| "read_place (LeftOf x) h = left (nodes h x)"
| "read_place (RightOf x) h = right (nodes h x)"

fun write_place :: "place \<Rightarrow> addr \<Rightarrow> heap \<Rightarrow> heap" where
  "write_place Root v h = h\<lparr>hmin := v\<rparr>"
| "write_place (LeftOf x) v h = set_left x v h"
| "write_place (RightOf x) v h = set_right x v h"

section \<open>The operations\<close>

definition heap_init :: "heap \<Rightarrow> heap" where
  "heap_init h = h\<lparr>hmin := 0, nelts := 0\<rparr>"

definition heap_min :: "heap \<Rightarrow> addr" where
  "heap_min h = hmin h"

text \<open>The updates behind \<open>if (x != NULL)\<close>, and of the pointer that points down to a node.\<close>

definition adopt :: "addr \<Rightarrow> addr \<Rightarrow> heap \<Rightarrow> heap" where
  "adopt x par h = (if x \<noteq> 0 then set_parent x par h else h)"

definition replace_child :: "addr \<Rightarrow> addr \<Rightarrow> addr \<Rightarrow> heap \<Rightarrow> heap" where
  "replace_child par old new h =
     (if par = 0 then h\<lparr>hmin := new\<rparr>
      else if left (nodes h par) = old then set_left par new h
      else set_right par new h)"

definition heap_node_swap :: "addr \<Rightarrow> addr \<Rightarrow> heap \<Rightarrow> heap" where
  "heap_node_swap par child h =
     (let t = nodes h par;
          h = set_node par (\<lambda>_. nodes h child) h;
          h = set_node child (\<lambda>_. t) h;
          h = set_parent par child h;
          (h, sibling) =
            (if left (nodes h child) = child
             then (set_left child par h, right (nodes h child))
             else (set_right child par h, left (nodes h child)));
          h = adopt sibling child h;
          h = adopt (left (nodes h par)) par h;
          h = adopt (right (nodes h par)) par h
      in replace_child (parent (nodes h child)) par child h)"

text \<open>The number of steps and the path to the node with number \<open>n\<close>, the lowest bit first.\<close>

function path_to :: "u32 \<Rightarrow> u32 \<Rightarrow> nat \<Rightarrow> u32 \<times> nat" where
  "path_to n path k =
     (if n \<ge> 2 then path_to (n div 2) (push_bit 1 path OR (n AND 1)) (k + 1) else (path, k))"
  by pat_completeness auto
termination
  by (relation "measure (\<lambda>(n, _). unat n)") (auto simp: word_le_nat_alt unat_div)

declare path_to.simps [simp del]

fun descend :: "nat \<Rightarrow> u32 \<Rightarrow> place \<Rightarrow> place \<Rightarrow> heap \<Rightarrow> place \<times> place" where
  "descend 0 path par child h = (par, child)"
| "descend (Suc k) path par child h =
     descend k (drop_bit 1 path) child
       (if path AND 1 \<noteq> 0 then RightOf (read_place child h) else LeftOf (read_place child h)) h"

text \<open>The loops that move a node up or down; on a damaged heap they may not end.\<close>

partial_function (option) walk_up :: "(addr \<Rightarrow> addr \<Rightarrow> bool) \<Rightarrow> addr \<Rightarrow> heap \<Rightarrow> heap option" where
  "walk_up less_node x h =
     (if parent (nodes h x) \<noteq> 0 \<and> less_node x (parent (nodes h x))
      then walk_up less_node x (heap_node_swap (parent (nodes h x)) x h)
      else Some h)"

definition smallest_of :: "(addr \<Rightarrow> addr \<Rightarrow> bool) \<Rightarrow> addr \<Rightarrow> heap \<Rightarrow> addr" where
  "smallest_of less_node child h =
     (let smallest = child;
          smallest = (if left (nodes h child) \<noteq> 0 \<and> less_node (left (nodes h child)) smallest
                      then left (nodes h child) else smallest)
      in if right (nodes h child) \<noteq> 0 \<and> less_node (right (nodes h child)) smallest
         then right (nodes h child) else smallest)"

partial_function (option) walk_down :: "(addr \<Rightarrow> addr \<Rightarrow> bool) \<Rightarrow> addr \<Rightarrow> heap \<Rightarrow> heap option" where
  "walk_down less_node child h =
     (let smallest = smallest_of less_node child h in
      if smallest = child then Some h
      else walk_down less_node child (heap_node_swap child smallest h))"

definition heap_insert :: "addr \<Rightarrow> (addr \<Rightarrow> addr \<Rightarrow> bool) \<Rightarrow> heap \<Rightarrow> heap option" where
  "heap_insert newnode less_node h =
     (let h = set_node newnode (\<lambda>_. \<lparr>left = 0, right = 0, parent = 0\<rparr>) h;
          (path, k) = path_to (1 + nelts h) 0 0;
          (par, child) = descend k path Root Root h;
          h = set_parent newnode (read_place par h) h;
          h = write_place child newnode h;
          h = h\<lparr>nelts := nelts h + 1\<rparr>
      in walk_up less_node newnode h)"

text \<open>The node that takes the place of a removed one.\<close>

definition replace_node :: "addr \<Rightarrow> addr \<Rightarrow> heap \<Rightarrow> heap" where
  "replace_node node child h =
     (let h = set_left child (left (nodes h node)) h;
          h = set_right child (right (nodes h node)) h;
          h = set_parent child (parent (nodes h node)) h;
          h = adopt (left (nodes h child)) child h;
          h = adopt (right (nodes h child)) child h
      in replace_child (parent (nodes h node)) node child h)"

definition heap_remove :: "addr \<Rightarrow> (addr \<Rightarrow> addr \<Rightarrow> bool) \<Rightarrow> heap \<Rightarrow> heap option" where
  "heap_remove node less_node h =
     (if nelts h = 0 then Some h
      else
        let (path, k) = path_to (nelts h) 0 0;
            (_, max) = descend k path Root Root h;
            h = h\<lparr>nelts := nelts h - 1\<rparr>;
            child = read_place max h;
            h = write_place max 0 h
        in if child = node then
             Some (if child = hmin h then h\<lparr>hmin := 0\<rparr> else h)
           else
             (case walk_down less_node child (replace_node node child h) of
                None \<Rightarrow> None
              | Some h \<Rightarrow> walk_up less_node child h))"

definition heap_dequeue :: "(addr \<Rightarrow> addr \<Rightarrow> bool) \<Rightarrow> heap \<Rightarrow> heap option" where
  "heap_dequeue less_node h = heap_remove (hmin h) less_node h"

section \<open>The tree in the store\<close>

text \<open>
  A node is described by its own address, so a subtree is a tree of addresses. A position in the
  heap is a subtree together with the way from it up to the root: the side on which it hangs, the
  node above and the other subtree of that node.
\<close>

datatype side = L | R

type_synonym context_path = "(side \<times> addr \<times> addr tree) list"

fun ptr :: "addr tree \<Rightarrow> addr" where
  "ptr \<langle>\<rangle> = 0"
| "ptr \<langle>l, x, r\<rangle> = x"

fun above :: "context_path \<Rightarrow> addr" where
  "above [] = 0"
| "above ((d, x, s) # ctx) = x"

fun repr :: "(addr \<Rightarrow> heap_node) \<Rightarrow> addr \<Rightarrow> addr tree \<Rightarrow> bool" where
  "repr st par \<langle>\<rangle> = True"
| "repr st par \<langle>l, x, r\<rangle> =
     (x \<noteq> 0 \<and> st x = \<lparr>left = ptr l, right = ptr r, parent = par\<rparr> \<and> repr st x l \<and> repr st x r)"

fun ctx_repr :: "(addr \<Rightarrow> heap_node) \<Rightarrow> addr \<Rightarrow> addr \<Rightarrow> context_path \<Rightarrow> bool" where
  "ctx_repr st root p [] = (root = p)"
| "ctx_repr st root p ((L, x, s) # ctx) =
     (x \<noteq> 0 \<and> st x = \<lparr>left = p, right = ptr s, parent = above ctx\<rparr> \<and> repr st x s \<and> ctx_repr st root x ctx)"
| "ctx_repr st root p ((R, x, s) # ctx) =
     (x \<noteq> 0 \<and> st x = \<lparr>left = ptr s, right = p, parent = above ctx\<rparr> \<and> repr st x s \<and> ctx_repr st root x ctx)"

fun ctx_nodes :: "context_path \<Rightarrow> addr list" where
  "ctx_nodes [] = []"
| "ctx_nodes ((d, x, s) # ctx) = x # inorder s @ ctx_nodes ctx"

fun plug :: "(side \<times> 'a \<times> 'a tree) list \<Rightarrow> 'a tree \<Rightarrow> 'a tree" where
  "plug [] t = t"
| "plug ((L, x, s) # ctx) t = plug ctx \<langle>t, x, s\<rangle>"
| "plug ((R, x, s) # ctx) t = plug ctx \<langle>s, x, t\<rangle>"

definition at_position :: "heap \<Rightarrow> context_path \<Rightarrow> addr tree \<Rightarrow> bool" where
  "at_position h ctx t \<longleftrightarrow>
     repr (nodes h) (above ctx) t \<and> ctx_repr (nodes h) (hmin h) (ptr t) ctx \<and> distinct (inorder t @ ctx_nodes ctx)"

abbreviation holds_tree :: "heap \<Rightarrow> addr tree \<Rightarrow> bool" where
  "holds_tree h t \<equiv> at_position h [] t"

lemma ptr_0_iff: "repr st par t \<Longrightarrow> ptr t = 0 \<longleftrightarrow> t = \<langle>\<rangle>"
  by (cases t) auto

lemma ptr_in: "ptr t \<noteq> 0 \<Longrightarrow> ptr t \<in> set_tree t"
  by (cases t) auto

lemma above_in: "above ctx \<noteq> 0 \<Longrightarrow> above ctx \<in> set (ctx_nodes ctx)"
  by (cases ctx rule: above.cases) auto

lemma above_0_iff: "ctx_repr st root p ctx \<Longrightarrow> above ctx = 0 \<longleftrightarrow> ctx = []"
  by (cases ctx rule: ctx_nodes.cases; cases "fst (hd ctx)") auto

lemma repr_nonzero: "repr st par t \<Longrightarrow> 0 \<notin> set_tree t"
  by (induction t arbitrary: par) auto

lemma ctx_repr_nonzero: "ctx_repr st root p ctx \<Longrightarrow> 0 \<notin> set (ctx_nodes ctx)"
  by (induction st root p ctx rule: ctx_repr.induct) (auto dest: repr_nonzero)

lemma repr_cong: "(\<And>x. x \<in> set_tree t \<Longrightarrow> st' x = st x) \<Longrightarrow> repr st' par t = repr st par t"
  by (induction t arbitrary: par) auto

lemma ctx_repr_cong: "(\<And>x. x \<in> set (ctx_nodes ctx) \<Longrightarrow> st' x = st x) \<Longrightarrow> ctx_repr st' root p ctx = ctx_repr st root p ctx"
proof (induction st root p ctx rule: ctx_repr.induct)
  case (2 st root p x s ctx)
  then show ?case using repr_cong [of s st' st] by simp
next
  case (3 st root p x s ctx)
  then show ?case using repr_cong [of s st' st] by simp
qed simp

lemma repr_reparent:
  assumes "repr st par t" and "distinct (inorder t)" and "\<And>x. x \<in> set_tree t \<Longrightarrow> x \<noteq> ptr t \<Longrightarrow> st' x = st x"
    and "t \<noteq> \<langle>\<rangle> \<Longrightarrow> st' (ptr t) = (st (ptr t))\<lparr>parent := par'\<rparr>"
  shows "repr st' par' t"
proof (cases t)
  case (Node l x r)
  then have "repr st' x l = repr st x l" "repr st' x r = repr st x r"
    using assms(2,3) by (intro repr_cong; force)+
  then show ?thesis using assms Node by simp
qed simp

text \<open>The child pointer above the position, or the pointer to the root, is redirected.\<close>

fun redirect :: "context_path \<Rightarrow> addr \<Rightarrow> heap_node \<Rightarrow> heap_node" where
  "redirect [] p n = n"
| "redirect ((L, x, s) # ctx) p n = n\<lparr>left := p\<rparr>"
| "redirect ((R, x, s) # ctx) p n = n\<lparr>right := p\<rparr>"

lemma ctx_redirect:
  assumes "ctx_repr st root p ctx" and "distinct (ctx_nodes ctx)"
    and "\<And>x. x \<in> set (ctx_nodes ctx) \<Longrightarrow> x \<noteq> above ctx \<Longrightarrow> st' x = st x"
    and "ctx \<noteq> [] \<Longrightarrow> st' (above ctx) = redirect ctx p' (st (above ctx))"
    and "root' = (if ctx = [] then p' else root)"
  shows "ctx_repr st' root' p' ctx"
proof (cases ctx)
  case (Cons a ctx')
  obtain d x s where a: "a = (d, x, s)" by (cases a) auto
  have "repr st' x s = repr st x s" and "ctx_repr st' root x ctx' = ctx_repr st root x ctx'"
    using assms(2,3) Cons a by (auto intro!: repr_cong ctx_repr_cong)
  then show ?thesis using assms Cons a by (cases d) auto
qed (use assms in simp)

section \<open>Swapping a node with its parent\<close>

lemma set_node_simps [simp]:
  "nodes (set_node x f h) = (nodes h)(x := f (nodes h x))"
  "hmin (set_node x f h) = hmin h" "nelts (set_node x f h) = nelts h"
  by (simp_all add: set_node_def)

lemma set_simps [simp]:
  "nodes (set_left x v h) = (nodes h)(x := (nodes h x)\<lparr>left := v\<rparr>)"
  "nodes (set_right x v h) = (nodes h)(x := (nodes h x)\<lparr>right := v\<rparr>)"
  "nodes (set_parent x v h) = (nodes h)(x := (nodes h x)\<lparr>parent := v\<rparr>)"
  "hmin (set_left x v h) = hmin h" "nelts (set_left x v h) = nelts h"
  "hmin (set_right x v h) = hmin h" "nelts (set_right x v h) = nelts h"
  "hmin (set_parent x v h) = hmin h" "nelts (set_parent x v h) = nelts h"
  by (simp_all add: set_left_def set_right_def set_parent_def)

fun node_of :: "side \<Rightarrow> 'a \<Rightarrow> 'a tree \<Rightarrow> 'a tree \<Rightarrow> 'a tree" where
  "node_of L x t s = \<langle>t, x, s\<rangle>"
| "node_of R x t s = \<langle>s, x, t\<rangle>"

lemma adopt_simps [simp]:
  "nodes (adopt x p h) = (\<lambda>y. if y \<noteq> 0 \<and> y = x then (nodes h y)\<lparr>parent := p\<rparr> else nodes h y)"
  "hmin (adopt x p h) = hmin h" "nelts (adopt x p h) = nelts h"
  by (auto simp: adopt_def)

lemma replace_child_simps [simp]:
  "nodes (replace_child p old new h) = (\<lambda>y. if y \<noteq> 0 \<and> y = p
     then (if left (nodes h p) = old then (nodes h p)\<lparr>left := new\<rparr> else (nodes h p)\<lparr>right := new\<rparr>) else nodes h y)"
  "hmin (replace_child p old new h) = (if p = 0 then new else hmin h)" "nelts (replace_child p old new h) = nelts h"
  by (auto simp: replace_child_def)

lemma nelts_swap [simp]: "nelts (heap_node_swap par child h) = nelts h"
  by (simp add: heap_node_swap_def split_beta Let_def if_distrib [of fst] if_distrib [of nelts])

lemma swap_position:
  assumes pos: "at_position h ((d, x, s) # ctx) \<langle>l, c, r\<rangle>"
  shows "at_position (heap_node_swap x c h) ctx (node_of d c \<langle>l, x, r\<rangle> s)"
proof -
  let ?st = "nodes h" and ?h = "heap_node_swap x c h"
  have dist: "distinct (inorder \<langle>l, c, r\<rangle> @ x # inorder s @ ctx_nodes ctx)" using pos by (simp add: at_position_def)
  have c: "c \<noteq> 0" "?st c = \<lparr>left = ptr l, right = ptr r, parent = x\<rparr>" and sub: "repr ?st c l" "repr ?st c r"
    using pos by (simp_all add: at_position_def)
  have x: "x \<noteq> 0" and s: "repr ?st x s" and ctx: "ctx_repr ?st (hmin h) x ctx"
    and xn: "?st x = (if d = L then \<lparr>left = c, right = ptr s, parent = above ctx\<rparr> else \<lparr>left = ptr s, right = c, parent = above ctx\<rparr>)"
    using pos by (cases d; simp add: at_position_def)+
  have sets: "x \<noteq> c" "x \<notin> set_tree l" "x \<notin> set_tree r" "x \<notin> set_tree s" "x \<notin> set (ctx_nodes ctx)"
    "c \<notin> set_tree l" "c \<notin> set_tree r" "c \<notin> set_tree s" "c \<notin> set (ctx_nodes ctx)"
    "set_tree l \<inter> set_tree r = {}" "set_tree l \<inter> set_tree s = {}" "set_tree r \<inter> set_tree s = {}"
    "set_tree l \<inter> set (ctx_nodes ctx) = {}" "set_tree r \<inter> set (ctx_nodes ctx) = {}" "set_tree s \<inter> set (ctx_nodes ctx) = {}"
    using dist by auto
  note mem = ptr_in [of l] ptr_in [of r] ptr_in [of s] above_in [of ctx]
  have ne: "x \<noteq> c" "ptr l \<noteq> x" "ptr l \<noteq> c" "ptr r \<noteq> x" "ptr r \<noteq> c" "ptr s \<noteq> x" "ptr s \<noteq> c" "above ctx \<noteq> x" "above ctx \<noteq> c"
    using sets mem c(1) x by metis+
  have ne2: "ptr l \<noteq> 0 \<Longrightarrow> ptr l \<noteq> ptr r" "ptr l \<noteq> 0 \<Longrightarrow> ptr l \<noteq> ptr s" "ptr r \<noteq> 0 \<Longrightarrow> ptr r \<noteq> ptr s"
    "ptr l \<noteq> 0 \<Longrightarrow> ptr l \<noteq> above ctx" "ptr r \<noteq> 0 \<Longrightarrow> ptr r \<noteq> above ctx" "ptr s \<noteq> 0 \<Longrightarrow> ptr s \<noteq> above ctx"
    using sets(10-15) mem by (metis disjoint_iff)+
  have up: "redirect ctx c (?st (above ctx)) = (if left (?st (above ctx)) = x then (?st (above ctx))\<lparr>left := c\<rparr> else (?st (above ctx))\<lparr>right := c\<rparr>)"
    if "above ctx \<noteq> 0"
  proof (cases ctx)
    case (Cons a ctx')
    obtain e y t where a: "a = (e, y, t)" by (cases a) auto
    have "ptr t \<noteq> x" using sets(5) ptr_in [of t] x Cons a by auto
    then show ?thesis using ctx Cons a by (cases e) auto
  qed (use that in simp)
  define nc where "nc = (if d = L then \<lparr>left = x, right = ptr s, parent = above ctx\<rparr> else \<lparr>left = ptr s, right = x, parent = above ctx\<rparr>)"
  define h2 where "h2 = h\<lparr>nodes := ?st(x := \<lparr>left = ptr l, right = ptr r, parent = c\<rparr>, c := nc)\<rparr>"
  note ne' = ne ne [symmetric]
  define h1 where "h1 = set_parent x c (set_node c (\<lambda>_. nodes h x) (set_node x (\<lambda>_. nodes h c) h))"
  have h1: "nodes h1 x = \<lparr>left = ptr l, right = ptr r, parent = c\<rparr>" "nodes h1 c = ?st x"
    "y \<noteq> x \<Longrightarrow> y \<noteq> c \<Longrightarrow> nodes h1 y = ?st y" "hmin h1 = hmin h" "nelts h1 = nelts h" for y
    using ne(1) by (simp_all add: h1_def c(2))
  have "set_left c x h1 = h2" if "d = L"
    by (intro heap.equality) (use ne(1) that in \<open>auto simp: h2_def nc_def xn h1 fun_eq_iff\<close>)
  moreover have "set_right c x h1 = h2" if "d = R"
    by (intro heap.equality) (use ne(1) that in \<open>auto simp: h2_def nc_def xn h1 fun_eq_iff\<close>)
  ultimately have step1: "(if left (nodes h1 c) = c then (set_left c x h1, right (nodes h1 c))
      else (set_right c x h1, left (nodes h1 c))) = (h2, ptr s)"
    using ne' by (cases d) (auto simp: h1(2) xn)
  have h2: "nodes h2 x = \<lparr>left = ptr l, right = ptr r, parent = c\<rparr>" "nodes h2 c = nc" "parent nc = above ctx"
    using ne(1) by (simp_all add: h2_def nc_def)
  have step2: "left (nodes (adopt (ptr s) c h2) x) = ptr l"
    "right (nodes (adopt (ptr l) x (adopt (ptr s) c h2)) x) = ptr r"
    "parent (nodes (adopt (ptr r) x (adopt (ptr l) x (adopt (ptr s) c h2))) c) = above ctx"
    by (simp_all add: h2 ne')
  have swap: "?h = replace_child (above ctx) x c (adopt (ptr r) x (adopt (ptr l) x (adopt (ptr s) c h2)))"
    unfolding heap_node_swap_def Let_def h1_def [symmetric] by (simp only: step1 prod.case step2)
  let ?st' = "nodes ?h"
  have f1: "?st' x = \<lparr>left = ptr l, right = ptr r, parent = c\<rparr>" using x by (simp add: swap h2_def ne')
  have f2: "?st' c = nc" using c(1) by (simp add: swap h2_def ne')
  have f3: "?st' (ptr s) = (?st (ptr s))\<lparr>parent := c\<rparr>" if "ptr s \<noteq> 0"
    using that ne2 by (auto simp: swap h2_def ne')
  have f4: "?st' (ptr l) = (?st (ptr l))\<lparr>parent := x\<rparr>" if "ptr l \<noteq> 0"
    using that ne2 by (auto simp: swap h2_def ne')
  have f5: "?st' (ptr r) = (?st (ptr r))\<lparr>parent := x\<rparr>" if "ptr r \<noteq> 0"
    using that ne2 by (auto simp: swap h2_def ne')
  have f6: "?st' (above ctx) = redirect ctx c (?st (above ctx))" if "above ctx \<noteq> 0"
    unfolding up [OF that] using that ne2 by (auto simp: swap h2_def ne')
  have f7: "?st' y = ?st y" if "y \<notin> {x, c, ptr s, ptr l, ptr r, above ctx}" for y
    using that by (simp add: swap h2_def)
  have root: "hmin ?h = (if ctx = [] then c else hmin h)"
    unfolding swap using above_0_iff [OF ctx] by (simp add: h2_def)
  have nz: "0 \<notin> set_tree l" "0 \<notin> set_tree r" "0 \<notin> set_tree s" "0 \<notin> set (ctx_nodes ctx)"
    using repr_nonzero sub s ctx ctx_repr_nonzero by blast+
  have as: "y \<noteq> ptr l" "y \<noteq> ptr r" "y \<noteq> above ctx" if "y \<in> set_tree s" for y
    using that nz(3) sets(11,12,15) mem by (metis disjoint_iff)+
  have al: "y \<noteq> ptr s" "y \<noteq> ptr r" "y \<noteq> above ctx" if "y \<in> set_tree l" for y
    using that nz(1) sets(10,11,13) mem by (metis disjoint_iff)+
  have ar: "y \<noteq> ptr s" "y \<noteq> ptr l" "y \<noteq> above ctx" if "y \<in> set_tree r" for y
    using that nz(2) sets(10,12,14) mem by (metis disjoint_iff)+
  have ac: "y \<noteq> ptr s" "y \<noteq> ptr l" "y \<noteq> ptr r" if "y \<in> set (ctx_nodes ctx)" for y
    using that nz(4) sets(13-15) mem by (metis disjoint_iff)+
  have "repr ?st' c s"
  proof (rule repr_reparent [OF s])
    show "?st' y = ?st y" if "y \<in> set_tree s" "y \<noteq> ptr s" for y
      using that sets(4,8) as [of y] by (intro f7) auto
  qed (use dist f3 ptr_0_iff [OF s] in auto)
  moreover have "repr ?st' x l"
  proof (rule repr_reparent [OF sub(1)])
    show "?st' y = ?st y" if "y \<in> set_tree l" "y \<noteq> ptr l" for y
      using that sets(2,6) al [of y] by (intro f7) auto
  qed (use dist f4 ptr_0_iff [OF sub(1)] in auto)
  moreover have "repr ?st' x r"
  proof (rule repr_reparent [OF sub(2)])
    show "?st' y = ?st y" if "y \<in> set_tree r" "y \<noteq> ptr r" for y
      using that sets(3,7) ar [of y] by (intro f7) auto
  qed (use dist f5 ptr_0_iff [OF sub(2)] in auto)
  moreover have "ctx_repr ?st' (hmin ?h) c ctx"
  proof (rule ctx_redirect [OF ctx])
    show "?st' y = ?st y" if "y \<in> set (ctx_nodes ctx)" "y \<noteq> above ctx" for y
      using that sets(5,9) ac [of y] by (intro f7) auto
  qed (use dist f6 root above_0_iff [OF ctx] in auto)
  ultimately show ?thesis using dist c(1) x f1 f2
    by (cases d) (auto simp: at_position_def nc_def)
qed

section \<open>Moving along the tree\<close>

lemma plug_Cons: "plug ((d, x, s) # ctx) t = plug ctx (node_of d x t s)"
  by (cases d) simp_all

lemma at_Cons: "at_position h ((d, x, s) # ctx) t \<longleftrightarrow> at_position h ctx (node_of d x t s)"
  by (cases d) (auto simp: at_position_def)

lemma at_plug: "at_position h ctx t \<longleftrightarrow> holds_tree h (plug ctx t)"
proof (induction ctx arbitrary: t)
  case (Cons a ctx)
  then show ?case by (cases a) (simp only: at_Cons plug_Cons)
qed simp

text \<open>The loops on trees. A node moves up past those it is lt than.\<close>

fun up :: "('a \<Rightarrow> 'a \<Rightarrow> bool) \<Rightarrow> (side \<times> 'a \<times> 'a tree) list \<Rightarrow> 'a tree \<Rightarrow> 'a \<Rightarrow> 'a tree \<Rightarrow> 'a tree" where
  "up lt [] l c r = \<langle>l, c, r\<rangle>"
| "up lt ((L, x, s) # ctx) l c r = (if lt c x then up lt ctx \<langle>l, x, r\<rangle> c s else plug ((L, x, s) # ctx) \<langle>l, c, r\<rangle>)"
| "up lt ((R, x, s) # ctx) l c r = (if lt c x then up lt ctx s c \<langle>l, x, r\<rangle> else plug ((R, x, s) # ctx) \<langle>l, c, r\<rangle>)"

lemma walk_up_position:
  "at_position h ctx \<langle>l, c, r\<rangle> \<Longrightarrow>
   \<exists>h'. walk_up lt c h = Some h' \<and> holds_tree h' (up lt ctx l c r) \<and> nelts h' = nelts h"
proof (induction ctx arbitrary: h l r)
  case Nil
  then have "parent (nodes h c) = 0" by (simp add: at_position_def)
  then have "walk_up lt c h = Some h" by (subst walk_up.simps) simp
  with Nil show ?case by simp
next
  case (Cons a ctx)
  obtain d x s where a: "a = (d, x, s)" by (cases a) auto
  have p: "parent (nodes h c) = x" "x \<noteq> 0" using Cons.prems by (cases d; simp add: at_position_def a)+
  show ?case
  proof (cases "lt c x")
    case False
    then have "walk_up lt c h = Some h" using p by (subst walk_up.simps) simp
    moreover have "up lt (a # ctx) l c r = plug (a # ctx) \<langle>l, c, r\<rangle>" using False a by (cases d) simp_all
    ultimately show ?thesis using Cons.prems at_plug [of h "a # ctx" "\<langle>l, c, r\<rangle>"] by simp
  next
    case True
    have "at_position (heap_node_swap x c h) ctx (node_of d c \<langle>l, x, r\<rangle> s)"
      using swap_position Cons.prems a by simp
    then obtain l' r' where t: "node_of d c \<langle>l, x, r\<rangle> s = \<langle>l', c, r'\<rangle>"
      and at: "at_position (heap_node_swap x c h) ctx \<langle>l', c, r'\<rangle>" by (cases d) auto
    have "walk_up lt c h = walk_up lt c (heap_node_swap x c h)"
      using p True by (subst walk_up.simps) simp
    moreover have "up lt (a # ctx) l c r = up lt ctx l' c r'" using True a t by (cases d) auto
    ultimately show ?thesis using Cons.IH [OF at] by simp
  qed
qed

text \<open>A node moves down past the smaller one of its children.\<close>

fun lesser :: "('a \<Rightarrow> 'a \<Rightarrow> bool) \<Rightarrow> 'a tree \<Rightarrow> 'a \<Rightarrow> 'a" where
  "lesser lt \<langle>\<rangle> m = m"
| "lesser lt \<langle>l, x, r\<rangle> m = (if lt x m then x else m)"

fun root_less :: "('a \<Rightarrow> 'a \<Rightarrow> bool) \<Rightarrow> 'a tree \<Rightarrow> 'a \<Rightarrow> bool" where
  "root_less lt \<langle>\<rangle> m = False"
| "root_less lt \<langle>l, x, r\<rangle> m = lt x m"

function down :: "('a \<Rightarrow> 'a \<Rightarrow> bool) \<Rightarrow> (side \<times> 'a \<times> 'a tree) list \<Rightarrow> 'a tree \<Rightarrow> 'a \<Rightarrow> 'a tree \<Rightarrow>
    (side \<times> 'a \<times> 'a tree) list \<times> 'a tree \<times> 'a tree" where
  "down lt ctx l c r =
     (if root_less lt r (lesser lt l c) then
        (case r of \<langle>rl, rx, rr\<rangle> \<Rightarrow> down lt ((R, rx, l) # ctx) rl c rr)
      else if root_less lt l c then
        (case l of \<langle>ll, lx, lr\<rangle> \<Rightarrow> down lt ((L, lx, r) # ctx) ll c lr)
      else (ctx, l, r))"
  by pat_completeness auto
termination
  by (relation "measure (\<lambda>(_, _, l, _, r). size l + size r)") auto

declare down.simps [simp del]

lemma down_cases:
  obtains (right) rl rx rr where "r = \<langle>rl, rx, rr\<rangle>" and "lt rx (lesser lt l c)"
      and "down lt ctx l c r = down lt ((R, rx, l) # ctx) rl c rr"
  | (left) ll lx lr where "l = \<langle>ll, lx, lr\<rangle>" and "lt lx c" and "\<not> root_less lt r lx"
      and "down lt ctx l c r = down lt ((L, lx, r) # ctx) ll c lr"
  | (stop) "\<not> root_less lt r c" and "\<not> root_less lt l c" and "down lt ctx l c r = (ctx, l, r)"
proof (cases "root_less lt r (lesser lt l c)")
  case True
  then obtain rl rx rr where r: "r = \<langle>rl, rx, rr\<rangle>" "lt rx (lesser lt l c)" by (cases r) auto
  have "down lt ctx l c r = down lt ((R, rx, l) # ctx) rl c rr"
    using r by (subst down.simps) simp
  then show ?thesis by (rule right [OF r])
next
  case False
  note r = False
  show ?thesis
  proof (cases "root_less lt l c")
    case True
    then obtain ll lx lr where l: "l = \<langle>ll, lx, lr\<rangle>" "lt lx c" by (cases l) auto
    have "\<not> root_less lt r lx" using r l by (simp)
    moreover have "down lt ctx l c r = down lt ((L, lx, r) # ctx) ll c lr"
      using r l by (subst down.simps) (simp)
    ultimately show ?thesis by (rule left [OF l])
  next
    case False
    then have "lesser lt l c = c" by (cases l) (simp_all)
    then show ?thesis using stop r False by (simp add: down.simps [of lt ctx l c r])
  qed
qed

lemma smallest_position:
  assumes "at_position h ctx \<langle>l, c, r\<rangle>"
  shows "smallest_of lt c h = lesser lt r (lesser lt l c)"
  using assms by (cases l; cases r) (auto simp: smallest_of_def at_position_def Let_def)

lemma walk_down_position:
  "at_position h ctx \<langle>l, c, r\<rangle> \<Longrightarrow>
   \<exists>h'. walk_down lt c h = Some h' \<and> nelts h' = nelts h \<and>
     (case down lt ctx l c r of (ctx', l', r') \<Rightarrow> at_position h' ctx' \<langle>l', c, r'\<rangle>)"
proof (induction "size l + size r" arbitrary: h ctx l r rule: less_induct)
  case less
  note at = less.prems
  have ne: "c \<notin> set_tree l" "c \<notin> set_tree r" using at by (auto simp: at_position_def)
  show ?case
  proof (cases rule: down_cases [where lt = lt and ctx = ctx and l = l and c = c and r = r])
    case (right rl rx rr)
    have "smallest_of lt c h = rx" using smallest_position [OF at] right by simp
    moreover have "rx \<noteq> c" using ne right by auto
    ultimately have w: "walk_down lt c h = walk_down lt c (heap_node_swap c rx h)"
      by (subst walk_down.simps) (simp add: Let_def)
    have "at_position h ((R, c, l) # ctx) \<langle>rl, rx, rr\<rangle>" using at right by (simp add: at_Cons)
    from swap_position [OF this] have "at_position (heap_node_swap c rx h) ((R, rx, l) # ctx) \<langle>rl, c, rr\<rangle>"
      by (simp add: at_Cons)
    note at' = this
    have "size rl + size rr < size l + size r" using right by simp
    from less.hyps [OF this at'] right w show ?thesis by simp
  next
    case (left ll lx lr)
    have "smallest_of lt c h = lx" using smallest_position [OF at] left by (cases r) (simp_all)
    moreover have "lx \<noteq> c" using ne left by auto
    ultimately have w: "walk_down lt c h = walk_down lt c (heap_node_swap c lx h)"
      by (subst walk_down.simps) (simp add: Let_def)
    have "at_position h ((L, c, r) # ctx) \<langle>ll, lx, lr\<rangle>" using at left by (simp add: at_Cons)
    from swap_position [OF this] have "at_position (heap_node_swap c lx h) ((L, lx, r) # ctx) \<langle>ll, c, lr\<rangle>"
      by (simp add: at_Cons)
    note at' = this
    have "size ll + size lr < size l + size r" using left by simp
    from less.hyps [OF this at'] left w show ?thesis by simp
  next
    case stop
    then have "smallest_of lt c h = c" using smallest_position [OF at] by (cases l; cases r) (simp_all)
    then have "walk_down lt c h = Some h" by (subst walk_down.simps) (simp add: Let_def)
    then show ?thesis using stop at by simp
  qed
qed

section \<open>Contents, shape and order\<close>

lemma mset_node_of: "mset_tree (node_of d x t s) = add_mset x (mset_tree t + mset_tree s)"
  by (cases d) simp_all

lemma mset_plug: "mset_tree t = mset_tree u \<Longrightarrow> mset_tree (plug ctx t) = mset_tree (plug ctx u)"
proof (induction ctx arbitrary: t u)
  case (Cons a ctx)
  then show ?case by (cases a) (simp add: plug_Cons mset_node_of)
qed simp

lemma mset_up: "mset_tree (up lt ctx l c r) = mset_tree (plug ctx \<langle>l, c, r\<rangle>)"
  by (induction lt ctx l c r rule: up.induct) (auto intro!: mset_plug simp: ac_simps)

text \<open>The shape is the tree without what is in it.\<close>

abbreviation shape :: "'a tree \<Rightarrow> unit tree" where
  "shape \<equiv> map_tree (\<lambda>_. ())"

lemma shape_node_of: "shape (node_of d x t s) = node_of d () (shape t) (shape s)"
  by (cases d) simp_all

lemma shape_plug: "shape t = shape u \<Longrightarrow> shape (plug ctx t) = shape (plug ctx u)"
proof (induction ctx arbitrary: t u)
  case (Cons a ctx)
  then show ?case by (cases a) (simp add: plug_Cons shape_node_of)
qed simp

lemma shape_up: "shape (up lt ctx l c r) = shape (plug ctx \<langle>l, c, r\<rangle>)"
  by (induction lt ctx l c r rule: up.induct) (auto intro!: shape_plug)

lemma down_keeps:
  "down lt ctx l c r = (ctx', l', r') \<Longrightarrow>
   mset_tree (plug ctx' \<langle>l', c, r'\<rangle>) = mset_tree (plug ctx \<langle>l, c, r\<rangle>) \<and>
   shape (plug ctx' \<langle>l', c, r'\<rangle>) = shape (plug ctx \<langle>l, c, r\<rangle>)"
proof (induction "size l + size r" arbitrary: ctx l r rule: less_induct)
  case less
  show ?case
  proof (cases rule: down_cases [where lt = lt and ctx = ctx and l = l and c = c and r = r])
    case (right rl rx rr)
    then have "size rl + size rr < size l + size r" by simp
    from less.hyps [OF this] right less.prems show ?thesis
      by (auto simp: ac_simps intro!: mset_plug shape_plug)
  next
    case (left ll lx lr)
    then have "size ll + size lr < size l + size r" by simp
    from less.hyps [OF this] left less.prems show ?thesis
      by (auto simp: ac_simps intro!: mset_plug shape_plug)
  next
    case stop
    then show ?thesis using less.prems by simp
  qed
qed

text \<open>
  What the heap needs of the comparison: a strict weak order. It is the contract between the heap
  and its users.
\<close>

locale node_order =
  fixes lt :: "'a \<Rightarrow> 'a \<Rightarrow> bool"
  assumes asym: "lt a b \<Longrightarrow> \<not> lt b a"
    and trans_not: "\<not> lt a b \<Longrightarrow> \<not> lt b c \<Longrightarrow> \<not> lt a c"

fun heap_ordered :: "('a \<Rightarrow> 'a \<Rightarrow> bool) \<Rightarrow> 'a tree \<Rightarrow> bool" where
  "heap_ordered lt \<langle>\<rangle> = True"
| "heap_ordered lt \<langle>l, x, r\<rangle> =
     ((\<forall>y\<in>set_tree l \<union> set_tree r. \<not> lt y x) \<and> heap_ordered lt l \<and> heap_ordered lt r)"

text \<open>The order of everything above a position with the elements \<open>S\<close> below.\<close>

fun ordered_above :: "('a \<Rightarrow> 'a \<Rightarrow> bool) \<Rightarrow> (side \<times> 'a \<times> 'a tree) list \<Rightarrow> 'a set \<Rightarrow> bool" where
  "ordered_above lt [] S = True"
| "ordered_above lt ((d, x, s) # ctx) S =
     ((\<forall>y\<in>S \<union> set_tree s. \<not> lt y x) \<and> heap_ordered lt s \<and> ordered_above lt ctx (insert x (S \<union> set_tree s)))"

lemma heap_plug: "heap_ordered lt (plug ctx t) \<longleftrightarrow> heap_ordered lt t \<and> ordered_above lt ctx (set_tree t)"
proof (induction ctx arbitrary: t)
  case (Cons a ctx)
  obtain d x s where a: "a = (d, x, s)" by (cases a) auto
  have "insert x (set_tree t \<union> set_tree s) = set_tree (node_of d x t s)" by (cases d) auto
  then show ?case by (cases d) (auto simp: a plug_Cons Cons.IH)
qed simp

lemma ordered_above_mono: "ordered_above lt ctx S \<Longrightarrow> T \<subseteq> S \<Longrightarrow> ordered_above lt ctx T"
proof (induction ctx arbitrary: S T)
  case (Cons a ctx)
  obtain d x s where a: "a = (d, x, s)" by (cases a) auto
  have "ordered_above lt ctx (insert x (T \<union> set_tree s))"
    by (rule Cons.IH [of "insert x (S \<union> set_tree s)"]) (use Cons.prems a in auto)
  then show ?case using Cons.prems a by auto
qed simp

context node_order
begin

lemma irrefl: "\<not> lt a a"
  using asym by blast

lemma ordered_above_insert:
  "ordered_above lt ctx S \<Longrightarrow> x \<in> S \<Longrightarrow> \<not> lt c x \<Longrightarrow> ordered_above lt ctx (insert c S)"
proof (induction ctx arbitrary: S)
  case (Cons a ctx)
  obtain d y s where a: "a = (d, y, s)" by (cases a) auto
  have "\<not> lt x y" using Cons.prems a by auto
  then have "\<not> lt c y" using Cons.prems(3) trans_not by blast
  moreover have "ordered_above lt ctx (insert c (insert y (S \<union> set_tree s)))"
    using Cons.prems a by (intro Cons.IH) auto
  ultimately show ?case using Cons.prems a by (auto simp: insert_commute)
qed simp

lemma heap_up:
  "heap_ordered lt \<langle>l, c, r\<rangle> \<Longrightarrow> ordered_above lt ctx (set_tree l \<union> set_tree r) \<Longrightarrow> heap_ordered lt (up lt ctx l c r)"
proof (induction ctx arbitrary: l r)
  case (Cons a ctx)
  obtain d x s where a: "a = (d, x, s)" by (cases a) auto
  have x: "\<forall>y\<in>set_tree l \<union> set_tree r \<union> set_tree s. \<not> lt y x" and s: "heap_ordered lt s"
    and above: "ordered_above lt ctx (insert x (set_tree l \<union> set_tree r \<union> set_tree s))"
    using Cons.prems(2) a by auto
  show ?case
  proof (cases "lt c x")
    case True
    have sub: "heap_ordered lt \<langle>l, x, r\<rangle>" using Cons.prems(1) x by auto
    have "\<not> lt x c" using True asym by blast
    moreover have "\<not> lt y c" if "y \<in> set_tree s" for y using that x trans_not \<open>\<not> lt x c\<close> by blast
    ultimately have "heap_ordered lt \<langle>\<langle>l, x, r\<rangle>, c, s\<rangle>" "heap_ordered lt \<langle>s, c, \<langle>l, x, r\<rangle>\<rangle>"
      using sub s Cons.prems(1) by auto
    moreover have "ordered_above lt ctx (set_tree \<langle>l, x, r\<rangle> \<union> set_tree s)"
      "ordered_above lt ctx (set_tree s \<union> set_tree \<langle>l, x, r\<rangle>)"
      using above by (simp_all add: Un_ac)
    ultimately show ?thesis using Cons.IH True a by (cases d) simp_all
  next
    case False
    have "ordered_above lt ctx (insert c (insert x (set_tree l \<union> set_tree r \<union> set_tree s)))"
      by (rule ordered_above_insert [OF above _ False]) simp
    then have "ordered_above lt (a # ctx) (set_tree \<langle>l, c, r\<rangle>)"
      using x s False a by (auto simp: insert_commute Un_ac)
    then show ?thesis using Cons.prems(1) False a heap_plug [of lt "a # ctx" "\<langle>l, c, r\<rangle>"] by (cases d) simp_all
  qed
qed simp

lemma heap_down:
  "heap_ordered lt l \<Longrightarrow> heap_ordered lt r \<Longrightarrow> ordered_above lt ctx (set_tree l \<union> set_tree r) \<Longrightarrow>
   down lt ctx l c r = (ctx', l', r') \<Longrightarrow>
   heap_ordered lt \<langle>l', c, r'\<rangle> \<and> ordered_above lt ctx' (set_tree l' \<union> set_tree r')"
proof (induction "size l + size r" arbitrary: ctx l r rule: less_induct)
  case less
  show ?case
  proof (cases rule: down_cases [where lt = lt and ctx = ctx and l = l and c = c and r = r])
    case (right rl rx rr)
    then have lt: "size rl + size rr < size l + size r" by simp
    have "\<not> lt y rx" if "y \<in> set_tree l" for y
    proof (cases l)
      case (Node ll lx lr)
      have "\<not> lt lx rx"
      proof (cases "lt lx c")
        case True
        then show ?thesis using right(2) Node asym by simp
      next
        case False
        then have "\<not> lt c rx" using right(2) Node asym by simp
        then show ?thesis using False trans_not by blast
      qed
      moreover have "\<not> lt y lx" using that Node less.prems(1) irrefl by auto
      ultimately show ?thesis using trans_not by blast
    qed (use that in simp)
    then have "ordered_above lt ((R, rx, l) # ctx) (set_tree rl \<union> set_tree rr)"
      using less.prems right by (auto simp: Un_ac)
    then show ?thesis by (intro less.hyps [OF lt, of "(R, rx, l) # ctx"]) (use less.prems right in simp_all)
  next
    case (left ll lx lr)
    then have lt: "size ll + size lr < size l + size r" by simp
    have "\<not> lt y lx" if "y \<in> set_tree r" for y
    proof (cases r)
      case (Node rl rx rr)
      have "\<not> lt rx lx" using left(3) Node by simp
      moreover have "\<not> lt y rx" using that Node less.prems(2) irrefl by auto
      ultimately show ?thesis using trans_not by blast
    qed (use that in simp)
    then have "ordered_above lt ((L, lx, r) # ctx) (set_tree ll \<union> set_tree lr)"
      using less.prems left by (auto simp: Un_ac)
    then show ?thesis by (intro less.hyps [OF lt, of "(L, lx, r) # ctx"]) (use less.prems left in simp_all)
  next
    case stop
    have "\<not> lt y c" if "y \<in> set_tree l \<union> set_tree r" for y
    proof -
      from that consider (l) ll lx lr where "l = \<langle>ll, lx, lr\<rangle>" "\<not> lt y lx" | (r) rl rx rr where "r = \<langle>rl, rx, rr\<rangle>" "\<not> lt y rx"
        using less.prems(1,2) irrefl by (cases l; cases r) auto
      then show ?thesis using stop trans_not by cases auto
    qed
    then show ?thesis using stop less.prems by simp
  qed
qed

end

section \<open>Numbers of nodes\<close>

text \<open>
  The nodes are numbered row by row from 1. The way to a node from the root, right turns being
  \<open>True\<close>, is the binary form of its number below the top bit.
\<close>

function way :: "nat \<Rightarrow> bool list" where
  "way n = (if n < 2 then [] else way (n div 2) @ [odd n])"
  by pat_completeness auto
termination by (relation "measure id") auto

declare way.simps [simp del]

definition number :: "bool list \<Rightarrow> nat" where
  "number bs = foldl (\<lambda>n b. 2 * n + of_bool b) 1 bs"

lemma number_snoc [simp]: "number (bs @ [b]) = 2 * number bs + of_bool b"
  by (simp add: number_def)

lemma number_Nil [simp]: "number [] = 1"
  by (simp add: number_def)

lemma number_pos: "1 \<le> number bs"
  by (induction bs rule: rev_induct) auto

lemma way_number: "way (number bs) = bs"
proof (induction bs rule: rev_induct)
  case Nil
  then show ?case by (simp add: way.simps)
next
  case (snoc b bs)
  have "2 \<le> number (bs @ [b])" using number_pos [of bs] by simp
  then show ?case using snoc by (subst way.simps) simp
qed

lemma number_way: "1 \<le> n \<Longrightarrow> number (way n) = n"
proof (induction n rule: way.induct)
  case (1 n)
  show ?case
  proof (cases "n < 2")
    case True
    then show ?thesis using "1.prems" by (simp add: way.simps)
  next
    case False
    then have "number (way (n div 2)) = n div 2" using 1 by simp
    then show ?thesis using False by (subst way.simps) (simp add: of_bool_odd_eq_mod_2)
  qed
qed

lemma number_eq_iff: "1 \<le> n \<Longrightarrow> number bs = n \<longleftrightarrow> bs = way n"
  using number_way way_number by metis

lemma length_way: "n < 2 ^ Suc k \<Longrightarrow> length (way n) \<le> k"
proof (induction k arbitrary: n)
  case 0
  then show ?case by (simp add: way.simps)
next
  case (Suc k)
  then have "length (way (n div 2)) \<le> k" by simp
  then show ?case by (subst way.simps) simp
qed

fun has_node :: "'a tree \<Rightarrow> bool list \<Rightarrow> bool" where
  "has_node \<langle>\<rangle> bs = False"
| "has_node \<langle>l, x, r\<rangle> [] = True"
| "has_node \<langle>l, x, r\<rangle> (b # bs) = has_node (if b then r else l) bs"

text \<open>A tree with the nodes number 1 to \<open>n\<close>.\<close>

definition full_to :: "nat \<Rightarrow> 'a tree \<Rightarrow> bool" where
  "full_to n t \<longleftrightarrow> (\<forall>bs. has_node t bs \<longleftrightarrow> number bs \<le> n)"

lemma has_node_shape: "has_node (shape t) bs = has_node t bs"
  by (induction t bs rule: has_node.induct) auto

lemma full_to_shape: "shape t = shape u \<Longrightarrow> full_to n t = full_to n u"
  unfolding full_to_def by (metis has_node_shape)

lemma has_node_prefix: "has_node t (bs @ cs) \<Longrightarrow> has_node t bs"
  by (induction t bs rule: has_node.induct) auto

text \<open>Walking down from the root, and the tree with something else at the end of the way.\<close>

fun locate :: "bool list \<Rightarrow> (side \<times> 'a \<times> 'a tree) list \<Rightarrow> 'a tree \<Rightarrow> (side \<times> 'a \<times> 'a tree) list \<times> 'a tree" where
  "locate [] ctx t = (ctx, t)"
| "locate (b # bs) ctx \<langle>\<rangle> = (ctx, \<langle>\<rangle>)"
| "locate (b # bs) ctx \<langle>l, x, r\<rangle> =
     (if b then locate bs ((R, x, l) # ctx) r else locate bs ((L, x, r) # ctx) l)"

fun put :: "'a tree \<Rightarrow> bool list \<Rightarrow> 'a tree \<Rightarrow> 'a tree" where
  "put t [] u = u"
| "put \<langle>\<rangle> (b # bs) u = \<langle>\<rangle>"
| "put \<langle>l, x, r\<rangle> (b # bs) u = (if b then \<langle>l, x, put r bs u\<rangle> else \<langle>put l bs u, x, r\<rangle>)"

abbreviation reaches :: "'a tree \<Rightarrow> bool list \<Rightarrow> bool" where
  "reaches t bs \<equiv> bs = [] \<or> has_node t (butlast bs)"

lemma reaches_Cons: "reaches t (b # bs) \<Longrightarrow> \<exists>l x r. t = \<langle>l, x, r\<rangle> \<and> reaches (if b then r else l) bs"
  by (cases t; cases bs) auto

lemma locate_plug: "reaches t bs \<Longrightarrow> locate bs ctx t = (ctx', t') \<Longrightarrow> plug ctx' u = plug ctx (put t bs u)"
proof (induction bs arbitrary: ctx t)
  case (Cons b bs)
  from reaches_Cons [OF Cons.prems(1)] obtain l x r where t: "t = \<langle>l, x, r\<rangle>" "reaches (if b then r else l) bs" by blast
  then show ?case using Cons.IH [OF t(2)] Cons.prems(2) by (cases b) auto
qed simp

lemma put_self: "reaches t bs \<Longrightarrow> locate bs ctx t = (ctx', t') \<Longrightarrow> put t bs t' = t"
proof (induction bs arbitrary: ctx t)
  case (Cons b bs)
  from reaches_Cons [OF Cons.prems(1)] obtain l x r where t: "t = \<langle>l, x, r\<rangle>" "reaches (if b then r else l) bs" by blast
  then show ?case using Cons.IH [OF t(2)] Cons.prems(2) by (cases b) auto
qed simp

lemma has_node_locate: "reaches t bs \<Longrightarrow> locate bs ctx t = (ctx', t') \<Longrightarrow> has_node t (bs @ cs) = has_node t' cs"
proof (induction bs arbitrary: ctx t)
  case (Cons b bs)
  from reaches_Cons [OF Cons.prems(1)] obtain l x r where t: "t = \<langle>l, x, r\<rangle>" "reaches (if b then r else l) bs" by blast
  then show ?case using Cons.IH [OF t(2)] Cons.prems(2) by (cases b) auto
qed simp

lemma has_node_put:
  "reaches t bs \<Longrightarrow> \<not> has_node t bs \<Longrightarrow> has_node (put t bs \<langle>\<langle>\<rangle>, x, \<langle>\<rangle>\<rangle>) cs \<longleftrightarrow> has_node t cs \<or> cs = bs"
proof (induction bs arbitrary: t cs)
  case Nil
  then have "t = \<langle>\<rangle>" by (cases t) auto
  then show ?case by (cases cs) auto
next
  case (Cons b bs)
  from reaches_Cons [OF Cons.prems(1)] obtain l y r where t: "t = \<langle>l, y, r\<rangle>" "reaches (if b then r else l) bs" by blast
  then show ?case using Cons.IH [OF t(2)] Cons.prems(2) by (cases b; cases cs) auto
qed

lemma has_node_cut:
  "reaches t bs \<Longrightarrow> (\<And>b. \<not> has_node t (bs @ [b])) \<Longrightarrow> has_node (put t bs \<langle>\<rangle>) cs \<longleftrightarrow> has_node t cs \<and> cs \<noteq> bs"
proof (induction bs arbitrary: t cs)
  case Nil
  show ?case
  proof (cases t)
    case (Node l x r)
    then have "l = \<langle>\<rangle>" "r = \<langle>\<rangle>" using Nil.prems(2) [of True] Nil.prems(2) [of False] by (cases l; cases r; simp)+
    then show ?thesis using Node by (cases cs) auto
  qed simp
next
  case (Cons b bs)
  from reaches_Cons [OF Cons.prems(1)] obtain l x r where t: "t = \<langle>l, x, r\<rangle>" "reaches (if b then r else l) bs" by blast
  have "\<not> has_node (if b then r else l) (bs @ [c])" for c using Cons.prems(2) [of c] t by simp
  then show ?case using Cons.IH [OF t(2)] t by (cases b; cases cs) auto
qed

section \<open>The path in the code\<close>

fun enc :: "bool list \<Rightarrow> u32" where
  "enc [] = 0"
| "enc (b # bs) = push_bit 1 (enc bs) OR of_bool b"

lemma bit_enc_Cons: "bit (enc (b # bs)) i \<longleftrightarrow> (if i = 0 then b else i < 32 \<and> bit (enc bs) (i - 1))"
  by (simp only: enc.simps bit_or_iff bit_push_bit_iff) (auto simp: bit_simps)

lemma bit_enc: "bit (enc bs) i \<Longrightarrow> i < length bs"
proof (induction bs arbitrary: i)
  case (Cons b bs)
  then show ?case by (cases i) (auto simp: bit_enc_Cons simp del: enc.simps)
qed simp

lemma enc_head: "enc (b # bs) AND 1 \<noteq> 0 \<longleftrightarrow> b"
  by (metis and_exp_eq_0_iff_not_bit power_0 bit_enc_Cons)

lemma enc_tail:
  assumes "length bs < 32"
  shows "drop_bit 1 (enc (b # bs)) = enc bs"
proof (rule bit_word_eqI)
  fix n assume "n < LENGTH(32)"
  moreover have "\<not> bit (enc bs) 31" using bit_enc [of bs 31] assms by auto
  ultimately show "bit (drop_bit 1 (enc (b # bs))) n = bit (enc bs) n"
    by (cases "n = 31") (auto simp: bit_drop_bit_eq bit_enc_Cons simp del: enc.simps)
qed

lemma path_to_way:
  "path_to n (enc acc) (length acc) = (enc (way (unat n) @ acc), length (way (unat n)) + length acc)"
proof (induction "unat n" arbitrary: n acc rule: less_induct)
  case less
  show ?case
  proof (cases "n \<ge> 2")
    case False
    then have "unat n < 2" by (simp add: word_le_nat_alt)
    then show ?thesis using False by (simp add: path_to.simps [of n] way.simps [of "unat n"])
  next
    case True
    then have n: "2 \<le> unat n" by (simp add: word_le_nat_alt)
    have half: "unat (n div 2) = unat n div 2" by (simp add: unat_div)
    have "n AND 1 = of_bool (odd n)" by (simp add: and_one_eq mod_2_eq_odd)
    moreover have "odd n = odd (unat n)" by (simp add: bit_0 [symmetric] bit_unsigned_iff)
    ultimately have "push_bit 1 (enc acc) OR (n AND 1) = enc (odd (unat n) # acc)" by simp
    then have "path_to n (enc acc) (length acc) = path_to (n div 2) (enc (odd (unat n) # acc)) (length (odd (unat n) # acc))"
      using True by (subst path_to.simps) simp
    also have "\<dots> = (enc (way (unat (n div 2)) @ odd (unat n) # acc), length (way (unat (n div 2))) + length (odd (unat n) # acc))"
      by (rule less) (use n half in simp)
    finally show ?thesis using n by (subst (1 2) way.simps) (simp add: half)
  qed
qed

section \<open>Pointers to pointers\<close>

fun place_of :: "context_path \<Rightarrow> place" where
  "place_of [] = Root"
| "place_of ((L, x, s) # ctx) = LeftOf x"
| "place_of ((R, x, s) # ctx) = RightOf x"

lemma read_place_of: "at_position h ctx t \<Longrightarrow> read_place (place_of ctx) h = ptr t"
  by (cases ctx rule: place_of.cases) (auto simp: at_position_def)

lemma descend_locate:
  "at_position h ctx t \<Longrightarrow> reaches t bs \<Longrightarrow> length bs \<le> 32 \<Longrightarrow> locate bs ctx t = (ctx', t') \<Longrightarrow>
   descend (length bs) (enc bs) par (place_of ctx) h = (if bs = [] then par else place_of (tl ctx'), place_of ctx')
   \<and> (bs \<noteq> [] \<longrightarrow> ctx' \<noteq> []) \<and> at_position h ctx' t'"
proof (induction bs arbitrary: ctx t par)
  case (Cons b bs)
  from reaches_Cons [OF Cons.prems(2)] obtain l x r where t: "t = \<langle>l, x, r\<rangle>" and reach: "reaches (if b then r else l) bs" by blast
  let ?ctx = "(if b then (R, x, l) # ctx else (L, x, r) # ctx)" and ?t = "if b then r else l"
  have at: "at_position h ?ctx ?t" using Cons.prems(1) t by (simp add: at_Cons)
  have loc: "locate bs ?ctx ?t = (ctx', t')" using Cons.prems(4) t by (simp split: if_splits)
  have "(if enc (b # bs) AND 1 \<noteq> 0 then RightOf (read_place (place_of ctx) h) else LeftOf (read_place (place_of ctx) h)) = place_of ?ctx"
    by (simp only: enc_head read_place_of [OF Cons.prems(1)]) (simp add: t)
  then have "descend (length (b # bs)) (enc (b # bs)) par (place_of ctx) h =
      descend (length bs) (enc bs) (place_of ctx) (place_of ?ctx) h"
    using Cons.prems(3) enc_tail [of bs b] by (simp only: list.size descend.simps add_0_right add_Suc_right One_nat_def [symmetric]) simp
  moreover have "bs = [] \<Longrightarrow> ctx' = ?ctx" using loc by simp
  ultimately show ?case using Cons.IH [OF at reach _ loc, of "place_of ctx"] Cons.prems(3)
    by (cases b) auto
qed simp

lemma write_place_of:
  assumes "at_position h ctx t"
  shows "ctx_repr (nodes (write_place (place_of ctx) v h)) (hmin (write_place (place_of ctx) v h)) v ctx"
    and "x \<noteq> above ctx \<Longrightarrow> nodes (write_place (place_of ctx) v h) x = nodes h x"
    and "nelts (write_place (place_of ctx) v h) = nelts h"
proof -
  have other: "nodes (write_place (place_of ctx) v h) y = nodes h y" if "y \<noteq> above ctx" for y
    using that by (cases ctx rule: place_of.cases) auto
  then show "x \<noteq> above ctx \<Longrightarrow> nodes (write_place (place_of ctx) v h) x = nodes h x" .
  show "nelts (write_place (place_of ctx) v h) = nelts h" by (cases ctx rule: place_of.cases) auto
  show "ctx_repr (nodes (write_place (place_of ctx) v h)) (hmin (write_place (place_of ctx) v h)) v ctx"
  proof (rule ctx_redirect)
    show "ctx_repr (nodes h) (hmin h) (ptr t) ctx" "distinct (ctx_nodes ctx)" using assms by (auto simp: at_position_def)
  qed (use other in \<open>cases ctx rule: place_of.cases; simp\<close>)+
qed

lemma at_position_cong:
  assumes "\<And>x. x \<in> set_tree t \<union> set (ctx_nodes ctx) \<Longrightarrow> nodes h' x = nodes h x" and "hmin h' = hmin h"
  shows "at_position h' ctx t = at_position h ctx t"
proof -
  have "repr (nodes h') (above ctx) t = repr (nodes h) (above ctx) t" by (rule repr_cong) (simp add: assms(1))
  moreover have "ctx_repr (nodes h') (hmin h') (ptr t) ctx = ctx_repr (nodes h) (hmin h) (ptr t) ctx"
    using ctx_repr_cong [of ctx "nodes h'" "nodes h"] assms by simp
  ultimately show ?thesis by (simp add: at_position_def)
qed

lemma set_tree_plug: "set_tree (plug ctx t) = set (ctx_nodes ctx) \<union> set_tree t"
proof (induction ctx arbitrary: t)
  case (Cons a ctx)
  obtain d x s where a: "a = (d, x, s)" by (cases a) auto
  show ?case by (cases d) (auto simp: a Cons.IH)
qed simp

section \<open>Insertion\<close>

text \<open>What a heap stands for: the set of its nodes, in a full tree whose order is right.\<close>

definition heap_of :: "(addr \<Rightarrow> addr \<Rightarrow> bool) \<Rightarrow> heap \<Rightarrow> addr set \<Rightarrow> bool" where
  "heap_of lt h S \<longleftrightarrow>
     (\<exists>t. holds_tree h t \<and> heap_ordered lt t \<and> full_to (unat (nelts h)) t \<and> set_tree t = S)"

lemma heap_ofI: "holds_tree h t \<Longrightarrow> heap_ordered lt t \<Longrightarrow> full_to (unat (nelts h)) t \<Longrightarrow> set_tree t = S \<Longrightarrow> heap_of lt h S"
  by (auto simp: heap_of_def)

lemma full_to_0: "full_to 0 t \<longleftrightarrow> t = \<langle>\<rangle>"
proof -
  have "\<not> number bs \<le> 0" for bs using number_pos [of bs] by simp
  then show ?thesis by (cases t) (auto simp: full_to_def intro: exI [of _ "[]"])
qed

lemma full_reaches:
  assumes "full_to n t" and "1 \<le> m" and "m \<le> Suc n"
  shows "reaches t (way m)"
proof (cases "m < 2")
  case True
  then show ?thesis by (simp add: way.simps [of m])
next
  case False
  then have "number (way (m div 2)) \<le> n" using assms number_way [of "m div 2"] by simp
  then have "has_node t (way (m div 2))" using assms(1) by (simp add: full_to_def)
  then show ?thesis using False by (simp add: way.simps [of m])
qed

lemma set_tree_mset: "mset_tree t = mset_tree u \<Longrightarrow> set_tree t = set_tree u"
  by (metis set_mset_tree)

lemma heap_insert_tree:
  assumes lt: "node_order lt" and t: "holds_tree h t" "heap_ordered lt t" "full_to (unat (nelts h)) t"
    and new: "new \<noteq> 0" "new \<notin> set_tree t" and room: "unat (nelts h) < 2 ^ 32 - 1"
  shows "\<exists>h'. heap_insert new lt h = Some h' \<and> heap_of lt h' (insert new (set_tree t)) \<and> unat (nelts h') = Suc (unat (nelts h))"
proof -
  let ?n = "unat (nelts h)" and ?bs = "way (Suc (unat (nelts h)))"
  have un: "unat (1 + nelts h) = Suc ?n" using room by (simp add: unat_word_ariths)
  define h1 where "h1 = set_node new (\<lambda>_. \<lparr>left = 0, right = 0, parent = 0\<rparr>) h"
  have "\<And>x. x \<in> set_tree t \<union> set (ctx_nodes []) \<Longrightarrow> nodes h1 x = nodes h x" using new(2) by (auto simp: h1_def)
  then have t1: "holds_tree h1 t" using t(1) at_position_cong [of t "[]" h1 h] by (simp add: h1_def)
  have reach: "reaches t ?bs" by (rule full_reaches [OF t(3)]) simp_all
  obtain ctx u where loc: "locate ?bs [] t = (ctx, u)" by fastforce
  have "\<not> has_node t ?bs" using t(3) number_way [of "Suc ?n"] by (simp add: full_to_def)
  then have u: "u = \<langle>\<rangle>" using has_node_locate [OF reach loc, of "[]"] by (cases u) auto
  have "length ?bs \<le> 31" by (rule length_way) (use room in simp)
  then have down: "descend (length ?bs) (enc ?bs) Root Root h1 = (if ?bs = [] then Root else place_of (tl ctx), place_of ctx)"
    and ne: "?bs \<noteq> [] \<longrightarrow> ctx \<noteq> []" and at: "at_position h1 ctx \<langle>\<rangle>"
    using descend_locate [OF t1 reach _ loc, of Root] u by simp_all
  have path: "path_to (1 + nelts h1) 0 0 = (enc ?bs, length ?bs)"
    using path_to_way [of "1 + nelts h" "[]"] by (simp only: un append_Nil2 enc.simps list.size add_0_right) (simp add: h1_def)
  have par: "read_place (if ?bs = [] then Root else place_of (tl ctx)) h1 = above ctx"
  proof (cases ctx)
    case Nil
    then have "?bs = []" using ne by blast
    then show ?thesis using at Nil by (simp add: at_position_def)
  next
    case (Cons a ctx')
    then have "?bs \<noteq> []" using loc by auto
    obtain d x s where a: "a = (d, x, s)" by (cases a) auto
    have "at_position h1 ctx' (node_of d x \<langle>\<rangle> s)" using at Cons a by (simp add: at_Cons)
    from read_place_of [OF this] \<open>?bs \<noteq> []\<close> Cons a show ?thesis by (cases d) simp_all
  qed
  have tree: "plug ctx v = put t ?bs v" for v using locate_plug [OF reach loc] by simp
  define h2 where "h2 = set_parent new (above ctx) h1"
  have out: "new \<notin> set (ctx_nodes ctx)"
  proof -
    have "set_tree (plug ctx \<langle>\<rangle>) = set_tree t" using tree [of u] put_self [OF reach loc] u by simp
    then show ?thesis using new(2) set_tree_plug [of ctx "\<langle>\<rangle>"] by blast
  qed
  have "\<And>x. x \<in> set_tree \<langle>\<rangle> \<union> set (ctx_nodes ctx) \<Longrightarrow> nodes h2 x = nodes h1 x" using out by (auto simp: h2_def)
  then have at2: "at_position h2 ctx \<langle>\<rangle>" using at at_position_cong [of "\<langle>\<rangle>" ctx h2 h1] by (simp add: h2_def)
  have above: "above ctx \<noteq> new" using out above_in [of ctx] new(1) by auto
  define h3 where "h3 = write_place (place_of ctx) new h2"
  note w = write_place_of [OF at2, where v = new, folded h3_def]
  have node: "nodes h3 new = \<lparr>left = 0, right = 0, parent = above ctx\<rparr>"
    using w(2) [of new] above by (simp add: h2_def h1_def)
  have at3: "at_position h3 ctx \<langle>\<langle>\<rangle>, new, \<langle>\<rangle>\<rangle>"
    using w(1) node new(1) out at2 by (simp add: at_position_def)
  define h4 where "h4 = h3\<lparr>nelts := nelts h3 + 1\<rparr>"
  have at4: "at_position h4 ctx \<langle>\<langle>\<rangle>, new, \<langle>\<rangle>\<rangle>" using at3 by (simp add: at_position_def h4_def)
  have n4: "unat (nelts h4) = Suc ?n" using w(3) un by (simp add: h4_def h2_def h1_def add.commute)
  have "heap_insert new lt h = walk_up lt new h4"
    unfolding heap_insert_def Let_def h1_def [symmetric]
    by (simp only: path prod.case down par h2_def [symmetric] h3_def [symmetric] h4_def [symmetric])
  then obtain h' where h': "heap_insert new lt h = Some h'" "holds_tree h' (up lt ctx \<langle>\<rangle> new \<langle>\<rangle>)" "nelts h' = nelts h4"
    using walk_up_position [OF at4] by auto
  let ?t = "up lt ctx \<langle>\<rangle> new \<langle>\<rangle>"
  have "heap_ordered lt ?t"
  proof (rule node_order.heap_up [OF lt])
    have "heap_ordered lt (plug ctx \<langle>\<rangle>)" using tree [of u] put_self [OF reach loc] u t(2) by simp
    then show "ordered_above lt ctx (set_tree \<langle>\<rangle> \<union> set_tree \<langle>\<rangle>)" by (simp add: heap_plug)
  qed simp
  moreover have "full_to (Suc ?n) ?t"
  proof -
    have "full_to (Suc ?n) (put t ?bs \<langle>\<langle>\<rangle>, new, \<langle>\<rangle>\<rangle>)"
      unfolding full_to_def has_node_put [OF reach \<open>\<not> has_node t ?bs\<close>]
    proof
      fix bs
      have "number bs = Suc ?n \<longleftrightarrow> bs = ?bs" by (rule number_eq_iff) simp
      then show "(has_node t bs \<or> bs = ?bs) = (number bs \<le> Suc ?n)" using t(3) by (auto simp: full_to_def le_Suc_eq)
    qed
    then show ?thesis using full_to_shape [OF shape_up] tree by metis
  qed
  moreover have "set_tree ?t = insert new (set_tree t)"
  proof -
    have "set_tree ?t = set_tree (plug ctx \<langle>\<langle>\<rangle>, new, \<langle>\<rangle>\<rangle>)" by (rule set_tree_mset) (rule mset_up)
    also have "\<dots> = insert new (set_tree (plug ctx \<langle>\<rangle>))" by (simp add: set_tree_plug)
    also have "plug ctx \<langle>\<rangle> = t" using tree [of u] put_self [OF reach loc] u by simp
    finally show ?thesis .
  qed
  ultimately show ?thesis using h' n4 by (auto intro!: heap_ofI simp del: up.simps)
qed

section \<open>Removal\<close>

lemma replace_position:
  assumes pos: "at_position h ctx \<langle>l, x, r\<rangle>" and z: "z \<noteq> 0" "z \<notin> set_tree (plug ctx \<langle>l, x, r\<rangle>)"
  shows "at_position (replace_node x z h) ctx \<langle>l, z, r\<rangle>" and "nelts (replace_node x z h) = nelts h"
proof -
  let ?st = "nodes h" and ?h = "replace_node x z h"
  have dist: "distinct (inorder \<langle>l, x, r\<rangle> @ ctx_nodes ctx)" using pos by (simp add: at_position_def)
  have x: "x \<noteq> 0" "?st x = \<lparr>left = ptr l, right = ptr r, parent = above ctx\<rparr>" and sub: "repr ?st x l" "repr ?st x r"
    and ctx: "ctx_repr ?st (hmin h) x ctx" using pos by (simp_all add: at_position_def)
  have sets: "x \<notin> set_tree l" "x \<notin> set_tree r" "x \<notin> set (ctx_nodes ctx)"
    "set_tree l \<inter> set_tree r = {}" "set_tree l \<inter> set (ctx_nodes ctx) = {}" "set_tree r \<inter> set (ctx_nodes ctx) = {}"
    "z \<noteq> x" "z \<notin> set_tree l" "z \<notin> set_tree r" "z \<notin> set (ctx_nodes ctx)"
    using dist z(2) by (auto simp: set_tree_plug)
  note mem = ptr_in [of l] ptr_in [of r] above_in [of ctx]
  have ne: "z \<noteq> x" "ptr l \<noteq> x" "ptr r \<noteq> x" "above ctx \<noteq> x" "ptr l \<noteq> z" "ptr r \<noteq> z" "above ctx \<noteq> z"
    using sets mem x(1) z(1) by metis+
  have ne2: "ptr l \<noteq> 0 \<Longrightarrow> ptr l \<noteq> ptr r" "ptr l \<noteq> 0 \<Longrightarrow> ptr l \<noteq> above ctx" "ptr r \<noteq> 0 \<Longrightarrow> ptr r \<noteq> above ctx"
    using sets(4-6) mem by (metis disjoint_iff)+
  have up: "redirect ctx z (?st (above ctx)) = (if left (?st (above ctx)) = x then (?st (above ctx))\<lparr>left := z\<rparr> else (?st (above ctx))\<lparr>right := z\<rparr>)"
    if "above ctx \<noteq> 0"
  proof (cases ctx)
    case (Cons a ctx')
    obtain e y t where a: "a = (e, y, t)" by (cases a) auto
    have "ptr t \<noteq> x" using sets(3) ptr_in [of t] x Cons a by auto
    then show ?thesis using ctx Cons a by (cases e) auto
  qed (use that in simp)
  define h1 where "h1 = h\<lparr>nodes := ?st(z := \<lparr>left = ptr l, right = ptr r, parent = above ctx\<rparr>)\<rparr>"
  note ne' = ne ne [symmetric]
  have "set_parent z (above ctx) (set_right z (ptr r) (set_left z (ptr l) h)) = h1"
    by (intro heap.equality) (simp_all add: h1_def fun_eq_iff)
  then have swap: "?h = replace_child (above ctx) x z (adopt (ptr r) z (adopt (ptr l) z h1))"
    unfolding replace_node_def Let_def by (simp add: x(2) ne' h1_def)
  let ?st' = "nodes ?h"
  have f1: "?st' z = \<lparr>left = ptr l, right = ptr r, parent = above ctx\<rparr>" by (simp add: swap h1_def ne')
  have f4: "?st' (ptr l) = (?st (ptr l))\<lparr>parent := z\<rparr>" if "ptr l \<noteq> 0" using that ne2 by (auto simp: swap h1_def ne')
  have f5: "?st' (ptr r) = (?st (ptr r))\<lparr>parent := z\<rparr>" if "ptr r \<noteq> 0" using that ne2 by (auto simp: swap h1_def ne')
  have f6: "?st' (above ctx) = redirect ctx z (?st (above ctx))" if "above ctx \<noteq> 0"
    unfolding up [OF that] using that ne2 by (auto simp: swap h1_def ne')
  have f7: "?st' y = ?st y" if "y \<notin> {z, ptr l, ptr r, above ctx}" for y using that by (simp add: swap h1_def)
  have root: "hmin ?h = (if ctx = [] then z else hmin h)" unfolding swap using above_0_iff [OF ctx] by (simp add: h1_def)
  have nz: "0 \<notin> set_tree l" "0 \<notin> set_tree r" "0 \<notin> set (ctx_nodes ctx)"
    using repr_nonzero sub ctx ctx_repr_nonzero by blast+
  have al: "y \<noteq> ptr r" "y \<noteq> above ctx" if "y \<in> set_tree l" for y
    using that nz(1) sets(4,5) mem by (metis disjoint_iff)+
  have ar: "y \<noteq> ptr l" "y \<noteq> above ctx" if "y \<in> set_tree r" for y
    using that nz(2) sets(4,6) mem by (metis disjoint_iff)+
  have ac: "y \<noteq> ptr l" "y \<noteq> ptr r" if "y \<in> set (ctx_nodes ctx)" for y
    using that nz(3) sets(5,6) mem by (metis disjoint_iff)+
  have "repr ?st' z l"
  proof (rule repr_reparent [OF sub(1)])
    show "?st' y = ?st y" if "y \<in> set_tree l" "y \<noteq> ptr l" for y using that sets(8) al [of y] by (intro f7) auto
  qed (use dist f4 ptr_0_iff [OF sub(1)] in auto)
  moreover have "repr ?st' z r"
  proof (rule repr_reparent [OF sub(2)])
    show "?st' y = ?st y" if "y \<in> set_tree r" "y \<noteq> ptr r" for y using that sets(9) ar [of y] by (intro f7) auto
  qed (use dist f5 ptr_0_iff [OF sub(2)] in auto)
  moreover have "ctx_repr ?st' (hmin ?h) z ctx"
  proof (rule ctx_redirect [OF ctx])
    show "?st' y = ?st y" if "y \<in> set (ctx_nodes ctx)" "y \<noteq> above ctx" for y
      using that sets(10) ac [of y] by (intro f7) auto
  qed (use dist f6 root above_0_iff [OF ctx] in auto)
  ultimately show "at_position ?h ctx \<langle>l, z, r\<rangle>" using dist z(1) f1 sets by (auto simp: at_position_def)
  show "nelts ?h = nelts h" by (simp add: swap h1_def)
qed

lemma node_position: "x \<in> set_tree t \<Longrightarrow> \<exists>ctx l r. t = plug ctx \<langle>l, x, r\<rangle>"
proof -
  have "x \<in> set_tree t \<Longrightarrow> \<exists>ctx' l r. plug ctx t = plug ctx' \<langle>l, x, r\<rangle>" for ctx
  proof (induction t arbitrary: ctx)
    case (Node l y r)
    then consider "x = y" | "x \<in> set_tree l" | "x \<in> set_tree r" by auto
    then show ?case
    proof cases
      case 2
      then show ?thesis using Node.IH(1) [of "(L, y, r) # ctx"] by simp
    next
      case 3
      then show ?thesis using Node.IH(2) [of "(R, y, l) # ctx"] by simp
    qed blast
  qed simp
  from this [of "[]"] show "x \<in> set_tree t \<Longrightarrow> ?thesis" by simp
qed

lemma sift_position:
  assumes lt: "node_order lt" and at: "at_position h ctx \<langle>l, z, r\<rangle>" and "heap_ordered lt l" "heap_ordered lt r"
    and "ordered_above lt ctx (set_tree l \<union> set_tree r)"
  shows "\<exists>h1 h' t. walk_down lt z h = Some h1 \<and> walk_up lt z h1 = Some h' \<and> nelts h' = nelts h \<and> holds_tree h' t \<and>
    heap_ordered lt t \<and> shape t = shape (plug ctx \<langle>l, z, r\<rangle>) \<and> set_tree t = set_tree (plug ctx \<langle>l, z, r\<rangle>)"
proof -
  obtain ctx' l' r' where d: "down lt ctx l z r = (ctx', l', r')" by (cases "down lt ctx l z r") auto
  from walk_down_position [OF at, of lt] d obtain h1 where h1: "walk_down lt z h = Some h1" "nelts h1 = nelts h"
    "at_position h1 ctx' \<langle>l', z, r'\<rangle>" by auto
  from walk_up_position [OF h1(3)] obtain h' where h': "walk_up lt z h1 = Some h'" "holds_tree h' (up lt ctx' l' z r')"
    "nelts h' = nelts h1" by blast
  have "heap_ordered lt (up lt ctx' l' z r')"
    using node_order.heap_up [OF lt] node_order.heap_down [OF lt assms(3-5) d] by blast
  moreover have "shape (up lt ctx' l' z r') = shape (plug ctx \<langle>l, z, r\<rangle>)" using down_keeps [OF d] by (simp add: shape_up)
  moreover have "set_tree (up lt ctx' l' z r') = set_tree (plug ctx \<langle>l, z, r\<rangle>)"
    using down_keeps [OF d] by (intro set_tree_mset) (simp only: mset_up)
  ultimately show ?thesis using h1 h' by auto
qed

lemma heap_remove_tree:
  assumes lt: "node_order lt" and t: "holds_tree h t" "heap_ordered lt t" "full_to (unat (nelts h)) t"
    and node: "node \<in> set_tree t"
  shows "\<exists>h'. heap_remove node lt h = Some h' \<and> heap_of lt h' (set_tree t - {node}) \<and>
    Suc (unat (nelts h')) = unat (nelts h)"
proof -
  let ?n = "unat (nelts h)" and ?bs = "way (unat (nelts h))"
  have pos: "1 \<le> ?n" using t(3) node full_to_0 [of t] by (cases "?n") auto
  then have n0: "nelts h \<noteq> 0" by auto
  have un: "unat (nelts h - 1) = ?n - 1" using pos by (simp add: unat_sub word_le_nat_alt)
  have reach: "reaches t ?bs" by (rule full_reaches [OF t(3)]) (use pos in simp_all)
  obtain ctx u where loc: "locate ?bs [] t = (ctx, u)" by fastforce
  have has: "has_node t (?bs @ cs) = has_node u cs" for cs by (rule has_node_locate [OF reach loc])
  have "has_node t ?bs" using t(3) number_way [OF pos] by (simp add: full_to_def)
  then obtain ul z ur where u: "u = \<langle>ul, z, ur\<rangle>" using has [of "[]"] by (cases u) auto
  have last: "\<not> has_node t (?bs @ [b])" for b using t(3) number_way [OF pos] pos by (simp add: full_to_def)
  have leaf: "ul = \<langle>\<rangle>" "ur = \<langle>\<rangle>" using last [of True] last [of False] has [of "[True]"] has [of "[False]"] u
    by (cases ul; cases ur; simp)+
  have "length ?bs \<le> 31" by (rule length_way) (use unsigned_less [of "nelts h"] in simp)
  then have down: "snd (descend (length ?bs) (enc ?bs) Root Root h) = place_of ctx" and at: "at_position h ctx \<langle>\<langle>\<rangle>, z, \<langle>\<rangle>\<rangle>"
    using descend_locate [OF t(1) reach _ loc, of Root] u leaf by simp_all
  have path: "path_to (nelts h) 0 0 = (enc ?bs, length ?bs)" using path_to_way [of "nelts h" "[]"] by simp
  have tree: "plug ctx v = put t ?bs v" for v using locate_plug [OF reach loc] by simp
  have whole: "plug ctx \<langle>\<langle>\<rangle>, z, \<langle>\<rangle>\<rangle> = t" using tree [of u] put_self [OF reach loc] u leaf by simp
  define h1 where "h1 = h\<lparr>nelts := nelts h - 1\<rparr>"
  have at1: "at_position h1 ctx \<langle>\<langle>\<rangle>, z, \<langle>\<rangle>\<rangle>" using at by (simp add: at_position_def h1_def)
  have z: "read_place (place_of ctx) h1 = z" using read_place_of [OF at1] by simp
  have dist: "z \<noteq> 0" "z \<notin> set (ctx_nodes ctx)" using at1 by (auto simp: at_position_def)
  define h2 where "h2 = write_place (place_of ctx) 0 h1"
  have at2: "at_position h2 ctx \<langle>\<rangle>"
    using write_place_of(1) [OF at1, of 0] at1 by (simp add: h2_def at_position_def)
  have n2: "nelts h2 = nelts h - 1" using write_place_of(3) [OF at1, of 0] by (simp add: h2_def h1_def)
  define t1 where "t1 = plug ctx \<langle>\<rangle>"
  have t1: "holds_tree h2 t1" using at2 at_plug [of h2 ctx "\<langle>\<rangle>"] by (simp add: t1_def)
  have set1: "set_tree t1 = set_tree t - {z}" using dist(2) by (subst whole [symmetric]) (auto simp: t1_def set_tree_plug)
  have "ordered_above lt ctx {z}" using t(2) heap_plug [of lt ctx "\<langle>\<langle>\<rangle>, z, \<langle>\<rangle>\<rangle>"] by (simp add: whole)
  then have "ordered_above lt ctx {}" by (rule ordered_above_mono) simp
  then have ord1: "heap_ordered lt t1" using heap_plug [of lt ctx "\<langle>\<rangle>"] by (simp add: t1_def)
  have full1: "full_to (unat (nelts h2)) t1"
    unfolding full_to_def t1_def tree n2 un has_node_cut [OF reach last]
  proof
    fix bs
    have "number bs = ?n \<longleftrightarrow> bs = ?bs" by (rule number_eq_iff [OF pos])
    moreover have "number bs \<le> ?n - 1 \<longleftrightarrow> number bs \<le> ?n \<and> number bs \<noteq> ?n" using pos by arith
    ultimately show "(has_node t bs \<and> bs \<noteq> ?bs) = (number bs \<le> ?n - 1)" using t(3) by (simp add: full_to_def)
  qed
  have run: "heap_remove node lt h = (if z = node then Some (if z = hmin h2 then h2\<lparr>hmin := 0\<rparr> else h2)
      else (case walk_down lt z (replace_node node z h2) of None \<Rightarrow> None | Some h \<Rightarrow> walk_up lt z h))"
    using n0 by (simp only: heap_remove_def Let_def path prod.case case_prod_beta fst_conv snd_conv down h1_def [symmetric] z
      h2_def [symmetric] if_False)
  show ?thesis
  proof (cases "z = node")
    case True
    have "hmin h2 = ptr t1" using t1 by (simp add: at_position_def)
    then have "z \<noteq> hmin h2" using ptr_in [of t1] set1 dist(1) by auto
    then have "heap_remove node lt h = Some h2" using run True by simp
    then show ?thesis using heap_ofI [OF t1 ord1 full1 set1] True n2 un pos by simp
  next
    case False
    then have "node \<in> set_tree t1" using node set1 by simp
    from node_position [OF this] obtain c2 l r where t1_eq: "t1 = plug c2 \<langle>l, node, r\<rangle>" by blast
    have at3: "at_position h2 c2 \<langle>l, node, r\<rangle>" using t1 at_plug [of h2 c2 "\<langle>l, node, r\<rangle>"] by (simp add: t1_eq)
    have out: "z \<notin> set_tree (plug c2 \<langle>l, node, r\<rangle>)" using set1 by (simp add: t1_eq)
    note at4 = replace_position [OF at3 dist(1) out]
    have h1: "heap_ordered lt l" "heap_ordered lt r" "ordered_above lt c2 (set_tree l \<union> set_tree r)"
      using ord1 heap_plug [of lt c2 "\<langle>l, node, r\<rangle>"]
      by (auto simp: t1_eq elim!: ordered_above_mono)
    from sift_position [OF lt at4(1) h1] obtain h3 h' t' where run':
        "walk_down lt z (replace_node node z h2) = Some h3" "walk_up lt z h3 = Some h'" "nelts h' = nelts (replace_node node z h2)"
        "holds_tree h' t'" "heap_ordered lt t'" "shape t' = shape (plug c2 \<langle>l, z, r\<rangle>)"
        "set_tree t' = set_tree (plug c2 \<langle>l, z, r\<rangle>)" by blast
    have n3: "nelts h' = nelts h2" using run'(3) at4(2) by simp
    have "shape t' = shape t1" using run'(6) shape_plug [of "\<langle>l, z, r\<rangle>" "\<langle>l, node, r\<rangle>" c2] by (simp add: t1_eq)
    then have full': "full_to (unat (nelts h')) t'" using full1 full_to_shape n3 by metis
    let ?rest = "set (ctx_nodes c2) \<union> set_tree l \<union> set_tree r"
    have "node \<notin> ?rest" using at3 by (auto simp: at_position_def)
    moreover have "z \<in> set_tree t" using set_tree_plug [of ctx "\<langle>\<langle>\<rangle>, z, \<langle>\<rangle>\<rangle>"] whole by simp
    then have "set_tree t = insert z (set_tree t1)" unfolding set1 by (simp add: insert_absorb)
    moreover have "set_tree t1 = insert node ?rest" unfolding t1_eq set_tree_plug by auto
    moreover have "set_tree t' = insert z ?rest" unfolding run'(7) set_tree_plug by auto
    ultimately have "set_tree t' = set_tree t - {node}" using False by (simp add: insert_Diff_if)
    then have "heap_of lt h' (set_tree t - {node})" by (rule heap_ofI [OF run'(4,5) full'])
    moreover have "heap_remove node lt h = Some h'" unfolding run using False run'(1,2) by simp
    moreover have "Suc (unat (nelts h')) = unat (nelts h)" using n3 n2 un pos by simp
    ultimately show ?thesis by blast
  qed
qed

section \<open>What the heap promises\<close>

lemma heap_of_init: "heap_of lt (heap_init h) {}"
  by (rule heap_ofI [of _ "\<langle>\<rangle>"]) (simp_all add: heap_init_def at_position_def full_to_0)

lemma heap_of_insert:
  "node_order lt \<Longrightarrow> heap_of lt h S \<Longrightarrow> new \<noteq> 0 \<Longrightarrow> new \<notin> S \<Longrightarrow> unat (nelts h) < 2 ^ 32 - 1 \<Longrightarrow>
   \<exists>h'. heap_insert new lt h = Some h' \<and> heap_of lt h' (insert new S) \<and> unat (nelts h') = Suc (unat (nelts h))"
  using heap_insert_tree unfolding heap_of_def [of lt h S] by blast

lemma heap_of_remove:
  "node_order lt \<Longrightarrow> heap_of lt h S \<Longrightarrow> node \<in> S \<Longrightarrow>
   \<exists>h'. heap_remove node lt h = Some h' \<and> heap_of lt h' (S - {node}) \<and> Suc (unat (nelts h')) = unat (nelts h)"
  using heap_remove_tree unfolding heap_of_def [of lt h S] by blast

lemma heap_of_min:
  assumes "node_order lt" and "heap_of lt h S"
  shows "(heap_min h = 0 \<longleftrightarrow> S = {}) \<and> (S \<noteq> {} \<longrightarrow> heap_min h \<in> S \<and> (\<forall>x\<in>S. \<not> lt x (heap_min h))) \<and> 0 \<notin> S"
proof -
  from assms(2) obtain t where t: "holds_tree h t" "heap_ordered lt t" "set_tree t = S" by (auto simp: heap_of_def)
  have irr: "\<not> lt a a" for a using node_order.asym [OF assms(1)] by blast
  from t(1) have "hmin h = ptr t" "0 \<notin> set_tree t" by (auto simp: at_position_def dest: repr_nonzero)
  then show ?thesis using t(2,3) irr by (cases t) (auto simp: heap_min_def)
qed

text \<open>The set only depends on the order on its members, and the heap does not read the rest of the store.\<close>

lemma heap_ordered_cong:
  "(\<And>x y. x \<in> set_tree t \<Longrightarrow> y \<in> set_tree t \<Longrightarrow> lt' x y = lt x y) \<Longrightarrow> heap_ordered lt' t = heap_ordered lt t"
  by (induction t) auto

lemma heap_of_order:
  assumes "heap_of lt h S" and "\<And>x y. x \<in> S \<Longrightarrow> y \<in> S \<Longrightarrow> lt' x y = lt x y"
  shows "heap_of lt' h S"
proof -
  from assms(1) obtain t where "holds_tree h t" "heap_ordered lt t" "full_to (unat (nelts h)) t" "set_tree t = S"
    by (auto simp: heap_of_def)
  then show ?thesis using heap_ordered_cong [of t lt' lt] assms(2) by (intro heap_ofI [of h t]) auto
qed

end
