(* ===== verification/UV_Errno.thy ===== *)
theory UV_Errno
  imports Prelude
begin

text \<open>
  The error codes of libuv (\<open>uv/errno.h\<close>) that the modelled functions return: the negated error
  numbers of the platform, here those of Darwin. A function that fails gives the code as \<open>Inl\<close>.
\<close>

definition UV_EINVAL :: int where "UV_EINVAL = -22"
definition UV_E2BIG :: int where "UV_E2BIG = -7"
definition UV_ENOSPC :: int where "UV_ENOSPC = -28"
definition UV_EAFNOSUPPORT :: int where "UV_EAFNOSUPPORT = -47"

lemmas uv_errors = UV_EINVAL_def UV_E2BIG_def UV_ENOSPC_def UV_EAFNOSUPPORT_def

end
