(* ===== verification/UV_Timer.thy ===== *)
theory UV_Timer
  imports UV_Heap UV_Errno "HOL-Library.Monad_Syntax"
begin

unbundle bit_operations_syntax

text \<open>
  The timers of the libuv event loop (\<open>timer.c\<close>, and the handle macros of \<open>uv-common.h\<close>). A handle is
  known by the address of its heap node; the loop holds the handles, the heap, the clock and the state the
  callbacks have of their own. The callbacks are function pointers of the user, so a parameter.
\<close>

section \<open>Handles and the loop\<close>

definition UV_HANDLE_CLOSING :: u32 where "UV_HANDLE_CLOSING = 0x00000001"
definition UV_HANDLE_CLOSED :: u32 where "UV_HANDLE_CLOSED = 0x00000002"
definition UV_HANDLE_ACTIVE :: u32 where "UV_HANDLE_ACTIVE = 0x00000004"
definition UV_HANDLE_REF :: u32 where "UV_HANDLE_REF = 0x00000008"

record 'cb uv_timer =
  flags :: u32
  timer_cb :: "'cb option"
  timeout :: u64
  repeat :: u64
  start_id :: u64

record ('cb, 'u) uv_loop =
  time :: u64
  timer_counter :: u64
  active_handles :: u32
  handle_queue :: "addr list"
  timer_heap :: heap
  timers :: "addr \<Rightarrow> 'cb uv_timer"
  user :: 'u

definition set_timer :: "addr \<Rightarrow> ('cb uv_timer \<Rightarrow> 'cb uv_timer) \<Rightarrow> ('cb, 'u) uv_loop \<Rightarrow> ('cb, 'u) uv_loop" where
  "set_timer x f loop = loop\<lparr>timers := (timers loop)(x := f (timers loop x))\<rparr>"

definition uv__is_active :: "'cb uv_timer \<Rightarrow> bool" where
  "uv__is_active h \<longleftrightarrow> flags h AND UV_HANDLE_ACTIVE \<noteq> 0"

definition uv__is_closing :: "'cb uv_timer \<Rightarrow> bool" where
  "uv__is_closing h \<longleftrightarrow> flags h AND (UV_HANDLE_CLOSING OR UV_HANDLE_CLOSED) \<noteq> 0"

definition uv__has_ref :: "'cb uv_timer \<Rightarrow> bool" where
  "uv__has_ref h \<longleftrightarrow> flags h AND UV_HANDLE_REF \<noteq> 0"

definition uv__handle_start :: "addr \<Rightarrow> ('cb, 'u) uv_loop \<Rightarrow> ('cb, 'u) uv_loop" where
  "uv__handle_start x loop =
     (if uv__is_active (timers loop x) then loop
      else let loop = set_timer x (\<lambda>h. h\<lparr>flags := flags h OR UV_HANDLE_ACTIVE\<rparr>) loop
           in if uv__has_ref (timers loop x) then loop\<lparr>active_handles := active_handles loop + 1\<rparr> else loop)"

definition uv__handle_stop :: "addr \<Rightarrow> ('cb, 'u) uv_loop \<Rightarrow> ('cb, 'u) uv_loop" where
  "uv__handle_stop x loop =
     (if \<not> uv__is_active (timers loop x) then loop
      else let loop = set_timer x (\<lambda>h. h\<lparr>flags := flags h AND NOT UV_HANDLE_ACTIVE\<rparr>) loop
           in if uv__has_ref (timers loop x) then loop\<lparr>active_handles := active_handles loop - 1\<rparr> else loop)"

definition uv__handle_ref :: "addr \<Rightarrow> ('cb, 'u) uv_loop \<Rightarrow> ('cb, 'u) uv_loop" where
  "uv__handle_ref x loop =
     (if uv__has_ref (timers loop x) then loop
      else let loop = set_timer x (\<lambda>h. h\<lparr>flags := flags h OR UV_HANDLE_REF\<rparr>) loop
           in if flags (timers loop x) AND UV_HANDLE_CLOSING \<noteq> 0 then loop
              else if uv__is_active (timers loop x) then loop\<lparr>active_handles := active_handles loop + 1\<rparr> else loop)"

definition uv__handle_unref :: "addr \<Rightarrow> ('cb, 'u) uv_loop \<Rightarrow> ('cb, 'u) uv_loop" where
  "uv__handle_unref x loop =
     (if \<not> uv__has_ref (timers loop x) then loop
      else let loop = set_timer x (\<lambda>h. h\<lparr>flags := flags h AND NOT UV_HANDLE_REF\<rparr>) loop
           in if flags (timers loop x) AND UV_HANDLE_CLOSING \<noteq> 0 then loop
              else if uv__is_active (timers loop x) then loop\<lparr>active_handles := active_handles loop - 1\<rparr> else loop)"

definition uv__handle_init :: "addr \<Rightarrow> ('cb, 'u) uv_loop \<Rightarrow> ('cb, 'u) uv_loop" where
  "uv__handle_init x loop =
     (let loop = set_timer x (\<lambda>h. h\<lparr>flags := UV_HANDLE_REF\<rparr>) loop
      in loop\<lparr>handle_queue := handle_queue loop @ [x]\<rparr>)"

section \<open>The operations on timers\<close>

definition timer_less_than :: "(addr \<Rightarrow> 'cb uv_timer) \<Rightarrow> addr \<Rightarrow> addr \<Rightarrow> bool" where
  "timer_less_than tm ha hb =
     (let a = tm ha; b = tm hb
      in if timeout a < timeout b then True
         else if timeout b < timeout a then False
         else start_id a < start_id b)"

definition uv_timer_init :: "addr \<Rightarrow> ('cb, 'u) uv_loop \<Rightarrow> int \<times> ('cb, 'u) uv_loop" where
  "uv_timer_init x loop =
     (0, set_timer x (\<lambda>h. h\<lparr>timer_cb := None, repeat := 0\<rparr>) (uv__handle_init x loop))"

definition uv_timer_stop :: "addr \<Rightarrow> ('cb, 'u) uv_loop \<Rightarrow> (int \<times> ('cb, 'u) uv_loop) option" where
  "uv_timer_stop x loop =
     (if \<not> uv__is_active (timers loop x) then Some (0, loop)
      else do {
        hp \<leftarrow> heap_remove x (timer_less_than (timers loop)) (timer_heap loop);
        Some (0, uv__handle_stop x (loop\<lparr>timer_heap := hp\<rparr>))
      })"

definition clamped_timeout :: "u64 \<Rightarrow> u64 \<Rightarrow> u64" where
  "clamped_timeout now t = (if now + t < t then - 1 else now + t)"

definition uv_timer_start :: "addr \<Rightarrow> 'cb option \<Rightarrow> u64 \<Rightarrow> u64 \<Rightarrow> ('cb, 'u) uv_loop \<Rightarrow> (int \<times> ('cb, 'u) uv_loop) option" where
  "uv_timer_start x cb t rep loop =
     (if uv__is_closing (timers loop x) \<or> cb = None then Some (UV_EINVAL, loop)
      else do {
        (_, loop) \<leftarrow> (if uv__is_active (timers loop x) then uv_timer_stop x loop else Some (0, loop));
        let loop = set_timer x (\<lambda>h. h\<lparr>timer_cb := cb, timeout := clamped_timeout (time loop) t, repeat := rep,
                                      start_id := timer_counter loop\<rparr>) loop;
        let loop = loop\<lparr>timer_counter := timer_counter loop + 1\<rparr>;
        hp \<leftarrow> heap_insert x (timer_less_than (timers loop)) (timer_heap loop);
        Some (0, uv__handle_start x (loop\<lparr>timer_heap := hp\<rparr>))
      })"

definition uv_timer_again :: "addr \<Rightarrow> ('cb, 'u) uv_loop \<Rightarrow> (int \<times> ('cb, 'u) uv_loop) option" where
  "uv_timer_again x loop =
     (if timer_cb (timers loop x) = None then Some (UV_EINVAL, loop)
      else if repeat (timers loop x) \<noteq> 0 then do {
        (_, loop) \<leftarrow> uv_timer_stop x loop;
        (_, loop) \<leftarrow> uv_timer_start x (timer_cb (timers loop x)) (repeat (timers loop x)) (repeat (timers loop x)) loop;
        Some (0, loop)
      }
      else Some (0, loop))"

definition uv_timer_set_repeat :: "addr \<Rightarrow> u64 \<Rightarrow> ('cb, 'u) uv_loop \<Rightarrow> ('cb, 'u) uv_loop" where
  "uv_timer_set_repeat x rep loop = set_timer x (\<lambda>h. h\<lparr>repeat := rep\<rparr>) loop"

definition uv_timer_get_repeat :: "addr \<Rightarrow> ('cb, 'u) uv_loop \<Rightarrow> u64" where
  "uv_timer_get_repeat x loop = repeat (timers loop x)"

definition uv__timer_close :: "addr \<Rightarrow> ('cb, 'u) uv_loop \<Rightarrow> ('cb, 'u) uv_loop option" where
  "uv__timer_close x loop = map_option snd (uv_timer_stop x loop)"

definition int_max :: u64 where "int_max = 0x7FFFFFFF"

definition uv__next_timeout :: "('cb, 'u) uv_loop \<Rightarrow> int" where
  "uv__next_timeout loop =
     (let x = heap_min (timer_heap loop) in
      if x = 0 then - 1
      else if timeout (timers loop x) \<le> time loop then 0
      else let diff = timeout (timers loop x) - time loop;
               diff = (if diff > int_max then int_max else diff)
           in uint diff)"

text \<open>The callbacks are the parameter \<open>call\<close>: a function pointer, the handle and the state give a state.\<close>

partial_function (option) uv__run_timers ::
    "('cb \<Rightarrow> addr \<Rightarrow> ('cb, 'u) uv_loop \<Rightarrow> ('cb, 'u) uv_loop option) \<Rightarrow> ('cb, 'u) uv_loop \<Rightarrow> ('cb, 'u) uv_loop option" where
  "uv__run_timers call loop =
     (let x = heap_min (timer_heap loop) in
      if x = 0 then Some loop
      else if timeout (timers loop x) > time loop then Some loop
      else do {
        (_, loop) \<leftarrow> uv_timer_stop x loop;
        (_, loop) \<leftarrow> uv_timer_again x loop;
        cb \<leftarrow> timer_cb (timers loop x);
        loop \<leftarrow> call cb x loop;
        uv__run_timers call loop
      })"

interpretation timer_order: node_order "timer_less_than tm" for tm :: "addr \<Rightarrow> 'cb uv_timer"
  by unfold_locales (auto simp: timer_less_than_def Let_def split: if_splits)

section \<open>The number of nodes\<close>

lemma has_node_ways: "finite {bs. has_node t bs} \<and> card {bs. has_node t bs} = size t"
proof (induction t)
  case (Node l x r)
  have eq: "{bs. has_node \<langle>l, x, r\<rangle> bs} = insert [] ((#) False ` {bs. has_node l bs} \<union> (#) True ` {bs. has_node r bs})"
    (is "_ = insert [] (?L \<union> ?R)")
  proof (rule set_eqI)
    fix bs
    show "bs \<in> {bs. has_node \<langle>l, x, r\<rangle> bs} \<longleftrightarrow> bs \<in> insert [] (?L \<union> ?R)"
      by (cases bs) (auto split: if_splits)
  qed
  have "card (?L \<union> ?R) = size l + size r"
    using Node by (subst card_Un_disjoint) (auto simp: card_image)
  then show ?case unfolding eq using Node by (subst card_insert_disjoint) auto
qed simp

lemma full_to_size: "full_to n t \<Longrightarrow> size t = n"
proof -
  assume "full_to n t"
  then have "{bs. has_node t bs} = way ` {1..n}"
  proof (intro set_eqI iffI)
    fix bs assume "bs \<in> {bs. has_node t bs}"
    then have "number bs \<in> {1..n}" using \<open>full_to n t\<close> number_pos [of bs] by (simp add: full_to_def)
    then show "bs \<in> way ` {1..n}" using way_number [of bs] by (metis imageI)
  next
    fix bs assume "bs \<in> way ` {1..n}"
    then show "bs \<in> {bs. has_node t bs}" using \<open>full_to n t\<close> number_way by (auto simp: full_to_def)
  qed
  moreover have "inj_on way {1..n}" by (rule inj_on_inverseI [of _ number]) (simp add: number_way)
  ultimately show ?thesis using has_node_ways [of t] by (simp add: card_image)
qed

lemma heap_of_card: "heap_of lt h S \<Longrightarrow> finite S \<and> card S = unat (nelts h)"
proof -
  assume "heap_of lt h S"
  then obtain t where "holds_tree h t" "full_to (unat (nelts h)) t" "set_tree t = S" by (auto simp: heap_of_def)
  moreover from this have "distinct (inorder t)" by (simp add: at_position_def)
  then have "card (set (inorder t)) = length (inorder t)" by (rule distinct_card)
  ultimately show ?thesis using full_to_size [of _ t] by auto
qed

section \<open>The invariant\<close>

definition active_timers :: "('cb, 'u) uv_loop \<Rightarrow> addr set" where
  "active_timers loop = {x. uv__is_active (timers loop x)}"

text \<open>The heap holds the active timers, each of which has a callback and is not being closed.\<close>

definition loop_inv :: "('cb, 'u) uv_loop \<Rightarrow> bool" where
  "loop_inv loop \<longleftrightarrow>
     heap_of (timer_less_than (timers loop)) (timer_heap loop) (active_timers loop) \<and>
     (\<forall>x\<in>active_timers loop. timer_cb (timers loop x) \<noteq> None \<and> \<not> uv__is_closing (timers loop x))"

lemma set_timer_simps [simp]:
  "timers (set_timer x f loop) = (timers loop)(x := f (timers loop x))" "time (set_timer x f loop) = time loop"
  "timer_heap (set_timer x f loop) = timer_heap loop" "timer_counter (set_timer x f loop) = timer_counter loop"
  "active_handles (set_timer x f loop) = active_handles loop" "user (set_timer x f loop) = user loop"
  by (simp_all add: set_timer_def)

lemma bit_active: "bit UV_HANDLE_ACTIVE n \<longleftrightarrow> n = 2"
proof -
  have "UV_HANDLE_ACTIVE = push_bit 2 1" by (simp add: UV_HANDLE_ACTIVE_def)
  then have "bit UV_HANDLE_ACTIVE n = bit (push_bit 2 1 :: u32) n" by metis
  also have "\<dots> \<longleftrightarrow> n = 2" unfolding bit_push_bit_iff by (auto simp: bit_1_iff)
  finally show ?thesis .
qed

lemma is_active_iff: "uv__is_active h \<longleftrightarrow> bit (flags h) 2"
proof -
  have "uv__is_active h \<longleftrightarrow> (\<exists>n. bit (flags h AND UV_HANDLE_ACTIVE) n)"
    unfolding uv__is_active_def by (metis bit_eqI bit_0_eq bot_apply bot_bool_def)
  then show ?thesis by (auto simp: bit_and_iff bit_active)
qed

lemma handle_start_simps [simp]:
  "timers (uv__handle_start x loop) = (timers loop)(x := (timers loop x)\<lparr>flags := flags (timers loop x) OR UV_HANDLE_ACTIVE\<rparr>)"
  "time (uv__handle_start x loop) = time loop" "timer_heap (uv__handle_start x loop) = timer_heap loop"
  "timer_counter (uv__handle_start x loop) = timer_counter loop" "user (uv__handle_start x loop) = user loop"
proof -
  have "flags (timers loop x) OR UV_HANDLE_ACTIVE = flags (timers loop x)" if "uv__is_active (timers loop x)"
    using that by (intro bit_word_eqI) (auto simp: is_active_iff bit_and_iff bit_or_iff bit_not_iff bit_active)
  then show "timers (uv__handle_start x loop) = (timers loop)(x := (timers loop x)\<lparr>flags := flags (timers loop x) OR UV_HANDLE_ACTIVE\<rparr>)"
    by (auto simp: uv__handle_start_def Let_def fun_eq_iff)
qed (simp_all add: uv__handle_start_def Let_def)

lemma handle_stop_simps [simp]:
  "timers (uv__handle_stop x loop) = (timers loop)(x := (timers loop x)\<lparr>flags := flags (timers loop x) AND NOT UV_HANDLE_ACTIVE\<rparr>)"
  "time (uv__handle_stop x loop) = time loop" "timer_heap (uv__handle_stop x loop) = timer_heap loop"
  "timer_counter (uv__handle_stop x loop) = timer_counter loop" "user (uv__handle_stop x loop) = user loop"
proof -
  have "flags (timers loop x) AND NOT UV_HANDLE_ACTIVE = flags (timers loop x)" if "\<not> uv__is_active (timers loop x)"
    using that by (intro bit_word_eqI) (auto simp: is_active_iff bit_and_iff bit_or_iff bit_not_iff bit_active)
  then show "timers (uv__handle_stop x loop) = (timers loop)(x := (timers loop x)\<lparr>flags := flags (timers loop x) AND NOT UV_HANDLE_ACTIVE\<rparr>)"
    by (auto simp: uv__handle_stop_def Let_def fun_eq_iff)
qed (simp_all add: uv__handle_stop_def Let_def)

lemma active_flags [simp]:
  "uv__is_active (h\<lparr>flags := f OR UV_HANDLE_ACTIVE\<rparr>)" "\<not> uv__is_active (h\<lparr>flags := f AND NOT UV_HANDLE_ACTIVE\<rparr>)"
  "uv__is_closing (h\<lparr>flags := f OR UV_HANDLE_ACTIVE\<rparr>) = uv__is_closing (h\<lparr>flags := f\<rparr>)"
  "uv__is_closing (h\<lparr>flags := f AND NOT UV_HANDLE_ACTIVE\<rparr>) = uv__is_closing (h\<lparr>flags := f\<rparr>)"
proof -
  have two: "bit (UV_HANDLE_CLOSING OR UV_HANDLE_CLOSED) 2 = False"
    by (simp add: UV_HANDLE_CLOSING_def UV_HANDLE_CLOSED_def)
  show "uv__is_active (h\<lparr>flags := f OR UV_HANDLE_ACTIVE\<rparr>)" "\<not> uv__is_active (h\<lparr>flags := f AND NOT UV_HANDLE_ACTIVE\<rparr>)"
    by (simp_all add: is_active_iff bit_and_iff bit_or_iff bit_not_iff bit_active)
  have "(f OR UV_HANDLE_ACTIVE) AND (UV_HANDLE_CLOSING OR UV_HANDLE_CLOSED) = f AND (UV_HANDLE_CLOSING OR UV_HANDLE_CLOSED)"
    using two by (intro bit_word_eqI) (auto simp: bit_and_iff bit_or_iff [of f] bit_active)
  then show "uv__is_closing (h\<lparr>flags := f OR UV_HANDLE_ACTIVE\<rparr>) = uv__is_closing (h\<lparr>flags := f\<rparr>)" by (simp add: uv__is_closing_def)
  have "(f AND NOT UV_HANDLE_ACTIVE) AND (UV_HANDLE_CLOSING OR UV_HANDLE_CLOSED) = f AND (UV_HANDLE_CLOSING OR UV_HANDLE_CLOSED)"
    using two by (intro bit_word_eqI) (auto simp: bit_and_iff bit_not_iff bit_active)
  then show "uv__is_closing (h\<lparr>flags := f AND NOT UV_HANDLE_ACTIVE\<rparr>) = uv__is_closing (h\<lparr>flags := f\<rparr>)" by (simp add: uv__is_closing_def)
qed

lemma less_than_cong: "tm' x = tm x \<Longrightarrow> tm' y = tm y \<Longrightarrow> timer_less_than tm' x y = timer_less_than tm x y"
  by (simp add: timer_less_than_def)

lemma less_than_flags: "timeout (tm' x) = timeout (tm x) \<Longrightarrow> timeout (tm' y) = timeout (tm y) \<Longrightarrow>
  start_id (tm' x) = start_id (tm x) \<Longrightarrow> start_id (tm' y) = start_id (tm y) \<Longrightarrow> timer_less_than tm' x y = timer_less_than tm x y"
  by (simp add: timer_less_than_def Let_def)

lemma loop_inv_nonzero: "loop_inv loop \<Longrightarrow> 0 \<notin> active_timers loop"
  using heap_of_min [OF timer_order.node_order_axioms] unfolding loop_inv_def by blast

lemma loop_inv_card: "loop_inv loop \<Longrightarrow> finite (active_timers loop) \<and> card (active_timers loop) = unat (nelts (timer_heap loop))"
  using heap_of_card unfolding loop_inv_def by blast


lemma active_upd: "active_timers (loop\<lparr>timers := (timers loop)(x := h)\<rparr>) =
    (if uv__is_active h then insert x (active_timers loop) else active_timers loop - {x})"
  by (auto simp: active_timers_def)

lemma handle_start_active: "active_timers (uv__handle_start x loop) = insert x (active_timers loop)"
  by (auto simp: active_timers_def)

lemma handle_stop_active: "active_timers (uv__handle_stop x loop) = active_timers loop - {x}"
  by (auto simp: active_timers_def)

lemma heap_upd_simps [simp]: "active_timers (loop\<lparr>timer_heap := hp\<rparr>) = active_timers loop"
  by (simp add: active_timers_def)

section \<open>Stopping and starting\<close>

definition stopped :: "'cb uv_timer \<Rightarrow> 'cb uv_timer" where
  "stopped h = h\<lparr>flags := flags h AND NOT UV_HANDLE_ACTIVE\<rparr>"

definition started :: "'cb option \<Rightarrow> u64 \<Rightarrow> u64 \<Rightarrow> u64 \<Rightarrow> 'cb uv_timer \<Rightarrow> 'cb uv_timer" where
  "started cb t rep k h = h\<lparr>timer_cb := cb, timeout := t, repeat := rep, start_id := k, flags := flags h OR UV_HANDLE_ACTIVE\<rparr>"

lemma stopped_idle: "\<not> uv__is_active h \<Longrightarrow> stopped h = h"
proof -
  assume "\<not> uv__is_active h"
  then have "flags h AND NOT UV_HANDLE_ACTIVE = flags h"
    by (intro bit_word_eqI) (auto simp: is_active_iff bit_and_iff bit_not_iff bit_active)
  then show ?thesis by (simp add: stopped_def)
qed

lemma stopped_simps [simp]:
  "timer_cb (stopped h) = timer_cb h" "timeout (stopped h) = timeout h" "repeat (stopped h) = repeat h"
  "start_id (stopped h) = start_id h" "\<not> uv__is_active (stopped h)" "uv__is_closing (stopped h) = uv__is_closing h"
  by (simp_all add: stopped_def)

lemma started_simps [simp]:
  "timer_cb (started cb t rep k h) = cb" "timeout (started cb t rep k h) = t" "repeat (started cb t rep k h) = rep"
  "start_id (started cb t rep k h) = k" "uv__is_active (started cb t rep k h)"
proof -
  show "uv__is_active (started cb t rep k h)" by (simp add: started_def is_active_iff bit_or_iff bit_active)
qed (simp_all add: started_def)

lemma started_closing [simp]: "uv__is_closing (started cb t rep k h) = uv__is_closing h"
proof -
  have "uv__is_closing (started cb t rep k h) = uv__is_closing (h\<lparr>flags := flags h OR UV_HANDLE_ACTIVE\<rparr>)"
    by (simp add: started_def uv__is_closing_def)
  then show ?thesis by (simp only: active_flags) simp
qed

lemma stop_ok:
  assumes inv: "loop_inv loop"
  shows "\<exists>loop'. uv_timer_stop x loop = Some (0, loop') \<and> loop_inv loop' \<and>
    active_timers loop' = active_timers loop - {x} \<and> timers loop' = (timers loop)(x := stopped (timers loop x)) \<and>
    time loop' = time loop \<and> timer_counter loop' = timer_counter loop \<and> user loop' = user loop"
proof (cases "uv__is_active (timers loop x)")
  case False
  then have "uv_timer_stop x loop = Some (0, loop)" "active_timers loop - {x} = active_timers loop"
    by (auto simp: uv_timer_stop_def active_timers_def)
  then show ?thesis using inv stopped_idle [OF False] by simp
next
  case True
  let ?lt = "timer_less_than (timers loop)"
  have x: "x \<in> active_timers loop" using True by (simp add: active_timers_def)
  have "heap_of ?lt (timer_heap loop) (active_timers loop)" using inv by (simp add: loop_inv_def)
  from heap_of_remove [OF timer_order.node_order_axioms this x] obtain hp
    where hp: "heap_remove x ?lt (timer_heap loop) = Some hp" "heap_of ?lt hp (active_timers loop - {x})" by blast
  define loop' where "loop' = uv__handle_stop x (loop\<lparr>timer_heap := hp\<rparr>)"
  have run: "uv_timer_stop x loop = Some (0, loop')" using True hp(1) by (simp add: uv_timer_stop_def loop'_def)
  have tm: "timers loop' = (timers loop)(x := stopped (timers loop x))" by (simp add: loop'_def stopped_def)
  have act: "active_timers loop' = active_timers loop - {x}" by (simp add: loop'_def handle_stop_active)
  have "heap_of (timer_less_than (timers loop')) hp (active_timers loop')"
    unfolding act by (rule heap_of_order [OF hp(2)]) (auto simp: tm intro!: less_than_cong)
  then have "loop_inv loop'" using inv act by (auto simp: loop_inv_def tm) (simp_all add: loop'_def)
  then show ?thesis using run tm act by (auto simp: loop'_def)
qed

lemma start_idle:
  assumes inv: "loop_inv loop" and x: "x \<noteq> 0" "\<not> uv__is_active (timers loop x)" "\<not> uv__is_closing (timers loop x)"
    and cb: "cb \<noteq> None" and room: "card (active_timers loop) < 2 ^ 32 - 1"
  shows "\<exists>loop'. uv_timer_start x cb t rep loop = Some (0, loop') \<and> loop_inv loop' \<and>
    active_timers loop' = insert x (active_timers loop) \<and>
    timers loop' = (timers loop)(x := started cb (clamped_timeout (time loop) t) rep (timer_counter loop) (timers loop x)) \<and>
    time loop' = time loop \<and> timer_counter loop' = timer_counter loop + 1 \<and> user loop' = user loop"
proof -
  let ?h = "started cb (clamped_timeout (time loop) t) rep (timer_counter loop) (timers loop x)"
  define l1 where "l1 = (set_timer x (\<lambda>h. h\<lparr>timer_cb := cb, timeout := clamped_timeout (time loop) t, repeat := rep,
      start_id := timer_counter loop\<rparr>) loop)\<lparr>timer_counter := timer_counter loop + 1\<rparr>"
  have out: "x \<notin> active_timers loop" using x by (simp add: active_timers_def)
  have l1: "timer_heap l1 = timer_heap loop" "time l1 = time loop" "user l1 = user loop" "timer_counter l1 = timer_counter loop + 1"
    "timers l1 = (timers loop)(x := (timers loop x)\<lparr>timer_cb := cb, timeout := clamped_timeout (time loop) t, repeat := rep,
      start_id := timer_counter loop\<rparr>)" by (simp_all add: l1_def)
  let ?lt = "timer_less_than (timers l1)"
  have "heap_of (timer_less_than (timers loop)) (timer_heap loop) (active_timers loop)" using inv by (simp add: loop_inv_def)
  then have "heap_of ?lt (timer_heap loop) (active_timers loop)"
    by (rule heap_of_order) (use out in \<open>auto simp: l1 intro!: less_than_cong\<close>)
  moreover have "unat (nelts (timer_heap loop)) < 2 ^ 32 - 1" using loop_inv_card [OF inv] room by simp
  ultimately obtain hp where hp: "heap_insert x ?lt (timer_heap loop) = Some hp" "heap_of ?lt hp (insert x (active_timers loop))"
    using heap_of_insert [OF timer_order.node_order_axioms] x(1) out by blast
  define loop' where "loop' = uv__handle_start x (l1\<lparr>timer_heap := hp\<rparr>)"
  have run: "uv_timer_start x cb t rep loop = Some (0, loop')"
    using x cb hp(1) by (auto simp: uv_timer_start_def loop'_def l1_def)
  have tm: "timers loop' = (timers loop)(x := ?h)" by (simp add: loop'_def started_def l1)
  have act: "active_timers loop' = insert x (active_timers loop)" by (auto simp: active_timers_def tm)
  have "heap_of (timer_less_than (timers loop')) hp (active_timers loop')"
    unfolding act by (rule heap_of_order [OF hp(2)], rule less_than_flags) (simp_all add: tm l1)
  then have "loop_inv loop'" using inv act x cb by (auto simp: loop_inv_def tm) (simp_all add: loop'_def)
  then show ?thesis using run tm act by (auto simp: loop'_def l1)
qed

lemma start_ok:
  assumes inv: "loop_inv loop" and x: "x \<noteq> 0" "\<not> uv__is_closing (timers loop x)"
    and cb: "cb \<noteq> None" and room: "card (active_timers loop - {x}) < 2 ^ 32 - 1"
  shows "\<exists>loop'. uv_timer_start x cb t rep loop = Some (0, loop') \<and> loop_inv loop' \<and>
    active_timers loop' = insert x (active_timers loop) \<and>
    timers loop' = (timers loop)(x := started cb (clamped_timeout (time loop) t) rep (timer_counter loop) (stopped (timers loop x))) \<and>
    time loop' = time loop \<and> timer_counter loop' = timer_counter loop + 1 \<and> user loop' = user loop"
proof -
  from stop_ok [OF inv, of x] obtain l where l: "uv_timer_stop x loop = Some (0, l)" "loop_inv l"
    "active_timers l = active_timers loop - {x}" "timers l = (timers loop)(x := stopped (timers loop x))"
    "time l = time loop" "timer_counter l = timer_counter loop" "user l = user loop" by blast
  have "uv_timer_start x cb t rep loop = uv_timer_start x cb t rep l"
  proof (cases "uv__is_active (timers loop x)")
    case True
    moreover have "cb = Some (the cb)" using cb by simp
    ultimately show ?thesis using l x by (auto simp: uv_timer_start_def)
  next
    case False
    then show ?thesis using l(1) by (simp add: uv_timer_stop_def)
  qed
  moreover have "\<not> uv__is_active (timers l x)" "\<not> uv__is_closing (timers l x)" "card (active_timers l) < 2 ^ 32 - 1"
    using l x room by simp_all
  from start_idle [OF l(2) x(1) this(1,2) cb this(3), of t rep] obtain loop' where
    "uv_timer_start x cb t rep l = Some (0, loop')" "loop_inv loop'" "active_timers loop' = insert x (active_timers loop)"
    "timers loop' = (timers l)(x := started cb (clamped_timeout (time loop) t) rep (timer_counter loop) (timers l x))"
    "time loop' = time loop" "timer_counter loop' = timer_counter loop + 1" "user loop' = user loop"
    using l by auto
  ultimately show ?thesis using l(4) by simp
qed

section \<open>Running the timers\<close>

definition due :: "('cb, 'u) uv_loop \<Rightarrow> addr set" where
  "due loop = {x \<in> active_timers loop. timeout (timers loop x) \<le> time loop}"

lemma unat_clamped_timeout: "unat (clamped_timeout now t) = min (unat now + unat t) (2 ^ 64 - 1)"
proof -
  have sum: "unat (now + t) = (unat now + unat t) mod 2 ^ 64" by (simp add: unat_word_ariths)
  have "unat now < 2 ^ 64" "unat t < 2 ^ 64" using unsigned_less [of now] unsigned_less [of t] by simp_all
  moreover have "unat (- 1 :: u64) = 2 ^ 64 - 1" by (simp add: unsigned_minus_1_eq_mask mask_eq_exp_minus_1)
  moreover have "(unat now + unat t) mod 2 ^ 64 = unat now + unat t - 2 ^ 64" if "unat now + unat t \<ge> 2 ^ 64"
    using that calculation by (simp add: mod_if)
  ultimately show ?thesis
    by (cases "unat now + unat t < 2 ^ 64") (simp_all add: clamped_timeout_def word_less_nat_alt sum)
qed

lemma clamped_later: "now \<noteq> - 1 \<Longrightarrow> t \<noteq> 0 \<Longrightarrow> now < clamped_timeout now t"
proof -
  assume "now \<noteq> - 1" "t \<noteq> 0"
  moreover have "unat (- 1 :: u64) = 2 ^ 64 - 1" by (simp add: unsigned_minus_1_eq_mask mask_eq_exp_minus_1)
  ultimately have "unat now \<noteq> 2 ^ 64 - 1" "unat t \<noteq> 0" by (metis word_unat_eq_iff, metis unat_eq_zero)
  moreover have "unat now < 2 ^ 64" using unsigned_less [of now] by simp
  ultimately show ?thesis by (simp add: word_less_nat_alt unat_clamped_timeout)
qed

lemma due_finite: "loop_inv loop \<Longrightarrow> finite (due loop)"
  using loop_inv_card [of loop] by (simp add: due_def)

lemma min_cases:
  assumes "loop_inv loop"
  shows "(heap_min (timer_heap loop) = 0 \<longleftrightarrow> active_timers loop = {}) \<and>
    (active_timers loop \<noteq> {} \<longrightarrow> heap_min (timer_heap loop) \<in> active_timers loop \<and>
      (\<forall>y\<in>active_timers loop. \<not> timer_less_than (timers loop) y (heap_min (timer_heap loop))))"
  using heap_of_min [OF timer_order.node_order_axioms] assms unfolding loop_inv_def by blast

lemma less_than_timeout: "\<not> timer_less_than tm y x \<Longrightarrow> timeout (tm x) \<le> timeout (tm y)"
  by (auto simp: timer_less_than_def Let_def split: if_splits)

lemma min_due:
  assumes "loop_inv loop"
  shows "due loop = {} \<longleftrightarrow> heap_min (timer_heap loop) = 0 \<or> timeout (timers loop (heap_min (timer_heap loop))) > time loop"
  using min_cases [OF assms] less_than_timeout [of "timers loop"] by (fastforce simp: due_def)

definition fired :: "u64 \<Rightarrow> u64 \<Rightarrow> 'cb uv_timer \<Rightarrow> 'cb uv_timer" where
  "fired now k h =
     (if repeat h = 0 then stopped h
      else started (timer_cb h) (clamped_timeout now (repeat h)) (repeat h) k (stopped (stopped h)))"

lemma again_ok:
  assumes inv: "loop_inv loop" and x: "x \<noteq> 0" "\<not> uv__is_closing (timers loop x)" "timer_cb (timers loop x) \<noteq> None"
    and idle: "\<not> uv__is_active (timers loop x)" and room: "card (active_timers loop) < 2 ^ 32 - 1"
  shows "\<exists>loop' k. uv_timer_again x loop = Some (0, loop') \<and> loop_inv loop' \<and> time loop' = time loop \<and> user loop' = user loop \<and>
    timers loop' = (timers loop)(x := fired (time loop) k (timers loop x))"
proof (cases "repeat (timers loop x) = 0")
  case True
  have "uv_timer_again x loop = Some (0, loop)" using True x(3) by (auto simp: uv_timer_again_def)
  moreover have "(timers loop)(x := fired (time loop) 0 (timers loop x)) = timers loop"
    by (simp add: True fired_def stopped_idle [OF idle])
  ultimately show ?thesis using inv by metis
next
  case False
  from stop_ok [OF inv, of x] obtain l where l: "uv_timer_stop x loop = Some (0, l)" "loop_inv l"
    "active_timers l = active_timers loop - {x}" "timers l = (timers loop)(x := stopped (timers loop x))"
    "time l = time loop" "user l = user loop" by blast
  have "card (active_timers l - {x}) \<le> card (active_timers loop)"
    using loop_inv_card [OF inv] l(3) by (intro card_mono) auto
  then have "card (active_timers l - {x}) < 2 ^ 32 - 1" using room by simp
  moreover have "\<not> uv__is_closing (timers l x)" "timer_cb (timers loop x) \<noteq> None" using x l(4) by simp_all
  ultimately obtain l2 where l2: "uv_timer_start x (timer_cb (timers loop x)) (repeat (timers loop x)) (repeat (timers loop x)) l = Some (0, l2)"
    "loop_inv l2" "timers l2 = (timers l)(x := started (timer_cb (timers loop x)) (clamped_timeout (time l) (repeat (timers loop x)))
      (repeat (timers loop x)) (timer_counter l) (stopped (timers l x)))" "time l2 = time l" "user l2 = user l"
    using start_ok [OF l(2) x(1), of "timer_cb (timers loop x)" "repeat (timers loop x)" "repeat (timers loop x)"] by blast
  have "uv_timer_again x loop = Some (0, l2)" using False l(1,4) l2(1) x(3) by (auto simp: uv_timer_again_def)
  moreover have "timers l2 = (timers loop)(x := fired (time loop) (timer_counter l) (timers loop x))"
    using False by (simp add: l2(3) l(4,5) fired_def)
  ultimately show ?thesis using l2(2,4,5) l(5,6) by metis
qed

text \<open>The body of the loop, with what follows an iteration as a parameter.\<close>

definition run_timers_body ::
    "('cb \<Rightarrow> addr \<Rightarrow> ('cb, 'u) uv_loop \<Rightarrow> ('cb, 'u) uv_loop option) \<Rightarrow>
     (('cb, 'u) uv_loop \<Rightarrow> ('cb, 'u) uv_loop option) \<Rightarrow> ('cb, 'u) uv_loop \<Rightarrow> ('cb, 'u) uv_loop option" where
  "run_timers_body call run loop =
     (let x = heap_min (timer_heap loop) in
      if x = 0 then Some loop
      else if timeout (timers loop x) > time loop then Some loop
      else do {
        (_, loop) \<leftarrow> uv_timer_stop x loop;
        (_, loop) \<leftarrow> uv_timer_again x loop;
        cb \<leftarrow> timer_cb (timers loop x);
        loop \<leftarrow> call cb x loop;
        run loop
      })"

lemma run_timers_unfold: "uv__run_timers call loop = run_timers_body call (uv__run_timers call) loop"
  by (subst uv__run_timers.simps) (simp only: run_timers_body_def)

lemma run_body_idle:
  "loop_inv loop \<Longrightarrow> due loop = {} \<Longrightarrow> run_timers_body call run loop = Some loop"
  using min_due [of loop] by (auto simp: run_timers_body_def Let_def)

lemma run_body_step:
  assumes inv: "loop_inv loop" and ne: "due loop \<noteq> {}"
  defines "x \<equiv> heap_min (timer_heap loop)"
  shows "\<exists>l k. run_timers_body call run loop = Option.bind (call (the (timer_cb (timers loop x))) x l) run \<and>
    loop_inv l \<and> time l = time loop \<and> user l = user loop \<and> x \<in> due loop \<and>
    (\<forall>y\<in>due loop. \<not> timer_less_than (timers loop) y x) \<and> timers l = (timers loop)(x := fired (time loop) k (timers loop x))"
proof -
  have x: "x \<noteq> 0" "\<not> timeout (timers loop x) > time loop" using min_due [OF inv] ne by (auto simp: x_def)
  then have act: "x \<in> active_timers loop" and least: "\<forall>y\<in>active_timers loop. \<not> timer_less_than (timers loop) y x"
    using min_cases [OF inv] by (auto simp: x_def)
  then have cb: "timer_cb (timers loop x) \<noteq> None" and closing: "\<not> uv__is_closing (timers loop x)"
    using inv by (auto simp: loop_inv_def)
  from stop_ok [OF inv, of x] obtain l where l: "uv_timer_stop x loop = Some (0, l)" "loop_inv l"
    "active_timers l = active_timers loop - {x}" "timers l = (timers loop)(x := stopped (timers loop x))"
    "time l = time loop" "user l = user loop" by blast
  have "card (active_timers l) < card (active_timers loop)"
    unfolding l(3) by (rule card_Diff1_less) (use loop_inv_card [OF inv] act in simp_all)
  moreover have "card (active_timers loop) \<le> 2 ^ 32 - 1"
  proof -
    have "unat (nelts (timer_heap loop)) < 2 ^ 32" using unsigned_less [of "nelts (timer_heap loop)"] by simp
    then show ?thesis using loop_inv_card [OF inv] by simp
  qed
  ultimately have room: "card (active_timers l) < 2 ^ 32 - 1" by simp
  have "\<not> uv__is_closing (timers l x)" "timer_cb (timers l x) \<noteq> None" "\<not> uv__is_active (timers l x)"
    using l(4) cb closing by simp_all
  from again_ok [OF l(2) x(1) this room] obtain l2 k where l2: "uv_timer_again x l = Some (0, l2)" "loop_inv l2" "time l2 = time l"
    "user l2 = user l" "timers l2 = (timers l)(x := fired (time l) k (timers l x))" by blast
  have tm: "timers l2 = (timers loop)(x := fired (time loop) k (timers loop x))"
    using l2(5) l(4,5) stopped_idle [of "stopped (timers loop x)"] by (simp add: fired_def)
  have "timer_cb (timers l2 x) = timer_cb (timers loop x)" by (simp add: tm fired_def)
  then have "timer_cb (timers l2 x) = Some (the (timer_cb (timers loop x)))" using cb by simp
  then have "run_timers_body call run loop = Option.bind (call (the (timer_cb (timers loop x))) x l2) run"
    unfolding run_timers_body_def by (simp only: Let_def x_def [symmetric] x if_False l(1) l2(1) bind.bind_lunit prod.case)
  moreover have "x \<in> due loop" "\<forall>y\<in>due loop. \<not> timer_less_than (timers loop) y x" using act x(2) least by (auto simp: due_def)
  moreover note l2(2) tm
  moreover have "time l2 = time loop" "user l2 = user loop" using l2(3,4) l(5,6) by simp_all
  ultimately show ?thesis by (intro exI conjI) assumption+
qed

lemmas run_step = run_body_step [where call = call and run = "uv__run_timers call" for call, folded run_timers_unfold]

lemma due_fired:
  assumes "timers l = (timers loop)(x := fired (time loop) k (timers loop x))" "time l = time loop" "time loop \<noteq> - 1"
  shows "due l = due loop - {x}" and "y \<noteq> x \<Longrightarrow> timers l y = timers loop y"
    and "active_timers l = (if repeat (timers loop x) = 0 then active_timers loop - {x} else insert x (active_timers loop))"
proof -
  have "\<not> timeout (timers l x) \<le> time loop" if "uv__is_active (timers l x)"
  proof (cases "repeat (timers loop x) = 0")
    case True
    then show ?thesis using that assms(1) by (simp add: fired_def)
  next
    case False
    then show ?thesis using clamped_later [OF assms(3), of "repeat (timers loop x)"] assms(1) by (simp add: fired_def not_le)
  qed
  then show "due l = due loop - {x}" using assms(1,2) by (auto simp: due_def active_timers_def)
qed (use assms(1) in \<open>auto simp: active_timers_def fired_def\<close>)

text \<open>Callbacks that only change state of their own; \<open>f\<close> is what they do to it.\<close>

definition quiet :: "('cb \<Rightarrow> addr \<Rightarrow> 'u \<Rightarrow> 'u) \<Rightarrow> 'cb \<Rightarrow> addr \<Rightarrow> ('cb, 'u) uv_loop \<Rightarrow> ('cb, 'u) uv_loop option" where
  "quiet f cb x loop = Some (loop\<lparr>user := f cb x (user loop)\<rparr>)"

lemma user_upd_simps [simp]:
  "loop_inv (loop\<lparr>user := u\<rparr>) = loop_inv loop" "due (loop\<lparr>user := u\<rparr>) = due loop"
  "active_timers (loop\<lparr>user := u\<rparr>) = active_timers loop"
  by (simp_all add: loop_inv_def due_def active_timers_def)

text \<open>The callbacks of the timers \<open>xs\<close> one after the other.\<close>

definition call_all :: "('cb \<Rightarrow> addr \<Rightarrow> 'u \<Rightarrow> 'u) \<Rightarrow> (addr \<Rightarrow> 'cb uv_timer) \<Rightarrow> addr list \<Rightarrow> 'u \<Rightarrow> 'u" where
  "call_all f tm xs = fold (\<lambda>x. f (the (timer_cb (tm x))) x) xs"

lemma call_all_cong: "(\<And>x. x \<in> set xs \<Longrightarrow> tm' x = tm x) \<Longrightarrow> call_all f tm' xs u = call_all f tm xs u"
  unfolding call_all_def by (intro fold_cong) auto

lemma run_order:
  "loop_inv loop \<Longrightarrow> time loop \<noteq> - 1 \<Longrightarrow>
   \<exists>xs loop'. set xs = due loop \<and> distinct xs \<and> sorted_wrt (\<lambda>x y. \<not> timer_less_than (timers loop) y x) xs \<and>
     uv__run_timers (quiet f) loop = Some loop' \<and> user loop' = call_all f (timers loop) xs (user loop) \<and>
     active_timers loop' = active_timers loop - {x \<in> due loop. repeat (timers loop x) = 0} \<and>
     (\<forall>x. if x \<in> due loop then \<exists>k. timers loop' x = fired (time loop) k (timers loop x) else timers loop' x = timers loop x)"
proof (induction "card (due loop)" arbitrary: loop rule: less_induct)
  case less
  show ?case
  proof (cases "due loop = {}")
    case True
    then have "uv__run_timers (quiet f) loop = Some loop"
      using min_due [OF less.prems(1)] by (subst uv__run_timers.simps) (auto simp: Let_def)
    then show ?thesis using True by (intro exI [of _ "[]"]) (simp add: call_all_def)
  next
    case False
    let ?x = "heap_min (timer_heap loop)"
    let ?cb = "the (timer_cb (timers loop ?x))"
    from run_step [OF less.prems(1) False, of "quiet f"] obtain l k where run: "uv__run_timers (quiet f) loop =
          Option.bind (quiet f ?cb ?x l) (uv__run_timers (quiet f))"
      and l: "loop_inv l" "time l = time loop" "user l = user loop" "?x \<in> due loop"
        "\<forall>y\<in>due loop. \<not> timer_less_than (timers loop) y ?x"
        "timers l = (timers loop)(?x := fired (time loop) k (timers loop ?x))"
      by blast
    note fire = due_fired [OF l(6,2) less.prems(2)]
    define l2 where "l2 = l\<lparr>user := f ?cb ?x (user loop)\<rparr>"
    have l2: "loop_inv l2" "time l2 = time loop" "due l2 = due loop - {?x}" "timers l2 = timers l"
      "active_timers l2 = active_timers l" "user l2 = f ?cb ?x (user loop)"
      using l(1,2) fire(1) by (simp_all add: l2_def)
    have run2: "uv__run_timers (quiet f) loop = uv__run_timers (quiet f) l2" unfolding run by (simp add: quiet_def l2_def l(3))
    have fewer: "card (due l2) < card (due loop)"
      unfolding l2(3) by (rule card_Diff1_less) (use l(4) due_finite [OF less.prems(1)] in simp_all)
    have "time l2 \<noteq> - 1" using l2(2) less.prems(2) by simp
    from less.hyps [OF fewer l2(1) this] obtain xs loop' where xs: "set xs = due l2" "distinct xs"
      "sorted_wrt (\<lambda>x y. \<not> timer_less_than (timers l2) y x) xs"
      "uv__run_timers (quiet f) l2 = Some loop'" "user loop' = call_all f (timers l2) xs (user l2)"
      "active_timers loop' = active_timers l2 - {x \<in> due l2. repeat (timers l2 x) = 0}"
      "\<forall>x. if x \<in> due l2 then \<exists>k. timers loop' x = fired (time l2) k (timers l2 x) else timers loop' x = timers l2 x"
      by blast
    have same: "timers l2 y = timers loop y" if "y \<noteq> ?x" for y using that l2(4) fire(2) by simp
    have "sorted_wrt (\<lambda>x y. \<not> timer_less_than (timers loop) y x) xs"
    proof (rule sorted_wrt_mono_rel [OF _ xs(3)])
      fix a b assume "a \<in> set xs" "b \<in> set xs" "\<not> timer_less_than (timers l2) b a"
      then show "\<not> timer_less_than (timers loop) b a"
        using less_than_cong [of "timers l2" b "timers loop" a] same xs(1) l2(3) by auto
    qed
    then have sorted: "sorted_wrt (\<lambda>x y. \<not> timer_less_than (timers loop) y x) (?x # xs)" using l(5) xs(1) l2(3) by simp
    have "call_all f (timers l2) xs (user l2) = call_all f (timers loop) xs (user l2)"
      by (rule call_all_cong) (use same xs(1) l2(3) in auto)
    then have user: "user loop' = call_all f (timers loop) (?x # xs) (user loop)" using xs(5) l2(6) by (simp add: call_all_def)
    have act: "active_timers loop' = active_timers loop - {x \<in> due loop. repeat (timers loop x) = 0}"
    proof -
      have "?x \<in> active_timers loop" using l(4) by (simp add: due_def)
      moreover have "{y \<in> due l2. repeat (timers l2 y) = 0} = {y \<in> due loop. repeat (timers loop y) = 0} - {?x}"
      proof (intro set_eqI)
        fix y
        show "y \<in> {y \<in> due l2. repeat (timers l2 y) = 0} \<longleftrightarrow> y \<in> {y \<in> due loop. repeat (timers loop y) = 0} - {?x}"
          unfolding l2(3) using same [of y] by (cases "y = ?x") simp_all
      qed
      ultimately show ?thesis unfolding xs(6) l2(5) fire(3) using l(4) by (auto split: if_splits)
    qed
    have tm: "if y \<in> due loop then \<exists>k. timers loop' y = fired (time loop) k (timers loop y) else timers loop' y = timers loop y" for y
    proof (cases "y = ?x")
      case True
      then have "timers loop' y = timers l2 y" using xs(7) l2(3) by (metis Diff_iff singletonI)
      also have "timers l2 y = fired (time loop) k (timers loop y)" using True l2(4) l(6) by simp
      finally have "\<exists>k. timers loop' y = fired (time loop) k (timers loop y)" by (rule exI)
      then show ?thesis using True l(4) by (simp only: if_True)
    next
      case False
      then have "y \<in> due l2 \<longleftrightarrow> y \<in> due loop" using l2(3) by blast
      with xs(7) [rule_format, of y] show ?thesis by (simp only: same [OF False] l2(2))
    qed
    have "set (?x # xs) = due loop" "distinct (?x # xs)" using xs(1,2) l2(3) l(4) by auto
    then show ?thesis using sorted user act tm xs(4) [folded run2] by blast
  qed
qed

section \<open>Two timers\<close>

text \<open>A loop at time 7, with a timer at 1 for time 5 that repeats and one at 2 for time 3 that does not.\<close>

definition two_timers :: "(string, addr list) uv_loop" where
  "two_timers = \<lparr>time = 7, timer_counter = 2, active_handles = 2, handle_queue = [1, 2],
     timer_heap = \<lparr>hmin = 2, nelts = 2,
       nodes = (\<lambda>_. \<lparr>left = 0, right = 0, parent = 0\<rparr>)(1 := \<lparr>left = 0, right = 0, parent = 2\<rparr>, 2 := \<lparr>left = 1, right = 0, parent = 0\<rparr>)\<rparr>,
     timers = (\<lambda>_. \<lparr>flags = 8, timer_cb = None, timeout = 0, repeat = 0, start_id = 0\<rparr>)
       (1 := \<lparr>flags = 12, timer_cb = Some ''a'', timeout = 5, repeat = 10, start_id = 0\<rparr>,
        2 := \<lparr>flags = 12, timer_cb = Some ''b'', timeout = 3, repeat = 0, start_id = 1\<rparr>),
     user = []\<rparr>"

lemma number_2: "number bs \<le> 2 \<longleftrightarrow> bs = [] \<or> bs = [False]"
proof (cases bs rule: rev_cases)
  case (snoc cs c)
  show ?thesis
  proof (cases cs rule: rev_cases)
    case Nil
    then show ?thesis using snoc by (cases c) (simp_all add: number_def)
  next
    case (snoc ds d)
    then have "2 \<le> number cs" using number_pos [of ds] by simp
    then have "4 \<le> number bs" unfolding \<open>bs = cs @ [c]\<close> number_snoc by simp
    then show ?thesis using snoc \<open>bs = cs @ [c]\<close> by auto
  qed
qed simp

lemma two_timers_active: "active_timers two_timers = {1, 2}"
  by (auto simp: active_timers_def two_timers_def uv__is_active_def UV_HANDLE_ACTIVE_def)

lemma two_timers_inv: "loop_inv two_timers"
proof -
  let ?t = "\<langle>\<langle>\<langle>\<rangle>, 1, \<langle>\<rangle>\<rangle>, 2, \<langle>\<rangle>\<rangle> :: addr tree"
  have "has_node ?t bs \<longleftrightarrow> bs = [] \<or> bs = [False]" for bs
    by (cases bs; cases "hd bs"; cases "tl bs") auto
  then have "full_to 2 ?t" by (simp add: full_to_def number_2)
  moreover have "holds_tree (timer_heap two_timers) ?t" by (simp add: at_position_def two_timers_def)
  moreover have "heap_ordered (timer_less_than (timers two_timers)) ?t"
    by (simp add: two_timers_def timer_less_than_def Let_def)
  ultimately have "heap_of (timer_less_than (timers two_timers)) (timer_heap two_timers) (active_timers two_timers)"
    unfolding two_timers_active by (intro heap_ofI [of _ ?t]) (auto simp: two_timers_def)
  then show ?thesis
    unfolding loop_inv_def two_timers_active by (simp add: two_timers_def uv__is_closing_def UV_HANDLE_CLOSING_def UV_HANDLE_CLOSED_def)
qed

lemma two_timers_due: "due two_timers = {1, 2}"
  unfolding due_def two_timers_active by (auto simp: two_timers_def)

section \<open>All operations together\<close>

lemma inv_cong:
  assumes "loop_inv loop" and "timer_heap loop' = timer_heap loop"
    and same: "\<And>x. uv__is_active (timers loop' x) = uv__is_active (timers loop x)"
      "\<And>x. uv__is_active (timers loop x) \<Longrightarrow> timeout (timers loop' x) = timeout (timers loop x) \<and>
        start_id (timers loop' x) = start_id (timers loop x) \<and> timer_cb (timers loop' x) = timer_cb (timers loop x) \<and>
        uv__is_closing (timers loop' x) = uv__is_closing (timers loop x)"
  shows "loop_inv loop'"
proof -
  have act: "active_timers loop' = active_timers loop" by (simp add: active_timers_def same(1))
  have "heap_of (timer_less_than (timers loop)) (timer_heap loop) (active_timers loop)" using assms(1) by (simp add: loop_inv_def)
  then have "heap_of (timer_less_than (timers loop')) (timer_heap loop) (active_timers loop)"
    by (rule heap_of_order, intro less_than_flags) (use same(2) in \<open>simp_all add: active_timers_def\<close>)
  then show ?thesis using assms(1,2) same(2) by (simp add: loop_inv_def act) (simp add: active_timers_def)
qed

lemma bit_ref: "bit UV_HANDLE_REF n \<longleftrightarrow> n = 3"
proof -
  have "UV_HANDLE_REF = push_bit 3 1" by (simp add: UV_HANDLE_REF_def)
  then have "bit UV_HANDLE_REF n = bit (push_bit 3 1 :: u32) n" by metis
  also have "\<dots> \<longleftrightarrow> n = 3" unfolding bit_push_bit_iff by (auto simp: bit_1_iff)
  finally show ?thesis .
qed

lemma ref_flags [simp]:
  "uv__is_active (h\<lparr>flags := f OR UV_HANDLE_REF\<rparr>) = uv__is_active (h\<lparr>flags := f\<rparr>)"
  "uv__is_active (h\<lparr>flags := f AND NOT UV_HANDLE_REF\<rparr>) = uv__is_active (h\<lparr>flags := f\<rparr>)"
  "uv__is_closing (h\<lparr>flags := f OR UV_HANDLE_REF\<rparr>) = uv__is_closing (h\<lparr>flags := f\<rparr>)"
  "uv__is_closing (h\<lparr>flags := f AND NOT UV_HANDLE_REF\<rparr>) = uv__is_closing (h\<lparr>flags := f\<rparr>)"
proof -
  have three: "bit (UV_HANDLE_CLOSING OR UV_HANDLE_CLOSED) 3 = False"
    by (simp add: UV_HANDLE_CLOSING_def UV_HANDLE_CLOSED_def)
  have "(f OR UV_HANDLE_REF) AND (UV_HANDLE_CLOSING OR UV_HANDLE_CLOSED) = f AND (UV_HANDLE_CLOSING OR UV_HANDLE_CLOSED)"
    using three by (intro bit_word_eqI) (auto simp: bit_and_iff bit_or_iff [of f] bit_ref)
  then show "uv__is_closing (h\<lparr>flags := f OR UV_HANDLE_REF\<rparr>) = uv__is_closing (h\<lparr>flags := f\<rparr>)" by (simp add: uv__is_closing_def)
  have "(f AND NOT UV_HANDLE_REF) AND (UV_HANDLE_CLOSING OR UV_HANDLE_CLOSED) = f AND (UV_HANDLE_CLOSING OR UV_HANDLE_CLOSED)"
    using three by (intro bit_word_eqI) (auto simp: bit_and_iff bit_not_iff bit_ref)
  then show "uv__is_closing (h\<lparr>flags := f AND NOT UV_HANDLE_REF\<rparr>) = uv__is_closing (h\<lparr>flags := f\<rparr>)" by (simp add: uv__is_closing_def)
qed (simp_all add: is_active_iff bit_and_iff bit_or_iff bit_not_iff bit_ref)

lemma ref_inv: "loop_inv loop \<Longrightarrow> loop_inv (uv__handle_ref x loop)" "loop_inv loop \<Longrightarrow> loop_inv (uv__handle_unref x loop)"
  by (erule inv_cong; simp add: uv__handle_ref_def uv__handle_unref_def Let_def)+

lemma init_inv:
  assumes "loop_inv loop" and "\<not> uv__is_active (timers loop x)"
  shows "loop_inv (snd (uv_timer_init x loop))"
proof -
  have tm: "timers (snd (uv_timer_init x loop)) = (timers loop)(x := (timers loop x)\<lparr>flags := UV_HANDLE_REF, timer_cb := None, repeat := 0\<rparr>)"
    "timer_heap (snd (uv_timer_init x loop)) = timer_heap loop"
    by (simp_all add: uv_timer_init_def uv__handle_init_def Let_def)
  have idle: "\<not> uv__is_active (h\<lparr>flags := UV_HANDLE_REF, timer_cb := None, repeat := 0\<rparr>)" for h :: "'a uv_timer"
    by (simp add: is_active_iff bit_ref)
  show ?thesis by (rule inv_cong [OF assms(1) tm(2)]; unfold tm(1) fun_upd_apply; use assms(2) idle in presburger)
qed

lemma start_inv:
  assumes inv: "loop_inv loop" and x: "x \<noteq> 0" and room: "card (active_timers loop) < 2 ^ 32 - 1"
    and run: "uv_timer_start x cb t rep loop = Some (r, loop')"
  shows "loop_inv loop'"
proof (cases "uv__is_closing (timers loop x) \<or> cb = None")
  case True
  then show ?thesis using inv run by (simp add: uv_timer_start_def)
next
  case False
  have "card (active_timers loop - {x}) \<le> card (active_timers loop)" using loop_inv_card [OF inv] by (intro card_mono) auto
  then have "card (active_timers loop - {x}) < 2 ^ 32 - 1" using room by simp
  from start_ok [OF inv x _ _ this, of cb t rep] False obtain l where "uv_timer_start x cb t rep loop = Some (0, l)" "loop_inv l" by blast
  then show ?thesis using run by simp
qed

lemma again_inv:
  assumes inv: "loop_inv loop" and x: "x \<noteq> 0" and room: "card (active_timers loop) < 2 ^ 32 - 1"
    and again: "uv_timer_again x loop = Some (r, loop')"
  shows "loop_inv loop'"
proof (cases "timer_cb (timers loop x) = None \<or> repeat (timers loop x) = 0")
  case True
  then have "loop' = loop" using again unfolding uv_timer_again_def by (cases "timer_cb (timers loop x) = None") simp_all
  then show ?thesis using inv by simp
next
  case False
  from stop_ok [OF inv, of x] obtain l where l: "uv_timer_stop x loop = Some (0, l)" "loop_inv l"
    "active_timers l = active_timers loop - {x}" "timers l = (timers loop)(x := stopped (timers loop x))" by blast
  let ?start = "uv_timer_start x (timer_cb (timers loop x)) (repeat (timers loop x)) (repeat (timers loop x)) l"
  have run: "uv_timer_again x loop = Option.bind ?start (\<lambda>(_, loop). Some (0, loop))"
    using False l(1,4) unfolding uv_timer_again_def by (simp only: if_False de_Morgan_disj) simp
  then obtain r2 where "?start = Some (r2, loop')" using again by (cases ?start) auto
  moreover have "card (active_timers l) \<le> card (active_timers loop)"
    unfolding l(3) using loop_inv_card [OF inv] by (intro card_mono) auto
  then have "card (active_timers l) < 2 ^ 32 - 1" using room by simp
  ultimately show ?thesis using start_inv [OF l(2) x] by blast
qed

section \<open>Callbacks that use the timers\<close>

text \<open>
  The calls that a program, and the callback of a timer in particular, can make on a loop: those
  of the timer interface, and what it does to its own state.
\<close>

datatype ('cb, 'u) timer_call =
    Init addr | Start addr "'cb option" u64 u64 | Stop addr | Again addr | Close addr
  | Set_repeat addr u64 | Ref addr | Unref addr | Own 'u

fun perform :: "('cb, 'u) timer_call \<Rightarrow> ('cb, 'u) uv_loop \<Rightarrow> ('cb, 'u) uv_loop option" where
  "perform (Init x) loop = Some (snd (uv_timer_init x loop))"
| "perform (Start x cb t rep) loop = map_option snd (uv_timer_start x cb t rep loop)"
| "perform (Stop x) loop = map_option snd (uv_timer_stop x loop)"
| "perform (Again x) loop = map_option snd (uv_timer_again x loop)"
| "perform (Close x) loop = uv__timer_close x loop"
| "perform (Set_repeat x rep) loop = Some (uv_timer_set_repeat x rep loop)"
| "perform (Ref x) loop = Some (uv__handle_ref x loop)"
| "perform (Unref x) loop = Some (uv__handle_unref x loop)"
| "perform (Own u) loop = Some (loop\<lparr>user := u\<rparr>)"

fun performs :: "('cb, 'u) timer_call list \<Rightarrow> ('cb, 'u) uv_loop \<Rightarrow> ('cb, 'u) uv_loop option" where
  "performs [] loop = Some loop"
| "performs (c # cs) loop = Option.bind (perform c loop) (performs cs)"

text \<open>
  A callback that makes the calls \<open>script\<close> says, which depend on the callback, the timer and
  the loop as it finds it.
\<close>

type_synonym ('cb, 'u) script = "'cb \<Rightarrow> addr \<Rightarrow> ('cb, 'u) uv_loop \<Rightarrow> ('cb, 'u) timer_call list"

definition scripted :: "('cb, 'u) script \<Rightarrow> 'cb \<Rightarrow> addr \<Rightarrow> ('cb, 'u) uv_loop \<Rightarrow> ('cb, 'u) uv_loop option" where
  "scripted script cb x loop = performs (script cb x loop) loop"

text \<open>
  The rules of use: the handles that are initialized or started are the program's handles \<open>H\<close>,
  which are not null and no more than the 32-bit count of the heap can hold, and a handle
  whose timer is active is not initialized again.
\<close>

definition handles_ok :: "addr set \<Rightarrow> bool" where
  "handles_ok H \<longleftrightarrow> finite H \<and> card H < 2 ^ 32 \<and> 0 \<notin> H"

fun valid_call :: "addr set \<Rightarrow> ('cb, 'u) timer_call \<Rightarrow> ('cb, 'u) uv_loop \<Rightarrow> bool" where
  "valid_call H (Init x) loop \<longleftrightarrow> x \<in> H \<and> \<not> uv__is_active (timers loop x)"
| "valid_call H (Start x cb t rep) loop \<longleftrightarrow> x \<in> H"
| "valid_call H (Again x) loop \<longleftrightarrow> x \<in> H"
| "valid_call H _ loop \<longleftrightarrow> True"

fun valid_calls :: "addr set \<Rightarrow> ('cb, 'u) timer_call list \<Rightarrow> ('cb, 'u) uv_loop \<Rightarrow> bool" where
  "valid_calls H [] loop \<longleftrightarrow> True"
| "valid_calls H (c # cs) loop \<longleftrightarrow> valid_call H c loop \<and>
     (case perform c loop of None \<Rightarrow> True | Some loop' \<Rightarrow> valid_calls H cs loop')"

definition valid_script :: "addr set \<Rightarrow> ('cb, 'u) script \<Rightarrow> bool" where
  "valid_script H script \<longleftrightarrow> (\<forall>cb x loop. valid_calls H (script cb x loop) loop)"

text \<open>A callback that starts no timer with timeout 0.\<close>

fun starts_later :: "('cb, 'u) timer_call \<Rightarrow> bool" where
  "starts_later (Start x cb t rep) \<longleftrightarrow> t \<noteq> 0"
| "starts_later _ \<longleftrightarrow> True"

definition all_later :: "('cb, 'u) script \<Rightarrow> bool" where
  "all_later script \<longleftrightarrow> (\<forall>cb x loop. \<forall>c\<in>set (script cb x loop). starts_later c)"

text \<open>A step of a program: a call, a change of the clock, or the run of the due timers.\<close>

inductive loop_step :: "addr set \<Rightarrow> ('cb, 'u) uv_loop \<Rightarrow> ('cb, 'u) uv_loop \<Rightarrow> bool" for H where
  call: "valid_call H c loop \<Longrightarrow> perform c loop = Some loop' \<Longrightarrow> loop_step H loop loop'"
| clock: "loop_step H loop (loop\<lparr>time := now\<rparr>)"
| run: "valid_script H script \<Longrightarrow> uv__run_timers (scripted script) loop = Some loop' \<Longrightarrow> loop_step H loop loop'"

inductive_cases loop_stepE: "loop_step H loop loop'"

text \<open>What a call keeps; \<open>tracked H\<close> is the invariant of a loop whose timers are among \<open>H\<close>.\<close>

definition tracked :: "addr set \<Rightarrow> ('cb, 'u) uv_loop \<Rightarrow> bool" where
  "tracked H loop \<longleftrightarrow> loop_inv loop \<and> active_timers loop \<subseteq> H"

lemma tracked_room:
  assumes "handles_ok H" "tracked H loop" "x \<in> H"
  shows "x \<noteq> 0" "card (active_timers loop - {x}) < 2 ^ 32 - 1"
proof -
  show "x \<noteq> 0" using assms(1,3) unfolding handles_ok_def by metis
  have "card (active_timers loop - {x}) \<le> card (H - {x})"
    using assms by (intro card_mono) (auto simp: handles_ok_def tracked_def)
  also have "\<dots> < card H" using assms by (intro card_Diff1_less) (auto simp: handles_ok_def)
  finally show "card (active_timers loop - {x}) < 2 ^ 32 - 1" using assms(1) by (simp add: handles_ok_def)
qed

lemma due_sameI:
  assumes "time loop' = time loop" "\<And>y. uv__is_active (timers loop' y) \<Longrightarrow> y \<noteq> x \<Longrightarrow> timers loop' y = timers loop y"
    and "uv__is_active (timers loop' x) \<Longrightarrow> uv__is_active (timers loop x) \<and> timeout (timers loop' x) = timeout (timers loop x) \<or>
      timeout (timers loop' x) > time loop"
  shows "due loop' \<subseteq> due loop"
proof
  fix y assume y: "y \<in> due loop'"
  show "y \<in> due loop"
  proof (cases "y = x")
    case True
    with y assms(1,3) show ?thesis by (auto simp: due_def active_timers_def)
  next
    case False
    with y assms(1) assms(2) [of y] show ?thesis by (simp add: due_def active_timers_def)
  qed
qed

lemma start_tracked:
  assumes H: "handles_ok H" and tr: "tracked H loop" and x: "x \<in> H"
  shows "\<exists>r loop'. uv_timer_start x cb t rep loop = Some (r, loop') \<and> tracked H loop' \<and> time loop' = time loop \<and>
    (t \<noteq> 0 \<and> time loop \<noteq> - 1 \<longrightarrow> due loop' \<subseteq> due loop)"
proof (cases "uv__is_closing (timers loop x) \<or> cb = None")
  case True
  then show ?thesis using tr by (auto simp: uv_timer_start_def)
next
  case False
  have inv: "loop_inv loop" and act: "active_timers loop \<subseteq> H" using tr by (simp_all add: tracked_def)
  from start_ok [OF inv tracked_room(1) [OF H tr x] _ _ tracked_room(2) [OF H tr x], of cb t rep] False obtain loop' where
    l: "uv_timer_start x cb t rep loop = Some (0, loop')" "loop_inv loop'" "active_timers loop' = insert x (active_timers loop)"
      "timers loop' = (timers loop)(x := started cb (clamped_timeout (time loop) t) rep (timer_counter loop) (stopped (timers loop x)))"
      "time loop' = time loop" by blast
  have "due loop' \<subseteq> due loop" if "t \<noteq> 0" "time loop \<noteq> - 1"
    by (rule due_sameI [of _ _ x]) (use l(4,5) clamped_later [OF that(2,1)] in simp_all)
  then show ?thesis using l act x by (auto simp: tracked_def)
qed

lemma stop_tracked:
  assumes "tracked H loop"
  shows "\<exists>loop'. uv_timer_stop x loop = Some (0, loop') \<and> tracked H loop' \<and> time loop' = time loop \<and>
    due loop' \<subseteq> due loop \<and> timers loop' = (timers loop)(x := stopped (timers loop x))"
proof -
  have inv: "loop_inv loop" using assms by (simp add: tracked_def)
  from stop_ok [OF inv, of x] obtain loop' where l: "uv_timer_stop x loop = Some (0, loop')" "loop_inv loop'"
    "active_timers loop' = active_timers loop - {x}" "timers loop' = (timers loop)(x := stopped (timers loop x))"
    "time loop' = time loop" by blast
  have "due loop' \<subseteq> due loop" by (rule due_sameI [of _ _ x]) (simp_all add: l)
  then show ?thesis using l assms by (auto simp: tracked_def)
qed

lemma again_tracked:
  assumes H: "handles_ok H" and tr: "tracked H loop" and x: "x \<in> H"
  shows "\<exists>r loop'. uv_timer_again x loop = Some (r, loop') \<and> tracked H loop' \<and> time loop' = time loop \<and>
    (time loop \<noteq> - 1 \<longrightarrow> due loop' \<subseteq> due loop)"
proof (cases "timer_cb (timers loop x) = None \<or> repeat (timers loop x) = 0")
  case True
  then show ?thesis using tr by (cases "timer_cb (timers loop x)") (auto simp: uv_timer_again_def)
next
  case False
  let ?r = "repeat (timers loop x)" and ?cb = "timer_cb (timers loop x)"
  from stop_tracked [OF tr, of x] obtain l where l: "uv_timer_stop x loop = Some (0, l)" "tracked H l"
    "time l = time loop" "due l \<subseteq> due loop" "timers l = (timers loop)(x := stopped (timers loop x))" by blast
  from start_tracked [OF H l(2) x, of ?cb ?r ?r] obtain r loop' where l2: "uv_timer_start x ?cb ?r ?r l = Some (r, loop')"
    "tracked H loop'" "time loop' = time l" "?r \<noteq> 0 \<and> time l \<noteq> - 1 \<longrightarrow> due loop' \<subseteq> due l" by blast
  have "uv_timer_again x loop = Some (0, loop')" using False l(1,5) l2(1) by (auto simp: uv_timer_again_def)
  then show ?thesis using l(3,4) l2(2-4) False by auto
qed

text \<open>Changes that do not concern the heap.\<close>

lemma unchanged_tracked:
  assumes "tracked H loop" "loop_inv loop'" "time loop' = time loop"
    and "\<And>x. uv__is_active (timers loop' x) \<Longrightarrow> uv__is_active (timers loop x) \<and> timeout (timers loop' x) = timeout (timers loop x)"
  shows "tracked H loop' \<and> time loop' = time loop \<and> due loop' \<subseteq> due loop"
  using assms by (auto simp: tracked_def due_def active_timers_def)

lemma set_repeat_inv: "loop_inv loop \<Longrightarrow> loop_inv (uv_timer_set_repeat x rep loop)"
proof (erule inv_cong)
  have "uv__is_active (h\<lparr>repeat := rep\<rparr>) = uv__is_active h" "uv__is_closing (h\<lparr>repeat := rep\<rparr>) = uv__is_closing h" for h :: "'a uv_timer"
    by (simp_all add: uv__is_active_def uv__is_closing_def)
  then show "uv__is_active (timers (uv_timer_set_repeat x rep loop) y) = uv__is_active (timers loop y)"
    "timeout (timers (uv_timer_set_repeat x rep loop) y) = timeout (timers loop y) \<and>
     start_id (timers (uv_timer_set_repeat x rep loop) y) = start_id (timers loop y) \<and>
     timer_cb (timers (uv_timer_set_repeat x rep loop) y) = timer_cb (timers loop y) \<and>
     uv__is_closing (timers (uv_timer_set_repeat x rep loop) y) = uv__is_closing (timers loop y)" for y
    by (simp_all add: uv_timer_set_repeat_def)
qed (simp add: uv_timer_set_repeat_def)

lemma perform_ok:
  assumes H: "handles_ok H" and tr: "tracked H loop" and c: "valid_call H c loop"
  shows "\<exists>loop'. perform c loop = Some loop' \<and> tracked H loop' \<and> time loop' = time loop \<and>
    (starts_later c \<and> time loop \<noteq> - 1 \<longrightarrow> due loop' \<subseteq> due loop)"
proof -
  have inv: "loop_inv loop" using tr by (simp add: tracked_def)
  have flags: "uv__is_active (h\<lparr>flags := UV_HANDLE_REF, timer_cb := None\<rparr>) = False"
    "uv__is_active (h\<lparr>repeat := r\<rparr>) = uv__is_active h" for h :: "'a uv_timer" and r
    by (simp_all add: is_active_iff bit_ref)
  show ?thesis
  proof (cases c)
    case (Init x)
    have "tracked H (snd (uv_timer_init x loop)) \<and> time (snd (uv_timer_init x loop)) = time loop \<and>
        due (snd (uv_timer_init x loop)) \<subseteq> due loop"
      by (rule unchanged_tracked [OF tr init_inv [OF inv]])
         (use c Init in \<open>auto simp: uv_timer_init_def uv__handle_init_def Let_def flags split: if_splits\<close>)
    then show ?thesis using Init by simp
  next
    case (Start x cb t rep)
    with start_tracked [OF H tr, of x cb t rep] c show ?thesis by force
  next
    case (Stop x)
    with stop_tracked [OF tr, of x] show ?thesis by force
  next
    case (Again x)
    with again_tracked [OF H tr, of x] c show ?thesis by force
  next
    case (Close x)
    with stop_tracked [OF tr, of x] show ?thesis by (force simp: uv__timer_close_def)
  next
    case (Set_repeat x rep)
    have "tracked H (uv_timer_set_repeat x rep loop) \<and> time (uv_timer_set_repeat x rep loop) = time loop \<and>
        due (uv_timer_set_repeat x rep loop) \<subseteq> due loop"
      by (rule unchanged_tracked [OF tr set_repeat_inv [OF inv]])
         (auto simp: uv_timer_set_repeat_def flags split: if_splits)
    then show ?thesis using Set_repeat by simp
  next
    case (Ref x)
    have "tracked H (uv__handle_ref x loop) \<and> time (uv__handle_ref x loop) = time loop \<and> due (uv__handle_ref x loop) \<subseteq> due loop"
      by (rule unchanged_tracked [OF tr ref_inv(1) [OF inv]])
         (auto simp: uv__handle_ref_def Let_def split: if_splits)
    then show ?thesis using Ref by simp
  next
    case (Unref x)
    have "tracked H (uv__handle_unref x loop) \<and> time (uv__handle_unref x loop) = time loop \<and> due (uv__handle_unref x loop) \<subseteq> due loop"
      by (rule unchanged_tracked [OF tr ref_inv(2) [OF inv]])
         (auto simp: uv__handle_unref_def Let_def split: if_splits)
    then show ?thesis using Unref by simp
  next
    case (Own u)
    then show ?thesis using tr by (simp add: tracked_def)
  qed
qed

lemma performs_ok:
  "handles_ok H \<Longrightarrow> tracked H loop \<Longrightarrow> valid_calls H cs loop \<Longrightarrow>
   \<exists>loop'. performs cs loop = Some loop' \<and> tracked H loop' \<and> time loop' = time loop \<and>
     ((\<forall>c\<in>set cs. starts_later c) \<and> time loop \<noteq> - 1 \<longrightarrow> due loop' \<subseteq> due loop)"
proof (induction cs arbitrary: loop)
  case (Cons c cs)
  from perform_ok [OF Cons.prems(1,2), of c] Cons.prems(3) obtain l where l: "perform c loop = Some l" "tracked H l"
    "time l = time loop" "starts_later c \<and> time loop \<noteq> - 1 \<longrightarrow> due l \<subseteq> due loop" by auto
  from Cons.IH [OF Cons.prems(1) l(2)] Cons.prems(3) l(1) obtain loop' where "performs cs l = Some loop'" "tracked H loop'"
    "time loop' = time l" "(\<forall>c\<in>set cs. starts_later c) \<and> time l \<noteq> - 1 \<longrightarrow> due loop' \<subseteq> due l" by auto
  then show ?case using l by auto
qed simp

lemma scripted_ok:
  assumes "handles_ok H" "valid_script H script" "tracked H loop"
  shows "\<exists>loop'. scripted script cb x loop = Some loop' \<and> tracked H loop' \<and> time loop' = time loop \<and>
     (all_later script \<and> time loop \<noteq> - 1 \<longrightarrow> due loop' \<subseteq> due loop)"
proof -
  have "valid_calls H (script cb x loop) loop" using assms(2) by (simp add: valid_script_def)
  from performs_ok [OF assms(1,3) this] show ?thesis unfolding scripted_def all_later_def by blast
qed

text \<open>The timers of an iteration stay among \<open>H\<close>.\<close>

lemma fired_tracked:
  assumes "tracked H loop" "x \<in> due loop" "loop_inv l"
    and "timers l = (timers loop)(x := fired (time loop) k (timers loop x))"
  shows "tracked H l"
  using assms by (auto simp: tracked_def active_timers_def due_def split: if_splits)

lemma run_ends:
  assumes H: "handles_ok H" and script: "valid_script H script" "all_later script"
  shows "tracked H loop \<Longrightarrow> time loop \<noteq> - 1 \<Longrightarrow>
   \<exists>loop'. uv__run_timers (scripted script) loop = Some loop' \<and> tracked H loop' \<and> due loop' = {} \<and> time loop' = time loop"
proof (induction "card (due loop)" arbitrary: loop rule: less_induct)
  case less
  then have inv: "loop_inv loop" by (simp add: tracked_def)
  show ?case
  proof (cases "due loop = {}")
    case True
    then show ?thesis using less.prems run_body_idle [OF inv True] by (simp add: run_timers_unfold)
  next
    case False
    let ?x = "heap_min (timer_heap loop)"
    from run_step [OF inv False, of "scripted script"] obtain l k where run: "uv__run_timers (scripted script) loop =
          Option.bind (scripted script (the (timer_cb (timers loop ?x))) ?x l) (uv__run_timers (scripted script))"
      and l: "loop_inv l" "time l = time loop" "?x \<in> due loop" "timers l = (timers loop)(?x := fired (time loop) k (timers loop ?x))"
      by blast
    from scripted_ok [OF H script(1) fired_tracked [OF less.prems(1) l(3,1,4)]] script(2) l(2) less.prems(2)
    obtain l2 where l2: "scripted script (the (timer_cb (timers loop ?x))) ?x l = Some l2" "tracked H l2"
      "time l2 = time l" "due l2 \<subseteq> due l" by metis
    have "due l2 \<subset> due loop" using l2(4) due_fired(1) [OF l(4,2) less.prems(2)] l(3) by blast
    then have "card (due l2) < card (due loop)" by (rule psubset_card_mono [OF due_finite [OF inv]])
    from less.hyps [OF this l2(2)] l2 l(2) less.prems(2) run show ?thesis by auto
  qed
qed

text \<open>Whether or not the run ends, what holds of every iteration holds of its result.\<close>

lemma run_timers_induct:
  assumes run: "uv__run_timers call loop = Some loop'"
    and step: "\<And>run loop loop'. (\<And>l l'. run l = Some l' \<Longrightarrow> P l l') \<Longrightarrow> run_timers_body call run loop = Some loop' \<Longrightarrow> P loop loop'"
  shows "P loop loop'"
proof -
  have "call = call \<longrightarrow> P loop loop'"
  proof (rule uv__run_timers.raw_induct [where P = "\<lambda>c l l'. c = call \<longrightarrow> P l l'", OF _ run], goal_cases)
    case (1 R c l l')
    show ?case
    proof
      assume "c = call"
      with 1(2) have body: "run_timers_body call (R call) l = Some l'" unfolding run_timers_body_def by (simp only:)
      show "P l l'" by (rule step [OF _ body]) (use 1(1) in blast)
    qed
  qed
  then show ?thesis by simp
qed

lemma run_tracked:
  assumes H: "handles_ok H" "valid_script H script" and run: "uv__run_timers (scripted script) loop = Some loop'"
  shows "tracked H loop \<longrightarrow> tracked H loop' \<and> time loop' = time loop"
  using run
proof (rule run_timers_induct, intro impI)
  fix run :: "('a, 'b) uv_loop \<Rightarrow> ('a, 'b) uv_loop option" and loop loop'
  assume IH: "\<And>l l'. run l = Some l' \<Longrightarrow> tracked H l \<longrightarrow> tracked H l' \<and> time l' = time l"
    and body: "run_timers_body (scripted script) run loop = Some loop'" and tr: "tracked H loop"
  then have inv: "loop_inv loop" by (simp add: tracked_def)
  show "tracked H loop' \<and> time loop' = time loop"
  proof (cases "due loop = {}")
    case True
    with body run_body_idle [OF inv True] tr show ?thesis by simp
  next
    case False
    let ?x = "heap_min (timer_heap loop)"
    from run_body_step [OF inv False, of "scripted script" run] obtain l k where step: "run_timers_body (scripted script) run loop =
        Option.bind (scripted script (the (timer_cb (timers loop ?x))) ?x l) run"
      and l: "loop_inv l" "time l = time loop" "?x \<in> due loop" "timers l = (timers loop)(?x := fired (time loop) k (timers loop ?x))"
      by blast
    from scripted_ok [OF H fired_tracked [OF tr l(3,1,4)]]
    obtain l2 where "scripted script (the (timer_cb (timers loop ?x))) ?x l = Some l2" "tracked H l2" "time l2 = time l" by metis
    with body step l(2) IH [of l2 loop'] show ?thesis by simp
  qed
qed

text \<open>A callback that starts its own timer again with timeout 0.\<close>

definition restarting :: "('cb \<Rightarrow> addr \<Rightarrow> 'u \<Rightarrow> 'u) \<Rightarrow> ('cb, 'u) script" where
  "restarting f cb x loop = [Own (f cb x (user loop)), Start x (Some cb) 0 0]"

lemma restarting_due:
  assumes H: "handles_ok H" and tr: "tracked H loop" and x: "x \<in> H" "\<not> uv__is_closing (timers loop x)"
  shows "\<exists>loop'. scripted (restarting f) cb x loop = Some loop' \<and> tracked H loop' \<and> x \<in> due loop'"
proof -
  define l where "l = loop\<lparr>user := f cb x (user loop)\<rparr>"
  have l: "tracked H l" "\<not> uv__is_closing (timers l x)" "timers l = timers loop" using tr x(2) by (simp_all add: l_def tracked_def)
  then have inv: "loop_inv l" by (simp add: tracked_def)
  from start_ok [OF inv tracked_room(1) [OF H l(1) x(1)] l(2) _ tracked_room(2) [OF H l(1) x(1)], of "Some cb" 0 0]
  obtain l' where l': "uv_timer_start x (Some cb) 0 0 l = Some (0, l')" "loop_inv l'"
    "active_timers l' = insert x (active_timers l)"
    "timers l' = (timers l)(x := started (Some cb) (clamped_timeout (time l) 0) 0 (timer_counter l) (stopped (timers l x)))"
    "time l' = time l" by auto
  have "clamped_timeout (time l) 0 = time l" by (simp add: clamped_timeout_def)
  then have "x \<in> due l'" using l'(3-5) by (simp add: due_def)
  moreover have "tracked H l'" using l' l(1) x(1) by (auto simp: tracked_def)
  moreover have "scripted (restarting f) cb x loop = Some l'" using l'(1) by (simp add: scripted_def restarting_def l_def)
  ultimately show ?thesis by blast
qed

lemma restarting_no_end:
  assumes H: "handles_ok H" and run: "uv__run_timers (scripted (restarting f)) loop = Some loop'"
  shows "\<not> (tracked H loop \<and> due loop \<noteq> {})"
  using run
proof (rule run_timers_induct, intro notI)
  fix run :: "('a, 'b) uv_loop \<Rightarrow> ('a, 'b) uv_loop option" and loop loop'
  assume IH: "\<And>l l'. run l = Some l' \<Longrightarrow> \<not> (tracked H l \<and> due l \<noteq> {})"
    and body: "run_timers_body (scripted (restarting f)) run loop = Some loop'" and tr: "tracked H loop \<and> due loop \<noteq> {}"
  then have inv: "loop_inv loop" and act: "active_timers loop \<subseteq> H" by (simp_all add: tracked_def)
  let ?x = "heap_min (timer_heap loop)"
  from run_body_step [OF inv conjunct2 [OF tr], of "scripted (restarting f)" run] obtain l k where
    step: "run_timers_body (scripted (restarting f)) run loop =
        Option.bind (scripted (restarting f) (the (timer_cb (timers loop ?x))) ?x l) run"
    and l: "loop_inv l" "?x \<in> due loop" "timers l = (timers loop)(?x := fired (time loop) k (timers loop ?x))"
    by blast
  have x: "?x \<in> active_timers loop" using l(2) by (simp add: due_def)
  then have "\<not> uv__is_closing (timers loop ?x)" using inv by (simp add: loop_inv_def)
  then have "\<not> uv__is_closing (timers l ?x)" by (simp add: l(3) fired_def)
  from restarting_due [OF H fired_tracked [OF conjunct1 [OF tr] l(2,1,3)] _ this] x act
  obtain l2 where "scripted (restarting f) (the (timer_cb (timers loop ?x))) ?x l = Some l2" "tracked H l2" "?x \<in> due l2" by blast
  with body step IH [of l2 loop'] show False by auto
qed

lemma step_tracked: "loop_step H loop loop' \<Longrightarrow> handles_ok H \<Longrightarrow> tracked H loop \<Longrightarrow> tracked H loop'"
proof (induction rule: loop_step.induct)
  case (call c loop loop')
  from perform_ok [OF call(3,4,1)] call(2) show ?case by auto
next
  case (clock loop now)
  have "loop_inv (loop\<lparr>time := now\<rparr>)" by (rule inv_cong [of loop]) (use clock(2) in \<open>simp_all add: tracked_def\<close>)
  then show ?case using clock(2) by (simp add: tracked_def active_timers_def)
next
  case (run script loop loop')
  from run_tracked [OF run(3,1,2)] run(4) show ?case by blast
qed

section \<open>Properties\<close>

text \<open>C6 (heap_refines_set): the heap refines a finite set with a least element: if the order is a strict weak order and
  the heap stands for the set \<open>S\<close>, then the root is a least member (null if there is none), insertion of a new
  node ends with a heap for the set with it, and removal of any member ends with a heap for the set without it.
  So the loops up and down end, the tree stays complete and every pointer is right.\<close>

theorem heap_refines_set:
  assumes "node_order lt" and "heap_of lt h S"
  shows "(heap_min h = 0 \<longleftrightarrow> S = {}) \<and>
    (S \<noteq> {} \<longrightarrow> heap_min h \<in> S \<and> (\<forall>x\<in>S. \<not> lt x (heap_min h))) \<and>
    (\<forall>x. x \<noteq> 0 \<and> x \<notin> S \<and> card S < 2 ^ 32 - 1 \<longrightarrow> (\<exists>h'. heap_insert x lt h = Some h' \<and> heap_of lt h' (insert x S))) \<and>
    (\<forall>x\<in>S. \<exists>h'. heap_remove x lt h = Some h' \<and> heap_of lt h' (S - {x}))"
proof -
  have "unat (nelts h) = card S" using heap_of_card [OF assms(2)] by simp
  show ?thesis
  proof (intro conjI)
    show "\<forall>x. x \<noteq> 0 \<and> x \<notin> S \<and> card S < 2 ^ 32 - 1 \<longrightarrow> (\<exists>h'. heap_insert x lt h = Some h' \<and> heap_of lt h' (insert x S))"
      using heap_of_insert [OF assms] \<open>unat (nelts h) = card S\<close> by metis
    show "\<forall>x\<in>S. \<exists>h'. heap_remove x lt h = Some h' \<and> heap_of lt h' (S - {x})" using heap_of_remove [OF assms] by metis
  qed (use heap_of_min [OF assms] in blast)+
qed

lemma heap_refines_set_witness:
  "\<exists>h'. heap_remove 2 (timer_less_than (timers two_timers)) (timer_heap two_timers) = Some h' \<and>
    heap_of (timer_less_than (timers two_timers)) h' ({1, 2} - {2})"
proof -
  have "heap_of (timer_less_than (timers two_timers)) (timer_heap two_timers) {1, 2}"
    using two_timers_inv unfolding loop_inv_def two_timers_active by blast
  from heap_refines_set [OF timer_order.node_order_axioms this] show ?thesis by blast
qed

text \<open>C33 (loop_step_inv): the invariant of the loop is kept by whatever a program does, in any order,
  by the rules of use: it has at most \<open>2 ^ 32 - 1\<close> handles, none at a null address, and does not initialize
  a handle whose timer is active. Every call of the timer interface on these handles, any change of
  the clock, and every run of the due timers that returns, with callbacks that themselves make any
  such calls, leave the heap holding exactly the active timers, in order, each with a callback
  and none of them closing.\<close>

theorem loop_step_inv:
  assumes "handles_ok H" and "(loop_step H)\<^sup>*\<^sup>* loop loop'" and "loop_inv loop" and "active_timers loop \<subseteq> H"
  shows "loop_inv loop' \<and> active_timers loop' \<subseteq> H"
proof -
  from assms(2) have "tracked H loop'"
  proof (induction rule: rtranclp_induct)
    case base
    then show ?case using assms(3,4) by (simp add: tracked_def)
  qed (rule step_tracked [OF _ assms(1)])
  then show ?thesis by (simp add: tracked_def)
qed

text \<open>A callback that notes its timer and starts the timer 3 in 1000 milliseconds.\<close>

definition announce :: "(string, addr list) script" where
  "announce cb x loop = [Own (user loop @ [x]), Start 3 (Some ''c'') 1000 0]"

lemma announce_ok: "valid_script {1, 2, 3} announce" "all_later announce" "handles_ok {1, 2, 3}"
  "tracked {1, 2, 3} two_timers"
  using two_timers_inv two_timers_active
  by (auto simp: valid_script_def all_later_def announce_def handles_ok_def tracked_def
      split: option.splits)

lemma loop_step_inv_witness:
  "\<exists>loop' loop''. uv_timer_start 3 (Some ''c'') 20 0 two_timers = Some (0, loop') \<and>
     uv__run_timers (scripted announce) (loop'\<lparr>time := 100\<rparr>) = Some loop'' \<and> (loop_step {1, 2, 3})\<^sup>*\<^sup>* two_timers loop'' \<and>
     loop_inv loop'' \<and> active_timers loop'' \<subseteq> {1, 2, 3}"
proof -
  have "\<not> uv__is_closing (timers two_timers 3)" and room: "card (active_timers two_timers - {3}) < 2 ^ 32 - 1"
    unfolding two_timers_active by (simp_all add: two_timers_def uv__is_closing_def UV_HANDLE_CLOSING_def UV_HANDLE_CLOSED_def)
  from start_ok [OF two_timers_inv _ this(1) _ this(2), of "Some ''c''" 20 0] obtain l where
    l: "uv_timer_start 3 (Some ''c'') 20 0 two_timers = Some (0, l)" by auto
  then have 1: "loop_step {1, 2, 3} two_timers l"
    by (intro loop_step.call [of _ "Start 3 (Some ''c'') 20 0"]) simp_all
  have "(loop_step {1, 2, 3}) l (l\<lparr>time := 100\<rparr>)" by (rule loop_step.clock)
  with 1 have 2: "(loop_step {1, 2, 3})\<^sup>*\<^sup>* two_timers (l\<lparr>time := 100\<rparr>)" by simp
  have "tracked {1, 2, 3} (l\<lparr>time := 100\<rparr>)"
    using loop_step_inv [OF announce_ok(3) 2] announce_ok(4) by (simp add: tracked_def)
  from run_ends [OF announce_ok(3,1,2) this] obtain l2 where
    l2: "uv__run_timers (scripted announce) (l\<lparr>time := 100\<rparr>) = Some l2" by auto
  from 2 loop_step.run [OF announce_ok(1) l2] have 3: "(loop_step {1, 2, 3})\<^sup>*\<^sup>* two_timers l2" by simp
  have "loop_inv l2 \<and> active_timers l2 \<subseteq> {1, 2, 3}"
    using loop_step_inv [OF announce_ok(3) 3] announce_ok(4) by (simp add: tracked_def)
  then show ?thesis using l l2 3 by blast
qed

text \<open>\<open>uv_timer_start\<close> refuses a handle that is closing and a null callback and changes nothing
  then; otherwise it returns 0, also for a timer that is running already, which starts anew: the timer is active with
  the given callback and interval, its time is the loop's time plus the timeout, and the largest time if that
  overflows, and no other timer changes.\<close>

theorem uv_timer_start_correct:
  assumes "loop_inv loop" and "x \<noteq> 0" and "card (active_timers loop) < 2 ^ 32 - 1"
  shows "if uv__is_closing (timers loop x) \<or> cb = None
    then uv_timer_start x cb t rep loop = Some (UV_EINVAL, loop)
    else \<exists>loop'. uv_timer_start x cb t rep loop = Some (0, loop') \<and> loop_inv loop' \<and>
      active_timers loop' = insert x (active_timers loop) \<and> timer_cb (timers loop' x) = cb \<and> repeat (timers loop' x) = rep \<and>
      unat (timeout (timers loop' x)) = min (unat (time loop) + unat t) (2 ^ 64 - 1) \<and>
      (\<forall>y. y \<noteq> x \<longrightarrow> timers loop' y = timers loop y) \<and> time loop' = time loop"
proof (cases "uv__is_closing (timers loop x) \<or> cb = None")
  case True
  then show ?thesis by (auto simp: uv_timer_start_def)
next
  case False
  have "card (active_timers loop - {x}) \<le> card (active_timers loop)" using loop_inv_card [OF assms(1)] by (intro card_mono) auto
  then have "card (active_timers loop - {x}) < 2 ^ 32 - 1" using assms(3) by simp
  from start_ok [OF assms(1,2) _ _ this, of cb t rep] False obtain loop' where
    "uv_timer_start x cb t rep loop = Some (0, loop')" "loop_inv loop'" "active_timers loop' = insert x (active_timers loop)"
    "timers loop' = (timers loop)(x := started cb (clamped_timeout (time loop) t) rep (timer_counter loop) (stopped (timers loop x)))"
    "time loop' = time loop" by blast
  then show ?thesis using False by (auto simp: unat_clamped_timeout)
qed

lemma uv_timer_start_correct_witness:
  "\<exists>loop'. uv_timer_start 3 (Some ''c'') 20 0 two_timers = Some (0, loop') \<and> active_timers loop' = {3, 1, 2} \<and>
     unat (timeout (timers loop' 3)) = 27"
proof -
  have "\<not> uv__is_closing (timers two_timers 3)"
    by (simp add: two_timers_def uv__is_closing_def UV_HANDLE_CLOSING_def UV_HANDLE_CLOSED_def)
  moreover have "time two_timers = 7" by (simp add: two_timers_def)
  ultimately show ?thesis
    using uv_timer_start_correct [OF two_timers_inv, of 3 "Some ''c''" 20 0] unfolding two_timers_active by auto
qed

text \<open>The time the loop may block is -1 if no timer is active, and otherwise the time
  until the first active timer, at least 0 and at most the largest int.\<close>

theorem uv__next_timeout_correct:
  assumes "loop_inv loop"
  shows "uv__next_timeout loop = (if active_timers loop = {} then - 1
    else min (max 0 (Min ((\<lambda>x. uint (timeout (timers loop x))) ` active_timers loop) - uint (time loop))) (2 ^ 31 - 1))"
proof (cases "active_timers loop = {}")
  case True
  then show ?thesis using min_cases [OF assms] by (simp add: uv__next_timeout_def)
next
  case False
  let ?x = "heap_min (timer_heap loop)" and ?f = "\<lambda>x. uint (timeout (timers loop x))"
  have x: "?x \<noteq> 0" "?x \<in> active_timers loop" and least: "\<forall>y\<in>active_timers loop. timeout (timers loop ?x) \<le> timeout (timers loop y)"
    using min_cases [OF assms] False less_than_timeout by blast+
  have "Min (?f ` active_timers loop) = ?f ?x"
    by (rule Min_eqI) (use x least loop_inv_card [OF assms] in \<open>auto simp: word_le_def\<close>)
  moreover have "uint (timeout (timers loop ?x) - time loop) = ?f ?x - uint (time loop)" if "\<not> timeout (timers loop ?x) \<le> time loop"
    using that by (simp add: uint_sub_if' word_le_def)
  moreover have "uint int_max = 2 ^ 31 - 1" by (simp add: int_max_def)
  ultimately show ?thesis
    using False x(1) by (auto simp: uv__next_timeout_def Let_def word_le_def word_less_def)
qed

lemma uv__next_timeout_correct_witness:
  "uv__next_timeout (two_timers\<lparr>time := 1\<rparr>) = 2"
proof -
  have inv: "loop_inv (two_timers\<lparr>time := 1\<rparr>)" by (rule inv_cong [OF two_timers_inv]) simp_all
  have act: "active_timers (two_timers\<lparr>time := 1\<rparr>) = {1, 2}"
    using two_timers_active by (simp add: active_timers_def)
  show ?thesis using uv__next_timeout_correct [OF inv] unfolding act by (simp add: two_timers_def)
qed

text \<open>C32 (uv__run_timers_ends): the run of the due timers ends with no timer left that is due, whatever calls of the
  timer interface the callbacks make by the rules of use (see \<open>loop_step_inv\<close>), starting and stopping
  timers included, and although timers that repeat start again during it. Two premises
  are needed for this: no callback starts a timer with timeout 0, which would be due again in the
  same run, and the clock is not at its last value, at which a timer that repeats would be.\<close>

theorem uv__run_timers_ends:
  assumes "handles_ok H" and "valid_script H script" and "all_later script"
    and "loop_inv loop" and "active_timers loop \<subseteq> H" and "time loop \<noteq> - 1"
  shows "\<exists>loop'. uv__run_timers (scripted script) loop = Some loop' \<and> loop_inv loop' \<and> active_timers loop' \<subseteq> H \<and>
    due loop' = {} \<and> time loop' = time loop"
  using run_ends [OF assms(1-3) _ assms(6)] assms(4,5) by (auto simp: tracked_def)

lemma uv__run_timers_ends_witness:
  "\<exists>loop' loop''. scripted announce ''b'' 2 two_timers = Some loop' \<and> 3 \<in> active_timers loop' \<and>
     uv__run_timers (scripted announce) two_timers = Some loop'' \<and> due loop'' = {}"
proof -
  have inv: "loop_inv (two_timers\<lparr>user := [2]\<rparr>)" using two_timers_inv by simp
  have act: "active_timers (two_timers\<lparr>user := [2]\<rparr>) = {1, 2}" using two_timers_active by simp
  have "\<not> uv__is_closing (timers two_timers 3)" "user two_timers = []"
    by (simp_all add: two_timers_def uv__is_closing_def UV_HANDLE_CLOSING_def UV_HANDLE_CLOSED_def)
  with start_ok [OF inv, of 3 "Some ''c''" 1000 0] act obtain l where
    "uv_timer_start 3 (Some ''c'') 1000 0 (two_timers\<lparr>user := [2]\<rparr>) = Some (0, l)" "3 \<in> active_timers l" by auto
  then have "scripted announce ''b'' 2 two_timers = Some l" "3 \<in> active_timers l"
    using \<open>user two_timers = []\<close> by (simp_all add: scripted_def announce_def)
  moreover have "time two_timers \<noteq> - 1" by (simp add: two_timers_def)
  with uv__run_timers_ends [OF announce_ok(3,1,2) two_timers_inv] announce_ok(4)
  have "\<exists>loop''. uv__run_timers (scripted announce) two_timers = Some loop'' \<and> due loop'' = {}"
    by (auto simp: tracked_def)
  ultimately show ?thesis by blast
qed

text \<open>C7 (uv__run_timers_order): callbacks that leave the loop alone are called exactly once for each due timer, in the
  order of their times and, for the same time, of the numbers they got when they were started (\<open>start_id\<close>,
  the loop's count of starts). A timer that repeats is active afterwards,
  its time set anew, one that does not is idle, and a timer that is not due does not change.\<close>

theorem uv__run_timers_order:
  assumes "loop_inv loop" and "time loop \<noteq> - 1"
  shows "\<exists>xs loop'. set xs = due loop \<and> distinct xs \<and>
    sorted_wrt (\<lambda>x y. unat (timeout (timers loop x)) < unat (timeout (timers loop y)) \<or>
      timeout (timers loop x) = timeout (timers loop y) \<and> unat (start_id (timers loop x)) \<le> unat (start_id (timers loop y))) xs \<and>
    uv__run_timers (quiet f) loop = Some loop' \<and>
    user loop' = fold (\<lambda>x. f (the (timer_cb (timers loop x))) x) xs (user loop) \<and>
    active_timers loop' = active_timers loop - {x \<in> due loop. repeat (timers loop x) = 0} \<and>
    (\<forall>x. (if x \<notin> due loop then timers loop' x = timers loop x
          else if repeat (timers loop x) = 0 then timeout (timers loop' x) = timeout (timers loop x)
          else unat (timeout (timers loop' x)) = min (unat (time loop) + unat (repeat (timers loop x))) (2 ^ 64 - 1)))"
proof -
  from run_order [OF assms, of f] obtain xs loop' where xs: "set xs = due loop" "distinct xs"
    "sorted_wrt (\<lambda>x y. \<not> timer_less_than (timers loop) y x) xs" "uv__run_timers (quiet f) loop = Some loop'"
    "user loop' = call_all f (timers loop) xs (user loop)"
    "active_timers loop' = active_timers loop - {x \<in> due loop. repeat (timers loop x) = 0}"
    and tm: "\<forall>x. if x \<in> due loop then \<exists>k. timers loop' x = fired (time loop) k (timers loop x) else timers loop' x = timers loop x"
    by blast
  have "if x \<notin> due loop then timers loop' x = timers loop x
      else if repeat (timers loop x) = 0 then timeout (timers loop' x) = timeout (timers loop x)
      else unat (timeout (timers loop' x)) = min (unat (time loop) + unat (repeat (timers loop x))) (2 ^ 64 - 1)" for x
    using tm [rule_format, of x] by (auto simp: fired_def unat_clamped_timeout)
  moreover have less: "\<not> timer_less_than tm y x \<longleftrightarrow> unat (timeout (tm x)) < unat (timeout (tm y)) \<or>
      timeout (tm x) = timeout (tm y) \<and> unat (start_id (tm x)) \<le> unat (start_id (tm y))" for tm :: "addr \<Rightarrow> 'a uv_timer" and x y
    by (auto simp: timer_less_than_def Let_def word_less_nat_alt word_le_nat_alt word_unat_eq_iff)
  have "sorted_wrt (\<lambda>x y. unat (timeout (timers loop x)) < unat (timeout (timers loop y)) \<or>
      timeout (timers loop x) = timeout (timers loop y) \<and> unat (start_id (timers loop x)) \<le> unat (start_id (timers loop y))) xs"
    by (rule sorted_wrt_mono_rel [OF _ xs(3)]) (simp only: less)
  ultimately show ?thesis using xs(1,2,4-6) unfolding call_all_def by blast
qed

lemma uv__run_timers_order_witness:
  "\<exists>loop'. uv__run_timers (quiet (\<lambda>cb x log. log @ [x])) two_timers = Some loop' \<and> user loop' = [2, 1] \<and>
     active_timers loop' = {1} \<and> unat (timeout (timers loop' 1)) = 17"
proof -
  let ?tm = "timers two_timers" and ?f = "\<lambda>(cb :: string) x log. log @ [x :: addr]"
  have tm: "time two_timers = 7" "user two_timers = []" "repeat (?tm 1) = 10" "repeat (?tm 2) = 0"
    and less: "timeout (?tm 1) = 5" "timeout (?tm 2) = 3" by (simp_all add: two_timers_def)
  have "time two_timers \<noteq> - 1" using tm(1) by simp
  from uv__run_timers_order [OF two_timers_inv this, of ?f] obtain xs loop' where xs: "set xs = {1, 2}" "distinct xs"
    "sorted_wrt (\<lambda>x y. unat (timeout (?tm x)) < unat (timeout (?tm y)) \<or>
      timeout (?tm x) = timeout (?tm y) \<and> unat (start_id (?tm x)) \<le> unat (start_id (?tm y))) xs"
    "uv__run_timers (quiet ?f) two_timers = Some loop'"
    "user loop' = fold (\<lambda>x. ?f (the (timer_cb (?tm x))) x) xs []"
    "active_timers loop' = {1, 2} - {x \<in> {1, 2}. repeat (?tm x) = 0}"
    and all: "\<forall>x. (if x \<notin> {1, 2} then timers loop' x = ?tm x else if repeat (?tm x) = 0 then timeout (timers loop' x) = timeout (?tm x)
          else unat (timeout (timers loop' x)) = min (unat (time two_timers) + unat (repeat (?tm x))) (2 ^ 64 - 1))"
    unfolding two_timers_due two_timers_active tm(2) by blast
  have t1: "unat (timeout (timers loop' 1)) = 17" using all [rule_format, of 1] tm(1,3) by simp
  have "length xs = 2" using distinct_card [OF xs(2)] xs(1) by simp
  then obtain a b where ab: "xs = [a, b]" by (auto simp: length_Suc_conv numeral_2_eq_2)
  have "\<not> (a = 1 \<and> b = 2)" using xs(3) less ab by auto
  moreover have "{a, b} = {1, 2}" using xs(1) ab by simp
  ultimately have "xs = [2, 1]" unfolding ab doubleton_eq_iff by blast
  then have "user loop' = [2, 1]" unfolding xs(5) by simp
  moreover have "{x \<in> {1, 2}. repeat (?tm x) = 0} = {2}" using tm(3,4) by fastforce
  then have "active_timers loop' = {1}" unfolding xs(6) by (simp add: insert_Diff_if)
  ultimately show ?thesis using xs(4) t1 by blast
qed

text \<open>C39 (uv__run_timers_zero_timeout): the premise of \<open>uv__run_timers_ends\<close> that no callback starts a timer with
  timeout 0 is needed: if every callback starts its own timer again with timeout 0, the run never returns once a
  timer is due, since it takes a timer that is due at the time of the loop although the callback
  has only just started it.\<close>

theorem uv__run_timers_zero_timeout:
  assumes "handles_ok H" and "loop_inv loop" and "active_timers loop \<subseteq> H" and "due loop \<noteq> {}"
  shows "uv__run_timers (scripted (restarting f)) loop = None"
  using restarting_no_end [OF assms(1), of f loop] assms(2-4)
  by (cases "uv__run_timers (scripted (restarting f)) loop") (simp_all add: tracked_def)

lemma uv__run_timers_zero_timeout_witness:
  "uv__run_timers (scripted (restarting (\<lambda>cb x log. log @ [x]))) two_timers = None"
  using announce_ok(3) two_timers_inv two_timers_active two_timers_due
  by (intro uv__run_timers_zero_timeout [of "{1, 2, 3}"]) auto

end
