(* ===== verification/UV_Inet.thy ===== *)
theory UV_Inet
  imports UV_Errno
begin

unbundle bit_operations_syntax

text \<open>
  Textual IP addresses in libuv (\<open>inet.c\<close>, \<open>strscpy.c\<close> and the wrappers of \<open>uv-common.c\<close>): printing
  and parsing of IPv4 and IPv6 addresses, with zones. The parsers read a string until its
  terminator; the printers give the bytes that they write to the caller's buffer.
\<close>

section \<open>Strings\<close>

text \<open>
  A C string is the list of its bytes before the terminator. \<open>uv__strscpy\<close> gives the bytes that
  it writes to the destination and its result.
\<close>

function strscpy_loop :: "byte list \<Rightarrow> byte list \<Rightarrow> u64 \<Rightarrow> u64 \<Rightarrow> (byte list \<times> int) + byte list" where
  "strscpy_loop d s n i =
     (if i < n then
        let b = (if unat i < length s then s ! unat i else 0); d = d @ [b]
        in if b = 0 then Inl (d, if i > 0x7fffffffffffffff then UV_E2BIG else uint i)
           else strscpy_loop d s n (i + 1)
      else Inr d)"
  by pat_completeness auto
termination
proof (relation "measure (\<lambda>(d, s, n, i). unat n - unat i)", goal_cases)
  case (2 d s n i)
  then have "unat (i + 1) = unat i + 1" using u64_bound [of n] by (simp add: word_less_nat_alt unat_word_ariths)
  then show ?case using 2 by (simp add: word_less_nat_alt)
qed simp

declare strscpy_loop.simps [simp del]

definition uv__strscpy :: "byte list \<Rightarrow> u64 \<Rightarrow> byte list \<times> int" where
  "uv__strscpy s n =
     (case strscpy_loop [] s n 0 of
        Inl r \<Rightarrow> r
      | Inr d \<Rightarrow> if d = [] then (d, 0) else (butlast d @ [0], UV_E2BIG))"

text \<open>The numbers that \<open>printf\<close> writes for \<open>%u\<close> and \<open>%x\<close>.\<close>

definition digit :: "nat \<Rightarrow> byte" where
  "digit d = (if d < 10 then word_of_nat (48 + d) else word_of_nat (87 + d))"

fun digits :: "nat \<Rightarrow> nat \<Rightarrow> byte list" where
  "digits b n = (if n < b \<or> b < 2 then [digit n] else digits b (n div b) @ [digit (n mod b)])"

declare digits.simps [simp del]

abbreviation percent_u :: "nat \<Rightarrow> byte list" where "percent_u \<equiv> digits 10"
abbreviation percent_x :: "nat \<Rightarrow> byte list" where "percent_x \<equiv> digits 16"

text \<open>\<open>strchr(xs, ch) - xs\<close> for a character that is not the terminator.\<close>

fun strchr :: "byte list \<Rightarrow> byte \<Rightarrow> nat option" where
  "strchr [] ch = None"
| "strchr (x # xs) ch = (if x = ch then Some 0 else map_option Suc (strchr xs ch))"

section \<open>Printing\<close>

definition AF_INET :: int where "AF_INET = 2"
definition AF_INET6 :: int where "AF_INET6 = 30"

definition inet_ntop4 :: "byte list \<Rightarrow> u64 \<Rightarrow> int + byte list" where
  "inet_ntop4 src sz =
     (let tmp = percent_u (unat (src ! 0)) @ [0x2e] @ percent_u (unat (src ! 1)) @ [0x2e] @
                percent_u (unat (src ! 2)) @ [0x2e] @ percent_u (unat (src ! 3));
          l = length tmp
      in if l \<le> 0 \<or> l \<ge> unat sz then Inl UV_ENOSPC else Inr (fst (uv__strscpy tmp sz)))"

text \<open>A run of zero words: its first index and its length. The index -1 stands for no run.\<close>

type_synonym run = "int \<times> int"

fun longest_run :: "u32 list \<Rightarrow> int \<Rightarrow> run \<Rightarrow> run \<Rightarrow> run" where
  "longest_run [] i best cur =
     (let best = (if fst cur \<noteq> - 1 then (if fst best = - 1 \<or> snd cur > snd best then cur else best) else best)
      in if fst best \<noteq> - 1 \<and> snd best < 2 then (- 1, snd best) else best)"
| "longest_run (w # ws) i best cur =
     (if w = 0 then
        longest_run ws (i + 1) best (if fst cur = - 1 then (i, 1) else (fst cur, snd cur + 1))
      else if fst cur \<noteq> - 1 then
        longest_run ws (i + 1) (if fst best = - 1 \<or> snd cur > snd best then cur else best) (- 1, snd cur)
      else longest_run ws (i + 1) best cur)"

definition address_words :: "byte list \<Rightarrow> u32 list" where
  "address_words src =
     map (\<lambda>i. push_bit 8 (ucast (src ! (2 * i))) OR ucast (src ! (2 * i + 1))) [0..<8]"

function ntop6_loop :: "byte list \<Rightarrow> u32 list \<Rightarrow> run \<Rightarrow> nat \<Rightarrow> byte list \<Rightarrow> int + byte list" where
  "ntop6_loop src words best i tp =
     (if i < 8 then
        if fst best \<noteq> - 1 \<and> int i \<ge> fst best \<and> int i < fst best + snd best then
          ntop6_loop src words best (i + 1) (if int i = fst best then tp @ [0x3a] else tp)
        else
          let tp = (if i \<noteq> 0 then tp @ [0x3a] else tp) in
          if i = 6 \<and> fst best = 0 \<and> (snd best = 6 \<or> (snd best = 7 \<and> words ! 7 \<noteq> 1) \<or> (snd best = 5 \<and> words ! 5 = 0xffff))
          then (case inet_ntop4 (drop 12 src) (46 - word_of_nat (length tp)) of
                  Inl err \<Rightarrow> Inl err
                | Inr out \<Rightarrow> Inr (tp @ butlast out))
          else ntop6_loop src words best (i + 1) (tp @ percent_x (unat (words ! i)))
      else Inr tp)"
  by pat_completeness auto
termination by (relation "measure (\<lambda>(src, words, best, i, tp). 8 - i)") auto

declare ntop6_loop.simps [simp del]

definition inet_ntop6 :: "byte list \<Rightarrow> u64 \<Rightarrow> int + byte list" where
  "inet_ntop6 src sz =
     (let words = address_words src; best = longest_run words 0 (- 1, 0) (- 1, 0) in
      case ntop6_loop src words best 0 [] of
        Inl err \<Rightarrow> Inl err
      | Inr tmp \<Rightarrow>
          let tmp = (if fst best \<noteq> - 1 \<and> fst best + snd best = 8 then tmp @ [0x3a] else tmp)
          in (case uv__strscpy tmp sz of
                (dst, r) \<Rightarrow> if r = UV_E2BIG then Inl UV_ENOSPC else Inr dst))"

definition uv_inet_ntop :: "int \<Rightarrow> byte list \<Rightarrow> u64 \<Rightarrow> int + byte list" where
  "uv_inet_ntop af src sz =
     (if af = AF_INET then inet_ntop4 src sz
      else if af = AF_INET6 then inet_ntop6 src sz
      else Inl UV_EAFNOSUPPORT)"

section \<open>Parsing\<close>

text \<open>\<open>tmp\<close> has the bytes up to and with the one at \<open>tp\<close>.\<close>

definition digits10 :: "byte list" where
  "digits10 = [0x30, 0x31, 0x32, 0x33, 0x34, 0x35, 0x36, 0x37, 0x38, 0x39]"

fun pton4_loop :: "byte list \<Rightarrow> bool \<Rightarrow> nat \<Rightarrow> byte list \<Rightarrow> int + byte list" where
  "pton4_loop [] saw_digit octets tmp = (if octets < 4 then Inl UV_EINVAL else Inr tmp)"
| "pton4_loop (ch # src) saw_digit octets tmp =
     (case strchr digits10 ch of
        Some d \<Rightarrow>
          let nw = ucast (last tmp) * 10 + word_of_nat d :: u32 in
          if saw_digit \<and> last tmp = 0 then Inl UV_EINVAL
          else if nw > 255 then Inl UV_EINVAL
          else
            let tmp = butlast tmp @ [ucast nw] in
            if \<not> saw_digit then
              if octets + 1 > 4 then Inl UV_EINVAL else pton4_loop src True (octets + 1) tmp
            else pton4_loop src saw_digit octets tmp
      | None \<Rightarrow>
          if ch = 0x2e \<and> saw_digit then
            if octets = 4 then Inl UV_EINVAL else pton4_loop src False octets (tmp @ [0])
          else Inl UV_EINVAL)"

definition inet_pton4 :: "byte list \<Rightarrow> int + byte list" where
  "inet_pton4 src = pton4_loop src False 0 [0]"

definition xdigits_l :: "byte list" where
  "xdigits_l = digits10 @ [0x61, 0x62, 0x63, 0x64, 0x65, 0x66]"

definition xdigits_u :: "byte list" where
  "xdigits_u = digits10 @ [0x41, 0x42, 0x43, 0x44, 0x45, 0x46]"

definition xdigit :: "byte \<Rightarrow> nat option" where
  "xdigit ch = (case strchr xdigits_l ch of None \<Rightarrow> strchr xdigits_u ch | Some d \<Rightarrow> Some d)"

record pton6 =
  tmp :: "byte list"
  tp :: nat
  colonp :: "nat option"
  seen_xdigits :: nat
  val :: u32

definition put_word :: "pton6 \<Rightarrow> pton6" where
  "put_word s =
     s\<lparr>tmp := (tmp s)[tp s := ucast (drop_bit 8 (val s)) AND 0xff, tp s + 1 := ucast (val s) AND 0xff], tp := tp s + 2\<rparr>"

fun pton6_loop :: "byte list \<Rightarrow> byte list \<Rightarrow> pton6 \<Rightarrow> int + pton6" where
  "pton6_loop [] curtok s = Inr s"
| "pton6_loop (ch # src) curtok s =
     (case xdigit ch of
        Some d \<Rightarrow>
          let s = s\<lparr>val := push_bit 4 (val s) OR word_of_nat d, seen_xdigits := seen_xdigits s + 1\<rparr> in
          if seen_xdigits s > 4 then Inl UV_EINVAL else pton6_loop src curtok s
      | None \<Rightarrow>
          if ch = 0x3a then
            let curtok = src in
            if seen_xdigits s = 0 then
              if colonp s \<noteq> None then Inl UV_EINVAL else pton6_loop src curtok (s\<lparr>colonp := Some (tp s)\<rparr>)
            else if src = [] then Inl UV_EINVAL
            else if tp s + 2 > 16 then Inl UV_EINVAL
            else pton6_loop src curtok ((put_word s)\<lparr>seen_xdigits := 0, val := 0\<rparr>)
          else if ch = 0x2e \<and> tp s + 4 \<le> 16 then
            (case inet_pton4 curtok of
               Inr bs \<Rightarrow> Inr (s\<lparr>tmp := take (tp s) (tmp s) @ bs @ drop (tp s + 4) (tmp s), tp := tp s + 4, seen_xdigits := 0\<rparr>)
             | Inl _ \<Rightarrow> Inl UV_EINVAL)
          else Inl UV_EINVAL)"

text \<open>The shift of what follows \<open>::\<close> to the end, byte by byte from the last.\<close>

fun shift_loop :: "nat \<Rightarrow> nat \<Rightarrow> nat \<Rightarrow> byte list \<Rightarrow> byte list" where
  "shift_loop 0 n c bytes = bytes"
| "shift_loop (Suc k) n c bytes =
     (let i = n - k in shift_loop k n c (bytes[16 - i := bytes ! (c + n - i), c + n - i := 0]))"

text \<open>What is left to do at the end of the string.\<close>

definition pton6_finish :: "pton6 \<Rightarrow> int + byte list" where
  "pton6_finish s =
     (if seen_xdigits s \<noteq> 0 \<and> tp s + 2 > 16 then Inl UV_EINVAL
      else
        let s = (if seen_xdigits s \<noteq> 0 then put_word s else s) in
        (case colonp s of
           Some c \<Rightarrow>
             if tp s = 16 then Inl UV_EINVAL
             else Inr (shift_loop (tp s - c) (tp s - c) c (tmp s))
         | None \<Rightarrow> if tp s \<noteq> 16 then Inl UV_EINVAL else Inr (tmp s)))"

definition inet_pton6 :: "byte list \<Rightarrow> int + byte list" where
  "inet_pton6 src =
     (if src \<noteq> [] \<and> hd src = 0x3a \<and> (tl src = [] \<or> hd (tl src) \<noteq> 0x3a) then Inl UV_EINVAL
      else
        let src = (if src \<noteq> [] \<and> hd src = 0x3a then tl src else src) in
        (case pton6_loop src src \<lparr>tmp = replicate 16 0, tp = 0, colonp = None, seen_xdigits = 0, val = 0\<rparr> of
           Inl err \<Rightarrow> Inl err
         | Inr s \<Rightarrow> pton6_finish s))"

text \<open>The zone after \<open>%\<close> is cut off.\<close>

definition uv_inet_pton :: "int \<Rightarrow> byte list \<Rightarrow> int + byte list" where
  "uv_inet_pton af src =
     (if af = AF_INET then inet_pton4 src
      else if af = AF_INET6 then
        (case strchr src 0x25 of
           Some len \<Rightarrow> if len > 45 then Inl UV_EINVAL else inet_pton6 (take len src)
         | None \<Rightarrow> inet_pton6 src)
      else Inl UV_EAFNOSUPPORT)"

section \<open>Copying\<close>

lemma strscpy_loop_eq:
  assumes "0 \<notin> set s" and "unat i \<le> length s" and "unat i \<le> unat n" and "length s < 2 ^ 63"
  shows "strscpy_loop (take (unat i) s) s n i =
    (if length s < unat n then Inl (s @ [0], int (length s)) else Inr (take (unat n) s))"
  using assms(2,3)
proof (induction "unat n - unat i" arbitrary: i)
  case 0
  then have "unat i = unat n" by simp
  then show ?case using 0 by (subst strscpy_loop.simps) (simp add: word_less_nat_alt)
next
  case (Suc k)
  then have less: "i < n" by (simp add: word_less_nat_alt)
  have next_i: "unat (i + 1) = unat i + 1" using less u64_bound [of n] by (simp add: word_less_nat_alt unat_word_ariths)
  show ?case
  proof (cases "unat i = length s")
    case True
    have "\<not> i > 0x7fffffffffffffff" using assms(4) True by (simp add: word_less_nat_alt)
    moreover have "uint i = int (length s)" using True uint_nat [of i] by (simp only:)
    ultimately show ?thesis using less True by (subst strscpy_loop.simps) (simp add: Let_def word_less_nat_alt)
  next
    case False
    then have lt: "unat i < length s" using Suc.prems by simp
    then have "s ! unat i \<noteq> 0" using assms(1) by (metis nth_mem)
    then have "strscpy_loop (take (unat i) s) s n i = strscpy_loop (take (unat (i + 1)) s) s n (i + 1)"
      using less lt by (subst strscpy_loop.simps) (simp add: Let_def next_i take_Suc_conv_app_nth)
    moreover have "k = unat n - unat (i + 1)" "unat (i + 1) \<le> length s" "unat (i + 1) \<le> unat n"
      using Suc.hyps(2) lt less next_i by (simp_all add: word_less_nat_alt)
    ultimately show ?thesis using Suc.hyps(1) by simp
  qed
qed

lemma uv__strscpy_eq:
  assumes "0 \<notin> set s" and "length s < 2 ^ 63"
  shows "uv__strscpy s n =
    (if length s < unat n then (s @ [0], int (length s))
     else if n = 0 then ([], 0) else (take (unat n - 1) s @ [0], UV_E2BIG))"
proof (cases "length s < unat n")
  case True
  then show ?thesis using strscpy_loop_eq [OF assms(1) _ _ assms(2), of 0 n] by (simp add: uv__strscpy_def)
next
  case False
  have "strscpy_loop [] s n 0 = Inr (take (unat n) s)"
    using strscpy_loop_eq [OF assms(1) _ _ assms(2), of 0 n] False by simp
  moreover have "unat n = 0 \<longleftrightarrow> n = 0" by (simp add: unat_eq_0)
  moreover have "butlast (take (unat n) s) = take (unat n - 1) s" using False by (simp add: butlast_take)
  ultimately show ?thesis using False by (auto simp: uv__strscpy_def)
qed

section \<open>Digits\<close>

lemma digits_1: "n < b \<Longrightarrow> digits b n = [digit n]"
  by (simp add: digits.simps [of b n])

lemma digits_snoc: "2 \<le> b \<Longrightarrow> 0 < v \<Longrightarrow> d < b \<Longrightarrow> digits b (v * b + d) = digits b v @ [digit d]"
proof -
  assume b: "2 \<le> b" "0 < v" "d < b"
  then have "\<not> v * b + d < b" by (cases v) auto
  moreover have "(v * b + d) div b = v" "(v * b + d) mod b = d" using b by simp_all
  ultimately show ?thesis using b(1) by (subst digits.simps) simp
qed

lemma strchr_digits10: "strchr digits10 ch = (if 48 \<le> unat ch \<and> unat ch \<le> 57 then Some (unat ch - 48) else None)"
proof (cases "48 \<le> unat ch \<and> unat ch \<le> 57")
  case True
  then have "unat ch = 48 \<or> unat ch = 49 \<or> unat ch = 50 \<or> unat ch = 51 \<or> unat ch = 52 \<or> unat ch = 53 \<or>
    unat ch = 54 \<or> unat ch = 55 \<or> unat ch = 56 \<or> unat ch = 57" by presburger
  then show ?thesis by (elim disjE) (simp_all add: digits10_def word_eq_iff_unat)
next
  case False
  then show ?thesis by (auto simp: digits10_def word_eq_iff_unat)
qed

lemma unat_digit: "d < 10 \<Longrightarrow> unat (digit d) = 48 + d" "10 \<le> d \<Longrightarrow> d < 16 \<Longrightarrow> unat (digit d) = 87 + d"
  by (simp_all add: digit_def del: of_nat_add)

lemma strchr_digit [simp]: "d < 10 \<Longrightarrow> strchr digits10 (digit d) = Some d"
  by (simp add: strchr_digits10 unat_digit)

lemma strchr_digits10_Some: "strchr digits10 ch = Some d \<longleftrightarrow> d < 10 \<and> ch = digit d"
  by (auto simp: strchr_digits10 word_eq_iff_unat unat_digit split: if_splits)

lemma strchr_dot [simp]: "strchr digits10 0x2e = None"
  by (simp add: strchr_digits10)

section \<open>Dotted decimal addresses\<close>

fun dotted :: "nat list \<Rightarrow> byte list" where
  "dotted [] = []"
| "dotted [a] = percent_u a"
| "dotted (a # as) = percent_u a @ 0x2e # dotted as"

lemma digits_not_Nil [simp]: "digits b n \<noteq> []"
  by (subst digits.simps) simp

lemma pton4_digit_first:
  "d < 10 \<Longrightarrow> octets < 4 \<Longrightarrow> pton4_loop (digit d # src) False octets (pre @ [0]) = pton4_loop src True (octets + 1) (pre @ [word_of_nat d])"
  by (simp add: Let_def word_less_nat_alt unsigned_of_nat take_bit_eq_mod)

lemma pton4_digit_more:
  assumes "d < 10" and "v \<noteq> 0"
  shows "pton4_loop (digit d # src) True octets (pre @ [v]) =
    (if unat v * 10 + d \<le> 255 then pton4_loop src True octets (pre @ [word_of_nat (unat v * 10 + d)]) else Inl UV_EINVAL)"
proof -
  have nw: "ucast v * 10 + word_of_nat d = (word_of_nat (unat v * 10 + d) :: u32)"
    by (simp add: word_eq_iff_unat unat_word_ariths unat_ucast_mod unsigned_of_nat take_bit_eq_mod)
  have "unat v * 10 + d < 2560" using assms(1) byte_less [of v] by linarith
  then have "unat v * 10 + d < 2 ^ 32" by simp
  then have un: "unat (word_of_nat (unat v * 10 + d) :: u32) = unat v * 10 + d" by (rule unat_word_of_nat_32)
  have "ucast (word_of_nat (unat v * 10 + d) :: u32) = (word_of_nat (unat v * 10 + d) :: byte)"
    by (simp add: word_eq_iff_unat unat_ucast_mod un del: of_nat_add of_nat_mult)
  then show ?thesis using assms by (simp add: Let_def nw word_less_nat_alt un del: of_nat_add of_nat_mult)
qed

lemma pton4_octet:
  assumes "n < 256" and "octets < 4"
  shows "pton4_loop (percent_u n @ src) False octets (pre @ [0]) = pton4_loop src True (octets + 1) (pre @ [word_of_nat n])"
proof -
  have two: "pton4_loop (percent_u m @ s) False octets (pre @ [0]) = pton4_loop s True (octets + 1) (pre @ [word_of_nat m])"
    if "m < 100" for m s
  proof (cases "m < 10")
    case True
    then show ?thesis using pton4_digit_first assms(2) by (simp add: digits_1)
  next
    case False
    define v d where "v = m div 10" and "d = m mod 10"
    have m: "m = v * 10 + d" "v < 10" "d < 10" "0 < v" using that False by (auto simp: v_def d_def)
    then have un: "unat (word_of_nat v :: byte) = v" "(word_of_nat v :: byte) \<noteq> 0" by (auto simp: word_eq_iff_unat)
    show ?thesis unfolding m(1)
      using m un assms(2) pton4_digit_first [of v octets] pton4_digit_more [of d "word_of_nat v"]
      by (simp add: digits_snoc digits_1 del: of_nat_add of_nat_mult pton4_loop.simps)
  qed
  show ?thesis
  proof (cases "n < 100")
    case False
    define v d where "v = n div 10" and "d = n mod 10"
    have m: "n = v * 10 + d" "v < 100" "d < 10" "0 < v" using assms(1) False by (auto simp: v_def d_def)
    then have un: "unat (word_of_nat v :: byte) = v" "(word_of_nat v :: byte) \<noteq> 0" by (auto simp: word_eq_iff_unat)
    show ?thesis unfolding m(1)
      using m un assms two [of v] pton4_digit_more [of d "word_of_nat v"]
      by (simp add: digits_snoc del: of_nat_add of_nat_mult pton4_loop.simps)
  qed (rule two)
qed

lemma pton4_dotted:
  "ns \<noteq> [] \<Longrightarrow> \<forall>n\<in>set ns. n < 256 \<Longrightarrow> length pre + length ns = 4 \<Longrightarrow>
   pton4_loop (dotted ns) False (length pre) (pre @ [0]) = Inr (pre @ map word_of_nat ns)"
proof (induction ns arbitrary: pre rule: dotted.induct)
  case (2 a)
  then show ?case using pton4_octet [of a "length pre" "[]" pre] by simp
next
  case (3 a b as)
  have "pton4_loop (dotted (a # b # as)) False (length pre) (pre @ [0]) =
      pton4_loop (0x2e # dotted (b # as)) True (length pre + 1) (pre @ [word_of_nat a])"
    using 3(3,4) pton4_octet [of a "length pre" "0x2e # dotted (b # as)" pre] by simp
  also have "\<dots> = pton4_loop (dotted (b # as)) False (length (pre @ [word_of_nat a])) ((pre @ [word_of_nat a]) @ [0])"
    using 3(4) by simp
  also have "\<dots> = Inr ((pre @ [word_of_nat a]) @ map word_of_nat (b # as))"
    by (rule 3(1)) (use 3(3,4) in simp_all)
  finally show ?case by simp
qed simp

lemma dotted_Cons: "ns \<noteq> [] \<Longrightarrow> dotted (a # ns) = percent_u a @ 0x2e # dotted ns"
  by (cases ns) simp_all

lemma pton4_sound:
  "pton4_loop s saw octets (pre @ [v]) = Inr bs \<Longrightarrow>
   (if saw then octets = Suc (length pre) else octets = length pre \<and> v = 0 \<and> octets < 4) \<Longrightarrow> octets \<le> 4 \<Longrightarrow>
   \<exists>ns. ns \<noteq> [] \<and> (\<forall>n\<in>set ns. n < 256) \<and> bs = pre @ map word_of_nat ns \<and> length pre + length ns = 4 \<and>
     (if saw then percent_u (unat v) @ s else s) = dotted ns"
proof (induction s arbitrary: saw octets pre v)
  case Nil
  then have "saw" "octets = 4" "bs = pre @ [v]" by (auto split: if_splits)
  then show ?case using Nil.prems(2) by (intro exI [of _ "[unat v]"]) simp
next
  case (Cons ch s)
  show ?case
  proof (cases "strchr digits10 ch")
    case None
    then have c: "ch = 0x2e" "saw" "octets \<noteq> 4" and run: "pton4_loop s False octets ((pre @ [v]) @ [0]) = Inr bs"
      using Cons.prems(1) by (auto split: if_splits)
    from Cons.IH [OF run] Cons.prems(2,3) c obtain ns where ns: "ns \<noteq> []" "\<forall>n\<in>set ns. n < 256"
      "bs = (pre @ [v]) @ map word_of_nat ns" "length (pre @ [v]) + length ns = 4" "s = dotted ns" by auto
    then show ?thesis using c by (intro exI [of _ "unat v # ns"]) (simp add: dotted_Cons)
  next
    case (Some d)
    then have d: "d < 10" "ch = digit d" by (simp_all add: strchr_digits10_Some)
    show ?thesis
    proof (cases saw)
      case False
      then have v: "v = 0" "octets = length pre" "octets < 4" using Cons.prems(2) by simp_all
      have run: "pton4_loop s True (octets + 1) (pre @ [word_of_nat d]) = Inr bs"
        using Cons.prems(1) False v(1) pton4_digit_first [OF d(1) v(3), of s pre] d(2) by simp
      have "unat (word_of_nat d :: byte) = d" using d(1) by simp
      with Cons.IH [OF run] v obtain ns where ns: "ns \<noteq> []" "\<forall>n\<in>set ns. n < 256"
        "bs = pre @ map word_of_nat ns" "length pre + length ns = 4" "percent_u d @ s = dotted ns" by auto
      then show ?thesis using False d by (intro exI [of _ ns]) (simp add: digits_1)
    next
      case True
      have v: "v \<noteq> 0"
      proof
        assume "v = 0"
        then show False using Cons.prems(1) True d by (simp add: Let_def)
      qed
      have le: "unat v * 10 + d \<le> 255" and run: "pton4_loop s True octets (pre @ [word_of_nat (unat v * 10 + d)]) = Inr bs"
        using Cons.prems(1) True pton4_digit_more [OF d(1) v, of s octets pre] d(2) by (simp_all split: if_splits)
      have un: "unat (word_of_nat (unat v * 10 + d) :: byte) = unat v * 10 + d" using le by (simp del: of_nat_add of_nat_mult)
      from Cons.IH [OF run] Cons.prems(2,3) True obtain ns where ns: "ns \<noteq> []" "\<forall>n\<in>set ns. n < 256"
        "bs = pre @ map word_of_nat ns" "length pre + length ns = 4" "percent_u (unat v * 10 + d) @ s = dotted ns"
        unfolding un by auto
      have "0 < unat v" using v by (simp add: unat_gt_0)
      then have "percent_u (unat v * 10 + d) = percent_u (unat v) @ [ch]" using d by (simp add: digits_snoc)
      then show ?thesis using ns True by (intro exI [of _ ns]) simp
    qed
  qed
qed

lemma inet_pton4_iff:
  "inet_pton4 s = Inr bs \<longleftrightarrow> (\<exists>ns. length ns = 4 \<and> (\<forall>n\<in>set ns. n < 256) \<and> s = dotted ns \<and> bs = map word_of_nat ns)"
proof
  assume "inet_pton4 s = Inr bs"
  then show "\<exists>ns. length ns = 4 \<and> (\<forall>n\<in>set ns. n < 256) \<and> s = dotted ns \<and> bs = map word_of_nat ns"
    using pton4_sound [of s False 0 "[]" 0 bs] by (auto simp: inet_pton4_def)
next
  assume "\<exists>ns. length ns = 4 \<and> (\<forall>n\<in>set ns. n < 256) \<and> s = dotted ns \<and> bs = map word_of_nat ns"
  then obtain ns where ns: "length ns = 4" "\<forall>n\<in>set ns. n < 256" "s = dotted ns" "bs = map word_of_nat ns" by blast
  then show "inet_pton4 s = Inr bs" using pton4_dotted [of ns "[]"] by (cases "ns = []") (auto simp: inet_pton4_def)
qed

lemma pton4_errors: "pton4_loop s saw octets tm = Inl e \<Longrightarrow> e = UV_EINVAL"
  by (induction s saw octets tm rule: pton4_loop.induct) (auto simp: Let_def split: option.splits if_splits)

lemma length_percent_u: "n < 256 \<Longrightarrow> length (percent_u n) \<le> 3"
  by (subst digits.simps, subst digits.simps, subst digits.simps) (auto simp: digits_1)

lemma percent_u_no_NUL: "b \<in> set (percent_u n) \<Longrightarrow> 48 \<le> unat b \<and> unat b \<le> 57"
proof (induction n rule: less_induct)
  case (less n)
  show ?case
  proof (cases "n < 10")
    case True
    then show ?thesis using less.prems by (simp add: digits_1 unat_digit)
  next
    case False
    then have "b \<in> set (percent_u (n div 10)) \<or> b = digit (n mod 10)" using less.prems by (subst (asm) digits.simps) auto
    then show ?thesis using less.IH [of "n div 10"] False by (auto simp: unat_digit)
  qed
qed

lemma bytes_4: "length src = 4 \<Longrightarrow> src = [src ! 0, src ! 1, src ! 2, src ! 3]"
  by (auto simp: length_Suc_conv numeral_eq_Suc)

lemma inet_ntop4_eq:
  assumes "4 \<le> length src"
  shows "inet_ntop4 src n =
    (let str = dotted (map unat (take 4 src)) in if length str < unat n then Inr (str @ [0]) else Inl UV_ENOSPC)"
    and "length (dotted (map unat (take 4 src))) \<le> 15" and "0 \<notin> set (dotted (map unat (take 4 src)))"
proof -
  have "take 4 src = [src ! 0, src ! 1, src ! 2, src ! 3]" using bytes_4 [of "take 4 src"] assms by simp
  then have str: "dotted (map unat (take 4 src)) = percent_u (unat (src ! 0)) @ [0x2e] @ percent_u (unat (src ! 1)) @ [0x2e] @
      percent_u (unat (src ! 2)) @ [0x2e] @ percent_u (unat (src ! 3))" by simp
  have "length (percent_u (unat (src ! i))) \<le> 3" for i by (rule length_percent_u) simp
  from this [of 0] this [of 1] this [of 2] this [of 3] show len: "length (dotted (map unat (take 4 src))) \<le> 15"
    unfolding str by simp
  show nul: "0 \<notin> set (dotted (map unat (take 4 src)))"
    unfolding str using percent_u_no_NUL [of 0] by (auto dest: percent_u_no_NUL)
  have "dotted (map unat (take 4 src)) \<noteq> []" unfolding str by simp
  then show "inet_ntop4 src n = (let str = dotted (map unat (take 4 src)) in if length str < unat n then Inr (str @ [0]) else Inl UV_ENOSPC)"
    using uv__strscpy_eq [OF nul, of n] len unfolding inet_ntop4_def str [symmetric] Let_def by auto
qed

section \<open>Reading IPv6 addresses\<close>

lemma strchr_append: "strchr xs ch = Some i \<Longrightarrow> strchr (xs @ ys) ch = Some i"
  by (induction xs arbitrary: i) (auto split: if_splits)

lemma xdigit_digit: "d < 16 \<Longrightarrow> xdigit (digit d) = Some d"
proof -
  assume "d < 16"
  then have "d < 10 \<or> d = 10 \<or> d = 11 \<or> d = 12 \<or> d = 13 \<or> d = 14 \<or> d = 15" by presburger
  then show ?thesis
  proof (elim disjE)
    assume "d < 10"
    then have "strchr (digits10 @ ys) (digit d) = Some d" for ys
      by (intro strchr_append) simp
    then show ?thesis by (simp add: xdigit_def xdigits_l_def)
  qed (simp_all add: xdigit_def xdigits_l_def digits10_def digit_def)
qed

lemma xdigit_None [simp]: "xdigit 0x3a = None" "xdigit 0x2e = None"
  by (simp_all add: xdigit_def xdigits_l_def xdigits_u_def digits10_def)

lemma digits_digit: "2 \<le> b \<Longrightarrow> \<exists>ds. digits b n = map digit ds \<and> ds \<noteq> [] \<and> (\<forall>d\<in>set ds. d < b)"
proof (induction n rule: less_induct)
  case (less n)
  show ?case
  proof (cases "n < b")
    case True
    then show ?thesis by (intro exI [of _ "[n]"]) (simp add: digits_1)
  next
    case False
    then have "n div b < n" using less.prems by (intro div_less_dividend) auto
    from less.IH [OF this less.prems] obtain ds where "digits b (n div b) = map digit ds" "ds \<noteq> []" "\<forall>d\<in>set ds. d < b" by blast
    moreover have "n mod b < b" using less.prems by simp
    ultimately show ?thesis using False less.prems
      by (intro exI [of _ "ds @ [n mod b]"]) (subst digits.simps, auto)
  qed
qed

lemma pton6_digit:
  "d < 16 \<Longrightarrow> seen_xdigits s < 4 \<Longrightarrow> pton6_loop (digit d # src) cur s =
     pton6_loop src cur (s\<lparr>val := push_bit 4 (val s) OR word_of_nat d, seen_xdigits := seen_xdigits s + 1\<rparr>)"
  by (simp add: xdigit_digit Let_def)

lemma pton6_digits:
  "\<forall>d\<in>set ds. d < 16 \<Longrightarrow> seen_xdigits s + length ds \<le> 4 \<Longrightarrow>
   \<exists>v. pton6_loop (map digit ds @ src) cur s = pton6_loop src cur (s\<lparr>val := v, seen_xdigits := seen_xdigits s + length ds\<rparr>)"
proof (induction ds arbitrary: s)
  case Nil
  then show ?case by (intro exI [of _ "val s"]) simp
next
  case (Cons d ds)
  let ?s = "s\<lparr>val := push_bit 4 (val s) OR word_of_nat d, seen_xdigits := seen_xdigits s + 1\<rparr>"
  have "pton6_loop (map digit (d # ds) @ src) cur s = pton6_loop (map digit ds @ src) cur ?s"
    using Cons.prems pton6_digit [of d s] by simp
  moreover have "\<exists>v. pton6_loop (map digit ds @ src) cur ?s =
      pton6_loop src cur (?s\<lparr>val := v, seen_xdigits := seen_xdigits ?s + length ds\<rparr>)"
    by (rule Cons.IH) (use Cons.prems in simp_all)
  ultimately show ?case by auto
qed

lemma push_digit: "v < 4096 \<Longrightarrow> d < 16 \<Longrightarrow> push_bit 4 (word_of_nat v) OR word_of_nat d = (word_of_nat (v * 16 + d) :: u32)"
  by (simp add: word_eq_iff_unat unat_push_or unsigned_of_nat take_bit_eq_mod del: of_nat_add of_nat_mult)

lemma pton6_hex:
  "n < 16 ^ Suc k \<Longrightarrow> k < 4 \<Longrightarrow> val s = 0 \<Longrightarrow> seen_xdigits s = 0 \<Longrightarrow>
   length (percent_x n) \<le> Suc k \<and>
   pton6_loop (percent_x n @ src) cur s = pton6_loop src cur (s\<lparr>val := word_of_nat n, seen_xdigits := length (percent_x n)\<rparr>)"
proof (induction k arbitrary: n src)
  case 0
  then show ?case using pton6_digit [of n s] by (simp add: digits_1)
next
  case (Suc k)
  show ?case
  proof (cases "n < 16")
    case True
    then show ?thesis using Suc.prems pton6_digit [of n s] by (simp add: digits_1)
  next
    case False
    define v d where "v = n div 16" and "d = n mod 16"
    have n: "n = v * 16 + d" "d < 16" "0 < v" "v < 16 ^ Suc k" using False Suc.prems by (auto simp: v_def d_def)
    have "v < 16 ^ 3"
    proof -
      have "(16 :: nat) ^ Suc k \<le> 16 ^ 3" using Suc.prems(2) by (intro power_increasing) auto
      then show ?thesis using n(4) by linarith
    qed
    then have v: "v < 4096" by simp
    have hex: "percent_x n = percent_x v @ [digit d]" unfolding n(1) using n by (intro digits_snoc) simp_all
    have IH: "length (percent_x v) \<le> Suc k"
      "pton6_loop (percent_x v @ digit d # src) cur s =
       pton6_loop (digit d # src) cur (s\<lparr>val := word_of_nat v, seen_xdigits := length (percent_x v)\<rparr>)"
      using Suc.IH [of v "digit d # src"] Suc.prems n(4) by simp_all
    have "pton6_loop (percent_x n @ src) cur s = pton6_loop src cur (s\<lparr>val := word_of_nat n, seen_xdigits := length (percent_x n)\<rparr>)"
      unfolding hex using IH Suc.prems(2) n(2) push_digit [OF v n(2)]
      by (simp add: pton6_digit n(1) [symmetric] del: of_nat_add of_nat_mult pton6_loop.simps)
    then show ?thesis using IH(1) hex by simp
  qed
qed

text \<open>The bytes of a word, and the states with the bytes \<open>p\<close> so far and nothing or a word pending_word.\<close>

definition word_bytes :: "nat \<Rightarrow> byte list" where
  "word_bytes w = [word_of_nat (w div 256), word_of_nat (w mod 256)]"

definition fresh :: "byte list \<Rightarrow> nat option \<Rightarrow> pton6" where
  "fresh p c = \<lparr>tmp = p @ replicate (16 - length p) 0, tp = length p, colonp = c, seen_xdigits = 0, val = 0\<rparr>"

definition pending_word :: "byte list \<Rightarrow> nat option \<Rightarrow> nat \<Rightarrow> pton6" where
  "pending_word p c w = (fresh p c)\<lparr>val := word_of_nat w, seen_xdigits := length (percent_x w)\<rparr>"

lemma length_word_bytes [simp]: "length (word_bytes w) = 2"
  by (simp add: word_bytes_def)

lemma pton6_word:
  "w < 65536 \<Longrightarrow> pton6_loop (percent_x w @ src) cur (fresh p c) = pton6_loop src cur (pending_word p c w)"
  using pton6_hex [of w 3 "fresh p c" src cur] by (simp add: pending_word_def fresh_def)

lemma put_word_pending:
  assumes "w < 65536" and "length p \<le> 14"
  shows "(put_word (pending_word p c w))\<lparr>seen_xdigits := 0, val := 0\<rparr> = fresh (p @ word_bytes w) c"
    and "tmp (put_word (pending_word p c w)) = tmp (fresh (p @ word_bytes w) c)"
    and "tp (put_word (pending_word p c w)) = length p + 2" and "colonp (put_word (pending_word p c w)) = c"
proof -
  have un: "unat (word_of_nat w :: u32) = w" using assms(1) by simp
  have "ucast (drop_bit 8 (word_of_nat w :: u32)) AND 0xff = (word_of_nat (w div 256) :: byte)"
    "ucast (word_of_nat w :: u32) AND 0xff = (word_of_nat (w mod 256) :: byte)"
  proof -
    have ff: "(0xff :: byte) = - 1" by simp
    show "ucast (drop_bit 8 (word_of_nat w :: u32)) AND 0xff = (word_of_nat (w div 256) :: byte)"
      "ucast (word_of_nat w :: u32) AND 0xff = (word_of_nat (w mod 256) :: byte)"
      unfolding ff by (simp_all add: word_eq_iff_unat unat_ucast_mod unat_drop_bit un)
  qed
  moreover have "p @ replicate (16 - length p) 0 = p @ [0, 0] @ replicate (14 - length p) 0"
  proof -
    have "16 - length p = Suc (Suc (14 - length p))" using assms(2) by simp
    then show ?thesis by simp
  qed
  then have "(p @ replicate (16 - length p) 0)[length p := a, Suc (length p) := b] = p @ [a, b] @ replicate (14 - length p) 0" for a b :: byte
    by (simp add: list_update_append)
  ultimately show tm: "tmp (put_word (pending_word p c w)) = tmp (fresh (p @ word_bytes w) c)"
    by (simp add: put_word_def pending_word_def fresh_def word_bytes_def)
  then show "(put_word (pending_word p c w))\<lparr>seen_xdigits := 0, val := 0\<rparr> = fresh (p @ word_bytes w) c"
    by (intro pton6.equality) (simp_all add: put_word_def pending_word_def fresh_def)
qed (simp_all add: put_word_def pending_word_def fresh_def)

lemma pton6_colon:
  "w < 65536 \<Longrightarrow> length p \<le> 14 \<Longrightarrow> src \<noteq> [] \<Longrightarrow>
   pton6_loop (0x3a # src) cur (pending_word p c w) = pton6_loop src src (fresh (p @ word_bytes w) c)"
  using put_word_pending(1) [of w p c] by (simp add: Let_def) (simp add: pending_word_def fresh_def)

lemma pton6_double_colon:
  "pton6_loop (0x3a # src) cur (fresh p None) = pton6_loop src src (fresh p (Some (length p)))"
  by (simp add: Let_def) (simp add: fresh_def)

abbreviation groups :: "nat list \<Rightarrow> byte list" where
  "groups ws \<equiv> concat (map (\<lambda>w. 0x3a # percent_x w) ws)"

abbreviation all_bytes :: "nat list \<Rightarrow> byte list" where
  "all_bytes ws \<equiv> concat (map word_bytes ws)"

lemma pton6_groups:
  "\<forall>w\<in>set (w # ws). w < 65536 \<Longrightarrow> length p + 2 * length ws \<le> 14 \<Longrightarrow>
   \<exists>cur'. pton6_loop (groups ws @ src) cur (pending_word p c w) =
     pton6_loop src cur' (pending_word (p @ all_bytes (butlast (w # ws))) c (last (w # ws)))"
proof (induction ws arbitrary: w p cur)
  case Nil
  then show ?case by (intro exI [of _ cur]) simp
next
  case (Cons v vs)
  let ?rest = "percent_x v @ groups vs @ src"
  have "pton6_loop (groups (v # vs) @ src) cur (pending_word p c w) = pton6_loop ?rest ?rest (fresh (p @ word_bytes w) c)"
    using Cons.prems pton6_colon [of w p ?rest cur c] by simp
  also have "\<dots> = pton6_loop (groups vs @ src) ?rest (pending_word (p @ word_bytes w) c v)"
    by (rule pton6_word) (use Cons.prems in simp)
  finally have run: "pton6_loop (groups (v # vs) @ src) cur (pending_word p c w) =
      pton6_loop (groups vs @ src) ?rest (pending_word (p @ word_bytes w) c v)" .
  have "\<exists>cur'. pton6_loop (groups vs @ src) ?rest (pending_word (p @ word_bytes w) c v) =
      pton6_loop src cur' (pending_word ((p @ word_bytes w) @ all_bytes (butlast (v # vs))) c (last (v # vs)))"
    by (rule Cons.IH) (use Cons.prems in simp_all)
  then show ?case unfolding run by simp
qed

section \<open>The shift\<close>

lemma shift_loop_steps:
  assumes "length a = c" and "length b = n" and "c + n < 16" and "k \<le> n"
  shows "shift_loop k n c (a @ take k b @ replicate (16 - c - n) 0 @ drop k b) = a @ replicate (16 - c - n) 0 @ b"
  using assms(4)
proof (induction k)
  case (Suc k)
  let ?z = "16 - c - n" and ?l = "a @ take (Suc k) b @ replicate (16 - c - n) 0 @ drop (Suc k) b"
  obtain z where z: "?z = Suc z" using assms(3) by (cases ?z) auto
  have k: "k < length b" using Suc.prems assms(2) by simp
  have i: "16 - (n - k) = c + k + Suc z" "c + n - (n - k) = c + k" using Suc.prems assms z by linarith+
  have tk: "take (Suc k) b = take k b @ [b ! k]" using k by (simp add: take_Suc_conv_app_nth)
  have l: "?l = (a @ take k b) @ b ! k # (replicate z 0 @ 0 # drop (Suc k) b)"
    unfolding z tk by (simp add: replicate_append_same)
  have len: "length (a @ take k b) = c + k" using k assms(1) by simp
  have "?l ! (c + k) = b ! k" unfolding l using len by (metis nth_append_length)
  moreover have "?l[c + k + Suc z := b ! k] = (a @ take k b) @ b ! k # (replicate z 0 @ b ! k # drop (Suc k) b)"
    unfolding l list_update_append using len by (simp add: list_update_append)
  then have "?l[c + k + Suc z := b ! k, c + k := 0] = (a @ take k b) @ 0 # (replicate z 0 @ b ! k # drop (Suc k) b)"
    using len by (simp only: list_update_length [of "a @ take k b", unfolded len])
  moreover have "(a @ take k b) @ 0 # (replicate z 0 @ b ! k # drop (Suc k) b) = a @ take k b @ replicate ?z 0 @ drop k b"
    unfolding z using k by (simp add: Cons_nth_drop_Suc)
  ultimately show ?case using Suc.IH Suc.prems by (simp add: Let_def i)
qed simp

lemma shift_loop_eq:
  "length a + length b < 16 \<Longrightarrow> shift_loop (length b) (length b) (length a) (a @ b @ replicate (16 - (length a + length b)) 0) =
    a @ replicate (16 - (length a + length b)) 0 @ b"
  using shift_loop_steps [of a "length a" b "length b" "length b"] by simp

lemma length_all_bytes [simp]: "length (all_bytes ws) = 2 * length ws"
  by (induction ws) simp_all

lemma all_bytes_snoc: "ws \<noteq> [] \<Longrightarrow> all_bytes (butlast ws) @ word_bytes (last ws) = all_bytes ws"
  by (induction ws rule: rev_induct) simp_all

lemma finish_pending:
  assumes "w < 65536" and "length p \<le> 14"
  shows "pton6_finish (pending_word p c w) =
    (case c of None \<Rightarrow> if length p + 2 \<noteq> 16 then Inl UV_EINVAL else Inr (p @ word_bytes w)
     | Some c \<Rightarrow> if length p + 2 = 16 then Inl UV_EINVAL
         else Inr (shift_loop (length p + 2 - c) (length p + 2 - c) c (p @ word_bytes w @ replicate (14 - length p) 0)))"
proof -
  have "seen_xdigits (pending_word p c w) \<noteq> 0" "tp (pending_word p c w) = length p" by (simp_all add: pending_word_def fresh_def)
  moreover have "tmp (fresh (p @ word_bytes w) c) = p @ word_bytes w @ replicate (14 - length p) 0"
    by (simp add: fresh_def diff_diff_left [symmetric])
  ultimately show ?thesis
    using assms put_word_pending(2-4) [OF assms, of c] by (cases c) (simp_all add: pton6_finish_def Let_def)
qed

text \<open>A full address without a gap.\<close>

lemma pton6_full:
  assumes "length ws = 7" and "\<forall>w\<in>set (w # ws). w < 65536"
  shows "\<exists>s. pton6_loop (percent_x w @ groups ws) cur (fresh [] None) = Inr s \<and> pton6_finish s = Inr (all_bytes (w # ws))"
proof -
  define l p where "l = last (w # ws)" and "p = all_bytes (butlast (w # ws))"
  have "pton6_loop (percent_x w @ groups ws) cur (fresh [] None) = pton6_loop (groups ws @ []) cur (pending_word [] None w)"
    using pton6_word [of w] assms(2) by simp
  moreover obtain cur' where "pton6_loop (groups ws @ []) cur (pending_word [] None w) = pton6_loop [] cur' (pending_word p None l)"
    using pton6_groups [of w ws "[]" "[]" cur None] assms unfolding l_def p_def by auto
  ultimately have run: "pton6_loop (percent_x w @ groups ws) cur (fresh [] None) = Inr (pending_word p None l)" by simp
  have "l < 65536" using assms(2) last_in_set [of "w # ws"] unfolding l_def by blast
  moreover have "length p = 14" unfolding p_def length_all_bytes length_butlast using assms(1) by simp
  ultimately have "pton6_finish (pending_word p None l) = Inr (p @ word_bytes l)" using finish_pending [of l p None] by simp
  moreover have "p @ word_bytes l = all_bytes (w # ws)" unfolding p_def l_def by (rule all_bytes_snoc) simp
  ultimately show ?thesis using run by simp
qed

text \<open>What follows a gap: the words after it, or a colon if there is none.\<close>

lemma pton6_after_gap:
  assumes "length p + 2 * length ws < 16" and "\<forall>w\<in>set ws. w < 65536"
  shows "\<exists>s. pton6_loop (groups ws @ (if ws = [] then [0x3a] else [])) cur (fresh p None) = Inr s \<and>
    pton6_finish s = Inr (p @ replicate (16 - (length p + 2 * length ws)) 0 @ all_bytes ws)"
proof (cases ws)
  case Nil
  have "pton6_loop [0x3a] cur (fresh p None) = Inr (fresh p (Some (length p)))"
    using pton6_double_colon [of "[]" cur p] by simp
  moreover have "pton6_finish (fresh p (Some (length p))) = Inr (p @ replicate (16 - length p) 0)"
    using assms(1) Nil by (simp add: pton6_finish_def fresh_def)
  ultimately show ?thesis using Nil by simp
next
  case (Cons v vs)
  let ?l = "last (v # vs)" and ?b = "all_bytes (butlast (v # vs))" and ?c = "Some (length p)"
  have "pton6_loop (groups ws) cur (fresh p None) = pton6_loop (percent_x v @ groups vs) (percent_x v @ groups vs) (fresh p ?c)"
    using Cons pton6_double_colon [of "percent_x v @ groups vs" cur p] by simp
  also have "\<dots> = pton6_loop (groups vs @ []) (percent_x v @ groups vs) (pending_word p ?c v)"
    using pton6_word [of v] assms(2) Cons by simp
  also obtain cur' where "\<dots> = pton6_loop [] cur' (pending_word (p @ ?b) ?c ?l)"
    using pton6_groups [of v vs p "[]" _ ?c] assms Cons by fastforce
  finally have run: "pton6_loop (groups ws) cur (fresh p None) = Inr (pending_word (p @ ?b) ?c ?l)" by simp
  have "?l < 65536" using assms(2) Cons last_in_set [of "v # vs"] by blast
  moreover have len: "length (p @ ?b) + 2 = length p + 2 * length ws" "length (p @ ?b) \<le> 14" using assms(1) Cons by simp_all
  ultimately have "pton6_finish (pending_word (p @ ?b) ?c ?l) =
      Inr (shift_loop (length (p @ ?b) + 2 - length p) (length (p @ ?b) + 2 - length p) (length p)
        ((p @ ?b) @ word_bytes ?l @ replicate (14 - length (p @ ?b)) 0))"
    using finish_pending [of ?l "p @ ?b" ?c] assms(1) by simp
  also have "(p @ ?b) @ word_bytes ?l @ replicate (14 - length (p @ ?b)) 0 =
      p @ all_bytes ws @ replicate (16 - (length p + length (all_bytes ws))) 0"
  proof -
    have "14 - length (p @ ?b) = 16 - (length p + length (all_bytes ws))" using len by simp
    moreover have "?b @ word_bytes ?l = all_bytes ws" using all_bytes_snoc [of "v # vs"] Cons by simp
    ultimately show ?thesis by (metis append_assoc)
  qed
  also have "length (p @ ?b) + 2 - length p = length (all_bytes ws)" using len by simp
  also have "shift_loop (length (all_bytes ws)) (length (all_bytes ws)) (length p)
      (p @ all_bytes ws @ replicate (16 - (length p + length (all_bytes ws))) 0) =
      p @ replicate (16 - (length p + length (all_bytes ws))) 0 @ all_bytes ws"
    by (rule shift_loop_eq) (use assms(1) in simp)
  finally show ?thesis using run Cons by simp
qed

text \<open>An IPv4 address at the end.\<close>

lemma pton6_dotted:
  assumes ns: "length ns = 4" "\<forall>n\<in>set ns. n < 256" and p: "length p < 12"
  shows "\<exists>s. pton6_loop (dotted ns) (dotted ns) (fresh p (Some 0)) = Inr s \<and>
    pton6_finish s = Inr (replicate (12 - length p) 0 @ p @ map word_of_nat ns)"
proof -
  obtain a as where a: "ns = a # as" "as \<noteq> []" using ns(1) by (cases ns; cases "tl ns") auto
  obtain ds where ds: "percent_u a = map digit ds" "\<forall>d\<in>set ds. d < 10" using digits_digit [of 10 a] by auto
  have "length ds \<le> 3" using length_percent_u [of a] ns(2) a ds(1) by simp
  moreover have "\<forall>d\<in>set ds. d < 16" using ds(2) by auto
  ultimately obtain v where v: "pton6_loop (map digit ds @ 0x2e # dotted as) (dotted ns) (fresh p (Some 0)) =
      pton6_loop (0x2e # dotted as) (dotted ns) ((fresh p (Some 0))\<lparr>val := v, seen_xdigits := seen_xdigits (fresh p (Some 0)) + length ds\<rparr>)"
    using pton6_digits [of ds "fresh p (Some 0)" "0x2e # dotted as" "dotted ns"] by (auto simp: fresh_def)
  have pton4: "inet_pton4 (dotted ns) = Inr (map word_of_nat ns)" using inet_pton4_iff ns by blast
  define s where "s = \<lparr>tmp = p @ map word_of_nat ns @ replicate (12 - length p) 0, tp = length p + 4, colonp = Some 0, seen_xdigits = 0, val = v\<rparr>"
  have "dotted ns = map digit ds @ 0x2e # dotted as" using a ds(1) by (simp add: dotted_Cons)
  then have run: "pton6_loop (dotted ns) (dotted ns) (fresh p (Some 0)) = Inr s"
    using v p pton4 ns(1) by (simp add: fresh_def s_def drop_replicate)
  have "p @ map word_of_nat ns @ replicate (12 - length p) 0 =
      [] @ (p @ map word_of_nat ns) @ replicate (16 - (length ([] :: byte list) + length (p @ map word_of_nat ns))) (0 :: byte)"
    using ns(1) by simp
  then have "pton6_finish s = Inr (shift_loop (length (p @ map word_of_nat ns)) (length (p @ map word_of_nat ns)) (length ([] :: byte list))
      ([] @ (p @ map word_of_nat ns) @ replicate (16 - (length ([] :: byte list) + length (p @ map word_of_nat ns))) 0))"
    using p ns(1) by (simp add: pton6_finish_def s_def)
  also have "\<dots> = Inr (replicate (12 - length p) 0 @ p @ map word_of_nat ns)"
    by (subst shift_loop_eq) (use p ns(1) in simp_all)
  finally show ?thesis using run by blast
qed

section \<open>The run of zeros\<close>

definition is_run :: "u32 list \<Rightarrow> nat \<Rightarrow> run \<Rightarrow> bool" where
  "is_run ws n r \<longleftrightarrow> 0 \<le> fst r \<and> 1 \<le> snd r \<and> fst r + snd r \<le> int n \<and>
     (\<forall>j. fst r \<le> int j \<and> int j < fst r + snd r \<longrightarrow> ws ! j = 0)"

lemma is_run_extend:
  "is_run ws n r \<Longrightarrow> fst r + snd r = int n \<Longrightarrow> ws ! n = 0 \<Longrightarrow> is_run ws (Suc n) (fst r, snd r + 1)"
proof -
  assume r: "is_run ws n r" "fst r + snd r = int n" "ws ! n = 0"
  have "ws ! j = 0" if "fst r \<le> int j" "int j < fst r + (snd r + 1)" for j
  proof (cases "j = n")
    case False
    then have "int j < fst r + snd r" using that r(2) by linarith
    then show ?thesis using r(1) that(1) by (simp add: is_run_def)
  qed (simp add: r(3))
  then show ?thesis using r by (auto simp: is_run_def)
qed

lemma longest_run_sound:
  "ws = pre @ rest \<Longrightarrow> fst best = - 1 \<or> is_run ws (length pre) best \<Longrightarrow>
   fst cur = - 1 \<or> is_run ws (length pre) cur \<and> fst cur + snd cur = int (length pre) \<Longrightarrow>
   longest_run rest (int (length pre)) best cur = r \<Longrightarrow>
   fst r = - 1 \<or> is_run ws (length ws) r \<and> 2 \<le> snd r"
proof (induction rest arbitrary: pre best cur)
  case Nil
  then show ?case by (auto simp: Let_def split: if_splits)
next
  case (Cons w rest)
  have weak: "is_run ws (Suc (length pre)) x" if "is_run ws (length pre) x" for x using that by (auto simp: is_run_def)
  have step: "fst r = - 1 \<or> is_run ws (length ws) r \<and> 2 \<le> snd r"
    if "fst b = - 1 \<or> is_run ws (Suc (length pre)) b" "fst c = - 1 \<or> is_run ws (Suc (length pre)) c \<and> fst c + snd c = int (Suc (length pre))"
      "longest_run rest (int (length pre) + 1) b c = r" for b c
    by (rule Cons.IH [of "pre @ [w]" b c]) (use that Cons.prems(1) in \<open>simp_all add: add.commute\<close>)
  show ?case
  proof (cases "w = 0")
    case True
    have nth: "ws ! length pre = 0" using Cons.prems(1) True by simp
    have "is_run ws (Suc (length pre)) (int (length pre), 1)" using nth by (auto simp: is_run_def)
    moreover have "is_run ws (Suc (length pre)) (fst cur, snd cur + 1)" if "fst cur \<noteq> - 1"
      using is_run_extend that Cons.prems(3) nth by blast
    ultimately show ?thesis
      by (intro step [of best "if fst cur = - 1 then (int (length pre), 1) else (fst cur, snd cur + 1)"])
        (use Cons.prems True weak [of best] in auto)
  next
    case False
    show ?thesis
      by (rule step [of "if fst cur \<noteq> - 1 \<and> (fst best = - 1 \<or> snd cur > snd best) then cur else best" "if fst cur \<noteq> - 1 then (- 1, snd cur) else cur"])
        (use Cons.prems False weak [of best] weak [of cur] in \<open>auto split: if_splits\<close>)
  qed
qed

lemma address_run:
  assumes "longest_run ws 0 (- 1, 0) (- 1, 0) = r"
  shows "fst r = - 1 \<or> (\<exists>b l. r = (int b, int l) \<and> 2 \<le> l \<and> b + l \<le> length ws \<and> (\<forall>j. b \<le> j \<and> j < b + l \<longrightarrow> ws ! j = 0))"
proof (cases "fst r = - 1")
  case False
  then have run: "is_run ws (length ws) r" "2 \<le> snd r" using longest_run_sound [of ws "[]" ws "(- 1, 0)" "(- 1, 0)" r] assms by auto
  have r: "r = (int (nat (fst r)), int (nat (snd r)))" using run by (simp add: is_run_def prod_eq_iff)
  have "\<forall>j. nat (fst r) \<le> j \<and> j < nat (fst r) + nat (snd r) \<longrightarrow> ws ! j = 0"
  proof (intro allI impI)
    fix j assume "nat (fst r) \<le> j \<and> j < nat (fst r) + nat (snd r)"
    then have "fst r \<le> int j \<and> int j < fst r + snd r" using run by (auto simp: is_run_def)
    then show "ws ! j = 0" using run by (auto simp: is_run_def)
  qed
  moreover have "nat (fst r) + nat (snd r) \<le> length ws" "2 \<le> nat (snd r)" using run by (auto simp: is_run_def)
  ultimately show ?thesis using r by blast
qed simp

section \<open>Printing IPv6 addresses\<close>

lemma words_nth: "i < 8 \<Longrightarrow> unat (address_words src ! i) = 256 * unat (src ! (2 * i)) + unat (src ! (2 * i + 1))"
proof -
  assume "i < 8"
  then have "address_words src ! i = push_bit 8 (ucast (src ! (2 * i))) OR ucast (src ! (2 * i + 1))"
    by (simp add: address_words_def)
  also have "unat \<dots> = 256 * unat (src ! (2 * i)) + unat (src ! (2 * i + 1))"
  proof -
    have "256 * unat a + unat b < 65536" for a b :: byte using byte_less [of a] byte_less [of b] by linarith
    then have "256 * unat a + unat b < 2 ^ 32" for a b :: byte by (rule less_trans) simp
    then show ?thesis by (subst unat_push_or) (simp_all add: mult.commute)
  qed
  finally show ?thesis .
qed

lemma word_small: "i < 8 \<Longrightarrow> unat (address_words src ! i) < 65536"
  using words_nth [of i src] byte_less [of "src ! (2 * i)"] byte_less [of "src ! (2 * i + 1)"] by linarith

lemma length_words [simp]: "length (address_words src) = 8"
  by (simp add: address_words_def)

lemma all_bytes_words:
  assumes "length src = 16"
  shows "all_bytes (map unat (address_words src)) = src"
proof -
  have wb: "word_bytes (unat (address_words src ! i)) = [src ! (2 * i), src ! (2 * i + 1)]" if "i < 8" for i
    using byte_less [of "src ! (2 * i + 1)"]
    by (simp add: words_nth [OF that] word_bytes_def div_mult_self2 mod_mult_self2 del: of_nat_add of_nat_mult)
  have "all_bytes (map unat (address_words src)) = concat (map (\<lambda>i. word_bytes (unat (address_words src ! i))) [0..<8])"
    by (subst map_nth [symmetric]) (simp add: comp_def)
  also have "\<dots> = concat (map (\<lambda>i. [src ! (2 * i), src ! (2 * i + 1)]) [0..<8])"
    by (intro arg_cong [of _ _ concat] map_cong) (simp_all add: wb)
  also have "\<dots> = map ((!) src) [0..<16]" by (simp add: upt_rec numeral_eq_Suc)
  also have "\<dots> = src" using map_nth [of src] assms by simp
  finally show ?thesis .
qed

text \<open>The loop after the run, in it and before it.\<close>

definition no_dots :: "u32 list \<Rightarrow> run \<Rightarrow> bool" where
  "no_dots ws r \<longleftrightarrow> \<not> (fst r = 0 \<and> (snd r = 6 \<or> snd r = 7 \<and> ws ! 7 \<noteq> 1 \<or> snd r = 5 \<and> ws ! 5 = 0xffff))"

lemma loop_after:
  "fst r = - 1 \<or> fst r + snd r \<le> int i \<Longrightarrow> no_dots ws r \<or> 6 < i \<Longrightarrow> 0 < i \<Longrightarrow> i \<le> 8 \<Longrightarrow> length ws = 8 \<Longrightarrow>
   ntop6_loop src ws r i out = Inr (out @ groups (map unat (drop i ws)))"
proof (induction "8 - i" arbitrary: i out)
  case 0
  then show ?case by (subst ntop6_loop.simps) simp
next
  case (Suc k)
  then have i: "i < 8" "k = 8 - Suc i" by simp_all
  have "ntop6_loop src ws r i out = ntop6_loop src ws r (Suc i) ((out @ [0x3a]) @ percent_x (unat (ws ! i)))"
    using Suc.prems i by (subst ntop6_loop.simps) (auto simp: no_dots_def)
  also have "\<dots> = Inr (((out @ [0x3a]) @ percent_x (unat (ws ! i))) @ groups (map unat (drop (Suc i) ws)))"
    by (rule Suc.hyps(1) [OF i(2)]) (use Suc.prems i in auto)
  also have "drop i ws = ws ! i # drop (Suc i) ws" using Suc.prems i by (simp add: Cons_nth_drop_Suc)
  then have "((out @ [0x3a]) @ percent_x (unat (ws ! i))) @ groups (map unat (drop (Suc i) ws)) = out @ groups (map unat (drop i ws))"
    by simp
  finally show ?case .
qed

lemma loop_in_run:
  "b \<le> i \<Longrightarrow> i < b + l \<Longrightarrow> b + l \<le> 8 \<Longrightarrow>
   ntop6_loop src ws (int b, int l) i out = ntop6_loop src ws (int b, int l) (b + l) (if i = b then out @ [0x3a] else out)"
proof (induction "b + l - i" arbitrary: i out)
  case (Suc k)
  have step: "ntop6_loop src ws (int b, int l) i out =
      ntop6_loop src ws (int b, int l) (Suc i) (if i = b then out @ [0x3a] else out)"
    using Suc.prems by (subst ntop6_loop.simps) simp
  show ?case
  proof (cases "Suc i = b + l")
    case True
    then show ?thesis unfolding step by simp
  next
    case False
    have "ntop6_loop src ws (int b, int l) (Suc i) out = ntop6_loop src ws (int b, int l) (b + l) (if Suc i = b then out @ [0x3a] else out)" for out
      by (rule Suc.hyps(1)) (use Suc False in auto)
    then show ?thesis unfolding step using Suc.prems by simp
  qed
qed simp

lemma loop_before:
  "0 < i \<Longrightarrow> i \<le> b \<Longrightarrow> b + l \<le> 8 \<Longrightarrow> length ws = 8 \<Longrightarrow>
   ntop6_loop src ws (int b, int l) i out = ntop6_loop src ws (int b, int l) b (out @ groups (map unat (take (b - i) (drop i ws))))"
proof (induction "b - i" arbitrary: i out)
  case (Suc k)
  then have less: "i < b" "k = b - Suc i" by simp_all
  have "ntop6_loop src ws (int b, int l) i out = ntop6_loop src ws (int b, int l) (Suc i) ((out @ [0x3a]) @ percent_x (unat (ws ! i)))"
    using Suc.prems(1,3) less(1) by (subst ntop6_loop.simps) (simp add: Let_def)
  also have "\<dots> = ntop6_loop src ws (int b, int l) b (((out @ [0x3a]) @ percent_x (unat (ws ! i))) @ groups (map unat (take (b - Suc i) (drop (Suc i) ws))))"
    by (rule Suc.hyps(1)) (use Suc.prems less in simp_all)
  also have "take (b - i) (drop i ws) = ws ! i # take (b - Suc i) (drop (Suc i) ws)"
  proof -
    have "b - i = Suc (b - Suc i)" "drop i ws = ws ! i # drop (Suc i) ws"
      using less Suc.prems(3,4) by (simp_all add: Cons_nth_drop_Suc)
    then show ?thesis by (simp only: take_Suc_Cons)
  qed
  then have "((out @ [0x3a]) @ percent_x (unat (ws ! i))) @ groups (map unat (take (b - Suc i) (drop (Suc i) ws))) =
      out @ groups (map unat (take (b - i) (drop i ws)))" by simp
  finally show ?case .
qed simp

section \<open>From the text back to the address\<close>

lemma fresh_start: "\<lparr>tmp = replicate 16 0, tp = 0, colonp = None, seen_xdigits = 0, val = 0\<rparr> = fresh [] None"
  by (simp add: fresh_def)

lemma pton6_starts:
  "src \<noteq> [] \<Longrightarrow> hd src \<noteq> 0x3a \<Longrightarrow> pton6_loop src src (fresh [] None) = Inr s \<Longrightarrow> pton6_finish s = Inr bs \<Longrightarrow> inet_pton6 src = Inr bs"
  "pton6_loop (0x3a # src) (0x3a # src) (fresh [] None) = Inr s \<Longrightarrow> pton6_finish s = Inr bs \<Longrightarrow> inet_pton6 (0x3a # 0x3a # src) = Inr bs"
  by (simp_all add: inet_pton6_def fresh_start Let_def del: pton6_loop.simps)

definition address_chars :: "byte set" where
  "address_chars = {0x3a, 0x2e} \<union> digit ` {..<16}"

lemma digits_chars: "2 \<le> b \<Longrightarrow> b \<le> 16 \<Longrightarrow> set (digits b n) \<subseteq> address_chars"
  using digits_digit [of b n] by (fastforce simp: address_chars_def)

lemma colon_char [simp]: "0x3a \<in> address_chars" "0x2e \<in> address_chars"
  by (simp_all add: address_chars_def)

lemma digit_char: "d < 16 \<Longrightarrow> 48 \<le> unat (digit d) \<and> unat (digit d) \<le> 102"
  using unat_digit [of d] by (cases "d < 10") simp_all

lemma address_chars_not: "0 \<notin> address_chars" "0x25 \<notin> address_chars"
  using digit_char by (fastforce simp: address_chars_def word_eq_iff_unat)+

lemma hd_hex: "hd (percent_x n) \<noteq> 0x3a"
proof -
  obtain ds where ds: "percent_x n = map digit ds" "ds \<noteq> []" "\<forall>d\<in>set ds. d < 16" using digits_digit [of 16 n] by auto
  have "hd ds < 16" using ds(2,3) by simp
  then have "unat (digit (hd ds)) \<noteq> 58"
    using unat_digit [of "hd ds"] by (cases "hd ds < 10") simp_all
  then show ?thesis using ds by (auto simp: hd_map)
qed

lemma groups_chars: "set (groups ws) \<subseteq> address_chars"
  using digits_chars [of 16] by (induction ws) auto

lemma dotted_chars: "set (dotted ns) \<subseteq> address_chars"
  using digits_chars [of 10] by (induction ns rule: dotted.induct) auto

lemma length_hex: "w < 65536 \<Longrightarrow> length (percent_x w) \<le> 4"
  using pton6_hex [of w 3 "fresh [] None"] by (simp add: fresh_def)

lemma length_groups: "\<forall>w\<in>set ws. w < 65536 \<Longrightarrow> length (groups ws) \<le> 5 * length ws"
proof (induction ws)
  case (Cons w ws)
  then show ?case using length_hex [of w] by simp
qed simp

lemma all_bytes_zeros: "all_bytes (replicate l 0) = replicate (2 * l) 0"
  by (induction l) (simp_all add: word_bytes_def)

text \<open>An address with a gap of \<open>l\<close> zero words after the words \<open>xs\<close>.\<close>

lemma pton6_gap:
  assumes "w # xs @ replicate l 0 @ ys = ws" and "length ws = 8" and "2 \<le> l" and "\<forall>w\<in>set ws. w < 65536"
  shows "inet_pton6 (percent_x w @ groups xs @ 0x3a # groups ys @ (if ys = [] then [0x3a] else [])) = Inr (all_bytes ws)"
proof -
  let ?tail = "groups ys @ (if ys = [] then [0x3a] else [])"
  let ?src = "percent_x w @ groups xs @ 0x3a # ?tail"
  have start: "?src \<noteq> []" "hd ?src \<noteq> 0x3a" using hd_hex [of w] by simp_all
  have small: "\<forall>v\<in>set (w # xs). v < 65536" "\<forall>v\<in>set ys. v < 65536" "length (w # xs) + l + length ys = 8"
    using assms by auto
  define q where "q = all_bytes (butlast (w # xs))"
  define v where "v = last (w # xs)"
  have lq: "length q = 2 * length xs" by (simp only: q_def length_all_bytes length_butlast) simp
  have "pton6_loop ?src ?src (fresh [] None) = pton6_loop (groups xs @ 0x3a # ?tail) ?src (pending_word [] None w)"
    by (rule pton6_word) (use small in simp)
  also obtain cur where "\<dots> = pton6_loop (0x3a # ?tail) cur (pending_word ([] @ q) None v)"
    using pton6_groups [of w xs "[]" "0x3a # ?tail" ?src None] small assms(3) unfolding q_def v_def by auto
  also have "\<dots> = pton6_loop ?tail ?tail (fresh (([] @ q) @ word_bytes v) None)"
  proof (rule pton6_colon)
    show "v < 65536" using small(1) last_in_set [of "w # xs"] unfolding v_def by blast
    show "length ([] @ q) \<le> 14" using lq small(3) assms(3) by simp
  qed simp
  also have "([] @ q) @ word_bytes v = all_bytes (w # xs)" unfolding q_def v_def using all_bytes_snoc [of "w # xs"] by simp
  finally have run: "pton6_loop ?src ?src (fresh [] None) = pton6_loop ?tail ?tail (fresh (all_bytes (w # xs)) None)" .
  obtain s where s: "pton6_loop ?tail ?tail (fresh (all_bytes (w # xs)) None) = Inr s"
    "pton6_finish s = Inr (all_bytes (w # xs) @ replicate (16 - (length (all_bytes (w # xs)) + 2 * length ys)) 0 @ all_bytes ys)"
    using pton6_after_gap [of "all_bytes (w # xs)" ys ?tail] small assms(3) by auto
  have loop: "pton6_loop ?src ?src (fresh [] None) = Inr s" using run s(1) by simp
  have "16 - (length (all_bytes (w # xs)) + 2 * length ys) = 2 * l" using small(3) by (simp only: length_all_bytes)
  then have "pton6_finish s = Inr (all_bytes ws)" using s(2) assms(1) all_bytes_zeros [of l] by auto
  with start loop show ?thesis using pton6_starts(1) [of ?src s "all_bytes ws"] by simp
qed

lemma pton6_gap_first:
  assumes "replicate l 0 @ ys = ws" and "length ws = 8" and "2 \<le> l" and "\<forall>w\<in>set ws. w < 65536"
  shows "inet_pton6 (0x3a # groups ys @ (if ys = [] then [0x3a] else [])) = Inr (all_bytes ws)"
proof -
  let ?tail = "groups ys @ (if ys = [] then [0x3a] else [])"
  have small: "\<forall>v\<in>set ys. v < 65536" "l + length ys = 8" using assms by auto
  obtain s where s: "pton6_loop ?tail ?tail (fresh [] None) = Inr s"
    "pton6_finish s = Inr ([] @ replicate (16 - (length ([] :: byte list) + 2 * length ys)) 0 @ all_bytes ys)"
    using pton6_after_gap [of "[]" ys ?tail] small assms(3) by auto
  have "16 - (length ([] :: byte list) + 2 * length ys) = 2 * l" using small(2) by simp
  then have "pton6_finish s = Inr (all_bytes ws)" using s(2) assms(1) all_bytes_zeros [of l] by auto
  moreover have "?tail = 0x3a # tl ?tail" by (cases ys) simp_all
  ultimately show ?thesis using pton6_starts(2) [of "tl ?tail" s] s(1) by metis
qed

lemma pton6_embedded:
  assumes "length ns = 4" and "\<forall>n\<in>set ns. n < 256"
  shows "inet_pton6 (0x3a # 0x3a # dotted ns) = Inr (replicate 12 0 @ map word_of_nat ns)"
    and "inet_pton6 (0x3a # 0x3a # percent_x 65535 @ 0x3a # dotted ns) = Inr (replicate 10 0 @ [0xff, 0xff] @ map word_of_nat ns)"
proof -
  obtain s where s: "pton6_loop (dotted ns) (dotted ns) (fresh [] (Some 0)) = Inr s"
    "pton6_finish s = Inr (replicate 12 0 @ map word_of_nat ns)"
    using pton6_dotted [OF assms, of "[]"] by auto
  then show "inet_pton6 (0x3a # 0x3a # dotted ns) = Inr (replicate 12 0 @ map word_of_nat ns)"
    using pton6_starts(2) [of "dotted ns" s] pton6_double_colon [of "dotted ns" "0x3a # dotted ns" "[]"] by simp
  let ?rest = "percent_x 65535 @ 0x3a # dotted ns"
  have ff: "word_bytes 65535 = [0xff, 0xff]" by (simp add: word_bytes_def)
  have ne: "dotted ns \<noteq> []" using assms(1) by (cases ns rule: dotted.cases) auto
  have "pton6_loop (0x3a # ?rest) (0x3a # ?rest) (fresh [] None) = pton6_loop ?rest ?rest (fresh [] (Some 0))"
    using pton6_double_colon [of ?rest _ "[]"] by simp
  also have "\<dots> = pton6_loop (0x3a # dotted ns) ?rest (pending_word [] (Some 0) 65535)" by (rule pton6_word) simp
  also have "\<dots> = pton6_loop (dotted ns) (dotted ns) (fresh ([] @ word_bytes 65535) (Some 0))"
    by (rule pton6_colon) (use ne in simp_all)
  finally have run: "pton6_loop (0x3a # ?rest) (0x3a # ?rest) (fresh [] None) =
      pton6_loop (dotted ns) (dotted ns) (fresh [0xff, 0xff] (Some 0))" by (simp add: ff)
  obtain s2 where s2: "pton6_loop (dotted ns) (dotted ns) (fresh [0xff, 0xff] (Some 0)) = Inr s2"
    "pton6_finish s2 = Inr (replicate 10 0 @ [0xff, 0xff] @ map word_of_nat ns)"
    using pton6_dotted [OF assms, of "[0xff, 0xff]"] by auto
  show "inet_pton6 (0x3a # 0x3a # ?rest) = Inr (replicate 10 0 @ [0xff, 0xff] @ map word_of_nat ns)"
    by (rule pton6_starts(2) [OF run [unfolded s2(1)] s2(2)])
qed


section \<open>The text of an address\<close>

lemma ntop4_embedded:
  assumes "length src = 16" and "length out \<le> 20"
  shows "\<exists>d. inet_ntop4 (drop 12 src) (46 - word_of_nat (length out)) = Inr (dotted (map unat (drop 12 src)) @ [0])"
proof -
  have len: "length (drop 12 src) = 4" using assms(1) by simp
  then have tk: "take 4 (drop 12 src) = drop 12 src" by simp
  have un: "unat (46 - word_of_nat (length out) :: u64) = 46 - length out"
  proof -
    have "word_of_nat (length out) \<le> (46 :: u64)" using assms(2) by (simp add: word_le_nat_alt)
    then show ?thesis using assms(2) by (simp add: unat_sub)
  qed
  have "length (dotted (map unat (drop 12 src))) \<le> 15" using inet_ntop4_eq(2) [of "drop 12 src"] len tk by simp
  then show ?thesis using inet_ntop4_eq(1) [of "drop 12 src" "46 - word_of_nat (length out)"] len tk un assms(2)
    by (simp add: Let_def)
qed

definition text_of :: "byte list \<Rightarrow> run \<Rightarrow> byte list \<Rightarrow> bool" where
  "text_of src r str \<longleftrightarrow>
     (\<exists>t. ntop6_loop src (address_words src) r 0 [] = Inr t \<and>
        str = (if fst r \<noteq> - 1 \<and> fst r + snd r = 8 then t @ [0x3a] else t)) \<and>
     inet_pton6 str = Inr src \<and> set str \<subseteq> address_chars \<and> length str \<le> 45"

lemma text_no_gap:
  assumes "length src = 16" and "fst r = - 1"
  shows "\<exists>str. text_of src r str"
proof -
  let ?ws = "address_words src" and ?W = "map unat (address_words src)"
  have W: "?W = unat (?ws ! 0) # map unat (drop 1 ?ws)"
    using Cons_nth_drop_Suc [of 0 ?ws] by (simp flip: list.map(2))
  have small: "\<forall>w\<in>set ?W. w < 65536" using word_small [of _ src] by (auto simp: in_set_conv_nth)
  let ?str = "percent_x (unat (?ws ! 0)) @ groups (map unat (drop 1 ?ws))"
  have "ntop6_loop src ?ws r 0 [] = ntop6_loop src ?ws r 1 (percent_x (unat (?ws ! 0)))"
    using assms(2) by (subst ntop6_loop.simps) simp
  also have "\<dots> = Inr ?str" by (rule loop_after) (use assms(2) in \<open>simp_all add: no_dots_def\<close>)
  finally have run: "ntop6_loop src ?ws r 0 [] = Inr ?str" .
  have "length (map unat (drop 1 ?ws)) = 7" by simp
  then obtain s where "pton6_loop ?str ?str (fresh [] None) = Inr s" "pton6_finish s = Inr (all_bytes ?W)"
    using pton6_full [of "map unat (drop 1 ?ws)" "unat (?ws ! 0)" ?str] small W by metis
  then have "inet_pton6 ?str = Inr src"
    using pton6_starts(1) [of ?str s] hd_hex [of "unat (?ws ! 0)"] all_bytes_words [OF assms(1)] by simp
  moreover have "set ?str \<subseteq> address_chars" unfolding set_append by (intro Un_least digits_chars groups_chars) simp_all
  moreover have "length ?str \<le> 45"
    using length_hex [of "unat (?ws ! 0)"] length_groups [of "map unat (drop 1 ?ws)"] small unfolding W by simp
  ultimately show ?thesis using run assms(2) by (intro exI [of _ ?str]) (simp add: text_of_def)
qed

lemma text_gap:
  assumes src: "length src = 16" and b: "0 < b" and l: "2 \<le> l" "b + l \<le> 8"
    and zeros: "\<forall>j. b \<le> j \<and> j < b + l \<longrightarrow> address_words src ! j = 0"
  shows "\<exists>str. text_of src (int b, int l) str"
proof -
  let ?ws = "address_words src" and ?W = "map unat (address_words src)" and ?r = "(int b, int l)"
  define w xs ys where "w = unat (?ws ! 0)" and "xs = map unat (take (b - 1) (drop 1 ?ws))" and "ys = map unat (drop (b + l) ?ws)"
  have small: "\<forall>w\<in>set ?W. w < 65536" using word_small [of _ src] by (auto simp: in_set_conv_nth)
  have eq: "?ws = ?ws ! 0 # take (b - 1) (drop 1 ?ws) @ replicate l 0 @ drop (b + l) ?ws"
  proof (rule nth_equalityI)
    fix i assume "i < length ?ws"
    then show "?ws ! i = (?ws ! 0 # take (b - 1) (drop 1 ?ws) @ replicate l 0 @ drop (b + l) ?ws) ! i"
    proof (cases "b \<le> i \<and> i < b + l")
      case True
      then have "?ws ! i = 0" using zeros by blast
      then show ?thesis using True b l by (cases i) (auto simp: nth_append)
    next
      case False
      then show ?thesis using \<open>i < length ?ws\<close> b l by (cases i) (auto simp: nth_append)
    qed
  qed (use b l in simp)
  have "map unat (?ws ! 0 # take (b - 1) (drop 1 ?ws) @ replicate l 0 @ drop (b + l) ?ws) = ?W"
    by (rule arg_cong [OF eq [symmetric]])
  then have W: "w # xs @ replicate l 0 @ ys = ?W" by (simp add: w_def xs_def ys_def)
  have ys: "ys = [] \<longleftrightarrow> b + l = 8" using l(2) by (auto simp: ys_def)
  let ?t = "((percent_x w @ groups xs) @ [0x3a]) @ groups ys"
  have "ntop6_loop src ?ws ?r 0 [] = ntop6_loop src ?ws ?r 1 (percent_x w)"
    using b by (subst ntop6_loop.simps) (simp add: w_def)
  also have "\<dots> = ntop6_loop src ?ws ?r b (percent_x w @ groups xs)"
    unfolding xs_def by (rule loop_before) (use b l in simp_all)
  also have "\<dots> = ntop6_loop src ?ws ?r (b + l) ((percent_x w @ groups xs) @ [0x3a])"
    using loop_in_run [of b b l src ?ws "percent_x w @ groups xs"] l by simp
  also have "\<dots> = Inr ?t" unfolding ys_def by (rule loop_after) (use b l in \<open>simp_all add: no_dots_def\<close>)
  finally have run: "ntop6_loop src ?ws ?r 0 [] = Inr ?t" .
  let ?str = "percent_x w @ groups xs @ 0x3a # groups ys @ (if ys = [] then [0x3a] else [])"
  have "inet_pton6 ?str = Inr src"
    using pton6_gap [OF W _ l(1) small] all_bytes_words [OF src] by simp
  moreover have "set ?str \<subseteq> address_chars" unfolding set_append list.set(2)
    by (intro Un_least insert_subsetI digits_chars groups_chars) auto
  moreover have "length ?str \<le> 45"
  proof -
    have "length xs + length ys \<le> 5" using b l by (simp add: xs_def ys_def)
    moreover have "length (percent_x w) \<le> 4" "length (groups xs) \<le> 5 * length xs" "length (groups ys) \<le> 5 * length ys"
      using small unfolding W [symmetric] by (auto intro!: length_hex length_groups)
    ultimately show ?thesis by simp
  qed
  moreover have "?str = (if b + l = 8 then ?t @ [0x3a] else ?t)" using ys by simp
  moreover have "int b + int l = 8 \<longleftrightarrow> b + l = 8" by linarith
  ultimately show ?thesis using run by (intro exI [of _ ?str]) (simp add: text_of_def)
qed


lemma text_gap_first:
  assumes src: "length src = 16" and l: "2 \<le> l" "l \<le> 8" and dots: "no_dots (address_words src) (0, int l) \<or> l = 7"
    and zeros: "\<forall>j<l. address_words src ! j = 0"
  shows "\<exists>str. text_of src (0, int l) str"
proof -
  let ?ws = "address_words src" and ?W = "map unat (address_words src)" and ?r = "(0, int l)"
  define ys where "ys = map unat (drop l ?ws)"
  have small: "\<forall>w\<in>set ?W. w < 65536" using word_small [of _ src] by (auto simp: in_set_conv_nth)
  have eq: "?ws = replicate l 0 @ drop l ?ws"
    by (rule nth_equalityI) (use l zeros in \<open>auto simp: nth_append\<close>)
  have "map unat (replicate l 0 @ drop l ?ws) = ?W" by (rule arg_cong [OF eq [symmetric]])
  then have W: "replicate l 0 @ ys = ?W" by (simp add: ys_def)
  have ys: "ys = [] \<longleftrightarrow> l = 8" using l(2) by (auto simp: ys_def)
  let ?t = "[0x3a] @ groups ys"
  have "ntop6_loop src ?ws ?r 0 [] = ntop6_loop src ?ws ?r l [0x3a]"
    using loop_in_run [of 0 0 l src ?ws "[]"] l by simp
  also have "\<dots> = Inr ?t" unfolding ys_def by (rule loop_after) (use l dots in auto)
  finally have run: "ntop6_loop src ?ws ?r 0 [] = Inr ?t" .
  let ?str = "0x3a # groups ys @ (if ys = [] then [0x3a] else [])"
  have "inet_pton6 ?str = Inr src"
    using pton6_gap_first [OF W _ l(1) small] all_bytes_words [OF src] by simp
  moreover have "set ?str \<subseteq> address_chars" using groups_chars [of ys] by auto
  moreover have "length ?str \<le> 45"
  proof -
    have "length (groups ys) \<le> 5 * length ys" using small unfolding W [symmetric] by (auto intro!: length_groups)
    moreover have "length ys \<le> 6" using l by (simp add: ys_def)
    ultimately show ?thesis by simp
  qed
  moreover have "?str = (if l = 8 then ?t @ [0x3a] else ?t)" using ys by simp
  ultimately show ?thesis using run by (intro exI [of _ ?str]) (simp add: text_of_def)
qed

lemma text_embedded:
  assumes src: "length src = 16" and l: "l = 6 \<or> l = 5 \<and> address_words src ! 5 = 0xffff"
    and zeros: "\<forall>j<l. address_words src ! j = 0"
  shows "\<exists>str. text_of src (0, int l) str"
proof -
  let ?ws = "address_words src" and ?r = "(0, int l)" and ?d = "dotted (map unat (drop 12 src))"
  have d: "length (map unat (drop 12 src)) = 4" "\<forall>n\<in>set (map unat (drop 12 src)). n < 256" using src by auto
  have unmap: "map word_of_nat (map unat (drop 12 src)) = drop 12 src" by (simp add: comp_def)
  have dlen: "length ?d \<le> 15" using inet_ntop4_eq(2) [of "drop 12 src"] src by simp
  have to_gap: "ntop6_loop src ?ws ?r 0 [] = ntop6_loop src ?ws ?r l [0x3a]"
    using loop_in_run [of 0 0 l src ?ws "[]"] l by auto
  have at_six: "ntop6_loop src ?ws ?r 6 out = Inr (out @ 0x3a # ?d)" if "length out \<le> 19" for out
  proof -
    have "inet_ntop4 (drop 12 src) (46 - word_of_nat (length (out @ [0x3a]))) = Inr (?d @ [0])"
      using ntop4_embedded [OF src, of "out @ [0x3a]"] that by simp
    then show ?thesis using l by (subst ntop6_loop.simps) auto
  qed
  have all: "all_bytes (map unat ?ws) = src" by (rule all_bytes_words [OF src])
  from l show ?thesis
  proof
    assume l6: "l = 6"
    have eq: "?ws = replicate 6 0 @ drop 6 ?ws"
      by (rule nth_equalityI) (use l6 zeros in \<open>auto simp: nth_append\<close>)
    have "map unat (replicate 6 0 @ drop 6 ?ws) = map unat ?ws" by (rule arg_cong [OF eq [symmetric]])
    then have "map unat ?ws = replicate 6 0 @ map unat (drop 6 ?ws)" by simp
    then have "src = replicate 12 0 @ all_bytes (map unat (drop 6 ?ws))" using all all_bytes_zeros [of 6] by simp
    then have bytes: "replicate 12 0 @ drop 12 src = src" by (metis append_eq_conv_conj length_replicate)
    have "inet_pton6 (0x3a # 0x3a # ?d) = Inr src" using pton6_embedded(1) [OF d] bytes unfolding unmap by simp
    moreover have "ntop6_loop src ?ws ?r 0 [] = Inr (0x3a # 0x3a # ?d)" using to_gap at_six [of "[0x3a]"] l6 by simp
    ultimately show ?thesis using dlen dotted_chars [of "map unat (drop 12 src)"] l6
      by (intro exI [of _ "0x3a # 0x3a # ?d"]) (simp add: text_of_def)
  next
    assume l5: "l = 5 \<and> ?ws ! 5 = 0xffff"
    have eq: "?ws = replicate 5 0 @ [0xffff] @ drop 6 ?ws"
    proof (rule nth_equalityI)
      fix i assume "i < length ?ws"
      then consider "i < 5" | "i = 5" | "6 \<le> i" "i < 8" by fastforce
      then show "?ws ! i = (replicate 5 0 @ [0xffff] @ drop 6 ?ws) ! i"
        by cases (use l5 zeros in \<open>auto simp: nth_append nth_Cons'\<close>)
    qed simp
    have "map unat (replicate 5 0 @ [0xffff] @ drop 6 ?ws) = map unat ?ws" by (rule arg_cong [OF eq [symmetric]])
    then have "map unat ?ws = replicate 5 0 @ [65535] @ map unat (drop 6 ?ws)" by simp
    then have "src = replicate 10 0 @ [0xff, 0xff] @ all_bytes (map unat (drop 6 ?ws))"
      using all all_bytes_zeros [of 5] by (simp add: word_bytes_def)
    then have "src = (replicate 10 0 @ [0xff, 0xff]) @ all_bytes (map unat (drop 6 ?ws))" by simp
    moreover have "length (replicate 10 0 @ [0xff, 0xff] :: byte list) = 12" by simp
    ultimately have "(replicate 10 0 @ [0xff, 0xff]) @ drop 12 src = src" by (metis append_eq_conv_conj)
    then have bytes: "replicate 10 0 @ [0xff, 0xff] @ drop 12 src = src" by simp
    have hex: "percent_x 65535 = [0x66, 0x66, 0x66, 0x66]" by (simp add: digits.simps digit_def)
    have "inet_pton6 (0x3a # 0x3a # percent_x 65535 @ 0x3a # ?d) = Inr src"
      using pton6_embedded(2) [OF d] bytes unfolding unmap by simp
    moreover have "ntop6_loop src ?ws ?r 5 [0x3a] = ntop6_loop src ?ws ?r 6 ([0x3a, 0x3a] @ percent_x 65535)"
      using l5 by (subst ntop6_loop.simps) simp
    then have "ntop6_loop src ?ws ?r 0 [] = Inr (0x3a # 0x3a # percent_x 65535 @ 0x3a # ?d)"
      using to_gap at_six [of "[0x3a, 0x3a] @ percent_x 65535"] l5 by (simp add: hex)
    ultimately show ?thesis using dlen dotted_chars [of "map unat (drop 12 src)"] l5 digits_chars [of 16 65535]
      by (intro exI [of _ "0x3a # 0x3a # percent_x 65535 @ 0x3a # ?d"]) (simp add: text_of_def hex)
  qed
qed

lemma inet_ntop6_text:
  assumes "length src = 16"
  shows "\<exists>str. (\<forall>n. inet_ntop6 src n = (if length str < unat n then Inr (str @ [0]) else if n = 0 then Inr [] else Inl UV_ENOSPC)) \<and>
    inet_pton6 str = Inr src \<and> set str \<subseteq> address_chars \<and> length str \<le> 45"
proof -
  define r where "r = longest_run (address_words src) 0 (- 1, 0) (- 1, 0)"
  have "\<exists>str. text_of src r str"
  proof (cases "fst r = - 1")
    case True
    then show ?thesis using text_no_gap [OF assms] by blast
  next
    case False
    then obtain b l where r: "r = (int b, int l)" "2 \<le> l" "b + l \<le> 8" "\<forall>j. b \<le> j \<and> j < b + l \<longrightarrow> address_words src ! j = 0"
      using address_run [OF r_def [symmetric]] by auto
    show ?thesis
    proof (cases "b = 0")
      case True
      then show ?thesis using text_embedded [OF assms, of l] text_gap_first [OF assms, of l] r by (auto simp: no_dots_def)
    qed (use text_gap [OF assms _ r(2-4)] r(1) in simp)
  qed
  then obtain str t where t: "ntop6_loop src (address_words src) r 0 [] = Inr t"
    "str = (if fst r \<noteq> - 1 \<and> fst r + snd r = 8 then t @ [0x3a] else t)"
    "inet_pton6 str = Inr src" "set str \<subseteq> address_chars" "length str \<le> 45" unfolding text_of_def by blast
  have "0 \<notin> set str" "length str < 2 ^ 63" using t(4,5) address_chars_not by auto
  note copy = uv__strscpy_eq [OF this]
  have "inet_ntop6 src n = (if length str < unat n then Inr (str @ [0]) else if n = 0 then Inr [] else Inl UV_ENOSPC)" for n
    unfolding inet_ntop6_def Let_def r_def [symmetric] t(1) sum.case t(2) [symmetric] copy
    by (simp add: UV_E2BIG_def)
  then show ?thesis using t(3-5) by blast
qed

section \<open>Socket addresses\<close>

text \<open>
  \<open>htons\<close> on a little-endian machine swaps the two bytes; \<open>if_nametoindex\<close> is a call of the system,
  so a parameter.
\<close>

record sockaddr_in =
  sin_len :: byte
  sin_family :: int
  sin_port :: u16
  sin_addr :: "byte list"

record sockaddr_in6 =
  sin6_len :: byte
  sin6_family :: int
  sin6_port :: u16
  sin6_addr :: "byte list"
  sin6_scope_id :: u32

definition htons :: "int \<Rightarrow> u16" where
  "htons port = (let w = word_of_int port in push_bit 8 w OR drop_bit 8 w)"

definition uv_ip4_addr :: "byte list \<Rightarrow> int \<Rightarrow> int \<times> sockaddr_in" where
  "uv_ip4_addr ip port =
     (let addr = \<lparr>sin_len = 16, sin_family = AF_INET, sin_port = htons port, sin_addr = replicate 4 0\<rparr>
      in case uv_inet_pton AF_INET ip of
           Inl err \<Rightarrow> (err, addr)
         | Inr bs \<Rightarrow> (0, addr\<lparr>sin_addr := bs\<rparr>))"

definition uv_ip6_addr :: "(byte list \<Rightarrow> u32) \<Rightarrow> byte list \<Rightarrow> int \<Rightarrow> int \<times> sockaddr_in6" where
  "uv_ip6_addr if_nametoindex ip port =
     (let addr = \<lparr>sin6_len = 28, sin6_family = AF_INET6, sin6_port = htons port, sin6_addr = replicate 16 0, sin6_scope_id = 0\<rparr>;
          (ip, addr) =
            (case strchr ip 0x25 of
               Some address_part_size \<Rightarrow>
                 let k = (if address_part_size \<ge> 40 then 39 else address_part_size)
                 in (take k ip, addr\<lparr>sin6_scope_id := if_nametoindex (drop (address_part_size + 1) ip)\<rparr>)
             | None \<Rightarrow> (ip, addr))
      in case uv_inet_pton AF_INET6 ip of
           Inl err \<Rightarrow> (err, addr)
         | Inr bs \<Rightarrow> (0, addr\<lparr>sin6_addr := bs\<rparr>))"

definition uv_ip4_name :: "sockaddr_in \<Rightarrow> u64 \<Rightarrow> int + byte list" where
  "uv_ip4_name src = uv_inet_ntop AF_INET (sin_addr src)"

definition uv_ip6_name :: "sockaddr_in6 \<Rightarrow> u64 \<Rightarrow> int + byte list" where
  "uv_ip6_name src = uv_inet_ntop AF_INET6 (sin6_addr src)"

lemma strchr_None: "ch \<notin> set xs \<Longrightarrow> strchr xs ch = None"
  by (induction xs) auto

lemma strchr_found: "ch \<notin> set xs \<Longrightarrow> strchr (xs @ ch # ys) ch = Some (length xs)"
  by (induction xs) auto

text \<open>A full address that ends with an IPv4 address.\<close>

lemma pton6_dotted_end:
  assumes ns: "length ns = 4" "\<forall>n\<in>set ns. n < 256" and p: "length p = 12"
  shows "\<exists>s. pton6_loop (dotted ns) (dotted ns) (fresh p None) = Inr s \<and> pton6_finish s = Inr (p @ map word_of_nat ns)"
proof -
  obtain a as where a: "ns = a # as" "as \<noteq> []" using ns(1) by (cases ns; cases "tl ns") auto
  obtain ds where ds: "percent_u a = map digit ds" "\<forall>d\<in>set ds. d < 10" using digits_digit [of 10 a] by auto
  have "length ds \<le> 3" using length_percent_u [of a] ns(2) a ds(1) by simp
  moreover have "\<forall>d\<in>set ds. d < 16" using ds(2) by auto
  ultimately obtain v where v: "pton6_loop (map digit ds @ 0x2e # dotted as) (dotted ns) (fresh p None) =
      pton6_loop (0x2e # dotted as) (dotted ns) ((fresh p None)\<lparr>val := v, seen_xdigits := seen_xdigits (fresh p None) + length ds\<rparr>)"
    using pton6_digits [of ds "fresh p None" "0x2e # dotted as" "dotted ns"] by (auto simp: fresh_def)
  have pton4: "inet_pton4 (dotted ns) = Inr (map word_of_nat ns)" using inet_pton4_iff ns by blast
  define s where "s = \<lparr>tmp = p @ map word_of_nat ns, tp = 16, colonp = None, seen_xdigits = 0, val = v\<rparr>"
  have "dotted ns = map digit ds @ 0x2e # dotted as" using a ds(1) by (simp add: dotted_Cons)
  then have "pton6_loop (dotted ns) (dotted ns) (fresh p None) = Inr s"
    using v p pton4 ns(1) by (simp add: fresh_def s_def drop_replicate)
  moreover have "pton6_finish s = Inr (p @ map word_of_nat ns)" by (simp add: pton6_finish_def s_def)
  ultimately show ?thesis by blast
qed

lemma pton6_mixed:
  assumes "length ws = 5" and "\<forall>v\<in>set (w # ws). v < 65536" and ns: "length ns = 4" "\<forall>n\<in>set ns. n < 256"
  shows "inet_pton6 (percent_x w @ groups ws @ 0x3a # dotted ns) = Inr (all_bytes (w # ws) @ map word_of_nat ns)"
proof -
  let ?src = "percent_x w @ groups ws @ 0x3a # dotted ns"
  define l p where "l = last (w # ws)" and "p = all_bytes (butlast (w # ws))"
  have p: "p @ word_bytes l = all_bytes (w # ws)" unfolding p_def l_def by (rule all_bytes_snoc) simp
  have lp: "length p = 10" unfolding p_def length_all_bytes length_butlast using assms(1) by simp
  have l: "l < 65536" using assms(2) last_in_set [of "w # ws"] unfolding l_def by blast
  have "dotted ns \<noteq> []" using ns(1) by (cases ns rule: dotted.cases) auto
  have "pton6_loop ?src ?src (fresh [] None) = pton6_loop (groups ws @ 0x3a # dotted ns) ?src (pending_word [] None w)"
    by (rule pton6_word) (use assms(2) in simp)
  also obtain cur where "\<dots> = pton6_loop (0x3a # dotted ns) cur (pending_word p None l)"
    using pton6_groups [of w ws "[]" "0x3a # dotted ns" ?src None] assms(1,2) unfolding p_def l_def by auto
  also have "\<dots> = pton6_loop (dotted ns) (dotted ns) (fresh (p @ word_bytes l) None)"
    by (rule pton6_colon) (use l lp \<open>dotted ns \<noteq> []\<close> in simp_all)
  finally have run: "pton6_loop ?src ?src (fresh [] None) = pton6_loop (dotted ns) (dotted ns) (fresh (all_bytes (w # ws)) None)"
    by (simp only: p)
  obtain s where "pton6_loop (dotted ns) (dotted ns) (fresh (all_bytes (w # ws)) None) = Inr s"
    "pton6_finish s = Inr (all_bytes (w # ws) @ map word_of_nat ns)"
    using pton6_dotted_end [OF ns, of "all_bytes (w # ws)"] assms(1) by auto
  moreover have "?src \<noteq> []" "hd ?src \<noteq> 0x3a" using hd_hex [of w] by simp_all
  ultimately show ?thesis using pton6_starts(1) [of ?src s] run by metis
qed

section \<open>Properties\<close>

text \<open>C34 (inet_pton4_exact): an IPv4 address is accepted exactly if it is four decimal numbers below 256 with dots between
  them and without leading zeros, and the result is the four bytes; everything else gives \<open>UV_EINVAL\<close>.\<close>

theorem inet_pton4_exact:
  "(uv_inet_pton AF_INET s = Inr bs \<longleftrightarrow>
      (\<exists>ns. length ns = 4 \<and> (\<forall>n\<in>set ns. n < 256) \<and> s = dotted ns \<and> bs = map word_of_nat ns)) \<and>
   (uv_inet_pton AF_INET s = Inl e \<longleftrightarrow>
      e = UV_EINVAL \<and> (\<nexists>ns. length ns = 4 \<and> (\<forall>n\<in>set ns. n < 256) \<and> s = dotted ns))"
proof (cases "inet_pton4 s")
  case (Inl e')
  then have "e' = UV_EINVAL" "\<nexists>ns. length ns = 4 \<and> (\<forall>n\<in>set ns. n < 256) \<and> s = dotted ns"
    using pton4_errors [of s False 0 "[0]" e'] inet_pton4_iff [of s] by (auto simp: inet_pton4_def)
  then show ?thesis using Inl by (auto simp: uv_inet_pton_def)
next
  case (Inr bs')
  then have "\<exists>ns. length ns = 4 \<and> (\<forall>n\<in>set ns. n < 256) \<and> s = dotted ns \<and> bs' = map word_of_nat ns"
    using inet_pton4_iff by blast
  then show ?thesis using Inr inet_pton4_iff [of s bs] by (auto simp: uv_inet_pton_def)
qed

lemma inet_pton4_exact_witness:
  "uv_inet_pton AF_INET (dotted [192, 168, 0, 1]) = Inr [192, 168, 0, 1]"
  using inet_pton4_exact [of "dotted [192, 168, 0, 1]" "[192, 168, 0, 1]"] by (simp add: exI [of _ "[192, 168, 0, 1]"])

text \<open>C9 (inet_roundtrip): every address is printed into a buffer of 46 bytes, as a terminated string that has no \<open>%\<close> and
  no byte 0 in it, and what was printed reads back as the same address: for IPv4 and for IPv6, whatever run of zeros
  is cut out, at the beginning, in the middle or at the end, and with an IPv4 address at the end of it.\<close>

theorem inet_roundtrip:
  assumes "af = AF_INET \<and> length src = 4 \<or> af = AF_INET6 \<and> length src = 16" and "46 \<le> unat n"
  shows "\<exists>str. uv_inet_ntop af src n = Inr (str @ [0]) \<and> uv_inet_pton af str = Inr src \<and>
    0 \<notin> set str \<and> 0x25 \<notin> set str \<and> length str \<le> 45"
  using assms(1)
proof
  assume v4: "af = AF_INET \<and> length src = 4"
  let ?str = "dotted (map unat src)"
  have str: "inet_ntop4 src n = Inr (?str @ [0])" "length ?str \<le> 15" "0 \<notin> set ?str"
    using inet_ntop4_eq [of src] v4 assms(2) by (simp_all add: Let_def)
  have "inet_pton4 ?str = Inr (map word_of_nat (map unat src))" unfolding inet_pton4_iff using v4 by (intro exI [of _ "map unat src"]) auto
  moreover have "map word_of_nat (map unat src) = src" by (simp add: comp_def)
  moreover have "0x25 \<notin> set ?str" using dotted_chars address_chars_not by blast
  ultimately show ?thesis using str v4 by (intro exI [of _ ?str]) (simp add: uv_inet_ntop_def uv_inet_pton_def)
next
  assume v6: "af = AF_INET6 \<and> length src = 16"
  then obtain str where str: "\<forall>n. inet_ntop6 src n = (if length str < unat n then Inr (str @ [0]) else if n = 0 then Inr [] else Inl UV_ENOSPC)"
    "inet_pton6 str = Inr src" "set str \<subseteq> address_chars" "length str \<le> 45" using inet_ntop6_text by blast
  have not: "0 \<notin> set str" "0x25 \<notin> set str" using str(3) address_chars_not by auto
  have "strchr str 0x25 = None" using not(2) by (rule strchr_None)
  moreover have "AF_INET6 \<noteq> AF_INET" by (simp add: AF_INET_def AF_INET6_def)
  moreover have "length str < unat n" using str(4) assms(2) by simp
  ultimately show ?thesis using str not v6 by (intro exI [of _ str]) (simp add: uv_inet_ntop_def uv_inet_pton_def)
qed

lemma inet_roundtrip_witness:
  "\<exists>str. uv_inet_ntop AF_INET6 (replicate 10 0 @ [0xff, 0xff, 10, 0, 0, 1]) 46 = Inr (str @ [0]) \<and>
     uv_inet_pton AF_INET6 str = Inr (replicate 10 0 @ [0xff, 0xff, 10, 0, 0, 1])"
proof -
  have "length (replicate 10 0 @ [0xff, 0xff, 10, 0, 0, 1] :: byte list) = 16" "46 \<le> unat (46 :: u64)" by simp_all
  then show ?thesis using inet_roundtrip [of AF_INET6 "replicate 10 0 @ [0xff, 0xff, 10, 0, 0, 1]" 46] by blast
qed

text \<open>An IPv6 address that does not fit gives \<open>UV_ENOSPC\<close>, but a buffer of size 0 gives
  success, with nothing written to it and so no terminated string, while IPv4 reports the error for size 0 as well.\<close>

theorem inet_ntop6_empty_buffer:
  assumes "length src = 16"
  shows "uv_inet_ntop AF_INET6 src 0 = Inr [] \<and> uv_inet_ntop AF_INET (take 4 src) 0 = Inl UV_ENOSPC \<and>
    uv_inet_ntop AF_INET6 src 1 = Inl UV_ENOSPC"
proof -
  from assms obtain str where str: "\<forall>n. inet_ntop6 src n = (if length str < unat n then Inr (str @ [0]) else if n = 0 then Inr [] else Inl UV_ENOSPC)"
    "inet_pton6 str = Inr src" using inet_ntop6_text by blast
  have "str \<noteq> []"
  proof
    assume "str = []"
    then have "inet_pton6 [] = Inr src" using str(2) by simp
    then show False by (simp add: inet_pton6_def pton6_finish_def)
  qed
  then have "\<not> length str < unat (1 :: u64)" by (cases str) simp_all
  then have "inet_ntop6 src 1 = Inl UV_ENOSPC" "inet_ntop6 src 0 = Inr []" using str(1) by simp_all
  moreover have "inet_ntop4 (take 4 src) 0 = Inl UV_ENOSPC" using inet_ntop4_eq(1) [of "take 4 src" 0] assms by simp
  moreover have "AF_INET6 \<noteq> AF_INET" by (simp add: AF_INET_def AF_INET6_def)
  ultimately show ?thesis by (simp add: uv_inet_ntop_def)
qed

lemma inet_ntop6_empty_buffer_witness:
  "uv_inet_ntop AF_INET6 (replicate 16 1) 0 = Inr []"
  using inet_ntop6_empty_buffer [of "replicate 16 1"] by simp

text \<open>C35 (ip6_zone_truncated): an IPv6 address with a zone is cut to its first 39 characters before it is read, because the
  copy has 40 bytes where a textual address can have 45. So an address of 40 characters or more is
  not rejected: if its first 39 characters are an address, the result is that other address.\<close>

theorem ip6_zone_truncated:
  assumes "0x25 \<notin> set t" and "inet_pton6 (take 39 t) = Inr bs"
  shows "uv_ip6_addr ifn (t @ 0x25 # zone) port =
    (0, \<lparr>sin6_len = 28, sin6_family = AF_INET6, sin6_port = htons port, sin6_addr = bs, sin6_scope_id = ifn zone\<rparr>)"
proof -
  have "take (if length t \<ge> 40 then 39 else length t) (t @ 0x25 # zone) = take 39 t" by simp
  moreover have "strchr (take 39 t) 0x25 = None" using assms(1) set_take_subset [of 39 t] by (intro strchr_None) blast
  moreover have "AF_INET6 \<noteq> AF_INET" by (simp add: AF_INET_def AF_INET6_def)
  ultimately show ?thesis
    using strchr_found [OF assms(1), of zone] assms(2) by (simp add: uv_ip6_addr_def uv_inet_pton_def Let_def)
qed

lemma ip6_zone_truncated_witness:
  "sin6_addr (snd (uv_ip6_addr (\<lambda>_. 1) ((percent_x 65535 @ groups ([65535, 65535, 65535, 65535, 65535]) @ 0x3a # dotted [1, 1, 10, 100]) @ 0x25 # [0x6c, 0x6f]) 80)) =
     [0xff, 0xff, 0xff, 0xff, 0xff, 0xff, 0xff, 0xff, 0xff, 0xff, 0xff, 0xff] @ [1, 1, 10, 10] \<and>
   sin6_addr (snd (uv_ip6_addr (\<lambda>_. 1) (percent_x 65535 @ groups ([65535, 65535, 65535, 65535, 65535]) @ 0x3a # dotted [1, 1, 10, 100]) 80)) =
     [0xff, 0xff, 0xff, 0xff, 0xff, 0xff, 0xff, 0xff, 0xff, 0xff, 0xff, 0xff] @ [1, 1, 10, 100]"
proof -
  let ?t = "\<lambda>n. percent_x 65535 @ groups ([65535, 65535, 65535, 65535, 65535]) @ 0x3a # dotted [1, 1, 10, n]"
  have d: "percent_x 65535 = [0x66, 0x66, 0x66, 0x66]" "percent_u 1 = [0x31]" "percent_u 10 = [0x31, 0x30]" "percent_u 100 = [0x31, 0x30, 0x30]"
    by (simp_all add: digits.simps digit_def)
  have "all_bytes [65535, 65535, 65535, 65535, 65535, 65535] = [0xff, 0xff, 0xff, 0xff, 0xff, 0xff, 0xff, 0xff, 0xff, 0xff, 0xff, 0xff]" by (simp add: word_bytes_def)
  then have parse: "inet_pton6 (?t n) = Inr ([0xff, 0xff, 0xff, 0xff, 0xff, 0xff, 0xff, 0xff, 0xff, 0xff, 0xff, 0xff] @ [1, 1, 10, word_of_nat n])" if "n < 256" for n
    using pton6_mixed [of "[65535, 65535, 65535, 65535, 65535]" 65535 "[1, 1, 10, n]"] that by simp
  have out: "0x25 \<notin> set (?t 100)" unfolding dotted.simps d by (simp add: d)
  have "take 39 (?t 100) = ?t 10" unfolding dotted.simps d by (simp add: d)
  then have "inet_pton6 (take 39 (?t 100)) = Inr ([0xff, 0xff, 0xff, 0xff, 0xff, 0xff, 0xff, 0xff, 0xff, 0xff, 0xff, 0xff] @ [1, 1, 10, 10])" using parse [of 10] by simp
  from ip6_zone_truncated [OF out this, of "\<lambda>_. 1" "[0x6c, 0x6f]" 80] strchr_None [OF out] parse [of 100]
  show ?thesis by (simp add: uv_ip6_addr_def uv_inet_pton_def AF_INET_def AF_INET6_def)
qed

end
