(* ===== verification/Punycode.thy ===== *)
theory Punycode
  imports Prelude
begin

text \<open>
  Punycode as in RFC 3492, on natural numbers: the generalized variable-length integers, the bias
  adaptation and the decoder of section 6.2, with the parameters of section 5. The decoder is the
  reference for the encoder in libuv, which is written in another way.
\<close>

section \<open>The decoder of RFC 3492\<close>

definition rfc_threshold :: "nat \<Rightarrow> nat \<Rightarrow> nat" where
  "rfc_threshold k bi = (if k \<le> bi + 1 then 1 else if bi + 26 \<le> k then 26 else k - bi)"

fun rfc_integer :: "nat \<Rightarrow> nat \<Rightarrow> nat list \<Rightarrow> (nat \<times> nat list) option" where
  "rfc_integer bi k [] = None"
| "rfc_integer bi k (d # ds) =
     (if d < rfc_threshold k bi then Some (d, ds)
      else
        (case rfc_integer bi (k + 36) ds of
           None \<Rightarrow> None
         | Some (v, rest) \<Rightarrow> Some (d + (36 - rfc_threshold k bi) * v, rest)))"

fun rfc_adapt_loop :: "nat \<Rightarrow> nat \<Rightarrow> nat" where
  "rfc_adapt_loop k dl = (if 455 < dl then rfc_adapt_loop (k + 36) (dl div 35) else k + 36 * dl div (dl + 38))"

declare rfc_adapt_loop.simps [simp del]

definition rfc_adapt :: "nat \<Rightarrow> nat \<Rightarrow> bool \<Rightarrow> nat" where
  "rfc_adapt dl points initial =
     (let dl = (if initial then dl div 700 else dl div 2) in rfc_adapt_loop 0 (dl + dl div points))"

lemma rfc_integer_shorter: "rfc_integer bi k ds = Some (v, rest) \<Longrightarrow> length rest < length ds"
  by (induction ds arbitrary: k v) (fastforce split: if_splits option.splits)+

function rfc_decode_loop :: "nat \<Rightarrow> nat \<Rightarrow> nat \<Rightarrow> nat list \<Rightarrow> nat list \<Rightarrow> nat list option" where
  "rfc_decode_loop lo i bi text ds =
     (if ds = [] then Some text
      else
        (case rfc_integer bi 36 ds of
           None \<Rightarrow> None
         | Some (v, rest) \<Rightarrow>
             let points = length text + 1; lo' = lo + (i + v) div points; pos = (i + v) mod points
             in rfc_decode_loop lo' (pos + 1) (rfc_adapt v points (i = 0)) (take pos text @ lo' # drop pos text) rest))"
  by pat_completeness auto
termination
  by (relation "measure (\<lambda>(lo, i, bi, text, ds). length ds)") (auto dest: rfc_integer_shorter)

declare rfc_decode_loop.simps [simp del]

definition rfc_digit :: "byte \<Rightarrow> nat option" where
  "rfc_digit c =
     (if 97 \<le> unat c \<and> unat c \<le> 122 then Some (unat c - 97)
      else if 65 \<le> unat c \<and> unat c \<le> 90 then Some (unat c - 65)
      else if 48 \<le> unat c \<and> unat c \<le> 57 then Some (unat c - 22)
      else None)"

primrec rfc_digits :: "byte list \<Rightarrow> nat list option" where
  "rfc_digits [] = Some []"
| "rfc_digits (c # cs) =
     (case rfc_digit c of None \<Rightarrow> None | Some d \<Rightarrow> map_option ((#) d) (rfc_digits cs))"

text \<open>The basic code points are those before the last delimiter, if there are any.\<close>

definition before_last :: "byte \<Rightarrow> byte list \<Rightarrow> byte list" where
  "before_last x bs = butlast (rev (dropWhile (\<lambda>c. c \<noteq> x) (rev bs)))"

definition rfc_decode :: "byte list \<Rightarrow> nat list option" where
  "rfc_decode bs =
     (let basic = before_last 0x2d bs;
          extended = (if basic = [] then bs else drop (length basic + 1) bs)
      in if (\<forall>c\<in>set basic. unat c < 128) then
           (case rfc_digits extended of
              None \<Rightarrow> None
            | Some ds \<Rightarrow> rfc_decode_loop 128 0 72 (map unat basic) ds)
         else None)"

text \<open>The decoder at work on the German word for books, with its second letter after the others.\<close>

lemma rfc_decode_example:
  "rfc_decode [0x62, 0x63, 0x68, 0x65, 0x72, 0x2d, 0x6b, 0x76, 0x61] = Some [0x62, 0xfc, 0x63, 0x68, 0x65, 0x72]"
  by (simp add: rfc_decode_def before_last_def rfc_digit_def rfc_decode_loop.simps rfc_adapt_def
      rfc_adapt_loop.simps rfc_threshold_def Let_def)

section \<open>Encoding integers\<close>

lemma rfc_threshold_bounds: "1 \<le> rfc_threshold k bi" "rfc_threshold k bi \<le> 26"
  by (auto simp: rfc_threshold_def)

function rfc_encode_integer :: "nat \<Rightarrow> nat \<Rightarrow> nat \<Rightarrow> nat list" where
  "rfc_encode_integer bi k q =
     (let t = rfc_threshold k bi in
      if q < t then [q]
      else (t + (q - t) mod (36 - t)) # rfc_encode_integer bi (k + 36) ((q - t) div (36 - t)))"

  by pat_completeness auto
termination
proof (relation "measure (\<lambda>(bi, k, q). q)", goal_cases)
  case (2 bi k q t)
  have "1 \<le> t" unfolding 2(1) by (rule rfc_threshold_bounds)
  moreover have "(q - t) div (36 - t) \<le> q - t" by (rule div_le_dividend)
  ultimately have "(q - t) div (36 - t) < q" using 2(2) by linarith
  then show ?case by simp
qed simp

declare rfc_encode_integer.simps [simp del]

lemma rfc_integer_encode: "rfc_integer bi k (rfc_encode_integer bi k q @ rest) = Some (q, rest)"
proof (induction bi k q rule: rfc_encode_integer.induct)
  case (1 bi k q)
  define t where "t = rfc_threshold k bi"
  show ?case
  proof (cases "q < t")
    case False
    have "t + (q - t) mod (36 - t) + (36 - t) * ((q - t) div (36 - t)) = q"
      using False by simp
    moreover have "rfc_integer bi (k + 36) (rfc_encode_integer bi (k + 36) ((q - t) div (36 - t)) @ rest) =
      Some ((q - t) div (36 - t), rest)"
      using 1 False by (simp add: t_def)
    ultimately show ?thesis using False
      by (simp add: rfc_encode_integer.simps [of bi k q] flip: t_def)
  qed (simp add: rfc_encode_integer.simps [of bi k q] t_def)
qed

lemma rfc_encode_integer_digits: "\<forall>d\<in>set (rfc_encode_integer bi k q). d < 36"
proof (induction bi k q rule: rfc_encode_integer.induct)
  case (1 bi k q)
  define t where "t = rfc_threshold k bi"
  have t: "1 \<le> t" "t \<le> 26" unfolding t_def by (rule rfc_threshold_bounds)+
  have "(q - t) mod (36 - t) < 36 - t" using t by simp
  then have "t + (q - t) mod (36 - t) < 36" by linarith
  then show ?case using 1 t rfc_encode_integer.simps [of bi k q] by (auto simp: Let_def simp flip: t_def)
qed

end
