(* ===== verification/UV_Idna.thy ===== *)
theory UV_Idna
  imports Unicode UV_Errno Punycode "HOL-Library.Monad_Syntax"
begin

unbundle bit_operations_syntax

text \<open>
  The conversion of internationalised host names in libuv's \<open>src/idna.c\<close>, and what
  \<open>uv_getaddrinfo\<close> (\<open>src/unix/getaddrinfo.c\<close>) does with its result: the UTF-8 decoder, the loops
  over code points, the Punycode encoder of a label and the splitting at full stops. Integers are
  \<open>unsigned\<close> words of 32 bits. The labels of the theorems have at most 3854 code points, for which
  the counter \<open>delta\<close> cannot overflow; a name on the wire has at most 253 bytes.
\<close>

section \<open>Reading code points\<close>

text \<open>
  The bytes of the object that holds the string, with its terminator; pointers are indices. A
  function gives \<open>None\<close> if it reads outside the object (or if a loop of it does not end).
\<close>

definition rd :: "byte list \<Rightarrow> nat \<Rightarrow> u32 option" where
  "rd mem p = (if p < length mem then Some (ucast (mem ! p)) else None)"

text \<open>The tests and the value at the end of \<open>uv__utf8_decode1_slow\<close>; \<open>-1\<close> is an invalid sequence.\<close>

definition decode_tail :: "u32 \<Rightarrow> u32 \<Rightarrow> u32 \<Rightarrow> u32 \<Rightarrow> u32 \<Rightarrow> u32" where
  "decode_tail lo a b c d =
     (if 0x80 \<noteq> 0xC0 AND (b XOR c XOR d) then - 1
      else
        let b = b AND 63; c = c AND 63; d = d AND 63;
            a = push_bit 18 a OR push_bit 12 b OR push_bit 6 c OR d
        in if a < lo then - 1
           else if a > 0x10FFFF then - 1
           else if a \<ge> 0xD800 \<and> a \<le> 0xDFFF then - 1
           else a)"

text \<open>The \<open>switch\<close> with its fall-through: a case is reached from its label and from the cases above.\<close>

definition uv__utf8_decode1_slow :: "byte list \<Rightarrow> nat \<Rightarrow> nat \<Rightarrow> u32 \<Rightarrow> (u32 \<times> nat) option" where
  "uv__utf8_decode1_slow mem p pe a =
     (if a > 0xF7 then Some (- 1, p)
      else
        let left = int p - int pe in
        if left \<noteq> 2 \<and> left \<noteq> 1 \<and> a > 0xEF then do {
          b \<leftarrow> rd mem p; c \<leftarrow> rd mem (p + 1); d \<leftarrow> rd mem (p + 2);
          Some (decode_tail 0x10000 (a AND 7) b c d, p + 3)
        }
        else if left \<noteq> 1 \<and> a > 0xDF then do {
          c \<leftarrow> rd mem p; d \<leftarrow> rd mem (p + 1);
          Some (decode_tail 0x800 0 (0x80 OR (a AND 15)) c d, p + 2)
        }
        else if a > 0xBF then do {
          d \<leftarrow> rd mem p;
          Some (decode_tail 0x80 0 0x80 (0x80 OR (a AND 31)) d, p + 1)
        }
        else Some (- 1, p))"

definition uv__utf8_decode1 :: "byte list \<Rightarrow> nat \<Rightarrow> nat \<Rightarrow> (u32 \<times> nat) option" where
  "uv__utf8_decode1 mem p pe = do {
     a \<leftarrow> rd mem p;
     if a < 128 then Some (a, p + 1) else uv__utf8_decode1_slow mem (p + 1) pe a
   }"

lemma decode1_advances: "uv__utf8_decode1 mem p pe = Some (c, p') \<Longrightarrow> p < p' \<and> p < length mem"
  by (auto simp: uv__utf8_decode1_def uv__utf8_decode1_slow_def rd_def Let_def split: if_splits bind_splits)

text \<open>
  \<open>foreach_codepoint\<close>: the body of the loop gives the new state, or leaves the loop by \<open>break\<close>, or
  the function by \<open>return\<close>.
\<close>

datatype ('s, 'r) flow = Next 's | Break 's | Return 'r

function foreach_codepoint :: "byte list \<Rightarrow> nat \<Rightarrow> (u32 \<Rightarrow> 's \<Rightarrow> ('s, 'r) flow) \<Rightarrow> nat \<Rightarrow> 's \<Rightarrow> ('r + 's) option" where
  "foreach_codepoint mem pe body p st =
     (if p \<le> pe then
        (case uv__utf8_decode1 mem p pe of
           None \<Rightarrow> None
         | Some (c, p') \<Rightarrow>
             if p' \<le> pe then
               (case body c st of
                  Next st \<Rightarrow> foreach_codepoint mem pe body p' st
                | Break st \<Rightarrow> Some (Inr st)
                | Return r \<Rightarrow> Some (Inl r))
             else Some (Inr st))
      else Some (Inr st))"
  by pat_completeness auto
termination
  by (relation "measure (\<lambda>(mem, pe, body, p, st). Suc pe - p)") (auto dest: decode1_advances)

declare foreach_codepoint.simps [simp del]

section \<open>Labels\<close>

definition alphabet36 :: "byte list" where
  "alphabet36 = map word_of_nat ([97..<123] @ [48..<58])"

text \<open>A write to the output if there is room: \<open>if (*d < de) *(*d)++ = c\<close>.\<close>

definition emit :: "nat \<Rightarrow> byte \<Rightarrow> byte list \<Rightarrow> byte list" where
  "emit room c d = (if length d < room then d @ [c] else d)"

definition threshold :: "u32 \<Rightarrow> u32 \<Rightarrow> u32" where
  "threshold k bias =
     (let t = (if k > bias then k - bias else 1) in if t > 26 then 26 else t)"

lemma threshold_bounds: "1 \<le> unat (threshold k bias)" "unat (threshold k bias) \<le> 26"
proof -
  have "bias < k \<Longrightarrow> unat (k - bias) = unat k - unat bias" by (simp add: unat_sub)
  moreover have "bias < k \<Longrightarrow> unat bias < unat k" by (simp add: word_less_nat_alt)
  ultimately show "1 \<le> unat (threshold k bias)" "unat (threshold k bias) \<le> 26"
    by (auto simp: threshold_def Let_def word_less_nat_alt)
qed

function vlq_loop :: "nat \<Rightarrow> u32 \<Rightarrow> u32 \<Rightarrow> u32 \<Rightarrow> byte list \<Rightarrow> byte list" where
  "vlq_loop room bias k q d =
     (let t = threshold k bias in
      if q < t then emit room (alphabet36 ! unat q) d
      else
        let x = q - t; y = 36 - t; q = x div y; t = t + x mod y
        in vlq_loop room bias (k + 36) q (emit room (alphabet36 ! unat t) d))"
  by pat_completeness auto
termination
proof (relation "measure (\<lambda>(room, bias, k, q, d). unat q)", goal_cases)
  case (2 room bias k q d t x y q' t')
  have t: "1 \<le> unat t" "unat t \<le> 26" using threshold_bounds [of k bias] 2(1) by simp_all
  have "unat y = 36 - unat t" using t by (simp add: 2(4) unat_sub word_le_nat_alt)
  moreover have "unat x = unat q - unat t" using 2(2) by (simp add: 2(3) unat_sub not_less)
  moreover have "unat t \<le> unat q" using 2(2) by (simp add: not_less word_le_nat_alt)
  moreover have "unat q' = unat x div unat y" by (simp add: 2(5) unat_div)
  ultimately have "unat q' \<le> unat x" "unat x < unat q" using t(1) by simp_all
  then show ?case by simp
qed simp

declare vlq_loop.simps [simp del]

function bias_loop :: "u32 \<Rightarrow> u32 \<Rightarrow> u32 \<times> u32" where
  "bias_loop bias delta = (if delta > 455 then bias_loop (bias + 36) (delta div 35) else (bias, delta))"
  by pat_completeness auto
termination
  by (relation "measure (\<lambda>(bias, delta). unat delta)") (auto simp: unat_div word_less_nat_alt)

declare bias_loop.simps [simp del]

record puny =
  ph :: u32
  pn :: u32
  pbias :: u32
  pdelta :: u32
  ptodo :: u32
  pfirst :: bool
  pout :: "byte list"

text \<open>What the last loop does with a code point.\<close>

definition puny_step :: "nat \<Rightarrow> u32 \<Rightarrow> puny \<Rightarrow> (puny, int) flow" where
  "puny_step room c s =
     (let s = (if c < pn s then s\<lparr>pdelta := pdelta s + 1\<rparr> else s) in
      if c < pn s \<and> pdelta s = 0 then Return UV_E2BIG
      else if c \<noteq> pn s then Next s
      else
        let s = s\<lparr>pout := vlq_loop room (pbias s) 36 (pdelta s) (pout s)\<rparr>;
            s = s\<lparr>pdelta := pdelta s div 2\<rparr>;
            s = (if pfirst s then s\<lparr>pdelta := pdelta s div 350, pfirst := False\<rparr> else s);
            s = s\<lparr>ph := ph s + 1\<rparr>;
            s = s\<lparr>pdelta := pdelta s + pdelta s div ph s\<rparr>;
            (bi, de) = bias_loop 0 (pdelta s);
            s = s\<lparr>pbias := bi + 36 * de div (de + 38)\<rparr>
        in Next (s\<lparr>pdelta := 0, ptodo := ptodo s - 1\<rparr>))"

definition smallest_step :: "u32 \<Rightarrow> u32 \<Rightarrow> u32 \<Rightarrow> (u32, int) flow" where
  "smallest_step lo c m = (if c \<ge> lo \<and> c < m then Next c else Next m)"

partial_function (option) puny_loop :: "byte list \<Rightarrow> nat \<Rightarrow> nat \<Rightarrow> nat \<Rightarrow> puny \<Rightarrow> (int + puny) option" where
  "puny_loop mem ss se room s =
     (if ptodo s > 0 then
        (case foreach_codepoint mem se (smallest_step (pn s)) ss (- 1) of
           None \<Rightarrow> None
         | Some (Inl r) \<Rightarrow> Some (Inl r)
         | Some (Inr m) \<Rightarrow>
             let x = m - pn s; y = ph s + 1 in
             if x > (NOT (pdelta s)) div y then Some (Inl UV_E2BIG)
             else
               (case foreach_codepoint mem se (puny_step room) ss (s\<lparr>pdelta := pdelta s + x * y, pn := m\<rparr>) of
                  None \<Rightarrow> None
                | Some (Inl r) \<Rightarrow> Some (Inl r)
                | Some (Inr s) \<Rightarrow> puny_loop mem ss se room (s\<lparr>pdelta := pdelta s + 1, pn := pn s + 1\<rparr>)))
      else Some (Inr s))"

definition count_step :: "u32 \<Rightarrow> u32 \<times> u32 \<Rightarrow> (u32 \<times> u32, int) flow" where
  "count_step c st =
     (case st of (h, todo) \<Rightarrow>
        if c < 128 then Next (h + 1, todo) else if c = - 1 then Return UV_EINVAL else Next (h, todo + 1))"

definition ascii_step :: "nat \<Rightarrow> u32 \<Rightarrow> u32 \<Rightarrow> u32 \<times> byte list \<Rightarrow> (u32 \<times> byte list, int) flow" where
  "ascii_step room h c st =
     (case st of (x, d) \<Rightarrow>
        if c > 127 then Next (x, d)
        else
          let d = emit room (ucast c) d; x = x + 1
          in if x = h then Break (x, d) else Next (x, d))"

definition uv__idna_toascii_label :: "byte list \<Rightarrow> nat \<Rightarrow> nat \<Rightarrow> nat \<Rightarrow> byte list \<Rightarrow> (int \<times> byte list) option" where
  "uv__idna_toascii_label mem s se room d =
     (case foreach_codepoint mem se count_step s (0, 0) of
        None \<Rightarrow> None
      | Some (Inl err) \<Rightarrow> Some (err, d)
      | Some (Inr (h, todo)) \<Rightarrow>
          let d = (if todo > 0 then emit room 0x2d (emit room 0x2d (emit room 0x6e (emit room 0x78 d))) else d) in
          (case foreach_codepoint mem se (ascii_step room h) s (0, d) of
             None \<Rightarrow> None
           | Some (Inl err) \<Rightarrow> Some (err, d)
           | Some (Inr (x, d)) \<Rightarrow>
               if todo = 0 then Some (sint h, d)
               else
                 let d = (if h > 0 then emit room 0x2d d else d) in
                 (case puny_loop mem s se room \<lparr>ph = h, pn = 128, pbias = 72, pdelta = 0, ptodo = todo, pfirst = True, pout = d\<rparr> of
                    None \<Rightarrow> None
                  | Some (Inl err) \<Rightarrow> Some (err, d)
                  | Some (Inr st) \<Rightarrow> Some (0, pout st))))"

section \<open>Host names\<close>

definition is_separator :: "u32 \<Rightarrow> bool" where
  "is_separator c \<longleftrightarrow> c = 0x2e \<or> c = 0x3002 \<or> c = 0xFF0E \<or> c = 0xFF61"

function toascii_loop :: "byte list \<Rightarrow> nat \<Rightarrow> nat \<Rightarrow> nat \<Rightarrow> nat \<Rightarrow> byte list \<Rightarrow> (int + nat \<times> byte list) option" where
  "toascii_loop mem se room si s d =
     (if si < se then
        (case uv__utf8_decode1 mem si se of
           None \<Rightarrow> None
         | Some (c, si') \<Rightarrow>
             if \<not> is_separator c then toascii_loop mem se room si' s d
             else
               (case uv__idna_toascii_label mem s si room d of
                  None \<Rightarrow> None
                | Some (rc, d) \<Rightarrow>
                    if rc < 0 then Some (Inl rc) else toascii_loop mem se room si' si' (emit room 0x2e d)))
      else Some (Inr (s, d)))"
  by pat_completeness auto
termination
  by (relation "measure (\<lambda>(mem, se, room, si, s, d). se - si)") (auto dest: decode1_advances)

declare toascii_loop.simps [simp del]

text \<open>The result and, if it is not an error, what was written to the output.\<close>

definition uv__idna_toascii :: "byte list \<Rightarrow> nat \<Rightarrow> nat \<Rightarrow> nat \<Rightarrow> (int + byte list) option" where
  "uv__idna_toascii mem s se room =
     (case toascii_loop mem se room s s [] of
        None \<Rightarrow> None
      | Some (Inl rc) \<Rightarrow> Some (Inl rc)
      | Some (Inr (s, d)) \<Rightarrow>
          if s < se then
            (case uv__idna_toascii_label mem s se room d of
               None \<Rightarrow> None
             | Some (rc, d) \<Rightarrow> if rc < 0 then Some (Inl rc) else Some (Inr (emit room 0 d)))
          else Some (Inr (emit room 0 d)))"

section \<open>What the decoder reads\<close>

lemma top_test: "0x80 = 0xC0 AND (w :: u32) \<longleftrightarrow> bit w 7 \<and> \<not> bit w 6"
proof -
  have c: "(0xC0 :: u32) = push_bit 6 (mask 2)" "(0x80 :: u32) = 2 ^ 7" by (simp_all add: mask_eq_exp_minus_1)
  have "bit (0xC0 :: u32) i \<longleftrightarrow> i = 6 \<or> i = 7" for i
    unfolding c by (auto simp: bit_push_bit_iff bit_mask_iff)
  moreover have "bit (0x80 :: u32) i \<longleftrightarrow> i = 7" for i
    unfolding c bit_exp_iff by auto
  ultimately have bits: "bit (0x80 :: u32) i = bit (0xC0 AND w) i \<longleftrightarrow> (i = 7) = ((i = 6 \<or> i = 7) \<and> bit w i)" for i
    by (simp only: bit_and_iff)
  have "0x80 = 0xC0 AND w \<longleftrightarrow> (\<forall>i. (i = 7) = ((i = 6 \<or> i = 7) \<and> bit w i))"
    unfolding bits [symmetric] by (metis bit_eqI)
  also have "\<dots> \<longleftrightarrow> bit w 7 \<and> \<not> bit w 6" (is "?l \<longleftrightarrow> ?r")
  proof
    assume ?l
    from spec [OF this, of 6] spec [OF this, of 7] show ?r by simp
  qed auto
  finally show ?thesis .
qed

lemma bit_unat_6: "bit (w :: u32) 6 \<longleftrightarrow> odd (unat w div 64)" "bit (w :: u32) 7 \<longleftrightarrow> odd (unat w div 128)"
proof -
  have "bit (unat w) 6 \<longleftrightarrow> bit w 6" "bit (unat w) 7 \<longleftrightarrow> bit w 7" by (simp_all add: bit_unsigned_iff)
  then show "bit (w :: u32) 6 \<longleftrightarrow> odd (unat w div 64)" "bit (w :: u32) 7 \<longleftrightarrow> odd (unat w div 128)"
    using bit_iff_odd [of "unat w" 6] bit_iff_odd [of "unat w" 7] by simp_all
qed

lemma unat_and_63: "unat (w AND 63 :: u32) = unat w mod 64"
  using unat_and_mask [of w 6] by (simp add: mask_eq_exp_minus_1)

text \<open>Whether three bytes have the top bits that the code asks for, and the value that it forms.\<close>

definition tops_ok :: "nat \<Rightarrow> nat \<Rightarrow> nat \<Rightarrow> bool" where
  "tops_ok b c d \<longleftrightarrow> odd (b div 128 + c div 128 + d div 128) \<and> even (b div 64 + c div 64 + d div 64)"

definition is_scalar :: "nat \<Rightarrow> bool" where
  "is_scalar v \<longleftrightarrow> v \<le> 0x10FFFF \<and> \<not> (0xD800 \<le> v \<and> v \<le> 0xDFFF)"

lemma decode_tail_eq:
  assumes "unat a < 8"
  shows "decode_tail lo a b c d =
    (let v = unat a * 262144 + (unat b mod 64) * 4096 + (unat c mod 64) * 64 + unat d mod 64 in
     if tops_ok (unat b) (unat c) (unat d) \<and> unat lo \<le> v \<and> is_scalar v then word_of_nat v else - 1)"
proof -
  define v where "v = unat a * 262144 + (unat b mod 64) * 4096 + (unat c mod 64) * 64 + unat d mod 64"
  define b' c' d' where "b' = b AND 63" and "c' = c AND 63" and "d' = d AND 63"
  note parts = this
  let ?w = "push_bit 18 a OR push_bit 12 b' OR push_bit 6 c' OR d'"
  have top: "0x80 = 0xC0 AND (b XOR c XOR d) \<longleftrightarrow> tops_ok (unat b) (unat c) (unat d)"
    unfolding top_test bit_xor_iff unfolding bit_unat_6 tops_ok_def by simp blast
  have m: "x mod 64 < 64" for x :: nat by simp
  have u: "unat b' = unat b mod 64" "unat c' = unat c mod 64" "unat d' = unat d mod 64" by (simp_all add: parts unat_and_63)
  note m [of "unat b"] m [of "unat c"] m [of "unat d"]
  note small = this
  have 1: "unat (push_bit 6 c' OR d') = unat c mod 64 * 64 + unat d mod 64"
    by (subst unat_push_or) (use small in \<open>simp_all add: u\<close>)
  have 2: "unat (push_bit 12 b' OR push_bit 6 c' OR d') = unat b mod 64 * 4096 + (unat c mod 64 * 64 + unat d mod 64)"
    by (subst unat_push_or) (use small in \<open>simp_all add: u 1\<close>)
  have 3: "unat ?w = v"
    by (subst unat_push_or) (use small assms in \<open>simp_all add: u 2 v_def\<close>)
  have le: "v < 2 ^ 32" using small assms unfolding v_def by simp
  have w: "?w = word_of_nat v" using 3 le by (simp add: word_eq_iff_unat)
  show ?thesis
    unfolding v_def [symmetric] Let_def decode_tail_def top parts [symmetric] w is_scalar_def
    using le by (auto simp: word_less_nat_alt word_le_nat_alt not_less not_le)
qed

lemma scalar_less: "is_scalar v \<Longrightarrow> v < 0x110000"
  by (simp add: is_scalar_def)

text \<open>The bytes of an encoding, as numbers.\<close>

lemma utf8_units_bytes: "is_scalar v \<Longrightarrow> \<forall>n\<in>set (utf8_units v). n < 256"
proof -
  assume "is_scalar v"
  then have "v < 0x110000" by (rule scalar_less)
  then have "v div 262144 < 5" "v < 0x10000 \<Longrightarrow> v div 4096 < 16" "v < 0x800 \<Longrightarrow> v div 64 < 32" by simp_all
  moreover have "m mod 64 < 64" for m :: nat by simp
  note this [of v] this [of "v div 64"] this [of "v div 4096"]
  ultimately show ?thesis unfolding utf8_units_def by auto
qed

text \<open>A code point before the end of the range is read from its encoding.\<close>

lemma decode1_ascii:
  "p < length mem \<Longrightarrow> unat (mem ! p) < 128 \<Longrightarrow> uv__utf8_decode1 mem p pe = Some (ucast (mem ! p), p + 1)"
  by (simp add: uv__utf8_decode1_def rd_def word_less_nat_alt)

lemma decode1_2:
  assumes "p + 1 < length mem" "p < pe" "0xC0 \<le> unat (mem ! p)" "unat (mem ! p) < 0xE0"
  shows "uv__utf8_decode1 mem p pe = Some (decode_tail 0x80 0 0x80 (0x80 OR (ucast (mem ! p) AND 31)) (ucast (mem ! (p + 1))), p + 2)"
  using assms by (simp add: uv__utf8_decode1_def uv__utf8_decode1_slow_def rd_def word_less_nat_alt Let_def)

lemma decode1_3:
  assumes "p + 2 < length mem" "p < pe" "0xE0 \<le> unat (mem ! p)" "unat (mem ! p) < 0xF0"
  shows "uv__utf8_decode1 mem p pe = Some (decode_tail 0x800 0 (0x80 OR (ucast (mem ! p) AND 15)) (ucast (mem ! (p + 1))) (ucast (mem ! (p + 2))), p + 3)"
  using assms by (simp add: uv__utf8_decode1_def uv__utf8_decode1_slow_def rd_def word_less_nat_alt Let_def numeral_3_eq_3)

lemma decode1_4:
  assumes "p + 3 < length mem" "p < pe" "0xF0 \<le> unat (mem ! p)" "unat (mem ! p) < 0xF8"
  shows "uv__utf8_decode1 mem p pe = Some (decode_tail 0x10000 (ucast (mem ! p) AND 7) (ucast (mem ! (p + 1))) (ucast (mem ! (p + 2))) (ucast (mem ! (p + 3))), p + 4)"
  using assms by (simp add: uv__utf8_decode1_def uv__utf8_decode1_slow_def rd_def word_less_nat_alt Let_def numeral_3_eq_3)

lemma or_80:
  assumes "unat (x :: u32) < 64"
  shows "unat (0x80 OR x) = 128 + unat x"
proof -
  have "unat (push_bit 6 2 OR x) = unat (2 :: u32) * 2 ^ 6 + unat x"
    by (rule unat_push_or) (use assms in simp_all)
  moreover have "push_bit 6 2 = (0x80 :: u32)" by simp
  ultimately show ?thesis by (simp del: push_bit_numeral)
qed

lemma unat_low: "unat (w AND 31 :: u32) = unat w mod 32" "unat (w AND 15) = unat w mod 16" "unat (w AND 7) = unat w mod 8"
  using unat_and_mask [of w 5] unat_and_mask [of w 4] unat_and_mask [of w 3] by (simp_all add: mask_eq_exp_minus_1)

lemma top128:
  assumes "x < (64 :: nat)"
  shows "(128 + x) div 128 = 1" "(128 + x) div 64 = 2" "(128 + x) mod 64 = x"
proof -
  have "128 + x = x + 64 * 2" by simp
  then show "(128 + x) mod 64 = x" using assms by (metis mod_less mod_mult_self2)
qed (use assms in simp_all)

lemma tops_ok_continuation:
  assumes "x < 64" "y < 64" "z < 64"
  shows "tops_ok (128 + x) (128 + y) (128 + z)"
  using top128 [OF assms(1)] top128 [OF assms(2)] top128 [OF assms(3)] by (simp only: tops_ok_def) simp

text \<open>In arithmetic: what each form of a sequence decodes to, malformed ones included.\<close>

definition decoded :: "nat \<Rightarrow> bool \<Rightarrow> nat \<Rightarrow> u32" where
  "decoded lo ok v = (if ok \<and> lo \<le> v \<and> is_scalar v then word_of_nat v else - 1)"

lemma decode1_form2:
  assumes "p + 1 < length mem" "p < pe" "unat (mem ! p) = 0xC0 + a" "a < 32" "unat (mem ! (p + 1)) = b"
  shows "uv__utf8_decode1 mem p pe = Some (decoded 0x80 (tops_ok 0x80 0x80 b) (a * 64 + b mod 64), p + 2)"
proof -
  have "unat (0x80 OR (ucast (mem ! p) AND 31) :: u32) = 128 + a"
    using mod_blocks(2) [of "0xC0 + a"] assms(3,4) by (simp add: or_80 unat_low)
  moreover have "a < 64" using assms(4) by simp
  note top128 [OF this]
  ultimately show ?thesis
    using decode1_2 [OF assms(1,2)] assms(3-5)
    by (simp add: decode_tail_eq decoded_def Let_def tops_ok_def)
qed

lemma decode1_form3:
  assumes "p + 2 < length mem" "p < pe" "unat (mem ! p) = 0xE0 + a" "a < 16"
    and "unat (mem ! (p + 1)) = b" "unat (mem ! (p + 2)) = c"
  shows "uv__utf8_decode1 mem p pe = Some (decoded 0x800 (tops_ok 0x80 b c) (a * 4096 + (b mod 64) * 64 + c mod 64), p + 3)"
proof -
  have "unat (0x80 OR (ucast (mem ! p) AND 15) :: u32) = 128 + a"
    using mod_blocks(3) [of "0xE0 + a"] assms(3,4) by (simp add: or_80 unat_low)
  moreover have "a < 64" using assms(4) by simp
  note top128 [OF this]
  ultimately show ?thesis
    using decode1_3 [OF assms(1,2)] assms(3-6)
    by (simp add: decode_tail_eq decoded_def Let_def tops_ok_def)
qed

lemma decode1_form4:
  assumes "p + 3 < length mem" "p < pe" "unat (mem ! p) = 0xF0 + a" "a < 8"
    and "unat (mem ! (p + 1)) = b" "unat (mem ! (p + 2)) = c" "unat (mem ! (p + 3)) = d"
  shows "uv__utf8_decode1 mem p pe =
    Some (decoded 0x10000 (tops_ok b c d) (a * 262144 + (b mod 64) * 4096 + (c mod 64) * 64 + d mod 64), p + 4)"
proof -
  have "unat (ucast (mem ! p) AND 7 :: u32) = a"
    using mod_blocks(4) [of "0xF0 + a"] assms(3,4) by (simp add: unat_low)
  then show ?thesis
    using decode1_4 [OF assms(1,2)] assms(3-7) by (simp add: decode_tail_eq decoded_def Let_def)
qed

lemma utf8_length: "length (utf8 v) = (if v < 0x80 then 1 else if v < 0x800 then 2 else if v < 0x10000 then 3 else 4)"
  by (simp add: utf8_def utf8_units_def)

lemma nth_utf8: "is_scalar v \<Longrightarrow> i < length (utf8 v) \<Longrightarrow> unat (utf8 v ! i) = utf8_units v ! i"
  using utf8_units_bytes [of v] by (simp add: utf8_def nth_mem)

lemma split_sextets:
  "v div 262144 * 262144 + v div 4096 mod 64 * 4096 + v div 64 mod 64 * 64 + v mod 64 = (v :: nat)"
  "v div 4096 * 4096 + v div 64 mod 64 * 64 + v mod 64 = v"
proof -
  have d: "v div 64 div 64 = v div 4096" "v div 4096 div 64 = v div 262144" by (simp_all flip: div_mult2_eq)
  have 1: "v div 64 * 64 + v mod 64 = v" by (rule div_mult_mod_eq)
  have 2: "v div 4096 * 64 + v div 64 mod 64 = v div 64" using div_mult_mod_eq [of "v div 64" 64] by (simp only: d)
  have 3: "v div 262144 * 64 + v div 4096 mod 64 = v div 4096" using div_mult_mod_eq [of "v div 4096" 64] by (simp only: d)
  have "v div 4096 * 4096 + v div 64 mod 64 * 64 = (v div 4096 * 64 + v div 64 mod 64) * 64" by simp
  also have "\<dots> = v div 64 * 64" by (simp only: 2)
  finally have 4: "v div 4096 * 4096 + v div 64 mod 64 * 64 = v div 64 * 64" .
  then show five: "v div 4096 * 4096 + v div 64 mod 64 * 64 + v mod 64 = v" using 1 by (simp only:)
  have "v div 262144 * 262144 + v div 4096 mod 64 * 4096 = (v div 262144 * 64 + v div 4096 mod 64) * 4096" by simp
  also have "\<dots> = v div 4096 * 4096" by (simp only: 3)
  finally show "v div 262144 * 262144 + v div 4096 mod 64 * 4096 + v div 64 mod 64 * 64 + v mod 64 = v"
    using five by (simp only:)
qed

lemma decode1_utf8:
  assumes c: "is_scalar v" and at: "take (length (utf8 v)) (drop p mem) = utf8 v" and upto: "p + length (utf8 v) \<le> pe"
  shows "uv__utf8_decode1 mem p pe = Some (word_of_nat v, p + length (utf8 v))"
proof -
  let ?l = "length (utf8 v)"
  have l: "0 < ?l" by (simp add: utf8_length)
  have "?l \<le> length (drop p mem)" using at by (metis length_take min.cobounded1)
  then have len: "p + ?l \<le> length mem" using l unfolding length_drop by linarith
  have mem: "unat (mem ! (p + i)) = utf8_units v ! i" if "i < ?l" for i
  proof -
    have "mem ! (p + i) = take ?l (drop p mem) ! i" using that len by simp
    then show ?thesis using nth_utf8 [OF c that] at by simp
  qed
  have p: "p < pe" using upto l by linarith
  have m: "x mod 64 < 64" for x :: nat by simp
  have tops: "tops_ok (128 + x mod 64) (128 + y mod 64) (128 + z mod 64)" "tops_ok 128 (128 + y mod 64) (128 + z mod 64)"
    "tops_ok 128 128 (128 + z mod 64)" for x y z
    using tops_ok_continuation [OF m m m, of x y z] tops_ok_continuation [OF _ m m, of 0 y z]
      tops_ok_continuation [OF _ _ m, of 0 0 z] by simp_all
  have v: "v < 0x110000" using c by (rule scalar_less)
  consider "v < 0x80" | "0x80 \<le> v" "v < 0x800" | "0x800 \<le> v" "v < 0x10000" | "0x10000 \<le> v" by linarith
  then show ?thesis
  proof cases
    case 1
    then show ?thesis using mem [of 0] len decode1_ascii [of p mem pe]
      by (simp add: utf8_length utf8_units_def unat_ucast_up_byte word_eq_iff_unat)
  next
    case 2
    then show ?thesis
      using decode1_form2 [of p mem pe "v div 64" "128 + v mod 64"] mem [of 0] mem [of 1] len p c top128(3) [OF m] tops
      by (simp add: utf8_length utf8_units_def decoded_def)
  next
    case 3
    then show ?thesis
      using decode1_form3 [of p mem pe "v div 4096" "128 + v div 64 mod 64" "128 + v mod 64"] mem [of 0] mem [of 1] mem [of 2]
        len p c top128(3) [OF m] tops split_sextets(2) [of v]
      by (simp add: utf8_length utf8_units_def decoded_def numeral_2_eq_2)
  next
    case 4
    then show ?thesis
      using decode1_form4 [of p mem pe "v div 262144" "128 + v div 4096 mod 64" "128 + v div 64 mod 64" "128 + v mod 64"]
        mem [of 0] mem [of 1] mem [of 2] mem [of 3] len p c v top128(3) [OF m] tops split_sextets(1) [of v]
      by (simp add: utf8_length utf8_units_def decoded_def numeral_2_eq_2 numeral_3_eq_3)
  qed
qed

section \<open>Loops over the code points of a label\<close>

definition utf8s :: "nat list \<Rightarrow> byte list" where
  "utf8s cs = concat (map utf8 cs)"

lemma utf8s_simps [simp]: "utf8s [] = []" "utf8s (c # cs) = utf8 c @ utf8s cs" "utf8s (cs @ ds) = utf8s cs @ utf8s ds"
  by (simp_all add: utf8s_def)

text \<open>The bytes from \<open>p\<close> on are \<open>bs\<close>.\<close>

definition holds :: "byte list \<Rightarrow> nat \<Rightarrow> byte list \<Rightarrow> bool" where
  "holds mem p bs \<longleftrightarrow> take (length bs) (drop p mem) = bs"

lemma holds_append: "holds mem p (bs @ cs) \<longleftrightarrow> holds mem p bs \<and> holds mem (p + length bs) cs"
proof -
  define xs where "xs = drop p mem"
  have xs: "drop (p + length bs) mem = drop (length bs) xs" by (simp add: xs_def add.commute)
  have "take (length bs + length cs) xs = bs @ cs \<longleftrightarrow> take (length bs) xs = bs \<and> take (length cs) (drop (length bs) xs) = cs"
  proof (cases "length bs \<le> length xs")
    case True
    then show ?thesis by (simp add: take_add append_eq_append_conv)
  next
    case False
    then have "length (take n xs) < length bs" for n by simp
    then have "take (length bs + length cs) xs \<noteq> bs @ cs" "take (length bs) xs \<noteq> bs"
      by (metis length_append not_add_less1) (metis \<open>\<And>n. length (take n xs) < length bs\<close> less_irrefl)
    then show ?thesis by simp
  qed
  then show ?thesis unfolding holds_def length_append xs xs_def [symmetric] .
qed

lemma holds_0: "holds (bs @ cs) 0 bs"
  by (simp add: holds_def)

text \<open>A range is well behaved at its end if what follows it can be read too.\<close>

definition stops :: "byte list \<Rightarrow> nat \<Rightarrow> bool" where
  "stops mem pe \<longleftrightarrow> uv__utf8_decode1 mem pe pe \<noteq> None"

text \<open>A loop over a list of code points.\<close>

primrec each :: "(u32 \<Rightarrow> 's \<Rightarrow> ('s, 'r) flow) \<Rightarrow> nat list \<Rightarrow> 's \<Rightarrow> 'r + 's" where
  "each body [] st = Inr st"
| "each body (c # cs) st =
     (case body (word_of_nat c) st of
        Next st \<Rightarrow> each body cs st
      | Break st \<Rightarrow> Inr st
      | Return r \<Rightarrow> Inl r)"

lemma foreach_utf8:
  assumes "\<forall>c\<in>set cs. is_scalar c" and "holds mem s (utf8s cs)" and "s + length (utf8s cs) = pe" and "stops mem pe"
  shows "foreach_codepoint mem pe body s st = Some (each body cs st)"
  using assms
proof (induction cs arbitrary: s st)
  case Nil
  then obtain c p' where "uv__utf8_decode1 mem pe pe = Some (c, p')" by (auto simp: stops_def)
  with decode1_advances [OF this] Nil show ?case
    by (subst foreach_codepoint.simps) simp
next
  case (Cons c cs)
  have here: "holds mem s (utf8 c)" "holds mem (s + length (utf8 c)) (utf8s cs)"
    using Cons.prems(2) by (simp_all add: holds_append)
  have read: "uv__utf8_decode1 mem s pe = Some (word_of_nat c, s + length (utf8 c))"
    by (rule decode1_utf8) (use Cons.prems here(1) in \<open>simp_all add: holds_def\<close>)
  have "foreach_codepoint mem pe body (s + length (utf8 c)) st = Some (each body cs st)" for st
    by (rule Cons.IH) (use Cons.prems here(2) in simp_all)
  moreover have "s \<le> pe" "s + length (utf8 c) \<le> pe" using Cons.prems(3) by simp_all
  ultimately show ?case
    using read by (simp add: foreach_codepoint.simps [of mem pe body s st] split: flow.splits)
qed

section \<open>Writing\<close>

definition writes :: "nat \<Rightarrow> byte list \<Rightarrow> byte list \<Rightarrow> byte list" where
  "writes room d xs = d @ take (room - length d) xs"

lemma writes_Nil [simp]: "writes room d [] = d"
  by (simp add: writes_def)

lemma writes_writes [simp]: "writes room (writes room d xs) ys = writes room d (xs @ ys)"
  by (cases "length xs \<le> room - length d") (simp_all add: writes_def)

lemma emit_writes: "emit room c d = writes room d [c]"
  by (simp add: emit_def writes_def take_Cons')

lemma unat_max_32: "unat (- 1 :: u32) = 2 ^ 32 - 1"
  by (simp add: unsigned_minus_1_eq_mask mask_eq_exp_minus_1)

lemma count_each:
  assumes "\<forall>c\<in>set cs. is_scalar c"
  shows "each count_step cs (a, b) =
    Inr (a + word_of_nat (length (filter (\<lambda>c. c < 128) cs)), b + word_of_nat (length (filter (\<lambda>c. \<not> c < 128) cs)))"
  using assms
proof (induction cs arbitrary: a b)
  case (Cons c cs)
  have "c < 0x110000" using Cons.prems scalar_less by simp
  then have "unat (word_of_nat c :: u32) = c" by simp
  then have "(word_of_nat c :: u32) < 128 \<longleftrightarrow> c < 128" by (simp add: word_less_nat_alt)
  moreover have "(word_of_nat c :: u32) \<noteq> - 1"
    using \<open>unat (word_of_nat c :: u32) = c\<close> \<open>c < 0x110000\<close> unat_max_32 by fastforce
  ultimately show ?case using Cons by (simp add: count_step_def add.assoc)
qed simp

lemma ascii_step_pair:
  "ascii_step room h c (x, d) =
     (if c > 127 then Next (x, d)
      else if x + 1 = h then Break (x + 1, emit room (ucast c) d) else Next (x + 1, emit room (ucast c) d))"
  by (simp add: ascii_step_def Let_def)

lemma ascii_each:
  assumes "\<forall>c\<in>set cs. is_scalar c" and "unat x + length (filter (\<lambda>c. c < 128) cs) = h" and "h < 2 ^ 32"
  shows "\<exists>x'. each (ascii_step room (word_of_nat h)) cs (x, d) = Inr (x', writes room d (map word_of_nat (filter (\<lambda>c. c < 128) cs)))"
  using assms
proof (induction cs arbitrary: x d)
  case (Cons c cs)
  have "c < 0x110000" using Cons.prems scalar_less by simp
  then have c: "unat (word_of_nat c :: u32) = c" by simp
  show ?case
  proof (cases "c < 128")
    case False
    then have "\<not> (word_of_nat c :: u32) \<le> 127" using c by (simp add: word_le_nat_alt)
    then show ?thesis using False Cons by (simp add: ascii_step_pair not_le)
  next
    case True
    have x: "unat (x + 1) = unat x + 1" using True Cons.prems(2,3) by (simp add: unat_word_ariths)
    have byte: "ucast (word_of_nat c :: u32) = (word_of_nat c :: byte)"
      using True c by (simp add: word_eq_iff_unat unat_ucast_mod)
    have le: "\<not> (127 < (word_of_nat c :: u32))" using True c by (simp add: word_less_nat_alt)
    show ?thesis
    proof (cases "x + 1 = word_of_nat h")
      case True
      then have "unat x + 1 = h" using x Cons.prems(3) by simp
      moreover have "unat x + 1 + length (filter (\<lambda>c. c < 128) cs) = h" using \<open>c < 128\<close> Cons.prems(2) by simp
      ultimately have "length (filter (\<lambda>c. c < 128) cs) = 0" by linarith
      then have "filter (\<lambda>c. c < 128) cs = []" by (simp only: length_0_conv)
      then show ?thesis using True le byte \<open>c < 128\<close> by (simp add: ascii_step_pair emit_writes)
    next
      case False
      have "\<exists>x'. each (ascii_step room (word_of_nat h)) cs (x + 1, emit room (word_of_nat c) d) =
        Inr (x', writes room (emit room (word_of_nat c) d) (map word_of_nat (filter (\<lambda>c. c < 128) cs)))"
        by (rule Cons.IH) (use Cons.prems x True in simp_all)
      then show ?thesis using False le byte True by (simp add: ascii_step_pair emit_writes)
    qed
  qed
qed simp

section \<open>Integers and the bias\<close>

lemma unat_threshold: "unat (threshold k b) = rfc_threshold (unat k) (unat b)"
proof -
  have "b < k \<Longrightarrow> unat (k - b) = unat k - unat b" by (simp add: unat_sub)
  then show ?thesis by (auto simp: threshold_def rfc_threshold_def Let_def word_less_nat_alt)
qed

definition puny_digit :: "nat \<Rightarrow> byte" where
  "puny_digit i = alphabet36 ! i"

lemma vlq_writes:
  assumes "unat q < 2 ^ m" and "unat k + 36 * m < 2 ^ 32"
  shows "vlq_loop room b k q d = writes room d (map puny_digit (rfc_encode_integer (unat b) (unat k) (unat q)))"
  using assms
proof (induction m arbitrary: k q d)
  case 0
  then have "unat q = 0" by simp
  moreover have "q < threshold k b" using threshold_bounds(1) [of k b] 0 by (simp add: word_less_nat_alt)
  moreover have "0 < rfc_threshold (unat k) (unat b)" using rfc_threshold_bounds(1) [of "unat k" "unat b"] by linarith
  ultimately show ?case
    by (simp add: vlq_loop.simps [of room b k] rfc_encode_integer.simps [of _ _ 0] emit_writes puny_digit_def)
next
  case (Suc m)
  define t where "t = threshold k b"
  have t: "rfc_threshold (unat k) (unat b) = unat t" by (simp add: t_def unat_threshold)
  show ?case
  proof (cases "q < t")
    case True
    then have "unat q < unat t" by (simp add: word_less_nat_alt)
    then show ?thesis using True
      by (simp add: vlq_loop.simps [of room b k q] rfc_encode_integer.simps [of _ _ "unat q"] emit_writes puny_digit_def t
          flip: t_def)
  next
    case False
    have b26: "1 \<le> unat t" "unat t \<le> 26" using threshold_bounds [of k b] by (simp_all add: t_def)
    have tq: "unat t \<le> unat q" using False by (simp add: word_less_nat_alt)
    let ?y = "36 - unat t"
    have x: "unat (q - t) = unat q - unat t" using False by (simp add: unat_sub not_less)
    have y: "unat (36 - t) = ?y" using b26 by (simp add: unat_sub word_le_nat_alt)
    have q': "unat ((q - t) div (36 - t)) = (unat q - unat t) div ?y" by (simp add: unat_div x y)
    have "(unat q - unat t) mod ?y < ?y" using b26 by simp
    then have "unat t + (unat q - unat t) mod ?y < 36" using b26 by linarith
    then have dig: "unat (t + (q - t) mod (36 - t)) = unat t + (unat q - unat t) mod ?y"
      by (simp add: unat_word_ariths x y)
    have k: "unat (k + 36) = unat k + 36" using Suc.prems(2) by (simp add: unat_word_ariths)
    have "(unat q - unat t) div ?y \<le> (unat q - unat t) div 10" using b26 by (intro div_le_mono2) simp_all
    also have "\<dots> < 2 ^ m" using Suc.prems(1) by simp
    finally have "unat ((q - t) div (36 - t)) < 2 ^ m" using q' by simp
    from Suc.IH [OF this, of "k + 36"] Suc.prems(2)
    have "vlq_loop room b (k + 36) ((q - t) div (36 - t)) (emit room (alphabet36 ! unat (t + (q - t) mod (36 - t))) d) =
      writes room (writes room d [puny_digit (unat t + (unat q - unat t) mod ?y)])
        (map puny_digit (rfc_encode_integer (unat b) (unat k + 36) ((unat q - unat t) div ?y)))"
      by (simp add: k q' dig emit_writes puny_digit_def [abs_def])
    then show ?thesis using False tq
      by (simp add: vlq_loop.simps [of room b k q] rfc_encode_integer.simps [of _ _ "unat q"] t Let_def flip: t_def)
  qed
qed

lemma bias_loop_adapt:
  assumes "unat dl < 2 ^ m" and "unat b + 36 * m < 2 ^ 31" and "bias_loop b dl = (b', dl')"
  shows "unat (b' + 36 * dl' div (dl' + 38)) = rfc_adapt_loop (unat b) (unat dl)"
  using assms
proof (induction m arbitrary: b dl)
  case 0
  then have "dl = 0" by (simp add: unsigned_eq_0_iff)
  with 0 show ?case by (simp add: bias_loop.simps rfc_adapt_loop.simps)
next
  case (Suc m)
  show ?case
  proof (cases "455 < dl")
    case True
    have d: "unat (dl div 35) = unat dl div 35" by (simp add: unat_div)
    have b: "unat (b + 36) = unat b + 36" using Suc.prems(2) by (simp add: unat_word_ariths)
    have "unat (b' + 36 * dl' div (dl' + 38)) = rfc_adapt_loop (unat (b + 36)) (unat (dl div 35))"
    proof (rule Suc.IH)
      show "unat (dl div 35) < 2 ^ m" using Suc.prems(1) by (simp add: d)
      show "unat (b + 36) + 36 * m < 2 ^ 31" using Suc.prems(2) by (simp add: b)
      show "bias_loop (b + 36) (dl div 35) = (b', dl')" using True Suc.prems(3) by (simp add: bias_loop.simps [of b dl])
    qed
    then show ?thesis using True by (simp add: b d rfc_adapt_loop.simps [of "unat b"] word_less_nat_alt)
  next
    case False
    then have le: "unat dl \<le> 455" by (simp add: word_less_nat_alt)
    have eq: "b' = b" "dl' = dl" using False Suc.prems(3) by (simp_all add: bias_loop.simps [of b dl])
    have "unat (36 * dl) = 36 * unat dl" "unat (dl + 38) = unat dl + 38" using le by (simp_all add: unat_word_ariths)
    then have q: "unat (36 * dl div (dl + 38)) = 36 * unat dl div (unat dl + 38)" by (simp add: unat_div)
    have "36 * unat dl div (unat dl + 38) \<le> 36 * unat dl" by (rule div_le_dividend)
    then have "36 * unat dl div (unat dl + 38) \<le> 16380" using le by linarith
    then have "unat b + 36 * unat dl div (unat dl + 38) < 2 ^ 32" using Suc.prems(2) by simp
    then have "unat (b + 36 * dl div (dl + 38)) = unat b + 36 * unat dl div (unat dl + 38)"
      by (subst unat_word_ariths(1)) (simp add: q)
    then show ?thesis using le eq by (simp add: rfc_adapt_loop.simps [of "unat b"])
  qed
qed

section \<open>The decoder follows the encoder\<close>

text \<open>
  The encoder has handled the code points below its \<open>n\<close> everywhere, and \<open>n\<close> itself in the part
  \<open>pre\<close> of the label that it has walked through. What it has written, the digits \<open>ds\<close>, takes a
  decoder to the code points \<open>text\<close> that are handled, with the next position \<open>i\<close> and the last code
  point \<open>lo\<close>; \<open>delta\<close> is how far the decoder is behind.
\<close>

definition handled :: "nat \<Rightarrow> nat list \<Rightarrow> nat list \<Rightarrow> nat list" where
  "handled m pre post = filter (\<lambda>c. c \<le> m) pre @ filter (\<lambda>c. c < m) post"

definition follows :: "nat \<Rightarrow> byte list \<Rightarrow> nat list \<Rightarrow> nat list \<Rightarrow> puny \<Rightarrow> nat \<Rightarrow> nat \<Rightarrow> nat list \<Rightarrow> bool" where
  "follows room d pre post s lo i ds \<longleftrightarrow>
     (let m = unat (pn s); text = handled m pre post in
      128 \<le> lo \<and> lo \<le> m \<and> m \<le> 0x110000 \<and>
      unat (ph s) = length text \<and> unat (ptodo s) + length text = length (pre @ post) \<and>
      pfirst s = (i = 0) \<and>
      unat (pdelta s) + i = (m - lo) * (length text + 1) + length (filter (\<lambda>c. c \<le> m) pre) \<and>
      pout s = writes room d (map puny_digit ds) \<and> (\<forall>x\<in>set ds. x < 36) \<and>
      (\<forall>rest. rfc_decode_loop 128 0 72 (filter (\<lambda>c. c < 128) (pre @ post)) (ds @ rest) =
         rfc_decode_loop lo i (unat (pbias s)) text rest))"

lemma handled_simps:
  "c < m \<Longrightarrow> handled m (pre @ [c]) post = handled m pre (c # post)"
  "m < c \<Longrightarrow> handled m (pre @ [c]) post = handled m pre (c # post)"
  "handled m (pre @ [m]) post = filter (\<lambda>c. c \<le> m) pre @ m # filter (\<lambda>c. c < m) post"
  "handled m pre (m # post) = filter (\<lambda>c. c \<le> m) pre @ filter (\<lambda>c. c < m) post"
  by (simp_all add: handled_def)

lemma length_handled: "length (handled m pre post) \<le> length pre + length post"
  by (simp add: handled_def add_mono)

lemma follows_small:
  assumes "follows room d pre post s lo i ds" and "length pre + length post \<le> 3854"
    and "unat (pn s) < 0x110000"
  shows "unat (pdelta s) + 1 < 2 ^ 32"
proof -
  let ?m = "unat (pn s)" and ?t = "length (handled (unat (pn s)) pre post)"
  have "unat (pdelta s) + i = (?m - lo) * (?t + 1) + length (filter (\<lambda>c. c \<le> ?m) pre)"
    using assms(1) by (simp add: follows_def Let_def)
  moreover have "(?m - lo) * (?t + 1) \<le> 0x10FFFF * 3855"
    using assms(2,3) length_handled [of ?m pre post] by (intro mult_mono) simp_all
  moreover have "length (filter (\<lambda>c. c \<le> ?m) pre) \<le> 3854"
    using length_filter_le [of "\<lambda>c. c \<le> ?m" pre] assms(2) by linarith
  ultimately show ?thesis by simp
qed

text \<open>The step that writes: the next code point is \<open>n\<close>.\<close>

definition puny_written :: "nat \<Rightarrow> puny \<Rightarrow> puny" where
  "puny_written room s =
     (let s = s\<lparr>pout := vlq_loop room (pbias s) 36 (pdelta s) (pout s)\<rparr>;
          s = s\<lparr>pdelta := pdelta s div 2\<rparr>;
          s = (if pfirst s then s\<lparr>pdelta := pdelta s div 350, pfirst := False\<rparr> else s);
          s = s\<lparr>ph := ph s + 1\<rparr>;
          s = s\<lparr>pdelta := pdelta s + pdelta s div ph s\<rparr>;
          (bi, de) = bias_loop 0 (pdelta s);
          s = s\<lparr>pbias := bi + 36 * de div (de + 38)\<rparr>
      in s\<lparr>pdelta := 0, ptodo := ptodo s - 1\<rparr>)"

lemma puny_step_cases:
  "c < pn s \<Longrightarrow> pdelta s + 1 \<noteq> 0 \<Longrightarrow> puny_step room c s = Next (s\<lparr>pdelta := pdelta s + 1\<rparr>)"
  "pn s < c \<Longrightarrow> puny_step room c s = Next s"
  "c = pn s \<Longrightarrow> puny_step room c s = Next (puny_written room s)"
  by (auto simp: puny_step_def puny_written_def Let_def split: prod.splits)

lemma unat_add_div_half:
  assumes "0 < unat h" "2 * unat x < 2 ^ 32"
  shows "unat (x + x div h :: u32) = unat x + unat x div unat h"
proof -
  have "unat x div unat h \<le> unat x" by (rule div_le_dividend)
  then have "unat x + unat x div unat h < 2 ^ 32" using assms(2) by linarith
  then show ?thesis by (subst unat_word_ariths(1)) (simp add: unat_div)
qed

lemma puny_written_fields:
  assumes "unat (ph s) < 2 ^ 32 - 1" and "ptodo s \<noteq> 0"
  shows "pn (puny_written room s) = pn s" "unat (ph (puny_written room s)) = unat (ph s) + 1" "pdelta (puny_written room s) = 0"
    "\<not> pfirst (puny_written room s)" "unat (ptodo (puny_written room s)) = unat (ptodo s) - 1"
    "pout (puny_written room s) = writes room (pout s) (map puny_digit (rfc_encode_integer (unat (pbias s)) 36 (unat (pdelta s))))"
    "unat (pbias (puny_written room s)) = rfc_adapt (unat (pdelta s)) (unat (ph s) + 1) (pfirst s)"
proof -
  define x where "x = (if pfirst s then pdelta s div 2 div 350 else pdelta s div 2)"
  define y where "y = x + x div (ph s + 1)"
  obtain bi de where b: "bias_loop 0 y = (bi, de)" by (metis surj_pair)
  have w: "puny_written room s = \<lparr>ph = ph s + 1, pn = pn s, pbias = bi + 36 * de div (de + 38), pdelta = 0, ptodo = ptodo s - 1,
      pfirst = False, pout = vlq_loop room (pbias s) 36 (pdelta s) (pout s)\<rparr>"
    using b by (simp add: puny_written_def Let_def x_def y_def split: if_splits)
  have h: "unat (ph s + 1) = unat (ph s) + 1" using assms(1) by (subst unat_word_ariths(1)) simp
  show "pn (puny_written room s) = pn s" "unat (ph (puny_written room s)) = unat (ph s) + 1" "pdelta (puny_written room s) = 0"
    "\<not> pfirst (puny_written room s)" using w h by simp_all
  show "unat (ptodo (puny_written room s)) = unat (ptodo s) - 1"
    using w assms(2) by (simp add: unat_minus_one)
  show "pout (puny_written room s) = writes room (pout s) (map puny_digit (rfc_encode_integer (unat (pbias s)) 36 (unat (pdelta s))))"
    using vlq_writes [of "pdelta s" 32 36 room "pbias s" "pout s"] u32_bound [of "pdelta s"] w by simp
  have x: "unat x = (if pfirst s then unat (pdelta s) div 700 else unat (pdelta s) div 2)"
    by (simp add: x_def unat_div flip: div_mult2_eq)
  have "unat x \<le> unat (pdelta s) div 2" unfolding x by (simp add: div_le_mono2)
  then have half: "2 * unat x < 2 ^ 32" using u32_bound [of "pdelta s"] by linarith
  have y: "unat y = unat x + unat x div (unat (ph s) + 1)"
    unfolding y_def by (subst unat_add_div_half) (use half h in simp_all)
  have "unat (bi + 36 * de div (de + 38)) = rfc_adapt_loop (unat (0 :: u32)) (unat y)"
    by (rule bias_loop_adapt [of _ 32, OF _ _ b]) (use u32_bound [of y] in simp_all)
  then show "unat (pbias (puny_written room s)) = rfc_adapt (unat (pdelta s)) (unat (ph s) + 1) (pfirst s)"
    using w x y by (simp add: rfc_adapt_def Let_def)
qed

lemma follows_below:
  assumes f: "follows room d pre (c # post) s lo i ds" and c: "c < unat (pn s)" and small: "unat (pdelta s) + 1 < 2 ^ 32"
  shows "follows room d (pre @ [c]) post (s\<lparr>pdelta := pdelta s + 1\<rparr>) lo i ds"
proof -
  define b where "b = filter (\<lambda>c. c < 128) (pre @ c # post)"
  have app: "filter (\<lambda>c. c < 128) ((pre @ [c]) @ post) = b" "length ((pre @ [c]) @ post) = length (pre @ c # post)"
    by (simp_all add: b_def)
  have "unat (pdelta s + 1) = unat (pdelta s) + 1" using small by (subst unat_word_ariths(1)) simp
  moreover have "handled (unat (pn s)) (pre @ [c]) post = handled (unat (pn s)) pre (c # post)" using c by (rule handled_simps)
  moreover have "length (filter (\<lambda>x. x \<le> unat (pn s)) (pre @ [c])) = length (filter (\<lambda>x. x \<le> unat (pn s)) pre) + 1" using c by simp
  ultimately show ?thesis using f unfolding follows_def Let_def app b_def [symmetric] by simp
qed

lemma follows_above:
  assumes f: "follows room d pre (c # post) s lo i ds" and c: "unat (pn s) < c"
  shows "follows room d (pre @ [c]) post s lo i ds"
proof -
  define b where "b = filter (\<lambda>c. c < 128) (pre @ c # post)"
  have app: "filter (\<lambda>c. c < 128) ((pre @ [c]) @ post) = b" "length ((pre @ [c]) @ post) = length (pre @ c # post)"
    by (simp_all add: b_def)
  have "handled (unat (pn s)) (pre @ [c]) post = handled (unat (pn s)) pre (c # post)" using c by (rule handled_simps)
  moreover have "length (filter (\<lambda>x. x \<le> unat (pn s)) (pre @ [c])) = length (filter (\<lambda>x. x \<le> unat (pn s)) pre)" using c by simp
  ultimately show ?thesis using f unfolding follows_def Let_def app b_def [symmetric] by simp
qed

lemma decode_insert:
  assumes v: "v + i = (m - lo) * (length ts + 1) + pos" and lo: "lo \<le> m" and pos: "pos \<le> length ts"
  shows "rfc_decode_loop lo i bi ts (rfc_encode_integer bi 36 v @ rest) =
    rfc_decode_loop m (pos + 1) (rfc_adapt v (length ts + 1) (i = 0)) (take pos ts @ m # drop pos ts) rest"
proof -
  have ne: "rfc_encode_integer bi 36 v \<noteq> []" by (subst rfc_encode_integer.simps) (simp add: Let_def)
  have "(i + v) div (length ts + 1) = m - lo" "(i + v) mod (length ts + 1) = pos"
  proof -
    define k where "k = length ts + 1"
    have "i + v = (m - lo) * k + pos" "pos < k" using v pos by (simp_all add: k_def)
    then show "(i + v) div (length ts + 1) = m - lo" "(i + v) mod (length ts + 1) = pos"
      unfolding k_def [symmetric] by simp_all
  qed
  then show ?thesis
    using ne lo rfc_integer_encode [of bi 36 v rest]
    by (subst rfc_decode_loop.simps) (simp add: Let_def)
qed

lemma follows_at:
  assumes f: "follows room d pre (unat (pn s) # post) s lo i ds" and len: "length pre + length post < 2 ^ 32 - 1"
  shows "\<exists>lo' i' ds'. follows room d (pre @ [unat (pn s)]) post (puny_written room s) lo' i' ds'"
proof -
  define m where "m = unat (pn s)"
  define ts where "ts = handled m pre (m # post)"
  define pos where "pos = length (filter (\<lambda>c. c \<le> m) pre)"
  define v where "v = unat (pdelta s)"
  define b where "b = filter (\<lambda>c. c < 128) (pre @ m # post)"
  have app: "filter (\<lambda>c. c < 128) ((pre @ [m]) @ post) = b" "length ((pre @ [m]) @ post) = length (pre @ m # post)"
    by (simp_all add: b_def)
  note f' = f [unfolded follows_def Let_def m_def [symmetric] ts_def [symmetric] pos_def [symmetric] v_def [symmetric] b_def [symmetric]]
  have ts: "ts = filter (\<lambda>c. c \<le> m) pre @ filter (\<lambda>c. c < m) post" by (simp add: ts_def handled_simps)
  have lt: "length ts \<le> length pre + length post" using length_handled [of m pre post] by (simp add: ts handled_def)
  have fields: "unat (ph s) < 2 ^ 32 - 1" "ptodo s \<noteq> 0" using f' lt len by auto
  note w = puny_written_fields [OF fields, of room, folded v_def]
  have new: "handled m (pre @ [m]) post = take pos ts @ m # drop pos ts"
    by (simp add: handled_simps ts pos_def)
  have pos: "pos \<le> length ts" by (simp add: ts pos_def)
  have dec: "rfc_decode_loop 128 0 72 b ((ds @ rfc_encode_integer (unat (pbias s)) 36 v) @ rest) =
      rfc_decode_loop m (pos + 1) (unat (pbias (puny_written room s))) (take pos ts @ m # drop pos ts) rest" for rest
  proof -
    have "rfc_decode_loop 128 0 72 b ((ds @ rfc_encode_integer (unat (pbias s)) 36 v) @ rest) =
        rfc_decode_loop lo i (unat (pbias s)) ts (rfc_encode_integer (unat (pbias s)) 36 v @ rest)" using f' by simp
    also have "\<dots> = rfc_decode_loop m (pos + 1) (rfc_adapt v (length ts + 1) (i = 0)) (take pos ts @ m # drop pos ts) rest"
      by (rule decode_insert) (use f' pos in simp_all)
    finally show ?thesis using w(7) f' by simp
  qed
  have lens: "length (take pos ts @ m # drop pos ts) = length ts + 1" "length (filter (\<lambda>c. c \<le> m) (pre @ [m])) = pos + 1"
    using pos by (simp_all add: pos_def)
  have todo: "0 < unat (ptodo s)" using fields(2) by (simp add: unat_pos_iff)
  have "follows room d (pre @ [m]) post (puny_written room s) m (pos + 1) (ds @ rfc_encode_integer (unat (pbias s)) 36 v)"
    unfolding follows_def Let_def w(1) m_def [symmetric] new app lens
  proof (intro conjI)
    show "unat (ptodo (puny_written room s)) + (length ts + 1) = length (pre @ m # post)" using f' w(5) todo by linarith
    show "pout (puny_written room s) = writes room d (map puny_digit (ds @ rfc_encode_integer (unat (pbias s)) 36 v))"
      using f' w(6) by simp
    show "\<forall>x\<in>set (ds @ rfc_encode_integer (unat (pbias s)) 36 v). x < 36"
      using f' rfc_encode_integer_digits [of "unat (pbias s)" 36 v] by auto
    show "\<forall>rest. rfc_decode_loop 128 0 72 b ((ds @ rfc_encode_integer (unat (pbias s)) 36 v) @ rest) =
        rfc_decode_loop m (pos + 1) (unat (pbias (puny_written room s))) (take pos ts @ m # drop pos ts) rest"
      using dec by blast
  qed (use f' w(2-4) in simp_all)
  then show ?thesis unfolding m_def by blast
qed

lemma puny_each:
  assumes "follows room d pre post s lo i ds" and "\<forall>c\<in>set (pre @ post). is_scalar c"
    and "length pre + length post \<le> 3854" and "unat (pn s) < 0x110000"
  shows "\<exists>s' lo' i' ds'. each (puny_step room) post s = Inr s' \<and> pn s' = pn s \<and> follows room d (pre @ post) [] s' lo' i' ds'"
  using assms
proof (induction post arbitrary: pre s lo i ds)
  case (Cons c post)
  have c: "unat (word_of_nat c :: u32) = c" using Cons.prems(2) scalar_less [of c] by simp
  have rest: "\<forall>x\<in>set ((pre @ [c]) @ post). is_scalar x" "length (pre @ [c]) + length post \<le> 3854" using Cons.prems(2,3) by auto
  have goal: ?case
    if "puny_step room (word_of_nat c) s = Next s2" "pn s2 = pn s" "follows room d (pre @ [c]) post s2 lo2 i2 ds2" for s2 lo2 i2 ds2
    using Cons.IH [OF that(3) rest] Cons.prems(4) that(1,2) by simp
  consider "c < unat (pn s)" | "unat (pn s) < c" | "c = unat (pn s)" by linarith
  then show ?case
  proof cases
    case 1
    have small: "unat (pdelta s) + 1 < 2 ^ 32" by (rule follows_small [OF Cons.prems(1,3,4)])
    then have "unat (pdelta s + 1) \<noteq> 0" by (subst unat_word_ariths(1)) simp
    then have "pdelta s + 1 \<noteq> 0" by (simp add: unsigned_eq_0_iff)
    then show ?thesis
      using goal [OF puny_step_cases(1) _ follows_below [OF Cons.prems(1) 1 small]] 1 c by (simp add: word_less_nat_alt)
  next
    case 2
    then show ?thesis using goal [OF puny_step_cases(2) _ follows_above [OF Cons.prems(1) 2]] c by (simp add: word_less_nat_alt)
  next
    case 3
    have "length pre + length post < 2 ^ 32 - 1" using Cons.prems(3) by simp
    with follows_at [of room d pre s post lo i ds] Cons.prems(1) 3
    obtain lo' i' ds' where "follows room d (pre @ [c]) post (puny_written room s) lo' i' ds'" by blast
    moreover have "pn (puny_written room s) = pn s" by (simp add: puny_written_def Let_def split: prod.splits)
    moreover have "puny_step room (word_of_nat c) s = Next (puny_written room s)"
      using 3 by (intro puny_step_cases(3)) (simp add: word_eq_iff_unat)
    ultimately show ?thesis using goal by blast
  qed
qed auto

lemma smallest_each:
  assumes "\<forall>c\<in>set cs. is_scalar c"
  shows "\<exists>m'. each (smallest_step lo) cs m = Inr m' \<and> m' \<le> m \<and> (\<forall>c\<in>set cs. unat lo \<le> c \<longrightarrow> unat m' \<le> c) \<and>
    (m' = m \<or> unat m' \<in> set cs \<and> lo \<le> m')"
  using assms
proof (induction cs arbitrary: m)
  case (Cons c cs)
  have c: "unat (word_of_nat c :: u32) = c" using Cons.prems scalar_less [of c] by simp
  define m2 where "m2 = (if word_of_nat c \<ge> lo \<and> word_of_nat c < m then word_of_nat c else m)"
  have step: "each (smallest_step lo) (c # cs) m = each (smallest_step lo) cs m2"
    by (simp add: smallest_step_def m2_def)
  obtain m' where m': "each (smallest_step lo) cs m2 = Inr m'" "m' \<le> m2" "\<forall>c\<in>set cs. unat lo \<le> c \<longrightarrow> unat m' \<le> c"
    "m' = m2 \<or> unat m' \<in> set cs \<and> lo \<le> m'"
    using Cons.IH [of m2] Cons.prems by auto
  have m2: "m2 \<le> m" "unat lo \<le> c \<Longrightarrow> unat m2 \<le> c" "m2 = m \<or> unat m2 = c \<and> lo \<le> m2"
    using c by (auto simp: m2_def word_le_nat_alt word_less_nat_alt)
  have "m' \<le> m" using m'(2) m2(1) by (rule order_trans)
  moreover have "unat m' \<le> c" if "unat lo \<le> c" using m2(2) [OF that] m'(2) by (simp add: word_le_nat_alt)
  moreover have "m' = m \<or> unat m' \<in> set (c # cs) \<and> lo \<le> m'" using m'(4) m2(3) by auto
  ultimately show ?case using step m'(1,3) by auto
qed simp

text \<open>The next code point: the least one that is left.\<close>

lemma follows_next:
  assumes f: "follows room d [] cs s lo i ds" and sc: "\<forall>c\<in>set cs. is_scalar c" and len: "length cs \<le> 3854"
    and todo: "ptodo s > 0"
  shows "\<exists>m. each (smallest_step (pn s)) cs (- 1) = Inr m \<and> unat m \<in> set cs \<and>
    \<not> (m - pn s > (NOT (pdelta s)) div (ph s + 1)) \<and>
    follows room d [] cs (s\<lparr>pdelta := pdelta s + (m - pn s) * (ph s + 1), pn := m\<rparr>) lo i ds"
proof -
  let ?n = "unat (pn s)"
  define ts where "ts = handled ?n [] cs"
  note f' = f [unfolded follows_def Let_def ts_def [symmetric]]
  obtain m where m: "each (smallest_step (pn s)) cs (- 1) = Inr m" "\<forall>c\<in>set cs. ?n \<le> c \<longrightarrow> unat m \<le> c"
    "m = - 1 \<or> unat m \<in> set cs \<and> pn s \<le> m"
    using smallest_each [OF sc, of "pn s" "- 1"] by blast
  have "0 < unat (ptodo s)" using todo by (simp add: word_less_nat_alt)
  then have "length ts < length cs" using f' by simp
  then have "\<exists>c\<in>set cs. ?n \<le> c"
    by (metis handled_def append_self_conv2 filter.simps(1) filter_True linorder_not_le less_irrefl ts_def)
  then obtain c where c: "c \<in> set cs" "?n \<le> c" by blast
  have "unat m < 0x110000" using m(2) c sc scalar_less [of c] by fastforce
  then have "m \<noteq> - 1" using unat_max_32 by fastforce
  then have mem: "unat m \<in> set cs" and le: "?n \<le> unat m" using m(3) by (auto simp: word_le_nat_alt)
  have same: "handled (unat m) [] cs = ts"
    using m(2) le by (auto simp: handled_def ts_def intro!: filter_cong)
  define k where "k = length ts + 1"
  have k: "k \<le> 3854" using \<open>length ts < length cs\<close> len by (simp add: k_def)
  have y: "unat (ph s + 1) = k" using f' k by (subst unat_word_ariths(1)) (simp add: k_def)
  have x: "unat (m - pn s) = unat m - ?n" using le by (simp add: unat_sub word_le_nat_alt)
  have d: "unat (pdelta s) + i = (?n - lo) * k" using f' by (simp add: k_def)
  have "(unat m - ?n) * k + (unat (pdelta s) + i) = ((unat m - ?n) + (?n - lo)) * k" by (simp only: d add_mult_distrib)
  also have "(unat m - ?n) + (?n - lo) = unat m - lo" using le f' by simp
  finally have sum: "(unat m - ?n) * k + unat (pdelta s) + i = (unat m - lo) * k" by simp
  have "(unat m - lo) * k \<le> 0x110000 * 3854" using \<open>unat m < 0x110000\<close> k by (intro mult_mono) simp_all
  then have small: "(unat m - ?n) * k + unat (pdelta s) < 2 ^ 32" using sum by simp
  have xy: "unat ((m - pn s) * (ph s + 1)) = (unat m - ?n) * k"
    using small by (subst unat_word_ariths(2)) (simp add: x y)
  have new: "unat (pdelta s + (m - pn s) * (ph s + 1)) = unat (pdelta s) + (unat m - ?n) * k"
    using small by (subst unat_word_ariths(1)) (simp only: xy, simp)
  have not: "unat (NOT (pdelta s)) = 2 ^ 32 - 1 - unat (pdelta s)"
  proof -
    have "NOT (pdelta s) = - 1 - pdelta s" by (simp add: not_eq_complement)
    then show ?thesis using unat_sub [of "pdelta s" "- 1"] unat_max_32 by simp
  qed
  have "0 < k" by (simp add: k_def)
  then have "unat m - ?n \<le> (2 ^ 32 - 1 - unat (pdelta s)) div k"
    using small by (simp add: less_eq_div_iff_mult_less_eq)
  then have ok: "\<not> (m - pn s > (NOT (pdelta s)) div (ph s + 1))"
    by (simp add: word_less_nat_alt not_less unat_div x y not)
  have "follows room d [] cs (s\<lparr>pdelta := pdelta s + (m - pn s) * (ph s + 1), pn := m\<rparr>) lo i ds"
    using f' le sum \<open>unat m < 0x110000\<close> unfolding follows_def Let_def
    by (simp add: same new k_def)
  with m(1) mem ok show ?thesis by blast
qed

text \<open>The end of a round: \<open>delta++\<close> and \<open>n++\<close>.\<close>

lemma follows_round:
  assumes f: "follows room d cs [] s lo i ds" and small: "unat (pdelta s) + 1 < 2 ^ 32" "unat (pn s) < 0x110000"
  shows "follows room d [] cs (s\<lparr>pdelta := pdelta s + 1, pn := pn s + 1\<rparr>) lo i ds"
proof -
  let ?n = "unat (pn s)"
  have "unat (pdelta s + 1) = unat (pdelta s) + 1" using small by (subst unat_word_ariths(1)) simp
  moreover have n: "unat (pn s + 1) = ?n + 1" using small(2) by (subst unat_word_ariths(1)) simp
  moreover have h: "handled (?n + 1) [] cs = handled ?n cs []" by (simp add: handled_def less_Suc_eq_le)
  moreover have "length (filter (\<lambda>c. c \<le> ?n) cs) = length (handled ?n cs [])" by (simp add: handled_def)
  moreover have "lo \<le> ?n \<Longrightarrow> ?n + 1 - lo = (?n - lo) + 1" by simp
  ultimately show ?thesis using f small(2) unfolding follows_def Let_def by simp
qed

lemma puny_loop_follows:
  assumes "follows room d [] cs s lo i ds" and sc: "\<forall>c\<in>set cs. is_scalar c" and len: "length cs \<le> 3854"
    and range: "holds mem ss (utf8s cs)" "ss + length (utf8s cs) = se" "stops mem se"
  shows "\<exists>s' ds'. puny_loop mem ss se room s = Some (Inr s') \<and> pout s' = writes room d (map puny_digit ds') \<and>
    (\<forall>x\<in>set ds'. x < 36) \<and> rfc_decode_loop 128 0 72 (filter (\<lambda>c. c < 128) cs) ds' = Some cs"
  using assms(1)
proof (induction "unat (ptodo s)" arbitrary: s lo i ds rule: less_induct)
  case less
  note each = foreach_utf8 [OF sc range]
  show ?case
  proof (cases "ptodo s > 0")
    case False
    then have "ptodo s = 0" by (simp add: word_le_0_iff not_less)
    then have l: "length (handled (unat (pn s)) [] cs) = length cs" using less.prems by (simp add: follows_def Let_def)
    then have "handled (unat (pn s)) [] cs = cs" by (simp add: handled_def filter_id_conv) (metis length_filter_less less_irrefl)
    then have "rfc_decode_loop 128 0 72 (filter (\<lambda>c. c < 128) cs) (ds @ []) = rfc_decode_loop lo i (unat (pbias s)) cs []"
      using less.prems by (simp only: follows_def Let_def append_Nil)
    then have "rfc_decode_loop 128 0 72 (filter (\<lambda>c. c < 128) cs) ds = Some cs" by (simp add: rfc_decode_loop.simps [of lo])
    then show ?thesis using False less.prems by (auto simp: puny_loop.simps [of mem ss se room s] follows_def Let_def)
  next
    case True
    from follows_next [OF less.prems sc len True] obtain m where
      m: "each (smallest_step (pn s)) cs (- 1) = Inr m" "unat m \<in> set cs" "\<not> (m - pn s > (NOT (pdelta s)) div (ph s + 1))"
      and f1: "follows room d [] cs (s\<lparr>pdelta := pdelta s + (m - pn s) * (ph s + 1), pn := m\<rparr>) lo i ds" by blast
    let ?s1 = "s\<lparr>pdelta := pdelta s + (m - pn s) * (ph s + 1), pn := m\<rparr>"
    have m_less: "unat (pn ?s1) < 0x110000" using m(2) sc scalar_less by simp
    from puny_each [OF f1 _ _ m_less] sc len obtain s2 lo2 i2 ds2 where
      s2: "each (puny_step room) cs ?s1 = Inr s2" "pn s2 = m" "follows room d cs [] s2 lo2 i2 ds2" by auto
    have small: "unat (pdelta s2) + 1 < 2 ^ 32" by (rule follows_small [OF s2(3)]) (use len m_less s2(2) in simp_all)
    let ?s3 = "s2\<lparr>pdelta := pdelta s2 + 1, pn := pn s2 + 1\<rparr>"
    have f3: "follows room d [] cs ?s3 lo2 i2 ds2" by (rule follows_round [OF s2(3) small]) (use m_less s2(2) in simp)
    have "length (filter (\<lambda>c. c < unat m) cs) < length (filter (\<lambda>c. c \<le> unat m) cs)"
    proof -
      have "filter (\<lambda>c. c < unat m) cs = filter (\<lambda>c. c < unat m) (filter (\<lambda>c. c \<le> unat m) cs)" by (auto intro!: filter_cong)
      also have "length \<dots> < length (filter (\<lambda>c. c \<le> unat m) cs)" by (rule length_filter_less [of "unat m"]) (use m(2) in simp_all)
      finally show ?thesis .
    qed
    then have "length (handled (unat m) [] cs) < length (handled (unat m) cs [])" by (simp add: handled_def)
    moreover have "unat (ptodo s) + length (handled (unat m) [] cs) = length cs"
      using f1 by (simp add: follows_def Let_def)
    moreover have "unat (ptodo s2) + length (handled (unat m) cs []) = length cs"
      using s2(2,3) by (simp add: follows_def Let_def)
    ultimately have "unat (ptodo ?s3) < unat (ptodo s)" by simp
    from less.hyps [OF this f3] m s2(1) True show ?thesis
      by (simp add: puny_loop.simps [of mem ss se room s] each Let_def)
  qed
qed

section \<open>A label\<close>

text \<open>
  An ASCII label stays as it is; another one becomes \<open>xn--\<close> and a text that the decoder of RFC 3492
  takes back to the label.
\<close>

definition is_ace :: "nat list \<Rightarrow> byte list \<Rightarrow> bool" where
  "is_ace cs bs \<longleftrightarrow>
     (if \<forall>c\<in>set cs. c < 128 then bs = map word_of_nat cs
      else take 4 bs = [0x78, 0x6e, 0x2d, 0x2d] \<and> rfc_decode (drop 4 bs) = Some cs)"

lemma puny_digit_bytes:
  assumes "i < 36"
  shows "rfc_digit (puny_digit i) = Some i" "puny_digit i \<noteq> 0x2d"
proof -
  let ?l = "[97..<123] @ [48..<58]"
  have len: "length ?l = 36" by (simp only: length_append length_upt)
  have "puny_digit i = word_of_nat (?l ! i)"
    unfolding puny_digit_def alphabet36_def by (rule nth_map) (simp only: len assms)
  also have "?l ! i = (if i < 26 then 97 + i else 48 + (i - 26))"
    using assms by (simp only: nth_append length_upt nth_upt) (simp add: nth_upt del: upt_rec_numeral)
  finally have "unat (puny_digit i) = (if i < 26 then 97 + i else 48 + (i - 26))" using assms by simp
  then show "rfc_digit (puny_digit i) = Some i" "puny_digit i \<noteq> 0x2d"
    using assms by (auto simp: rfc_digit_def split: if_splits)
qed

lemma rfc_digits_chars: "\<forall>x\<in>set ds. x < 36 \<Longrightarrow> rfc_digits (map puny_digit ds) = Some ds"
  by (induction ds) (simp_all add: puny_digit_bytes)

lemma before_last_none: "x \<notin> set bs \<Longrightarrow> before_last x bs = []"
proof -
  assume "x \<notin> set bs"
  then have "dropWhile (\<lambda>c. c \<noteq> x) (rev bs) = []" by (auto simp: dropWhile_eq_Nil_conv)
  then show ?thesis unfolding before_last_def by (simp only: rev.simps butlast.simps)
qed

lemma before_last_some: "x \<notin> set bs \<Longrightarrow> before_last x (as @ x # bs) = as"
proof -
  assume "x \<notin> set bs"
  then have "dropWhile (\<lambda>c. c \<noteq> x) (rev bs @ x # rev as) = x # rev as" by (subst dropWhile_append2) auto
  then show ?thesis by (simp add: before_last_def)
qed

lemma rfc_decode_digits:
  assumes ds: "\<forall>x\<in>set ds. x < 36" and basic: "\<forall>c\<in>set basic. c < 128"
    and run: "rfc_decode_loop 128 0 72 basic ds = Some cs"
  shows "rfc_decode (map word_of_nat basic @ (if basic = [] then [] else [0x2d]) @ map puny_digit ds) = Some cs"
proof -
  have "0x2d \<notin> set (map puny_digit ds)" using ds puny_digit_bytes(2) by fastforce
  note none = before_last_none [OF this] and some = before_last_some [OF this]
  have "map unat (map word_of_nat basic :: byte list) = basic" using basic by (induction basic) simp_all
  moreover have "\<forall>c\<in>set (map word_of_nat basic :: byte list). unat c < 128" using basic by auto
  ultimately show ?thesis
    using run rfc_digits_chars [OF ds] by (cases "basic = []") (simp_all add: rfc_decode_def none some)
qed

lemma filter_other: "length (filter (\<lambda>c. \<not> P c) cs) + length (filter P cs) = length cs"
  by (induction cs) auto

lemma label_ace:
  assumes sc: "\<forall>c\<in>set cs. is_scalar c" and len: "length cs \<le> 3854"
    and range: "holds mem s (utf8s cs)" "s + length (utf8s cs) = se" "stops mem se"
  shows "\<exists>rc bs. uv__idna_toascii_label mem s se room d = Some (rc, writes room d bs) \<and> 0 \<le> rc \<and> is_ace cs bs"
proof -
  define basic where "basic = filter (\<lambda>c. c < 128) cs"
  define todo where "todo = length (filter (\<lambda>c. \<not> c < 128) cs)"
  note each = foreach_utf8 [OF sc range]
  have total: "todo + length basic = length cs" by (simp add: basic_def todo_def filter_other)
  then have small: "unat (word_of_nat todo :: u32) = todo" "unat (word_of_nat (length basic) :: u32) = length basic"
    using len by simp_all
  have count: "each count_step cs (0, 0) = Inr (word_of_nat (length basic), word_of_nat todo)"
    using count_each [OF sc, of 0 0] by (simp add: basic_def todo_def)
  have ascii: "\<exists>x. each (ascii_step room (word_of_nat (length basic))) cs (0, d) = Inr (x, writes room d (map word_of_nat basic))" for d
    unfolding basic_def by (rule ascii_each [OF sc]) (use total len in \<open>simp_all add: basic_def\<close>)
  show ?thesis
  proof (cases "todo = 0")
    case True
    then have "\<forall>c\<in>set cs. c < 128" by (auto simp: todo_def filter_empty_conv)
    then have "is_ace cs (map word_of_nat basic)" by (simp add: is_ace_def basic_def filter_id_conv)
    moreover obtain x where "each (ascii_step room (word_of_nat (length basic))) cs (0, d) = Inr (x, writes room d (map word_of_nat basic))"
      using ascii by blast
    moreover have "0 \<le> sint (word_of_nat (length basic) :: u32)"
      using total len by (simp add: signed_of_nat signed_take_bit_eq_if_positive bit_iff_odd)
    ultimately show ?thesis using True by (auto simp: uv__idna_toascii_label_def each count Let_def)
  next
    case False
    let ?d1 = "writes room d [0x78, 0x6e, 0x2d, 0x2d]"
    let ?sep = "if basic = [] then [] else [0x2d] :: byte list"
    define d2 where "d2 = writes room ?d1 (map word_of_nat basic @ ?sep)"
    obtain x where x: "each (ascii_step room (word_of_nat (length basic))) cs (0, ?d1) = Inr (x, writes room ?d1 (map word_of_nat basic))"
      using ascii by blast
    define st where "st = \<lparr>ph = word_of_nat (length basic), pn = 128, pbias = 72, pdelta = 0, ptodo = word_of_nat todo, pfirst = True, pout = d2\<rparr>"
    have "follows room d2 [] cs st 128 0 []"
      using total small by (simp add: follows_def st_def handled_def Let_def flip: basic_def)
    from puny_loop_follows [OF this sc len range] obtain s' ds where
      p: "puny_loop mem s se room st = Some (Inr s')" "pout s' = writes room d2 (map puny_digit ds)" "\<forall>x\<in>set ds. x < 36"
        "rfc_decode_loop 128 0 72 basic ds = Some cs" unfolding basic_def by blast
    let ?body = "map word_of_nat basic @ ?sep @ map puny_digit ds"
    have nz: "(word_of_nat todo :: u32) > 0" "(word_of_nat todo :: u32) \<noteq> 0"
      using False small(1) by (auto simp: word_less_nat_alt)
    have h0: "(0 :: u32) < word_of_nat (length basic) \<longleftrightarrow> basic \<noteq> []" using small(2) by (auto simp: word_less_nat_alt)
    have "uv__idna_toascii_label mem s se room d = Some (0, writes room d ([0x78, 0x6e, 0x2d, 0x2d] @ ?body))"
      using nz p(1,2) x
      by (cases "basic = []") (simp_all add: uv__idna_toascii_label_def each count emit_writes h0 st_def d2_def Let_def)
    moreover have "is_ace cs ([0x78, 0x6e, 0x2d, 0x2d] @ ?body)"
    proof -
      have "\<not> (\<forall>c\<in>set cs. c < 128)" using False by (auto simp: todo_def filter_empty_conv)
      moreover have "rfc_decode ?body = Some cs" by (rule rfc_decode_digits) (use p in \<open>simp_all add: basic_def\<close>)
      ultimately show ?thesis unfolding is_ace_def by (simp only: if_False) simp
    qed
    ultimately show ?thesis by fastforce
  qed
qed

section \<open>A host name\<close>

text \<open>The labels of a host name, with what precedes it in the first one.\<close>

definition separator :: "nat \<Rightarrow> bool" where
  "separator c \<longleftrightarrow> c \<in> {0x2e, 0x3002, 0xFF0E, 0xFF61}"

fun labels :: "nat list \<Rightarrow> nat list \<Rightarrow> nat list list" where
  "labels acc [] = [acc]"
| "labels acc (c # cs) = (if separator c then acc # labels [] cs else labels (acc @ [c]) cs)"

definition join_dots :: "byte list list \<Rightarrow> byte list" where
  "join_dots bss = concat (map (\<lambda>bs. bs @ [0x2e]) bss)"

lemma join_dots_append [simp]: "join_dots [] = []" "join_dots (bs # bss) = bs @ 0x2e # join_dots bss" "join_dots (bss @ css) = join_dots bss @ join_dots css"
  by (simp_all add: join_dots_def)

lemma labels_not_Nil: "labels acc cs \<noteq> []"
  by (induction acc cs rule: labels.induct) auto

lemma is_separator_scalar: "is_scalar c \<Longrightarrow> is_separator (word_of_nat c) \<longleftrightarrow> separator c"
proof -
  assume "is_scalar c"
  then have "unat (word_of_nat c :: u32) = c" using scalar_less [of c] by simp
  then show ?thesis by (simp add: is_separator_def separator_def word_eq_iff_unat)
qed

lemma holds_length: "holds mem p bs \<Longrightarrow> bs \<noteq> [] \<Longrightarrow> p + length bs \<le> length mem"
proof -
  assume h: "holds mem p bs" and ne: "bs \<noteq> []"
  have "length bs \<le> length (drop p mem)" using h unfolding holds_def by (metis length_take min.cobounded1)
  moreover have "0 < length bs" using ne by simp
  ultimately show ?thesis unfolding length_drop by linarith
qed

text \<open>Reading on over the end of a label does no harm if a code point is there.\<close>

lemma stops_byte: "p < length mem \<Longrightarrow> unat (mem ! p) < 0x80 \<Longrightarrow> stops mem p"
  by (simp add: stops_def decode1_ascii)

lemma stops_utf8:
  assumes "is_scalar c" and h: "holds mem p (utf8 c)"
  shows "stops mem p"
proof -
  have len: "p + length (utf8 c) \<le> length mem" using holds_length [OF h] by (simp add: utf8_def utf8_units_def)
  have "unat (mem ! p) = unat (take (length (utf8 c)) (drop p mem) ! 0)" using len by (simp add: utf8_length)
  also have "\<dots> = unat (utf8 c ! 0)" using h by (simp only: holds_def)
  also have "\<dots> = utf8_units c ! 0" by (rule nth_utf8 [OF assms(1)]) (simp add: utf8_length)
  finally have b: "unat (mem ! p) = utf8_units c ! 0" .
  show ?thesis
  proof (cases "c < 0x80")
    case True
    then show ?thesis using stops_byte [of p mem] b len by (simp add: utf8_length utf8_units_def)
  next
    case False
    have "c div 64 < 32 \<or> 0x800 \<le> c" "c div 4096 < 16 \<or> 0x10000 \<le> c" "c div 262144 < 8"
      using scalar_less [OF assms(1)] by auto
    then have "0xC0 \<le> unat (mem ! p)" "unat (mem ! p) < 0xF8"
      using False b by (auto simp: utf8_units_def split: if_splits)
    moreover have "p + 1 < length mem" using len False by (auto simp: utf8_length split: if_splits)
    ultimately show ?thesis
      by (simp add: stops_def uv__utf8_decode1_def uv__utf8_decode1_slow_def rd_def word_less_nat_alt Let_def)
  qed
qed

text \<open>The loop, over a part of the range.\<close>

lemma loop_labels:
  assumes "\<forall>c\<in>set (acc @ cs). is_scalar c" and "\<forall>l\<in>set (labels acc cs). length l \<le> 3854"
    and "holds mem s (utf8s acc)" "s + length (utf8s acc) = si" and "holds mem si (utf8s cs)" "si + length (utf8s cs) \<le> se"
  shows "\<exists>s' bss. toascii_loop mem se room si s d =
      toascii_loop mem se room (si + length (utf8s cs)) s' (writes room d (join_dots bss)) \<and>
    list_all2 is_ace (butlast (labels acc cs)) bss \<and> holds mem s' (utf8s (last (labels acc cs))) \<and>
    s' + length (utf8s (last (labels acc cs))) = si + length (utf8s cs)"
  using assms
proof (induction cs arbitrary: acc s si d)
  case Nil
  then show ?case by (intro exI [of _ s] exI [of _ "[]"]) simp
next
  case (Cons c cs)
  have c: "is_scalar c" using Cons.prems(1) by simp
  have here: "holds mem si (utf8 c)" "holds mem (si + length (utf8 c)) (utf8s cs)"
    using Cons.prems(5) by (simp_all add: holds_append)
  have read: "uv__utf8_decode1 mem si se = Some (word_of_nat c, si + length (utf8 c))"
    by (rule decode1_utf8 [OF c]) (use Cons.prems(6) here(1) in \<open>simp_all add: holds_def\<close>)
  have "0 < length (utf8 c)" by (simp add: utf8_length)
  then have lt: "si < se" using Cons.prems(6) unfolding utf8s_simps length_append by linarith
  have shift: "si + length (utf8 c) + length (utf8s cs) = si + length (utf8s (c # cs))" by simp
  show ?case
  proof (cases "separator c")
    case False
    have "holds mem s (utf8s (acc @ [c]))" "s + length (utf8s (acc @ [c])) = si + length (utf8 c)"
      using Cons.prems(3,4) here(1) by (simp_all add: holds_append)
    note Cons.IH [OF _ _ this here(2), of d]
    moreover have "toascii_loop mem se room si s d = toascii_loop mem se room (si + length (utf8 c)) s d"
      using lt read False is_separator_scalar [OF c] by (subst toascii_loop.simps) simp
    ultimately show ?thesis using Cons.prems(1,2,6) False by (simp add: shift)
  next
    case True
    have "\<exists>rc bs. uv__idna_toascii_label mem s si room d = Some (rc, writes room d bs) \<and> 0 \<le> rc \<and> is_ace acc bs"
      by (rule label_ace) (use Cons.prems(1-4) True stops_utf8 [OF c here(1)] in simp_all)
    then obtain rc bs where l: "uv__idna_toascii_label mem s si room d = Some (rc, writes room d bs)" "0 \<le> rc" "is_ace acc bs" by blast
    let ?si = "si + length (utf8 c)" and ?d = "writes room d (bs @ [0x2e])"
    have run: "toascii_loop mem se room si s d = toascii_loop mem se room ?si ?si ?d"
      using lt read True is_separator_scalar [OF c] l(1,2) by (subst toascii_loop.simps) (simp add: emit_writes)
    have "\<exists>s' bss. toascii_loop mem se room ?si ?si ?d =
        toascii_loop mem se room (?si + length (utf8s cs)) s' (writes room ?d (join_dots bss)) \<and>
      list_all2 is_ace (butlast (labels [] cs)) bss \<and> holds mem s' (utf8s (last (labels [] cs))) \<and>
      s' + length (utf8s (last (labels [] cs))) = ?si + length (utf8s cs)"
      by (rule Cons.IH) (use Cons.prems(1,2,6) True here in \<open>simp_all add: holds_def\<close>)
    then obtain s' bss where IH: "toascii_loop mem se room ?si ?si ?d =
        toascii_loop mem se room (?si + length (utf8s cs)) s' (writes room ?d (join_dots bss))"
      "list_all2 is_ace (butlast (labels [] cs)) bss" "holds mem s' (utf8s (last (labels [] cs)))"
      "s' + length (utf8s (last (labels [] cs))) = ?si + length (utf8s cs)" by blast
    show ?thesis
      using run IH l(3) True labels_not_Nil [of "[]" cs]
      by (intro exI [of _ s'] exI [of _ "bs # bss"]) (simp add: shift)
  qed
qed

text \<open>The whole host name, with the zero byte after it.\<close>

lemma toascii_host:
  assumes sc: "\<forall>c\<in>set cs. is_scalar c" and len: "\<forall>l\<in>set (labels [] cs). length l \<le> 3854"
  shows "\<exists>bss bs. uv__idna_toascii (utf8s cs @ 0 # junk) 0 (length (utf8s cs)) room = Some (Inr (writes room [] (join_dots bss @ bs @ [0]))) \<and>
    list_all2 is_ace (labels [] cs) (bss @ [bs])"
proof -
  let ?mem = "utf8s cs @ 0 # junk" and ?se = "length (utf8s cs)" and ?l = "last (labels [] cs)"
  have "\<exists>s' bss. toascii_loop ?mem ?se room 0 0 [] =
      toascii_loop ?mem ?se room (0 + length (utf8s cs)) s' (writes room [] (join_dots bss)) \<and>
    list_all2 is_ace (butlast (labels [] cs)) bss \<and> holds ?mem s' (utf8s ?l) \<and> s' + length (utf8s ?l) = 0 + length (utf8s cs)"
    by (rule loop_labels) (use sc len holds_0 in \<open>simp_all add: holds_def\<close>)
  then obtain s' bss where run: "toascii_loop ?mem ?se room 0 0 [] = toascii_loop ?mem ?se room ?se s' (writes room [] (join_dots bss))"
    and ace: "list_all2 is_ace (butlast (labels [] cs)) bss" and l: "holds ?mem s' (utf8s ?l)" "s' + length (utf8s ?l) = ?se"
    by (auto simp only: add_0)
  have loop: "toascii_loop ?mem ?se room 0 0 [] = Some (Inr (s', writes room [] (join_dots bss)))"
    unfolding run by (subst toascii_loop.simps) simp
  have split: "labels [] cs = butlast (labels [] cs) @ [?l]" by (simp add: labels_not_Nil)
  have scl: "\<forall>c\<in>set l. is_scalar c" if "l \<in> set (labels acc cs)" "\<forall>c\<in>set (acc @ cs). is_scalar c" for l acc
    using that by (induction acc cs rule: labels.induct) (auto split: if_splits)
  have last: "?l \<in> set (labels [] cs)" by (simp add: labels_not_Nil)
  show ?thesis
  proof (cases "s' < ?se")
    case True
    have "\<exists>rc bs. uv__idna_toascii_label ?mem s' ?se room (writes room [] (join_dots bss)) = Some (rc, writes room (writes room [] (join_dots bss)) bs) \<and>
        0 \<le> rc \<and> is_ace ?l bs"
      by (rule label_ace) (use scl [OF last] sc len last l stops_byte [of ?se ?mem] in simp_all)
    then obtain rc bs where "uv__idna_toascii_label ?mem s' ?se room (writes room [] (join_dots bss)) =
        Some (rc, writes room [] (join_dots bss @ bs))" "0 \<le> rc" "is_ace ?l bs" by auto
    moreover from this(3) have "list_all2 is_ace (labels [] cs) (bss @ [bs])" using ace split by (metis list_all2_appendI list_all2_Cons list_all2_Nil)
    ultimately show ?thesis using loop True by (intro exI [of _ bss] exI [of _ bs]) (simp add: uv__idna_toascii_def emit_writes)
  next
    case False
    then have "utf8s ?l = []" using l(2) by (cases "utf8s ?l") simp_all
    then have "?l = []" by (cases ?l) (auto simp: utf8_def utf8_units_def split: if_splits)
    then have "is_ace ?l []" by (simp add: is_ace_def)
    then have "list_all2 is_ace (labels [] cs) (bss @ [[]])" using ace split by (metis list_all2_appendI list_all2_Cons list_all2_Nil)
    then show ?thesis using loop False by (intro exI [of _ bss] exI [of _ "[]"]) (simp add: uv__idna_toascii_def emit_writes)
  qed
qed

section \<open>The caller\<close>

text \<open>
  What \<open>uv_getaddrinfo\<close> does with a host name first: the name is converted into the array
  \<open>hostname_ascii\<close>, whose contents were \<open>stack\<close>, and the length of the result is taken. \<open>strlen\<close>
  has no result on an object without a zero byte.
\<close>

primrec strlen :: "byte list \<Rightarrow> nat option" where
  "strlen [] = None"
| "strlen (b # bs) = (if b = 0 then Some 0 else map_option Suc (strlen bs))"

definition getaddrinfo_hostname :: "byte list \<Rightarrow> byte list \<Rightarrow> (int + nat) option" where
  "getaddrinfo_hostname hostname stack =
     (case strlen hostname of
        None \<Rightarrow> None
      | Some sz \<Rightarrow>
          (case uv__idna_toascii hostname 0 sz (length stack) of
             None \<Rightarrow> None
           | Some (Inl rc) \<Rightarrow> Some (Inl rc)
           | Some (Inr d) \<Rightarrow>
               (case strlen (d @ drop (length d) stack) of
                  None \<Rightarrow> None
                | Some sz \<Rightarrow> Some (Inr (sz + 1)))))"

lemma strlen_some: "0 \<notin> set bs \<Longrightarrow> strlen (bs @ 0 # cs) = Some (length bs)"
  by (induction bs) auto

lemma strlen_none: "0 \<notin> set bs \<Longrightarrow> strlen bs = None"
  by (induction bs) auto

text \<open>A name in ASCII is copied.\<close>

lemma labels_small: "l \<in> set (labels acc cs) \<Longrightarrow> length l \<le> length acc + length cs"
  by (induction acc cs rule: labels.induct) (fastforce split: if_splits)+

lemma ascii_copied:
  assumes "list_all2 is_ace (labels acc cs) (bss @ [bs])" and "\<forall>c\<in>set (acc @ cs). c < 128"
  shows "join_dots bss @ bs = map word_of_nat (acc @ cs)"
  using assms
proof (induction acc cs arbitrary: bss rule: labels.induct)
  case (1 acc)
  then show ?case by (cases bss) (auto simp: is_ace_def)
next
  case (2 acc c cs)
  show ?case
  proof (cases "separator c")
    case False
    then show ?thesis using 2 by simp
  next
    case True
    then have c: "c = 0x2e" using 2(4) by (auto simp: separator_def)
    obtain b bss' where b: "bss = b # bss'" "is_ace acc b" "list_all2 is_ace (labels [] cs) (bss' @ [bs])"
      using 2(3) True labels_not_Nil [of "[]" cs] by (cases bss) auto
    have "join_dots bss' @ bs = map word_of_nat cs" using 2(1) [OF True b(3)] 2(4) by simp
    moreover have "b = map word_of_nat acc" using b(2) 2(4) by (simp add: is_ace_def)
    ultimately show ?thesis using b(1) c by simp
  qed
qed

lemma utf8s_ascii: "\<forall>b\<in>set bs. unat b < 128 \<Longrightarrow> utf8s (map unat bs) = bs"
  by (induction bs) (simp_all add: utf8_def utf8_units_def word_eq_iff_unat)

lemma toascii_ascii:
  assumes ascii: "\<forall>b\<in>set bs. unat b < 128" and len: "length bs \<le> 3854"
  shows "uv__idna_toascii (bs @ 0 # junk) 0 (length bs) room = Some (Inr (take room (bs @ [0])))"
proof -
  have sc: "\<forall>c\<in>set (map unat bs). is_scalar c" using ascii by (auto simp: is_scalar_def)
  moreover have small: "\<forall>l\<in>set (labels [] (map unat bs)). length l \<le> 3854" using labels_small len by fastforce
  ultimately obtain bss b where
    r: "uv__idna_toascii (bs @ 0 # junk) 0 (length bs) room = Some (Inr (writes room [] (join_dots bss @ b @ [0])))"
    and ace: "list_all2 is_ace (labels [] (map unat bs)) (bss @ [b])"
    using toascii_host [OF sc small, of junk room] by (auto simp: utf8s_ascii [OF ascii])
  have "join_dots bss @ b = map word_of_nat (map unat bs)" using ascii_copied [OF ace] ascii by simp
  also have "\<dots> = bs" by (simp add: map_idI)
  finally have "join_dots bss @ b @ [0] = bs @ [0]" by simp
  then show ?thesis using r unfolding writes_def by (simp only: append_Nil list.size diff_zero)
qed

section \<open>Properties of host names\<close>

text \<open>C36 (uv__utf8_decode1_type): whatever the bytes, what is read is either the error value or a Unicode
  scalar value, and in the second case the bytes that are consumed are as many as the
  UTF-8 encoding of that value has. So no surrogate, nothing above U+10FFFF and no overlong form
  of any length comes out of the decoder; in any case one to four bytes are consumed.\<close>

theorem uv__utf8_decode1_type:
  assumes "uv__utf8_decode1 mem p pe = Some (c, p')"
  shows "(c = - 1 \<or> is_scalar (unat c) \<and> p' = p + length (utf8 (unat c))) \<and> p < p' \<and> p' \<le> p + 4"
proof -
  define good where "good n c \<longleftrightarrow> c = - 1 \<or> is_scalar (unat c) \<and> length (utf8 (unat c)) = n" for n and c :: u32
  have tail: "good n (decode_tail lo a b c d)"
    if "unat a < 8" "lo = 0x10000 \<or> lo = 0x800 \<or> lo = 0x80"
      "lo \<noteq> 0x10000 \<Longrightarrow> unat a = 0 \<and> unat b mod 64 < 16" "lo = 0x80 \<Longrightarrow> unat b mod 64 = 0 \<and> unat c mod 64 < 32"
      "n = (if lo = 0x10000 then 4 else if lo = 0x800 then 3 else 2)" for lo a b c d n
  proof -
    define v where "v = unat a * 262144 + (unat b mod 64) * 4096 + (unat c mod 64) * 64 + unat d mod 64"
    have bound: "x * 4096 + y * 64 + z < (i - 1) * 4096 + j * 64" if "x < i" "y < j" "z < 64" for x y z i j :: nat
    proof -
      have "x * 4096 \<le> (i - 1) * 4096" "y * 64 + 64 \<le> j * 64" using that by simp_all
      then show ?thesis using that(3) by linarith
    qed
    have "is_scalar v \<Longrightarrow> unat (word_of_nat v :: u32) = v" using scalar_less [of v] by simp
    moreover have "length (utf8 v) = n" if "unat lo \<le> v"
      using that \<open>lo = 0x10000 \<or> lo = 0x800 \<or> lo = 0x80\<close>
    proof (elim disjE)
      assume "lo = 0x10000"
      then show ?thesis using \<open>unat lo \<le> v\<close> \<open>n = _\<close> by (simp add: utf8_length)
    next
      assume lo: "lo = 0x800"
      then have "v < 0x10000" using \<open>lo \<noteq> 0x10000 \<Longrightarrow> _\<close> bound [of "unat b mod 64" 16 "unat c mod 64" 64 "unat d mod 64"] unfolding v_def by simp
      then show ?thesis using lo \<open>unat lo \<le> v\<close> \<open>n = _\<close> by (simp add: utf8_length)
    next
      assume lo: "lo = 0x80"
      then have "v < 0x800" using \<open>lo \<noteq> 0x10000 \<Longrightarrow> _\<close> \<open>lo = 0x80 \<Longrightarrow> _\<close> bound [of "unat b mod 64" 1 "unat c mod 64" 32 "unat d mod 64"]
        unfolding v_def by simp
      then show ?thesis using lo \<open>unat lo \<le> v\<close> \<open>n = _\<close> by (simp add: utf8_length)
    qed
    ultimately show ?thesis using decode_tail_eq [OF that(1), of lo b c d] by (auto simp: Let_def v_def good_def)
  qed
  have low: "(128 + x) mod 64 = x" if "x < 64" for x :: nat using top128(3) [OF that] .
  have tails: "good 4 (decode_tail 0x10000 (a AND 7) b c d)" "good 3 (decode_tail 0x800 0 (0x80 OR (a AND 15)) c d)"
    "good 2 (decode_tail 0x80 0 0x80 (0x80 OR (a AND 31)) d)" for a b c d
    by (rule tail; simp add: unat_low or_80 low)+
  have ascii: "a < 128 \<Longrightarrow> good (Suc 0) a" "good n (- 1)" for a n
    by (simp_all add: good_def is_scalar_def word_less_nat_alt utf8_length)
  have "good (p' - p) c \<and> p < p' \<and> p' \<le> p + 4"
    using assms
    by (auto simp: uv__utf8_decode1_def uv__utf8_decode1_slow_def Let_def tails ascii split: if_splits bind_splits)
  then show ?thesis by (auto simp: good_def)
qed

text \<open>The overlong forms of U+0000 of two and of four bytes are not decoded.\<close>

theorem uv__utf8_decode1_type_witness:
  "uv__utf8_decode1 [0xC3, 0xBC] 0 2 = Some (0xFC, 2) \<and> is_scalar 0xFC \<and> length (utf8 0xFC) = 2 \<and>
   uv__utf8_decode1 [0xF0, 0x80, 0x80, 0x80, 0] 0 4 = Some (- 1, 4)"
proof -
  have r: "uv__utf8_decode1 [0xC3, 0xBC] 0 2 = Some (0xFC, 2)" by code_simp
  have "uv__utf8_decode1 [0xF0, 0x80, 0x80, 0x80, 0] 0 4 = Some (- 1, 4)" by code_simp
  then show ?thesis using uv__utf8_decode1_type [OF r] r by simp
qed

text \<open>C8 (uv__idna_toascii_correct): a host name in well-formed UTF-8 is converted label by label: an ASCII label
  is copied, and any other label becomes \<open>xn--\<close> and a text that the decoder of RFC 3492 takes back
  to exactly the code points of the label. Every one of the four full stops separates labels and is
  written as a dot; what does not fit into the output is dropped. The conversion ends, reads
  nothing outside the string and its terminator, and gives no error.\<close>

theorem uv__idna_toascii_correct:
  assumes "\<forall>c\<in>set cs. is_scalar c" and "\<forall>l\<in>set (labels [] cs). length l \<le> 3854"
  shows "\<exists>bss bs. list_all2 is_ace (labels [] cs) (bss @ [bs]) \<and>
    uv__idna_toascii (utf8s cs @ 0 # junk) 0 (length (utf8s cs)) room = Some (Inr (take room (join_dots bss @ bs @ [0])))"
  using toascii_host [OF assms, of junk room] by (auto simp: writes_def)

theorem uv__idna_toascii_correct_witness:
  "\<exists>b1 b2. is_ace [98, 252] b1 \<and> is_ace [97] b2 \<and>
    uv__idna_toascii (utf8s [98, 252, 0x3002, 97] @ [0]) 0 7 256 = Some (Inr (take 256 (b1 @ 0x2e # b2 @ [0])))"
proof -
  have l: "labels [] [98, 252, 0x3002, 97] = [[98, 252], [97]]" by (simp add: separator_def)
  have n: "length (utf8s [98, 252, 0x3002, 97]) = 7" by (simp add: utf8_length)
  have "\<exists>bss bs. list_all2 is_ace [[98, 252], [97]] (bss @ [bs]) \<and>
    uv__idna_toascii (utf8s [98, 252, 0x3002, 97] @ [0]) 0 7 256 = Some (Inr (take 256 (join_dots bss @ bs @ [0])))"
    using uv__idna_toascii_correct [of "[98, 252, 0x3002, 97]" "[]" 256] unfolding l n by (simp add: is_scalar_def)
  then obtain bss bs where b: "list_all2 is_ace [[98, 252], [97]] (bss @ [bs])"
    "uv__idna_toascii (utf8s [98, 252, 0x3002, 97] @ [0]) 0 7 256 = Some (Inr (take 256 (join_dots bss @ bs @ [0])))" by blast
  from b(1) obtain b1 where "bss = [b1]" "is_ace [98, 252] b1" "is_ace [97] bs"
    by (auto simp: list_all2_Cons1 append_eq_Cons_conv)
  then show ?thesis using b(2) by auto
qed

text \<open>The decoder only looks at the exclusive or of the top bits of the
  continuation bytes. After a three-byte lead any two bytes with equal top bits are taken as a
  code point, for instance two dots.\<close>

theorem utf8_malformed_accepted:
  assumes "p + 2 < length mem" and "p < pe" and "0xE1 \<le> unat (mem ! p)" and "unat (mem ! p) \<le> 0xEC"
    and "unat (mem ! (p + 1)) div 64 = unat (mem ! (p + 2)) div 64"
  shows "uv__utf8_decode1 mem p pe =
    Some (word_of_nat ((unat (mem ! p) - 0xE0) * 4096 + unat (mem ! (p + 1)) mod 64 * 64 + unat (mem ! (p + 2)) mod 64), p + 3)"
proof -
  define a b c where "a = unat (mem ! p) - 0xE0" and "b = unat (mem ! (p + 1))" and "c = unat (mem ! (p + 2))"
  have a: "unat (mem ! p) = 0xE0 + a" "1 \<le> a" "a \<le> 12" using assms(3,4) by (simp_all add: a_def)
  have eq: "b div 64 = c div 64" using assms(5) by (simp add: b_def c_def)
  then have "b div 64 div 2 = c div 64 div 2" by simp
  then have eq2: "b div 128 = c div 128" by (simp flip: div_mult2_eq)
  have ok: "tops_ok 0x80 b c" unfolding tops_ok_def eq eq2 by simp
  have m: "b mod 64 < 64" "c mod 64 < 64" by simp_all
  have "a * 4096 \<le> 12 * 4096" "4096 \<le> a * 4096" using a by simp_all
  then have "0x800 \<le> a * 4096 + b mod 64 * 64 + c mod 64" "is_scalar (a * 4096 + b mod 64 * 64 + c mod 64)"
    using m unfolding is_scalar_def by linarith+
  then show ?thesis
    using decode1_form3 [OF assms(1,2) a(1) _ b_def [symmetric] c_def [symmetric]] a(3) ok
    unfolding decoded_def a_def [symmetric] b_def [symmetric] c_def [symmetric] by simp
qed

theorem utf8_malformed_accepted_witness:
  "uv__utf8_decode1 [0xE1, 0x2E, 0x2E, 0] 0 3 = Some (0x1BAE, 3)"
  using utf8_malformed_accepted [of 0 "[0xE1, 0x2E, 0x2E, 0]" 3] by simp

text \<open>C37 (idna_truncated_overread): a host name that ends in a lone lead byte of a three-byte or four-byte
  sequence, after any well-formed text, is read past its terminator: the conversion takes the
  terminator for a continuation byte and goes on to the bytes behind it, where the model, whose
  object ends with the terminator, gives \<open>None\<close>.\<close>

theorem idna_truncated_overread:
  assumes "\<forall>c\<in>set cs. is_scalar c" and "\<forall>l\<in>set (labels [] cs). length l \<le> 3854"
    and "0xE0 \<le> unat b" and "unat b \<le> 0xF7"
  shows "uv__idna_toascii (utf8s cs @ [b, 0]) 0 (length (utf8s cs) + 1) room = None"
proof -
  let ?mem = "utf8s cs @ [b, 0]" and ?se = "length (utf8s cs) + 1"
  have "uv__utf8_decode1 ?mem (length (utf8s cs)) ?se = None"
    using assms(3,4)
    by (auto simp: uv__utf8_decode1_def uv__utf8_decode1_slow_def rd_def nth_append word_less_nat_alt Let_def)
  then have "toascii_loop ?mem ?se room (length (utf8s cs)) s d = None" for s d
    by (subst toascii_loop.simps) simp
  moreover obtain s' bss where "toascii_loop ?mem ?se room 0 0 [] =
      toascii_loop ?mem ?se room (0 + length (utf8s cs)) s' (writes room [] (join_dots bss))"
    using loop_labels [of "[]" cs ?mem 0 0 ?se room "[]"] assms(1,2) holds_0 [of "utf8s cs" "[b, 0]"] by (auto simp: holds_def)
  ultimately show ?thesis by (simp add: uv__idna_toascii_def)
qed

theorem idna_truncated_overread_witness:
  "uv__idna_toascii (utf8s [97] @ [0xF0, 0]) 0 (length (utf8s [97]) + 1) 256 = None"
  using idna_truncated_overread [of "[97]" "0xF0" 256] by (simp add: is_scalar_def)

text \<open>C38 (getaddrinfo_hostname_ascii): a host name in ASCII of up to 255 bytes goes through with its length,
  but one of 256 bytes or more fills the array without a terminator, and \<open>uv_getaddrinfo\<close> takes the
  length of an object that has none.\<close>

theorem getaddrinfo_hostname_ascii:
  assumes "\<forall>b\<in>set bs. b \<noteq> 0 \<and> unat b < 128" and "length bs \<le> 3854" and "length stack = 256"
  shows "getaddrinfo_hostname (bs @ [0]) stack = (if length bs < 256 then Some (Inr (length bs + 1)) else None)"
proof -
  have nz: "0 \<notin> set bs" using assms(1) by auto
  have d: "uv__idna_toascii (bs @ [0]) 0 (length bs) 256 = Some (Inr (take 256 (bs @ [0])))"
    using toascii_ascii [of bs "[]" 256] assms(1,2) by simp
  show ?thesis
  proof (cases "length bs < 256")
    case True
    then have "take 256 (bs @ [0]) = bs @ [0]" by simp
    then show ?thesis using True d assms(3) strlen_some [OF nz] by (simp add: getaddrinfo_hostname_def)
  next
    case False
    then have t: "take 256 (bs @ [0]) = take 256 bs" by simp
    have "0 \<notin> set (take 256 bs)" using nz by (meson in_set_takeD)
    moreover have "drop (length (take 256 bs)) stack = []" using False assms(3) by simp
    ultimately show ?thesis using False d t assms(3) strlen_some [OF nz] by (simp add: getaddrinfo_hostname_def strlen_none)
  qed
qed

theorem getaddrinfo_hostname_ascii_witness:
  "getaddrinfo_hostname (replicate 256 0x61 @ [0]) (replicate 256 0) = None \<and>
   getaddrinfo_hostname (replicate 255 0x61 @ [0]) (replicate 256 0) = Some (Inr 256)"
  using getaddrinfo_hostname_ascii [of "replicate 256 0x61" "replicate 256 0"]
    getaddrinfo_hostname_ascii [of "replicate 255 0x61" "replicate 256 0"] by simp

end
