(* ===== verification/Spec2Isabelle.thy ===== *)
theory Spec2Isabelle
  imports Prelude Constant_Time Crypto_Mem DER CBS CBB OID Base64 Unicode BER PB_Encode PB_Decode PB_Common PB_Memory PB_Message PB_Wire PB_Message_Decode PB_Decode_Safe UV_Heap UV_Timer UV_Errno UV_Inet Punycode UV_Idna
begin

text \<open>
  A verification library for the C code that the iOS build of this application links. The
  application itself is a Flutter program in Dart; its C code comes with the CocoaPods under
  \<open>src/ios/Pods\<close>. The library models the parts that take untrusted bytes apart and put them
  together, where a wrong bound or a wrong length is a security problem:

  \<^item> BoringSSL (\<open>BoringSSL-GRPC/src/crypto\<close>): \<open>bytestring/cbs.c\<close>, \<open>cbb.c\<close>, \<open>ber.c\<close> and \<open>unicode.c\<close>,
    \<open>base64/base64.c\<close>, \<open>mem.c\<close> and the helpers of \<open>internal.h\<close> that they use;
  \<^item> libuv (\<open>Libuv-gRPC/src\<close>): \<open>heap-inl.h\<close> and \<open>timer.c\<close>, the timers of its event
    loop; \<open>inet.c\<close>, \<open>strscpy.c\<close> and the address functions of \<open>uv-common.c\<close>; \<open>idna.c\<close>, the
    conversion of international host names;
  \<^item> nanopb (\<open>nanopb/pb_encode.c\<close>, \<open>pb_decode.c\<close>, \<open>pb_common.c\<close>), the protocol buffer library that
    Firebase uses.

  Theories, in the order of the imports.

  \<^item> \<open>Prelude\<close>: machine words at their width, and \<open>op\<close>, the type of a C function that returns 0 or
    1 and changes an object through a pointer: \<open>'s \<Rightarrow> 'a option \<times> 's\<close>. \<open>andthen\<close> is
    \<open>if (!f(..)) return 0;\<close>. The state after a failure is part of the result; the value of an out
    parameter after a failure is not modelled.
  \<^item> \<open>Constant_Time\<close>, \<open>Crypto_Mem\<close>: the branch-free comparisons and selections of \<open>internal.h\<close>, and the
    string and memory helpers of \<open>mem.c\<close>, with what they compute.
  \<^item> \<open>DER\<close>: the reference encodings of tags, lengths, base-128 numbers, integers and object
    identifiers that the parsers and the builders are compared with. It models no code.
  \<^item> \<open>CBS\<close>: every function of \<open>cbs.c\<close>. A \<open>CBS\<close> is the list of the bytes of its window. The lemmas
    show which inputs every parser accepts, that DER lengths and integers must be minimal, and
    what is left of the input; the locale \<open>reader\<close> is the contract of a parser that takes a prefix.
  \<^item> \<open>CBB\<close>: every function of \<open>cbb.c\<close>. A \<open>CBB\<close> is its buffer and the chain of the pending children,
    outermost first; a function on the child at depth \<open>d\<close> takes \<open>d\<close>. The allocator is a parameter
    that says which sizes can be allocated. Flushing writes the length prefixes; the buffer before
    the child never changes; a length that does not fit its prefix is an error, and errors are final
    (for the calls listed in \<open>addition\<close>; three calls that differ are named there).
  \<^item> \<open>OID\<close>: object identifiers as text, from \<open>CBS\<close> to \<open>CBB\<close> and back.
  \<^item> \<open>Base64\<close>: block and streaming encoder and decoder, compared with RFC 4648.
  \<^item> \<open>Unicode\<close>: UTF-8, Latin-1, UCS-2 and UTF-32 readers and writers.
  \<^item> \<open>BER\<close>: conversion of BER to DER, compared with an inductive relation between the element
    structure of the input and the output.
  \<^item> \<open>PB_Encode\<close>: output streams of nanopb (sizing, buffer, callback) and all writers of the wire
    format. The locale \<open>encoder\<close> says that an operation stands for a sequence of bytes whatever the
    stream does with it, \<open>writer\<close> that an operation never leaves the stream's buffer.
  \<^item> \<open>PB_Decode\<close>: input streams, all readers of the wire format, skipping, substreams, allocation
    sizes. The locale \<open>decoder\<close> is the left inverse of \<open>encoder\<close>, \<open>consumer\<close> the bound on what is read.
  \<^item> \<open>PB_Common\<close>: the field iterator.
  \<^item> \<open>PB_Memory\<close>: memory as a partial map from addresses to bytes, and operations that are undefined
    when they leave it (\<open>mop\<close>). The message level below works on it.
  \<^item> \<open>PB_Message\<close>: \<open>pb_encode\<close> with its field, array, callback and extension encoders, reading the
    structure through the descriptors. \<open>PB_Wire\<close> says which records a structure stands for
    (\<open>message_records\<close>), without streams and sizes, and shows that the encoder writes them; the locale
    \<open>sub_encoder\<close> is what a field needs of the encoder of submessages.
  \<^item> \<open>PB_Message_Decode\<close>: \<open>pb_decode\<close> with static, pointer and callback fields, extensions, default values
    and \<open>pb_release\<close>, on a state with the memory and the blocks of the heap. \<open>PB_Decode_Safe\<close> shows that
    messages of static fields are decoded inside their structure and inside the buffer they are read
    from, whatever the input is; the locale \<open>sub_decoder\<close> is what a field needs of the decoders of
    submessages.
  \<^item> \<open>UV_Heap\<close>: the pointer heap of libuv, in a store from addresses to nodes with every update of a
    pointer written out. A heap stands for a set (\<open>heap_of\<close>): some complete, ordered tree is in the store.
    The locale \<open>node_order\<close> is what the heap needs of the comparison; \<open>UV_Timer\<close> provides it.
  \<^item> \<open>UV_Timer\<close>: the timers. \<open>loop_inv\<close> says that the heap holds exactly the active timers. A callback is
    a script of calls of the timer interface (\<open>timer_call\<close>), which may depend on the callback, its timer and
    the loop; \<open>valid_script\<close> is the rule of use for handles. The step relation \<open>loop_step\<close> has every
    call, every change of the clock and every run of the due timers with such callbacks.
  \<^item> \<open>UV_Errno\<close>, \<open>UV_Inet\<close>: error codes; IP addresses as text, printed and parsed.
  \<^item> \<open>Punycode\<close>: the decoder of RFC 3492, the reference for the encoder of libuv. It models no code.
  \<^item> \<open>UV_Idna\<close>: the UTF-8 decoder and the conversion of host names. \<open>follows\<close> is the invariant of the
    encoder: what it has written takes the reference decoder to the code points handled so far.

  Every function that loops is defined with a measure and is total, except \<open>find_loop\<close> of
  \<open>PB_Common\<close>, \<open>walk_up\<close> and \<open>walk_down\<close> of \<open>UV_Heap\<close>, \<open>uv__run_timers\<close> of \<open>UV_Timer\<close>, \<open>puny_loop\<close> of
  \<open>UV_Idna\<close> and the loops of \<open>PB_Message_Decode\<close>, which are partial functions whose termination is a
  property. The message level of nanopb recurses through the submessages of a message: \<open>pb_encode\<close>
  and \<open>pb_decode\<close> take a \<open>depth\<close>, and the properties hold for every depth to which the descriptors
  are laid out (\<open>message_records\<close>, \<open>static_layout\<close>), so it is never exhausted. The nesting of
  \<open>cbs_find_ber\<close> and \<open>cbs_convert_ber\<close> is bounded by \<open>kMaxDepth\<close> as in the code.

  Bounds. \<open>size_t\<close> has 64 bits. Buffers in memory are lists, so a length can exceed 64 bits in the
  model; where this matters the properties assume that it does not. Labels of host names have at
  most 3854 code points, for which the counter of the encoder cannot overflow (a host name on the
  wire has at most 253 bytes).

  Not modelled. Object lifetimes, pointer identity and aliasing of buffers with out parameters;
  \<open>OPENSSL_free\<close>, locks and reference counts. Of nanopb, what the user's callbacks and the allocator
  do: they are parameters. Of libuv, what polls, blocks or calls the system. The rest of
  BoringSSL (ciphers, curves, X.509, TLS), gRPC,
  LevelDB, abseil and the Firebase and Facebook SDKs are C++, Objective-C, assembly, generated or
  bound to the operating system, and are not modelled.
\<close>

end
